(* ===== verification/Prelude.thy ===== *)
theory Prelude
  imports Main "HOL-Library.Word" "HOL-Library.Monad_Syntax"
begin

unbundle bit_operations_syntax

text \<open>
  Shared vocabulary of the development: the integer types of \<^verbatim>\<open>include/rtdef.h\<close>
  at their widths, the error codes, the rule collections the component theories fill, and
  the generic lemmas on lists, options and words that several components use.

  A kernel routine that may hit a failing \<^verbatim>\<open>RT_ASSERT\<close> returns an
  \<open>option\<close>. \<open>None\<close> stands for a call that never comes back:
  \<^verbatim>\<open>rt_assert_handler\<close> (\<^verbatim>\<open>src/kservice.c\<close>) prints a message
  and spins in \<^verbatim>\<open>while (dummy == 0);\<close>.
\<close>

section \<open>Integer types and error codes of rtdef.h\<close>

type_synonym u8 = "8 word"
type_synonym u16 = "16 word"
type_synonym u32 = "32 word"

type_synonym rt_err = int

abbreviation RT_EOK :: rt_err where "RT_EOK \<equiv> 0"
abbreviation RT_ERROR :: rt_err where "RT_ERROR \<equiv> 1"
abbreviation RT_ETIMEOUT :: rt_err where "RT_ETIMEOUT \<equiv> 2"
abbreviation RT_EFULL :: rt_err where "RT_EFULL \<equiv> 3"
abbreviation RT_EEMPTY :: rt_err where "RT_EEMPTY \<equiv> 4"
abbreviation RT_ENOMEM :: rt_err where "RT_ENOMEM \<equiv> 5"
abbreviation RT_ENOSYS :: rt_err where "RT_ENOSYS \<equiv> 6"
abbreviation RT_EBUSY :: rt_err where "RT_EBUSY \<equiv> 7"
abbreviation RT_EIO :: rt_err where "RT_EIO \<equiv> 8"
abbreviation RT_EINTR :: rt_err where "RT_EINTR \<equiv> 9"
abbreviation RT_EINVAL :: rt_err where "RT_EINVAL \<equiv> 10"

abbreviation RT_TICK_MAX :: u32 where "RT_TICK_MAX \<equiv> 0xffffffff"
abbreviation RT_TICK_HALF :: u32 where "RT_TICK_HALF \<equiv> 0x7fffffff"

section \<open>Rule collections\<close>

text \<open>
  \<open>frames\<close> collects the equations saying which fields an operation leaves alone,
  \<open>kdefs\<close> the definitions a component's proofs unfold.
\<close>

named_theorems frames "fields an operation does not change"
named_theorems kdefs "definitions unfolded by component proofs"

section \<open>Options\<close>

text \<open>\<^verbatim>\<open>RT_ASSERT(b)\<close>: go on when \<open>b\<close> holds, never return otherwise.\<close>

definition rt_assert :: "bool \<Rightarrow> unit option" where
  "rt_assert b = (if b then Some () else None)"

lemma rt_assert_simps [simp]:
  "rt_assert True = Some ()"
  "rt_assert False = None"
  by (simp_all add: rt_assert_def)

lemma rt_assert_eq_Some [simp]: "rt_assert b = Some u \<longleftrightarrow> b"
  by (simp add: rt_assert_def)

lemma rt_assert_bind_eq_Some [simp]:
  "Option.bind (rt_assert b) f = Some y \<longleftrightarrow> b \<and> f () = Some y"
  by (simp add: rt_assert_def)

section \<open>Lists\<close>

lemma removeAll_notin [simp]: "t \<notin> set xs \<Longrightarrow> removeAll t xs = xs"
  by (induction xs) auto

lemma removeAll_split_distinct:
  "distinct (as @ x # bs) \<Longrightarrow> removeAll x (as @ x # bs) = as @ bs"
  by (simp add: removeAll_append)

lemma distinct_mid_swap:
  "distinct (as @ x # bs) \<longleftrightarrow> x \<notin> set as \<and> x \<notin> set bs \<and> distinct (as @ bs)"
  by auto

section \<open>Signed words\<close>

lemma sint_u32: "sint (w :: u32) = (uint w + 0x80000000) mod 0x100000000 - 0x80000000"
  by (simp add: sint_uint signed_take_bit_eq_take_bit_shift take_bit_eq_mod)

lemma sint_u32_cases: "sint (w :: u32) = (if uint w < 0x80000000 then uint w else uint w - 0x100000000)"
proof (cases "uint w < 0x80000000")
  case True
  then have "(uint w + 0x80000000) mod 0x100000000 = uint w + 0x80000000"
    by (intro mod_pos_pos_trivial) auto
  then show ?thesis using True by (simp add: sint_u32)
next
  case False
  have "uint w < 0x100000000" using uint_bounded[of w] by simp
  then have "(uint w + 0x80000000 - 0x100000000) mod 0x100000000 = uint w + 0x80000000 - 0x100000000"
    using False by (intro mod_pos_pos_trivial) auto
  then have "(uint w + 0x80000000) mod 0x100000000 = uint w + 0x80000000 - 0x100000000"
    by (metis minus_mod_self2)
  then show ?thesis using False by (simp add: sint_u32)
qed

lemma sint_pos_iff: "0 < sint (w :: u32) \<longleftrightarrow> w \<noteq> 0 \<and> w \<le> 0x7fffffff"
proof -
  have "w \<noteq> 0 \<longleftrightarrow> 0 < uint w" "w \<le> 0x7fffffff \<longleftrightarrow> uint w \<le> 0x7fffffff"
    using word_gt_0[of w] word_less_def[of 0 w] by (auto simp: word_le_def)
  then show ?thesis using uint_bounded[of w] by (auto simp: sint_u32_cases)
qed

end
