(* ===== verification/RtList.thy ===== *)
theory RtList
  imports Prelude
begin

text \<open>
  The intrusive lists of \<^verbatim>\<open>include/rtservice.h\<close>.

  The first half is the code: a heap of \<^verbatim>\<open>struct rt_list_node\<close> (a \<open>next\<close>
  and a \<open>prev\<close> pointer per node) and the pointer assignments of the inline functions in
  their order. The second half says what they compute: a list head and the nodes linked to
  it form a ring, and on a family of disjoint rings each function is the list operation its
  name says. The kernel model works on such families (\<open>head \<Rightarrow> item list\<close>); the
  locale \<open>intrusive_lists\<close> is the interface between the two, with one interpretation
  for the pointers and one for the families.
\<close>

section \<open>Pointers\<close>

record 'n rt_list =
  nxt :: "'n \<Rightarrow> 'n"
  prv :: "'n \<Rightarrow> 'n"

definition rt_list_init :: "'n \<Rightarrow> 'n rt_list \<Rightarrow> 'n rt_list" where
  "rt_list_init l hp = hp\<lparr>nxt := (nxt hp)(l := l), prv := (prv hp)(l := l)\<rparr>"

definition rt_list_insert_after :: "'n \<Rightarrow> 'n \<Rightarrow> 'n rt_list \<Rightarrow> 'n rt_list" where
  "rt_list_insert_after l n hp0 =
     (let hp1 = hp0\<lparr>prv := (prv hp0)(nxt hp0 l := n)\<rparr>;
          hp2 = hp1\<lparr>nxt := (nxt hp1)(n := nxt hp1 l)\<rparr>;
          hp3 = hp2\<lparr>nxt := (nxt hp2)(l := n)\<rparr>
      in hp3\<lparr>prv := (prv hp3)(n := l)\<rparr>)"

definition rt_list_insert_before :: "'n \<Rightarrow> 'n \<Rightarrow> 'n rt_list \<Rightarrow> 'n rt_list" where
  "rt_list_insert_before l n hp0 =
     (let hp1 = hp0\<lparr>nxt := (nxt hp0)(prv hp0 l := n)\<rparr>;
          hp2 = hp1\<lparr>prv := (prv hp1)(n := prv hp1 l)\<rparr>;
          hp3 = hp2\<lparr>prv := (prv hp2)(l := n)\<rparr>
      in hp3\<lparr>nxt := (nxt hp3)(n := l)\<rparr>)"

definition rt_list_remove :: "'n \<Rightarrow> 'n rt_list \<Rightarrow> 'n rt_list" where
  "rt_list_remove n hp0 =
     (let hp1 = hp0\<lparr>prv := (prv hp0)(nxt hp0 n := prv hp0 n)\<rparr>;
          hp2 = hp1\<lparr>nxt := (nxt hp1)(prv hp1 n := nxt hp1 n)\<rparr>
      in hp2\<lparr>nxt := (nxt hp2)(n := n), prv := (prv hp2)(n := n)\<rparr>)"

definition rt_list_isempty :: "'n \<Rightarrow> 'n rt_list \<Rightarrow> bool" where
  "rt_list_isempty l hp \<longleftrightarrow> nxt hp l = l"

text \<open>
  \<^verbatim>\<open>rt_list_len\<close> walks until it is back at the head; on nodes that do not form a ring
  it may never get there, which is \<open>None\<close>.
\<close>

partial_function (option) rt_list_len_from :: "'n rt_list \<Rightarrow> 'n \<Rightarrow> 'n \<Rightarrow> u32 \<Rightarrow> u32 option" where
  "rt_list_len_from hp l p len =
     (if nxt hp p \<noteq> l then rt_list_len_from hp l (nxt hp p) (len + 1) else Some len)"

definition rt_list_len :: "'n \<Rightarrow> 'n rt_list \<Rightarrow> u32 option" where
  "rt_list_len l hp = rt_list_len_from hp l l 0"

section \<open>Rings\<close>

text \<open>
  \<open>lseg hp a xs b\<close>: following \<open>next\<close> from \<open>a\<close> visits exactly \<open>xs\<close> and then
  \<open>b\<close>, and the \<open>prev\<close> pointers lead back the same way.
\<close>

fun lseg :: "'n rt_list \<Rightarrow> 'n \<Rightarrow> 'n list \<Rightarrow> 'n \<Rightarrow> bool" where
  "lseg hp a [] b \<longleftrightarrow> nxt hp a = b \<and> prv hp b = a"
| "lseg hp a (x # xs) b \<longleftrightarrow> nxt hp a = x \<and> prv hp x = a \<and> lseg hp x xs b"

definition ring :: "'n rt_list \<Rightarrow> 'n \<Rightarrow> 'n list \<Rightarrow> bool" where
  "ring hp l xs \<longleftrightarrow> distinct (l # xs) \<and> lseg hp l xs l"

lemma lseg_append [simp]:
  "lseg hp a (xs @ x # ys) b \<longleftrightarrow> lseg hp a xs x \<and> lseg hp x ys b"
  by (induction xs arbitrary: a) auto

lemma lseg_next: "lseg hp a xs b \<Longrightarrow> nxt hp a = hd (xs @ [b])"
  by (cases xs) auto

lemma lseg_prev: "lseg hp a xs b \<Longrightarrow> prv hp b = last (a # xs)"
  by (induction xs arbitrary: a) auto

lemma lseg_cong:
  assumes "\<And>x. x \<in> set (a # xs) \<Longrightarrow> nxt hp' x = nxt hp x"
    and "\<And>x. x \<in> set (xs @ [b]) \<Longrightarrow> prv hp' x = prv hp x"
  shows "lseg hp' a xs b = lseg hp a xs b"
  using assms by (induction xs arbitrary: a) auto

text \<open>What each function does to the two pointer maps, on nodes that are linked.\<close>

lemma rt_list_init_sel [simp]:
  "nxt (rt_list_init l hp) = (nxt hp)(l := l)"
  "prv (rt_list_init l hp) = (prv hp)(l := l)"
  by (simp_all add: rt_list_init_def)

lemma rt_list_insert_after_sel:
  assumes "n \<noteq> l"
  shows "nxt (rt_list_insert_after l n hp) = (nxt hp)(n := nxt hp l, l := n)"
    and "prv (rt_list_insert_after l n hp) = (prv hp)(nxt hp l := n, n := l)"
  using assms by (simp_all add: rt_list_insert_after_def Let_def)

lemma rt_list_insert_before_sel:
  assumes "n \<noteq> l"
  shows "prv (rt_list_insert_before l n hp) = (prv hp)(n := prv hp l, l := n)"
    and "nxt (rt_list_insert_before l n hp) = (nxt hp)(prv hp l := n, n := l)"
  using assms by (simp_all add: rt_list_insert_before_def Let_def)

lemma rt_list_remove_sel:
  assumes "prv hp n \<noteq> n" "nxt hp n \<noteq> n"
  shows "nxt (rt_list_remove n hp) = (nxt hp)(prv hp n := nxt hp n, n := n)"
    and "prv (rt_list_remove n hp) = (prv hp)(nxt hp n := prv hp n, n := n)"
  using assms by (simp_all add: rt_list_remove_def Let_def)

lemma rt_list_remove_self:
  assumes "nxt hp n = n" "prv hp n = n"
  shows "rt_list_remove n hp = hp"
  using assms by (simp add: rt_list_remove_def Let_def fun_upd_idem)

lemma ring_init: "ring (rt_list_init l hp) l []"
  by (simp add: ring_def)

lemma ring_isempty: "ring hp l xs \<Longrightarrow> rt_list_isempty l hp \<longleftrightarrow> xs = []"
  by (cases xs) (auto simp: ring_def rt_list_isempty_def)

lemma ring_first: "ring hp l (x # xs) \<Longrightarrow> nxt hp l = x"
  by (simp add: ring_def)

text \<open>
  Linking a node between two neighbours of a ring and unlinking one: both insertions and
  the removal are instances. \<open>l\<close> is the head; \<open>last (l # as)\<close> and \<open>hd (bs @ [l])\<close> are
  the neighbours at the chosen place, which may be the head itself.
\<close>

lemma ring_link:
  assumes ring: "ring hp l (as @ bs)" and fresh: "n \<notin> set (l # as @ bs)"
    and nx: "nxt hp' = (nxt hp)(last (l # as) := n, n := hd (bs @ [l]))"
    and pv: "prv hp' = (prv hp)(hd (bs @ [l]) := n, n := last (l # as))"
  shows "ring hp' l (as @ n # bs)"
proof -
  have d: "distinct (l # as @ bs)" and seg: "lseg hp l (as @ bs) l"
    using ring by (auto simp: ring_def)
  have "lseg hp' l as n"
  proof (cases as rule: rev_cases)
    case Nil
    then show ?thesis using nx pv fresh d by auto
  next
    case (snoc as' a)
    have "lseg hp' l as' a = lseg hp l as' a"
      by (rule lseg_cong) (use nx pv fresh d snoc in \<open>cases bs; auto\<close>)+
    moreover have "lseg hp l as' a"
      using seg snoc by simp
    ultimately show ?thesis using nx pv fresh d snoc by auto
  qed
  moreover have "lseg hp' n bs l"
  proof (cases bs)
    case Nil
    then show ?thesis using nx pv fresh d by auto
  next
    case (Cons b bs')
    have "lseg hp' b bs' l = lseg hp b bs' l"
      by (rule lseg_cong)
        (use nx pv fresh d Cons in \<open>cases as rule: rev_cases; auto split: if_splits\<close>)+
    moreover have "lseg hp b bs' l"
      using seg Cons by simp
    ultimately show ?thesis using nx pv fresh d Cons by auto
  qed
  ultimately show ?thesis using fresh d by (auto simp: ring_def)
qed

lemma ring_unlink:
  assumes ring: "ring hp l (as @ n # bs)"
    and nx: "nxt hp' = (nxt hp)(last (l # as) := hd (bs @ [l]), n := n)"
    and pv: "prv hp' = (prv hp)(hd (bs @ [l]) := last (l # as), n := n)"
  shows "ring hp' l (as @ bs)"
proof -
  have d: "distinct (l # as @ n # bs)" and seg: "lseg hp l as n" "lseg hp n bs l"
    using ring by (auto simp: ring_def)
  have "lseg hp' l (as @ bs) l"
  proof (cases bs)
    case Nil
    show ?thesis
    proof (cases as rule: rev_cases)
      case Nil
      then show ?thesis using \<open>bs = []\<close> nx pv d by auto
    next
      case (snoc as' a)
      have "lseg hp' l as' a = lseg hp l as' a"
        by (rule lseg_cong) (use nx pv d snoc Nil in auto)
      then show ?thesis using seg nx pv d snoc Nil by auto
    qed
  next
    case (Cons b bs')
    have b: "lseg hp' b bs' l = lseg hp b bs' l"
      by (rule lseg_cong)
        (use nx pv d Cons in \<open>cases as rule: rev_cases; auto split: if_splits\<close>)+
    show ?thesis
    proof (cases as rule: rev_cases)
      case Nil
      then show ?thesis using b seg Cons nx pv d by auto
    next
      case (snoc as' a)
      have "lseg hp' l as' a = lseg hp l as' a"
        by (rule lseg_cong) (use nx pv d snoc Cons in auto)
      then show ?thesis using b seg nx pv d snoc Cons by auto
    qed
  qed
  then show ?thesis using d by (auto simp: ring_def)
qed

text \<open>The neighbours of a node of a ring.\<close>

lemma ring_neighbours:
  assumes "ring hp l (as @ n # bs)"
  shows "nxt hp n = hd (bs @ [l])" "prv hp n = last (l # as)"
  using assms lseg_next[of hp n bs l] lseg_prev[of hp l as n] by (auto simp: ring_def)

lemma ring_head_neighbours:
  assumes "ring hp l xs"
  shows "nxt hp l = hd (xs @ [l])" "prv hp l = last (l # xs)"
  using assms lseg_next[of hp l xs l] lseg_prev[of hp l xs l] by (auto simp: ring_def)

lemma ring_insert_after:
  assumes "ring hp l xs" "n \<notin> set (l # xs)"
  shows "ring (rt_list_insert_after l n hp) l (n # xs)"
  using ring_link[of hp l "[]" xs n "rt_list_insert_after l n hp"] assms
  by (auto simp: rt_list_insert_after_sel ring_head_neighbours fun_upd_twist)

lemma ring_insert_before_head:
  assumes "ring hp l xs" "n \<notin> set (l # xs)"
  shows "ring (rt_list_insert_before l n hp) l (xs @ [n])"
  using ring_link[of hp l xs "[]" n "rt_list_insert_before l n hp"] assms
  by (auto simp: rt_list_insert_before_sel ring_head_neighbours fun_upd_twist)

lemma ring_insert_before:
  assumes "ring hp l (as @ x # bs)" "n \<notin> set (l # as @ x # bs)"
  shows "ring (rt_list_insert_before x n hp) l (as @ n # x # bs)"
  using ring_link[of hp l as "x # bs" n "rt_list_insert_before x n hp"] assms
  by (auto simp: rt_list_insert_before_sel ring_neighbours fun_upd_twist)

lemma ring_insert_after_node:
  assumes "ring hp l (as @ x # bs)" "n \<notin> set (l # as @ x # bs)"
  shows "ring (rt_list_insert_after x n hp) l (as @ x # n # bs)"
  using ring_link[of hp l "as @ [x]" bs n "rt_list_insert_after x n hp"] assms
  by (auto simp: rt_list_insert_after_sel ring_neighbours fun_upd_twist)

lemma ring_remove:
  assumes "ring hp l (as @ n # bs)"
  shows "ring (rt_list_remove n hp) l (as @ bs)" "ring (rt_list_remove n hp) n []"
proof -
  have d: "distinct (l # as @ n # bs)"
    using assms by (simp add: ring_def)
  have ne: "prv hp n \<noteq> n" "nxt hp n \<noteq> n"
    using d by (auto simp: ring_neighbours[OF assms] split: if_splits) (cases bs; auto)+
  show "ring (rt_list_remove n hp) l (as @ bs)"
    by (rule ring_unlink[OF assms]) (simp_all add: rt_list_remove_sel[OF ne] ring_neighbours[OF assms])
  show "ring (rt_list_remove n hp) n []"
    by (simp add: ring_def rt_list_remove_sel[OF ne])
qed

lemma ring_frame:
  assumes "ring hp l xs" "\<And>x. x \<in> set (l # xs) \<Longrightarrow> nxt hp' x = nxt hp x \<and> prv hp' x = prv hp x"
  shows "ring hp' l xs"
  using assms lseg_cong[of l xs hp' hp l] by (auto simp: ring_def)

lemma rt_list_len_from_lseg:
  assumes "lseg hp p xs l" "l \<notin> set xs"
  shows "rt_list_len_from hp l p len = Some (len + of_nat (length xs))"
  using assms
proof (induction xs arbitrary: p len)
  case Nil
  then show ?case by (simp add: rt_list_len_from.simps)
next
  case (Cons x xs)
  then have "nxt hp p = x" and "x \<noteq> l" by auto
  with Cons show ?case
    by (subst rt_list_len_from.simps) (simp add: ac_simps)
qed

section \<open>Families of lists\<close>

text \<open>
  A kernel holds many heads and many linkable items, each item (a thread's \<open>tlist\<close>, an
  object's \<open>list\<close>, a timer's \<open>row\<close>) in at most one list. \<open>repr hp st\<close>: the heap \<open>hp\<close>
  holds exactly the lists \<open>st\<close>, and items in no list point to themselves, as
  \<^verbatim>\<open>rt_list_init\<close> and \<^verbatim>\<open>rt_list_remove\<close> leave them.
\<close>

datatype ('h, 't) lnode = Head 'h | Item 't

definition lists_ok :: "('h \<Rightarrow> 't list) \<Rightarrow> bool" where
  "lists_ok st \<longleftrightarrow>
     (\<forall>h. distinct (st h)) \<and> (\<forall>h h' t. t \<in> set (st h) \<longrightarrow> t \<in> set (st h') \<longrightarrow> h = h')"

definition unlinked :: "'t \<Rightarrow> ('h \<Rightarrow> 't list) \<Rightarrow> bool" where
  "unlinked t st \<longleftrightarrow> (\<forall>h. t \<notin> set (st h))"

definition repr :: "('h, 't) lnode rt_list \<Rightarrow> ('h \<Rightarrow> 't list) \<Rightarrow> bool" where
  "repr hp st \<longleftrightarrow>
     (\<forall>h. ring hp (Head h) (map Item (st h))) \<and> lists_ok st \<and>
     (\<forall>t. unlinked t st \<longrightarrow> ring hp (Item t) [])"

text \<open>The list functions on a family, under the names the kernel model calls them by.\<close>

definition ls_insert_after :: "'h \<Rightarrow> 't \<Rightarrow> ('h \<Rightarrow> 't list) \<Rightarrow> 'h \<Rightarrow> 't list" where
  "ls_insert_after h t st = st(h := t # st h)"

definition ls_insert_before :: "'h \<Rightarrow> 't \<Rightarrow> ('h \<Rightarrow> 't list) \<Rightarrow> 'h \<Rightarrow> 't list" where
  "ls_insert_before h t st = st(h := st h @ [t])"

definition insert_before_in :: "'t \<Rightarrow> 't \<Rightarrow> 't list \<Rightarrow> 't list" where
  "insert_before_in x t xs =
     (if x \<in> set xs then takeWhile (\<lambda>y. y \<noteq> x) xs @ t # dropWhile (\<lambda>y. y \<noteq> x) xs else xs)"

definition ls_insert_before_item :: "'t \<Rightarrow> 't \<Rightarrow> ('h \<Rightarrow> 't list) \<Rightarrow> 'h \<Rightarrow> 't list" where
  "ls_insert_before_item x t st = (\<lambda>h. insert_before_in x t (st h))"

definition ls_remove :: "'t \<Rightarrow> ('h \<Rightarrow> 't list) \<Rightarrow> 'h \<Rightarrow> 't list" where
  "ls_remove t st = (\<lambda>h. removeAll t (st h))"

lemma insert_before_in_split:
  "x \<notin> set as \<Longrightarrow> insert_before_in x t (as @ x # bs) = as @ t # x # bs"
  by (induction as) (auto simp: insert_before_in_def)

lemma insert_before_in_notin [simp]: "x \<notin> set xs \<Longrightarrow> insert_before_in x t xs = xs"
  by (simp add: insert_before_in_def)

lemma set_insert_before_in:
  "x \<in> set xs \<Longrightarrow> set (insert_before_in x t xs) = insert t (set xs)"
  by (metis insert_before_in_def list.simps(15) set_append takeWhile_dropWhile_id Un_insert_right)

lemma ls_remove_simps [simp]:
  "ls_remove t st h = removeAll t (st h)"
  by (simp add: ls_remove_def)

lemma ls_remove_unlinked [simp]: "unlinked t st \<Longrightarrow> ls_remove t st = st"
  by (auto simp: unlinked_def ls_remove_def)

lemma unlinked_remove [simp]: "unlinked t (ls_remove t st)"
  by (simp add: unlinked_def)

lemma unlinked_upd:
  "unlinked t (st(h := ys)) \<longleftrightarrow> t \<notin> set ys \<and> (\<forall>k. k \<noteq> h \<longrightarrow> t \<notin> set (st k))"
  by (auto simp: unlinked_def)

lemma repr_update:
  assumes rep: "repr hp st"
    and ring: "ring hp' (Head h) (map Item ys)"
    and frame: "\<And>x. x \<notin> insert (Head h) (Item ` (set (st h) \<union> set ys)) \<Longrightarrow>
                  nxt hp' x = nxt hp x \<and> prv hp' x = prv hp x"
    and new: "\<And>t k. t \<in> set ys \<Longrightarrow> k \<noteq> h \<Longrightarrow> t \<notin> set (st k)"
    and gone: "\<And>t. t \<in> set (st h) \<Longrightarrow> t \<notin> set ys \<Longrightarrow> ring hp' (Item t) []"
  shows "repr hp' (st(h := ys))"
proof -
  have ok: "lists_ok st" using rep by (simp add: repr_def)
  have "distinct ys" using ring by (auto simp: ring_def distinct_map)
  then have ok': "lists_ok (st(h := ys))"
    using ok new by (auto simp: lists_ok_def)
  have "ring hp' (Head k) (map Item (st k))" if "k \<noteq> h" for k
  proof (rule ring_frame)
    show "ring hp (Head k) (map Item (st k))" using rep by (simp add: repr_def)
  next
    fix x :: "('a, 'b) lnode"
    assume "x \<in> set (Head k # map Item (st k))"
    then show "nxt hp' x = nxt hp x \<and> prv hp' x = prv hp x"
      using that new ok by (intro frame) (auto simp: lists_ok_def)
  qed
  moreover have "ring hp' (Item t) []" if "unlinked t (st(h := ys))" for t
  proof (cases "t \<in> set (st h)")
    case True
    with that show ?thesis by (intro gone) (auto simp: unlinked_upd)
  next
    case False
    have t: "t \<notin> set ys" using that by (simp add: unlinked_upd)
    have "unlinked t st"
      unfolding unlinked_def using that False by (metis unlinked_upd)
    with rep have "ring hp (Item t) []" by (simp add: repr_def)
    then show ?thesis
      by (rule ring_frame) (use False t frame[of "Item t"] in auto)
  qed
  ultimately show ?thesis using ring ok' by (simp add: repr_def)
qed

text \<open>Where the pointer functions write.\<close>

lemma insert_frame:
  "x \<noteq> l \<Longrightarrow> x \<noteq> n \<Longrightarrow> x \<noteq> nxt hp l \<Longrightarrow>
     nxt (rt_list_insert_after l n hp) x = nxt hp x \<and> prv (rt_list_insert_after l n hp) x = prv hp x"
  "x \<noteq> l \<Longrightarrow> x \<noteq> n \<Longrightarrow> x \<noteq> prv hp l \<Longrightarrow>
     nxt (rt_list_insert_before l n hp) x = nxt hp x \<and> prv (rt_list_insert_before l n hp) x = prv hp x"
  by (simp_all add: rt_list_insert_after_def rt_list_insert_before_def Let_def)

lemma remove_frame:
  "x \<noteq> n \<Longrightarrow> x \<noteq> nxt hp n \<Longrightarrow> x \<noteq> prv hp n \<Longrightarrow>
     nxt (rt_list_remove n hp) x = nxt hp x \<and> prv (rt_list_remove n hp) x = prv hp x"
  by (auto simp: rt_list_remove_def Let_def)

lemma hd_last_in:
  "hd (map Item xs @ [Head h]) \<in> insert (Head h) (Item ` set xs)"
  "last (Head h # map Item xs) \<in> insert (Head h) (Item ` set xs)"
  by (cases xs; simp) (cases xs rule: rev_cases; simp)

lemma repr_ring: "repr hp st \<Longrightarrow> ring hp (Head h) (map Item (st h))"
  by (simp add: repr_def)

lemma repr_insert_after:
  assumes rep: "repr hp st" and t: "unlinked t st"
  shows "repr (rt_list_insert_after (Head h) (Item t) hp) (ls_insert_after h t st)"
  unfolding ls_insert_after_def
proof (rule repr_update[OF rep])
  note ring = repr_ring[OF rep, of h]
  show "ring (rt_list_insert_after (Head h) (Item t) hp) (Head h) (map Item (t # st h))"
    using ring_insert_after[OF ring, of "Item t"] t by (auto simp: unlinked_def)
  show "nxt (rt_list_insert_after (Head h) (Item t) hp) x = nxt hp x \<and>
        prv (rt_list_insert_after (Head h) (Item t) hp) x = prv hp x"
    if "x \<notin> insert (Head h) (Item ` (set (st h) \<union> set (t # st h)))" for x
    using that ring_head_neighbours(1)[OF ring] hd_last_in(1)[of "st h" h]
    by (intro insert_frame) auto
qed (use t in \<open>auto simp: unlinked_def repr_def lists_ok_def rep\<close>,
     use rep in \<open>auto simp: repr_def lists_ok_def\<close>)

lemma repr_insert_before:
  assumes rep: "repr hp st" and t: "unlinked t st"
  shows "repr (rt_list_insert_before (Head h) (Item t) hp) (ls_insert_before h t st)"
  unfolding ls_insert_before_def
proof (rule repr_update[OF rep])
  note ring = repr_ring[OF rep, of h]
  show "ring (rt_list_insert_before (Head h) (Item t) hp) (Head h) (map Item (st h @ [t]))"
    using ring_insert_before_head[OF ring, of "Item t"] t by (auto simp: unlinked_def)
  show "nxt (rt_list_insert_before (Head h) (Item t) hp) x = nxt hp x \<and>
        prv (rt_list_insert_before (Head h) (Item t) hp) x = prv hp x"
    if "x \<notin> insert (Head h) (Item ` (set (st h) \<union> set (st h @ [t])))" for x
    using that ring_head_neighbours(2)[OF ring] hd_last_in(2)[of h "st h"]
    by (intro insert_frame) auto
qed (use t in \<open>auto simp: unlinked_def repr_def lists_ok_def rep\<close>,
     use rep in \<open>auto simp: repr_def lists_ok_def\<close>)

lemma lists_ok_other: "lists_ok st \<Longrightarrow> u \<in> set (st h) \<Longrightarrow> k \<noteq> h \<Longrightarrow> u \<notin> set (st k)"
  by (auto simp: lists_ok_def)

text \<open>An item that is linked lies at one place of one list.\<close>

lemma linked_split:
  assumes "lists_ok st" "x \<in> set (st h)"
  obtains as bs where "st h = as @ x # bs" "x \<notin> set as" "x \<notin> set bs"
    and "\<And>k. k \<noteq> h \<Longrightarrow> x \<notin> set (st k)"
  using assms split_list[of x "st h"] that
  by (metis distinct_mid_swap lists_ok_def)

lemma repr_insert_before_item:
  assumes rep: "repr hp st" and t: "unlinked t st" and x: "x \<in> set (st h)"
  shows "repr (rt_list_insert_before (Item x) (Item t) hp) (ls_insert_before_item x t st)"
proof -
  have ok: "lists_ok st" using rep by (simp add: repr_def)
  obtain as bs where sp: "st h = as @ x # bs" "x \<notin> set as" "x \<notin> set bs"
    and other: "\<And>k. k \<noteq> h \<Longrightarrow> x \<notin> set (st k)"
    using linked_split[OF ok x] by metis
  note ring = repr_ring[OF rep, of h, unfolded sp, simplified]
  have eq: "ls_insert_before_item x t st = st(h := as @ t # x # bs)"
    using sp other by (auto simp: ls_insert_before_item_def insert_before_in_split)
  have tn: "\<And>k. t \<notin> set (st k)" using t by (simp add: unlinked_def)
  show ?thesis
    unfolding eq
  proof (rule repr_update[OF rep])
    show "ring (rt_list_insert_before (Item x) (Item t) hp) (Head h) (map Item (as @ t # x # bs))"
      using ring_insert_before[OF ring, of "Item t"] tn[of h] sp by auto
    show "nxt (rt_list_insert_before (Item x) (Item t) hp) y = nxt hp y \<and>
          prv (rt_list_insert_before (Item x) (Item t) hp) y = prv hp y"
      if "y \<notin> insert (Head h) (Item ` (set (st h) \<union> set (as @ t # x # bs)))" for y
      using that ring_neighbours(2)[OF ring] hd_last_in(2)[of h as] sp
      by (intro insert_frame) auto
    show "u \<notin> set (st k)" if "u \<in> set (as @ t # x # bs)" "k \<noteq> h" for u k
      using that tn[of k] lists_ok_other[OF ok _ that(2), of u] sp(1) by auto
  qed (use sp in auto)
qed

lemma repr_remove:
  assumes rep: "repr hp st"
  shows "repr (rt_list_remove (Item t) hp) (ls_remove t st)"
proof (cases "unlinked t st")
  case True
  then have "ring hp (Item t) []" using rep by (simp add: repr_def)
  then have "rt_list_remove (Item t) hp = hp"
    by (intro rt_list_remove_self) (auto simp: ring_def)
  with True rep show ?thesis by simp
next
  case False
  then obtain h where x: "t \<in> set (st h)" by (auto simp: unlinked_def)
  have ok: "lists_ok st" using rep by (simp add: repr_def)
  obtain as bs where sp: "st h = as @ t # bs" "t \<notin> set as" "t \<notin> set bs"
    and other: "\<And>k. k \<noteq> h \<Longrightarrow> t \<notin> set (st k)"
    using linked_split[OF ok x] by metis
  note ring = repr_ring[OF rep, of h, unfolded sp, simplified]
  have eq: "ls_remove t st = st(h := as @ bs)"
    using sp other by (auto simp: ls_remove_def)
  have disj: "\<And>u k. u \<in> set (as @ bs) \<Longrightarrow> k \<noteq> h \<Longrightarrow> u \<notin> set (st k)"
    using lists_ok_other[OF ok] sp(1) by (metis Un_iff list.set_intros(2) set_append)
  show ?thesis
    unfolding eq
  proof (rule repr_update[OF rep])
    show "ring (rt_list_remove (Item t) hp) (Head h) (map Item (as @ bs))"
      using ring_remove(1)[OF ring] by simp
    show "nxt (rt_list_remove (Item t) hp) y = nxt hp y \<and>
          prv (rt_list_remove (Item t) hp) y = prv hp y"
      if "y \<notin> insert (Head h) (Item ` (set (st h) \<union> set (as @ bs)))" for y
      using that ring_neighbours[OF ring] hd_last_in(2)[of h as] hd_last_in(1)[of bs h] sp
      by (intro remove_frame) auto
    show "ring (rt_list_remove (Item t) hp) (Item u) []" if "u \<in> set (st h)" "u \<notin> set (as @ bs)" for u
      using that sp ring_remove(2)[OF ring] by auto
  qed (rule disj)
qed

lemma repr_isempty: "repr hp st \<Longrightarrow> rt_list_isempty (Head h) hp \<longleftrightarrow> st h = []"
  using ring_isempty[OF repr_ring] by simp

lemma repr_first: "repr hp st \<Longrightarrow> st h = t # ts \<Longrightarrow> nxt hp (Head h) = Item t"
  using ring_first repr_ring[of hp st h] by fastforce

lemma repr_len:
  "repr hp st \<Longrightarrow> rt_list_len (Head h) hp = Some (of_nat (length (st h)))"
  using repr_ring[of hp st h] rt_list_len_from_lseg[of hp "Head h" "map Item (st h)" "Head h" 0]
  by (auto simp: ring_def rt_list_len_def)

section \<open>The interface the kernel relies on\<close>

text \<open>
  \<open>rep s st\<close> relates a representation \<open>s\<close> to the lists it holds. The laws are what the
  kernel uses of \<^verbatim>\<open>rtservice.h\<close>: each function acts on the lists as its family
  version does, provided an item to be inserted is in no list.
\<close>

locale intrusive_lists =
  fixes ins_after :: "'h \<Rightarrow> 't \<Rightarrow> 's \<Rightarrow> 's"
    and ins_before :: "'h \<Rightarrow> 't \<Rightarrow> 's \<Rightarrow> 's"
    and ins_before_item :: "'t \<Rightarrow> 't \<Rightarrow> 's \<Rightarrow> 's"
    and rem :: "'t \<Rightarrow> 's \<Rightarrow> 's"
    and isempty :: "'h \<Rightarrow> 's \<Rightarrow> bool"
    and rep :: "'s \<Rightarrow> ('h \<Rightarrow> 't list) \<Rightarrow> bool"
  assumes rep_ok: "rep s st \<Longrightarrow> lists_ok st"
    and rep_ins_after: "rep s st \<Longrightarrow> unlinked t st \<Longrightarrow> rep (ins_after h t s) (ls_insert_after h t st)"
    and rep_ins_before: "rep s st \<Longrightarrow> unlinked t st \<Longrightarrow> rep (ins_before h t s) (ls_insert_before h t st)"
    and rep_ins_before_item: "rep s st \<Longrightarrow> unlinked t st \<Longrightarrow> x \<in> set (st h) \<Longrightarrow>
           rep (ins_before_item x t s) (ls_insert_before_item x t st)"
    and rep_rem: "rep s st \<Longrightarrow> rep (rem t s) (ls_remove t st)"
    and rep_isempty: "rep s st \<Longrightarrow> isempty h s \<longleftrightarrow> st h = []"
begin

text \<open>Taking an item out of wherever it is and putting it in front of, or behind, a list.\<close>

lemma move_to_tail:
  "rep s st \<Longrightarrow> rep (ins_before h t (rem t s)) (ls_insert_before h t (ls_remove t st))"
  by (rule rep_ins_before[OF rep_rem unlinked_remove])

lemma move_to_front:
  "rep s st \<Longrightarrow> rep (ins_after h t (rem t s)) (ls_insert_after h t (ls_remove t st))"
  by (rule rep_ins_after[OF rep_rem unlinked_remove])

lemma remove_then_isempty:
  "rep s st \<Longrightarrow> isempty h (rem t s) \<longleftrightarrow> set (st h) \<subseteq> {t}"
  using rep_isempty[OF rep_rem, of s st h t] by (auto simp: removeAll_filter_not_eq filter_empty_conv)

end

interpretation ptr: intrusive_lists
  "\<lambda>h t. rt_list_insert_after (Head h) (Item t)" "\<lambda>h t. rt_list_insert_before (Head h) (Item t)"
  "\<lambda>x t. rt_list_insert_before (Item x) (Item t)" "\<lambda>t. rt_list_remove (Item t)"
  "\<lambda>h. rt_list_isempty (Head h)" repr
  by unfold_locales
    (auto simp: repr_insert_after repr_insert_before repr_insert_before_item repr_remove
      repr_isempty, simp add: repr_def)

lemma lists_ok_remove: "lists_ok st \<Longrightarrow> lists_ok (ls_remove t st)"
  by (auto simp: lists_ok_def distinct_removeAll)

lemma lists_ok_insert_after: "lists_ok st \<Longrightarrow> unlinked t st \<Longrightarrow> lists_ok (ls_insert_after h t st)"
  by (auto simp: lists_ok_def unlinked_def ls_insert_after_def)

lemma lists_ok_insert_before: "lists_ok st \<Longrightarrow> unlinked t st \<Longrightarrow> lists_ok (ls_insert_before h t st)"
  by (auto simp: lists_ok_def unlinked_def ls_insert_before_def)

lemma distinct_insert_before_in:
  "distinct xs \<Longrightarrow> t \<notin> set xs \<Longrightarrow> distinct (insert_before_in x t xs)"
  by (metis distinct_mid_swap insert_before_in_def set_append takeWhile_dropWhile_id Un_iff)

lemma lists_ok_upd:
  assumes "lists_ok st" "distinct ys" "\<And>t k. t \<in> set ys \<Longrightarrow> k \<noteq> h \<Longrightarrow> t \<notin> set (st k)"
  shows "lists_ok (st(h := ys))"
  using assms unfolding lists_ok_def by (metis fun_upd_apply)

lemma lists_ok_insert_before_item:
  assumes "lists_ok st" "unlinked t st" "x \<in> set (st h)"
  shows "lists_ok (ls_insert_before_item x t st)"
proof -
  have eq: "ls_insert_before_item x t st = st(h := insert_before_in x t (st h))"
    using lists_ok_other[OF assms(1,3)] by (auto simp: ls_insert_before_item_def)
  have "distinct (insert_before_in x t (st h))"
    using assms(1,2) by (intro distinct_insert_before_in) (simp_all add: lists_ok_def unlinked_def)
  moreover have "u \<notin> set (st k)" if "u \<in> set (insert_before_in x t (st h))" "k \<noteq> h" for u k
    using that lists_ok_other[OF assms(1) _ that(2)] assms(2)
    by (auto simp: set_insert_before_in[OF assms(3)] unlinked_def)
  ultimately show ?thesis
    unfolding eq by (rule lists_ok_upd[OF assms(1)])
qed

interpretation fam: intrusive_lists
  ls_insert_after ls_insert_before ls_insert_before_item ls_remove "\<lambda>h st. st h = []"
  "\<lambda>s st. s = st \<and> lists_ok st"
proof (unfold_locales, goal_cases)
  case 1 then show ?case by simp
next
  case 2 then show ?case by (simp add: lists_ok_insert_after)
next
  case 3 then show ?case by (simp add: lists_ok_insert_before)
next
  case 4 then show ?case by (metis lists_ok_insert_before_item)
next
  case 5 then show ?case by (simp add: lists_ok_remove)
next
  case 6 then show ?case by simp
qed

text \<open>
  C3. The pointer code of rtservice.h implements the list operations of the kernel model: if
  the heap holds a family of lists, then unlinking an item and linking it at the tail of a
  head, or in front of it, leaves a heap that holds exactly the family with that item moved
  (so no other list and no other item is disturbed), and \<^verbatim>\<open>rt_list_isempty\<close>
  and \<^verbatim>\<open>rt_list_len\<close> report the list's emptiness and its length modulo \<open>2^32\<close>.
\<close>

theorem rt_list_refines_families:
  assumes "repr hp st"
  shows "repr (rt_list_insert_before (Head h) (Item t) (rt_list_remove (Item t) hp))
              (ls_insert_before h t (ls_remove t st)) \<and>
         repr (rt_list_insert_after (Head h) (Item t) (rt_list_remove (Item t) hp))
              (ls_insert_after h t (ls_remove t st)) \<and>
         rt_list_isempty (Head h) hp = (st h = []) \<and>
         rt_list_len (Head h) hp = Some (of_nat (length (st h)))"
  by (intro conjI ptr.move_to_tail ptr.move_to_front ptr.rep_isempty repr_len assms)

theorem rt_list_refines_families_witness:
  "let hp = \<lparr>nxt = (\<lambda>x. x), prv = (\<lambda>x. x)\<rparr>; st = (\<lambda>_. []) :: nat \<Rightarrow> nat list in
   repr hp st \<and>
   repr (rt_list_insert_before (Head 0) (Item 7) (rt_list_remove (Item 7) hp))
        (ls_insert_before 0 7 (ls_remove 7 st)) \<and>
   ls_insert_before 0 7 (ls_remove 7 st) 0 = [7]"
proof -
  have h: "repr \<lparr>nxt = (\<lambda>x. x), prv = (\<lambda>x. x)\<rparr> ((\<lambda>_. []) :: nat \<Rightarrow> nat list)"
    by (simp add: repr_def ring_def lists_ok_def)
  show ?thesis
    using h rt_list_refines_families[OF h, of 0 7] by (simp add: ls_insert_before_def)
qed

section \<open>Single lists\<close>

text \<open>
  \<^verbatim>\<open>rt_slist_t\<close>: one \<open>next\<close> pointer per node, \<open>None\<close> for \<^verbatim>\<open>RT_NULL\<close>. The
  walks are loops over pointers and return only when they reach the end.
\<close>

type_synonym 'n rt_slist = "'n \<Rightarrow> 'n option"

definition rt_slist_init :: "'n \<Rightarrow> 'n rt_slist \<Rightarrow> 'n rt_slist" where
  "rt_slist_init l hp = hp(l := None)"

partial_function (option) rt_slist_tail :: "'n rt_slist \<Rightarrow> 'n \<Rightarrow> 'n option" where
  "rt_slist_tail hp l = (case hp l of None \<Rightarrow> Some l | Some m \<Rightarrow> rt_slist_tail hp m)"

definition rt_slist_append :: "'n \<Rightarrow> 'n \<Rightarrow> 'n rt_slist \<Rightarrow> 'n rt_slist option" where
  "rt_slist_append l n hp = do {
     node \<leftarrow> rt_slist_tail hp l;
     Some ((hp(node := Some n))(n := None))
   }"

definition rt_slist_insert :: "'n \<Rightarrow> 'n \<Rightarrow> 'n rt_slist \<Rightarrow> 'n rt_slist" where
  "rt_slist_insert l n hp0 = (let hp1 = hp0(n := hp0 l) in hp1(l := Some n))"

partial_function (option) rt_slist_len_from :: "'n rt_slist \<Rightarrow> 'n option \<Rightarrow> u32 \<Rightarrow> u32 option" where
  "rt_slist_len_from hp p len =
     (case p of None \<Rightarrow> Some len | Some m \<Rightarrow> rt_slist_len_from hp (hp m) (len + 1))"

definition rt_slist_len :: "'n \<Rightarrow> 'n rt_slist \<Rightarrow> u32 option" where
  "rt_slist_len l hp = rt_slist_len_from hp (hp l) 0"

partial_function (option) rt_slist_find_prev :: "'n rt_slist \<Rightarrow> 'n \<Rightarrow> 'n \<Rightarrow> 'n option" where
  "rt_slist_find_prev hp n node =
     (case hp node of None \<Rightarrow> Some node
      | Some m \<Rightarrow> if m \<noteq> n then rt_slist_find_prev hp n m else Some node)"

definition rt_slist_remove :: "'n \<Rightarrow> 'n \<Rightarrow> 'n rt_slist \<Rightarrow> 'n rt_slist option" where
  "rt_slist_remove l n hp = do {
     node \<leftarrow> rt_slist_find_prev hp n l;
     Some (case hp node of None \<Rightarrow> hp | Some m \<Rightarrow> hp(node := hp m))
   }"

definition rt_slist_first :: "'n \<Rightarrow> 'n rt_slist \<Rightarrow> 'n option" where
  "rt_slist_first l hp = hp l"

definition rt_slist_isempty :: "'n \<Rightarrow> 'n rt_slist \<Rightarrow> bool" where
  "rt_slist_isempty l hp \<longleftrightarrow> hp l = None"

fun spath :: "'n rt_slist \<Rightarrow> 'n \<Rightarrow> 'n list \<Rightarrow> bool" where
  "spath hp l [] \<longleftrightarrow> hp l = None"
| "spath hp l (x # xs) \<longleftrightarrow> hp l = Some x \<and> spath hp x xs"

definition slist :: "'n rt_slist \<Rightarrow> 'n \<Rightarrow> 'n list \<Rightarrow> bool" where
  "slist hp l xs \<longleftrightarrow> distinct (l # xs) \<and> spath hp l xs"

lemma spath_upd_other: "n \<notin> set (l # xs) \<Longrightarrow> spath (hp(n := v)) l xs = spath hp l xs"
  by (induction xs arbitrary: l) auto

lemma rt_slist_tail_spath: "spath hp l xs \<Longrightarrow> rt_slist_tail hp l = Some (last (l # xs))"
  by (induction xs arbitrary: l) (simp_all add: rt_slist_tail.simps)

lemma rt_slist_len_from_spath:
  "spath hp l xs \<Longrightarrow> rt_slist_len_from hp (hp l) len = Some (len + of_nat (length xs))"
  by (induction xs arbitrary: l len) (simp_all add: rt_slist_len_from.simps ac_simps)

lemma spath_snoc:
  assumes "spath hp l xs" "n \<notin> set (l # xs)" "distinct (l # xs)"
  shows "spath (hp(last (l # xs) := Some n, n := None)) l (xs @ [n])"
  using assms
proof (induction xs arbitrary: l)
  case Nil
  then show ?case by simp
next
  case (Cons x xs)
  then have "spath (hp(last (x # xs) := Some n, n := None)) x (xs @ [n])"
    by (intro Cons.IH) auto
  moreover have "last (x # xs) \<noteq> l" using Cons.prems(3) last_in_set[of "x # xs"] by auto
  moreover have "last (l # x # xs) = last (x # xs)" by simp
  moreover have "l \<noteq> n" using Cons.prems by auto
  ultimately show ?case
    using Cons.prems by (simp add: fun_upd_other eq_commute del: fun_upd_apply last.simps)
qed

lemma rt_slist_find_prev_split:
  "spath hp l (as @ n # bs) \<Longrightarrow> n \<notin> set (l # as) \<Longrightarrow>
     rt_slist_find_prev hp n l = Some (last (l # as)) \<and> hp (last (l # as)) = Some n \<and> spath hp n bs"
  by (induction as arbitrary: l) (subst rt_slist_find_prev.simps, auto)+

lemma rt_slist_find_prev_notin:
  "spath hp l xs \<Longrightarrow> n \<notin> set xs \<Longrightarrow> rt_slist_find_prev hp n l = Some (last (l # xs)) \<and> hp (last (l # xs)) = None"
  by (induction xs arbitrary: l) (subst rt_slist_find_prev.simps, auto)+

lemma spath_cut:
  assumes "spath hp l (as @ n # bs)" "distinct (l # as @ n # bs)"
  shows "spath (hp(last (l # as) := hp n)) l (as @ bs)"
  using assms
proof (induction as arbitrary: l)
  case Nil
  then show ?case
    by (cases bs) (auto simp: spath_upd_other fun_upd_same simp del: fun_upd_apply)
next
  case (Cons x as)
  then have "spath (hp(last (x # as) := hp n)) x (as @ bs)"
    by (intro Cons.IH) auto
  moreover have "last (x # as) \<noteq> l" using Cons.prems(2) last_in_set[of "x # as"] by auto
  moreover have "last (l # x # as) = last (x # as)" by simp
  ultimately show ?case
    using Cons.prems by (simp add: fun_upd_other del: fun_upd_apply last.simps)
qed

text \<open>
  The single list functions implement a list: on a well-formed list every walk ends,
  append adds a fresh node at the end, insert adds it at the front, remove takes out exactly
  the named node (and leaves a list without it alone), and length, first and emptiness are
  those of the list.
\<close>

theorem rt_slist_implements_list:
  assumes "slist hp l xs"
  shows "(n \<notin> set (l # xs) \<longrightarrow> (\<exists>hp'. rt_slist_append l n hp = Some hp' \<and> slist hp' l (xs @ [n])) \<and>
             slist (rt_slist_insert l n hp) l (n # xs)) \<and>
         (n \<noteq> l \<longrightarrow> (\<exists>hp'. rt_slist_remove l n hp = Some hp' \<and> slist hp' l (removeAll n xs))) \<and>
         rt_slist_len l hp = Some (of_nat (length xs)) \<and>
         rt_slist_isempty l hp = (xs = []) \<and>
         rt_slist_first l hp = (case xs of [] \<Rightarrow> None | x # _ \<Rightarrow> Some x)"
proof (intro conjI impI)
  have path: "spath hp l xs" and d: "distinct (l # xs)" using assms by (auto simp: slist_def)
  show "rt_slist_len l hp = Some (of_nat (length xs))"
    using rt_slist_len_from_spath[OF path] by (simp add: rt_slist_len_def)
  show "rt_slist_isempty l hp = (xs = [])" "rt_slist_first l hp = (case xs of [] \<Rightarrow> None | x # _ \<Rightarrow> Some x)"
    using path by (cases xs; simp add: rt_slist_isempty_def rt_slist_first_def)+
  show "\<exists>hp'. rt_slist_append l n hp = Some hp' \<and> slist hp' l (xs @ [n])" if "n \<notin> set (l # xs)"
    using rt_slist_tail_spath[OF path] spath_snoc[OF path that d] d that
    by (auto simp: rt_slist_append_def slist_def)
  show "slist (rt_slist_insert l n hp) l (n # xs)" if "n \<notin> set (l # xs)"
    using that d path by (cases xs) (auto simp: slist_def rt_slist_insert_def spath_upd_other)
  show "\<exists>hp'. rt_slist_remove l n hp = Some hp' \<and> slist hp' l (removeAll n xs)" if "n \<noteq> l"
  proof (cases "n \<in> set xs")
    case False
    then show ?thesis
      using rt_slist_find_prev_notin[OF path False] assms by (auto simp: rt_slist_remove_def)
  next
    case True
    then obtain as bs where sp: "xs = as @ n # bs" by (auto simp: in_set_conv_decomp)
    then have "n \<notin> set (l # as)" using d by auto
    with sp path have "rt_slist_find_prev hp n l = Some (last (l # as))" "hp (last (l # as)) = Some n"
      using rt_slist_find_prev_split[of hp l as n bs] by auto
    then show ?thesis
      using sp path d spath_cut[of hp l as n bs]
      by (auto simp: rt_slist_remove_def slist_def removeAll_split_distinct)
  qed
qed

theorem rt_slist_implements_list_witness:
  "let hp = (\<lambda>_. None)(0 := Some 4, 4 := Some (9::nat)) in
   slist hp 0 [4, 9] \<and> (\<exists>hp'. rt_slist_append 0 5 hp = Some hp' \<and> slist hp' 0 [4, 9, 5]) \<and>
   (\<exists>hp'. rt_slist_remove 0 4 hp = Some hp' \<and> slist hp' 0 [9])"
proof -
  have h: "slist ((\<lambda>_. None)(0 := Some 4, 4 := Some (9::nat))) 0 [4, 9]"
    by (simp add: slist_def)
  show ?thesis
    using h rt_slist_implements_list[OF h, of 5] rt_slist_implements_list[OF h, of 4] by simp
qed

end
