(* ===== verification/Kservice.thy ===== *)
theory Kservice
  imports Prelude
begin

unbundle bit_operations_syntax

text \<open>
  The bit scan of \<^verbatim>\<open>src/kservice.c\<close>: the table \<^verbatim>\<open>__lowest_bit_bitmap\<close> and
  \<^verbatim>\<open>__rt_ffs\<close>, which the scheduler uses to find the highest ready priority in its
  bitmaps. The locale \<open>find_first_set\<close> is what the scheduler relies on.
\<close>

section \<open>Find first set\<close>

definition lowest_bit_bitmap :: "u8 list" where
  "lowest_bit_bitmap =
    [0, 0, 1, 0, 2, 0, 1, 0, 3, 0, 1, 0, 2, 0, 1, 0,
     4, 0, 1, 0, 2, 0, 1, 0, 3, 0, 1, 0, 2, 0, 1, 0,
     5, 0, 1, 0, 2, 0, 1, 0, 3, 0, 1, 0, 2, 0, 1, 0,
     4, 0, 1, 0, 2, 0, 1, 0, 3, 0, 1, 0, 2, 0, 1, 0,
     6, 0, 1, 0, 2, 0, 1, 0, 3, 0, 1, 0, 2, 0, 1, 0,
     4, 0, 1, 0, 2, 0, 1, 0, 3, 0, 1, 0, 2, 0, 1, 0,
     5, 0, 1, 0, 2, 0, 1, 0, 3, 0, 1, 0, 2, 0, 1, 0,
     4, 0, 1, 0, 2, 0, 1, 0, 3, 0, 1, 0, 2, 0, 1, 0,
     7, 0, 1, 0, 2, 0, 1, 0, 3, 0, 1, 0, 2, 0, 1, 0,
     4, 0, 1, 0, 2, 0, 1, 0, 3, 0, 1, 0, 2, 0, 1, 0,
     5, 0, 1, 0, 2, 0, 1, 0, 3, 0, 1, 0, 2, 0, 1, 0,
     4, 0, 1, 0, 2, 0, 1, 0, 3, 0, 1, 0, 2, 0, 1, 0,
     6, 0, 1, 0, 2, 0, 1, 0, 3, 0, 1, 0, 2, 0, 1, 0,
     4, 0, 1, 0, 2, 0, 1, 0, 3, 0, 1, 0, 2, 0, 1, 0,
     5, 0, 1, 0, 2, 0, 1, 0, 3, 0, 1, 0, 2, 0, 1, 0,
     4, 0, 1, 0, 2, 0, 1, 0, 3, 0, 1, 0, 2, 0, 1, 0]"

text \<open>
  The argument is a C \<open>int\<close>, kept as its 32 bits. The mask of the last case,
  \<^verbatim>\<open>0xff000000\<close>, is an unsigned constant, so its right shift brings in zeros.
\<close>

definition rt_ffs :: "u32 \<Rightarrow> nat" where
  "rt_ffs value =
     (if value = 0 then 0
      else if value AND 0xff \<noteq> 0 then unat (lowest_bit_bitmap ! unat (value AND 0xff)) + 1
      else if value AND 0xff00 \<noteq> 0 then
        unat (lowest_bit_bitmap ! unat (drop_bit 8 (value AND 0xff00))) + 9
      else if value AND 0xff0000 \<noteq> 0 then
        unat (lowest_bit_bitmap ! unat (drop_bit 16 (value AND 0xff0000))) + 17
      else unat (lowest_bit_bitmap ! unat (drop_bit 24 (value AND 0xff000000))) + 25)"

definition lowest_bit :: "'a::len word \<Rightarrow> nat \<Rightarrow> bool" where
  "lowest_bit w k \<longleftrightarrow> bit w k \<and> (\<forall>j < k. \<not> bit w j)"

text \<open>
  Every entry of the table, checked one by one: entry \<open>i\<close> is the exponent of two in \<open>i\<close>.
\<close>

definition entry_ok :: "int \<Rightarrow> u8 \<Rightarrow> bool" where
  "entry_ok i e \<longleftrightarrow> unat e < 8 \<and> i mod 2 ^ (unat e + 1) = 2 ^ unat e"

fun entries_ok :: "int \<Rightarrow> u8 list \<Rightarrow> bool" where
  "entries_ok i [] \<longleftrightarrow> True"
| "entries_ok i (e # es) \<longleftrightarrow> entry_ok i e \<and> entries_ok (i + 1) es"

lemma entries_ok_nth: "entries_ok i es \<Longrightarrow> j < length es \<Longrightarrow> entry_ok (i + int j) (es ! j)"
proof (induction es arbitrary: i j)
  case (Cons e es)
  then show ?case by (cases j) (force simp: algebra_simps)+
qed simp

lemma table_checked: "entries_ok 1 (tl lowest_bit_bitmap)"
  by (simp add: lowest_bit_bitmap_def entry_ok_def)

lemma length_table: "length lowest_bit_bitmap = 256"
  by (simp add: lowest_bit_bitmap_def)

lemma table_nth:
  assumes "0 < n" "n < 256"
  shows "entry_ok (int n) (lowest_bit_bitmap ! n)"
proof -
  have "n - 1 < length (tl lowest_bit_bitmap)" using assms by (simp add: length_table)
  from entries_ok_nth[OF table_checked this] assms show ?thesis
    by (simp add: nth_tl length_table of_nat_diff)
qed

lemma entry_bits:
  assumes "entry_ok (int n) e"
  shows "bit n (unat e)" "j < unat e \<Longrightarrow> \<not> bit n j"
proof -
  from assms have "int (n mod 2 ^ (unat e + 1)) = int (2 ^ unat e)"
    by (simp add: entry_ok_def zmod_int)
  then have t: "take_bit (unat e + 1) n = 2 ^ unat e"
    unfolding take_bit_eq_mod by (rule of_nat_eq_iff[THEN iffD1])
  show "bit n (unat e)"
    using arg_cong[OF t, of "\<lambda>x. bit x (unat e)"]
    by (simp add: bit_take_bit_iff bit_exp_iff)
  show "\<not> bit n j" if "j < unat e"
    using that arg_cong[OF t, of "\<lambda>x. bit x j"] by (simp add: bit_take_bit_iff bit_exp_iff)
qed

text \<open>The table gives the lowest set bit of a byte.\<close>

lemma table_lowest_bit:
  fixes b :: u32
  assumes "b \<noteq> 0" "unat b < 256"
  shows "lowest_bit b (unat (lowest_bit_bitmap ! unat b))" "unat (lowest_bit_bitmap ! unat b) < 8"
proof -
  have ok: "entry_ok (int (unat b)) (lowest_bit_bitmap ! unat b)"
    using assms by (intro table_nth) (simp_all add: unat_gt_0)
  then show k: "unat (lowest_bit_bitmap ! unat b) < 8" by (simp add: entry_ok_def)
  show "lowest_bit b (unat (lowest_bit_bitmap ! unat b))"
    using entry_bits[OF ok] k by (auto simp: lowest_bit_def bit_unsigned_iff)
qed

text \<open>A byte cut out of a word at offset \<open>s\<close>.\<close>

lemma byte_at:
  fixes v :: u32
  assumes "m = push_bit s (mask 8)" "s + 8 \<le> 32"
  shows "bit (drop_bit s (v AND m)) j \<longleftrightarrow> bit v (s + j) \<and> j < 8"
    and "unat (drop_bit s (v AND m)) < 256"
    and "v AND m \<noteq> 0 \<Longrightarrow> drop_bit s (v AND m) \<noteq> 0"
    and "v AND m = 0 \<Longrightarrow> j < 8 \<Longrightarrow> \<not> bit v (s + j)"
proof -
  show b: "bit (drop_bit s (v AND m)) j \<longleftrightarrow> bit v (s + j) \<and> j < 8" for j
    using assms by (auto simp: bit_simps dest: bit_imp_le_length)
  define c where "c = drop_bit s (v AND m)"
  have "take_bit 8 c = c"
    by (rule bit_word_eqI) (auto simp: b bit_take_bit_iff c_def simp del: drop_bit_and)
  then have "unat c = take_bit 8 (unat c)"
    by (metis unsigned_take_bit_eq)
  then show "unat (drop_bit s (v AND m)) < 256"
    using take_bit_nat_less_exp[of 8 "unat c"] unfolding c_def by simp
  show "drop_bit s (v AND m) \<noteq> 0" if "v AND m \<noteq> 0"
  proof -
    from that obtain i where "bit (v AND m) i" by (metis bit_word_eqI bit_0_eq bot_apply bot_bool_def)
    then have "s \<le> i" "bit v i" "i < s + 8" using assms by (auto simp: bit_simps)
    then have "bit (drop_bit s (v AND m)) (i - s)" by (auto simp: b simp del: drop_bit_and)
    then show ?thesis by auto
  qed
  show "\<not> bit v (s + j)" if "v AND m = 0" "j < 8"
    using b[of j] that by simp
qed

lemma lowest_bit_shift:
  fixes v :: u32
  assumes "m = push_bit s (mask 8)" "s + 8 \<le> 32" "\<And>j. j < s \<Longrightarrow> \<not> bit v j" "v AND m \<noteq> 0"
  shows "lowest_bit v (s + unat (lowest_bit_bitmap ! unat (drop_bit s (v AND m))))"
    and "s + unat (lowest_bit_bitmap ! unat (drop_bit s (v AND m))) < s + 8"
proof -
  note byte = byte_at[OF assms(1,2), of v]
  note low = table_lowest_bit[OF byte(3)[OF assms(4)] byte(2)]
  show "s + unat (lowest_bit_bitmap ! unat (drop_bit s (v AND m))) < s + 8"
    using low(2) by simp
  have "\<not> bit v j" if "j < s + unat (lowest_bit_bitmap ! unat (drop_bit s (v AND m)))" for j
  proof (cases "j < s")
    case True
    then show ?thesis by (rule assms(3))
  next
    case False
    with that have "j - s < unat (lowest_bit_bitmap ! unat (drop_bit s (v AND m)))" by simp
    with low have "\<not> bit (drop_bit s (v AND m)) (j - s)" "j - s < 8"
      by (auto simp: lowest_bit_def simp del: drop_bit_and)
    then show ?thesis using byte(1)[of "j - s"] False by auto
  qed
  then show "lowest_bit v (s + unat (lowest_bit_bitmap ! unat (drop_bit s (v AND m))))"
    using low byte(1) by (auto simp: lowest_bit_def simp del: drop_bit_and)
qed

lemma below_split:
  "(\<And>j. j < s \<Longrightarrow> \<not> bit v j) \<Longrightarrow> (\<And>j. j < 8 \<Longrightarrow> \<not> bit v (s + j)) \<Longrightarrow> j < s + 8 \<Longrightarrow> \<not> bit v j"
  for v :: u32
  by (metis add_diff_inverse_nat less_diff_conv2 not_le add.commute nat_add_left_cancel_less)

lemma rt_ffs_correct:
  assumes "v \<noteq> 0"
  shows "lowest_bit v (rt_ffs v - 1) \<and> 1 \<le> rt_ffs v \<and> rt_ffs v \<le> 32"
proof -
  have m: "(0xff :: u32) = push_bit 0 (mask 8)" "(0xff00 :: u32) = push_bit 8 (mask 8)"
    "(0xff0000 :: u32) = push_bit 16 (mask 8)" "(0xff000000 :: u32) = push_bit 24 (mask 8)"
    by (simp_all add: mask_eq_exp_minus_1 push_bit_eq_mult)
  have b0: "\<not> bit v j" if "v AND 0xff = 0" "j < 8" for j
    using byte_at(4)[OF m(1), of v j] that by simp
  have b1: "\<not> bit v j" if "v AND 0xff = 0" "v AND 0xff00 = 0" "j < 16" for j
    using below_split[of 8 v j] b0 byte_at(4)[OF m(2), of v] that by simp
  have b2: "\<not> bit v j" if "v AND 0xff = 0" "v AND 0xff00 = 0" "v AND 0xff0000 = 0" "j < 24" for j
    using below_split[of 16 v j] b1 byte_at(4)[OF m(3), of v] that by simp
  have nz: "v AND 0xff000000 \<noteq> 0" if "v AND 0xff = 0" "v AND 0xff00 = 0" "v AND 0xff0000 = 0"
  proof
    assume z: "v AND 0xff000000 = 0"
    have "\<not> bit v j" if "j < 32" for j
      using below_split[of 24 v j] b2 byte_at(4)[OF m(4) _ z] that \<open>v AND 0xff = 0\<close>
        \<open>v AND 0xff00 = 0\<close> \<open>v AND 0xff0000 = 0\<close> by simp
    then have "v = 0" by (intro bit_word_eqI) simp
    with assms show False by simp
  qed
  consider "v AND 0xff \<noteq> 0" | "v AND 0xff = 0" "v AND 0xff00 \<noteq> 0"
    | "v AND 0xff = 0" "v AND 0xff00 = 0" "v AND 0xff0000 \<noteq> 0"
    | "v AND 0xff = 0" "v AND 0xff00 = 0" "v AND 0xff0000 = 0" by blast
  then show ?thesis
  proof cases
    case 1
    then show ?thesis using assms lowest_bit_shift[OF m(1), of v] by (simp add: rt_ffs_def)
  next
    case 2
    then show ?thesis
      using assms lowest_bit_shift[OF m(2), of v] b0 by (simp add: rt_ffs_def add.commute)
  next
    case 3
    then show ?thesis
      using assms lowest_bit_shift[OF m(3), of v] b1 by (simp add: rt_ffs_def add.commute)
  next
    case 4
    then show ?thesis
      using assms lowest_bit_shift[OF m(4), of v] b2 nz by (simp add: rt_ffs_def add.commute)
  qed
qed

text \<open>
  What the scheduler relies on: zero is mapped to zero, any other value to one more than the
  index of its lowest set bit.
\<close>

locale find_first_set =
  fixes ffs :: "'w::len word \<Rightarrow> nat"
  assumes ffs_zero: "ffs 0 = 0"
    and ffs_lowest: "v \<noteq> 0 \<Longrightarrow> 0 < ffs v \<and> lowest_bit v (ffs v - 1)"
begin

lemma ffs_bit: "v \<noteq> 0 \<Longrightarrow> bit v (ffs v - 1)"
  using ffs_lowest by (simp add: lowest_bit_def)

lemma ffs_least: "bit v j \<Longrightarrow> ffs v - 1 \<le> j"
  using ffs_lowest[of v] by (force simp: lowest_bit_def not_less[symmetric])

lemma ffs_eq: "bit v k \<Longrightarrow> (\<And>j. j < k \<Longrightarrow> \<not> bit v j) \<Longrightarrow> ffs v = k + 1"
proof -
  assume k: "bit v k" "\<And>j. j < k \<Longrightarrow> \<not> bit v j"
  then have "v \<noteq> 0" by auto
  then have "ffs v - 1 = k" using k ffs_bit ffs_least[OF k(1)] by (meson le_neq_implies_less)
  then show ?thesis using ffs_lowest[OF \<open>v \<noteq> 0\<close>] by linarith
qed

lemma ffs_zero_iff: "ffs v = 0 \<longleftrightarrow> v = 0"
  using ffs_lowest ffs_zero by fastforce

end

interpretation ffs: find_first_set rt_ffs
  by unfold_locales (use rt_ffs_correct in \<open>force simp: rt_ffs_def\<close>)+

text \<open>
  C2. \<^verbatim>\<open>__rt_ffs\<close> meets its comment: it returns \<open>0\<close> for \<open>0\<close>, and otherwise one plus the
  index of the least significant set bit, which is between 1 and 32.
\<close>

theorem rt_ffs_lowest_set_bit:
  "rt_ffs v = (if v = 0 then 0 else (LEAST k. bit v k) + 1) \<and> rt_ffs v \<le> 32"
proof (cases "v = 0")
  case True
  then show ?thesis by (simp add: ffs.ffs_zero)
next
  case False
  have "(LEAST k. bit v k) = rt_ffs v - 1"
    using ffs.ffs_bit[OF False] ffs.ffs_least by (intro Least_equality) auto
  then show ?thesis using False rt_ffs_correct[OF False] by auto
qed

end
