(* ===== verification/KState.thy ===== *)
theory KState
  imports RtList Kservice
begin

unbundle bit_operations_syntax

text \<open>
  The kernel objects of \<^verbatim>\<open>include/rtdef.h\<close> and the state the scheduler and the object
  container work on. The configuration is the uniprocessor kernel with
  \<^verbatim>\<open>RT_DEBUG\<close> assertions, without \<^verbatim>\<open>RT_USING_SMP\<close>,
  \<^verbatim>\<open>RT_USING_HOOK\<close>, \<^verbatim>\<open>RT_USING_SIGNALS\<close>, \<^verbatim>\<open>RT_USING_MODULE\<close> and
  \<^verbatim>\<open>RT_USING_TIMER_SOFT\<close>; \<^verbatim>\<open>RT_THREAD_PRIORITY_MAX\<close> is the field \<open>prio_max\<close>, so
  that both branches of the \<^verbatim>\<open>#if RT_THREAD_PRIORITY_MAX > 32\<close> are in the model.

  Pointers to objects are identifiers. A thread's \<open>thread_timer\<close> is embedded in the thread,
  so its identifier is built from the thread's. The intrusive lists are families of lists
  (theory \<^verbatim>\<open>RtList\<close>), one family for the \<open>tlist\<close> nodes of threads and one for the
  \<open>list\<close> nodes of objects. Regions bracketed by \<^verbatim>\<open>rt_hw_interrupt_disable\<close> and
  \<^verbatim>\<open>rt_hw_interrupt_enable\<close> are single steps.

  The state is a record that the later theories extend: timers (\<^verbatim>\<open>Timer\<close>), then the IPC
  objects (\<^verbatim>\<open>IpcState\<close>). The operations are polymorphic in the extension.
\<close>

section \<open>Identifiers\<close>

type_synonym tid = nat

datatype timer_id = ThreadTimer tid | UserTimer nat

datatype ipc_id = SemId nat | MutexId nat | EventId nat | MailBoxId nat | MessageQueueId nat

datatype dev_id = CompletionId nat | PushId nat | PopId nat

datatype oid = ThreadObj tid | TimerObj timer_id | IpcObj ipc_id | MemPoolObj nat | MemHeapObj nat | DeviceObj nat

text \<open>
  The heap is the set of the blocks that are allocated: the memory of an object made by a
  \<^verbatim>\<open>create\<close> function, or the buffer that belongs to one (the stack of a thread, the pool
  of a mailbox or of a message queue). Static objects and their buffers are not in it, and
  \<^verbatim>\<open>rt_free\<close> (\<^verbatim>\<open>src/mem.c\<close>) asserts that what it frees is.
\<close>

datatype blk = ObjBlk oid | BufBlk oid

text \<open>The heads that thread nodes are linked to.\<close>

datatype lhead =
  Ready nat                \<comment> \<open>\<open>rt_thread_priority_table[p]\<close>\<close>
| Defunct                  \<comment> \<open>\<open>rt_thread_defunct\<close>\<close>
| Suspended ipc_id         \<comment> \<open>\<open>parent.suspend_thread\<close> of an IPC object\<close>
| SuspendedSender nat      \<comment> \<open>\<open>suspend_sender_thread\<close> of a mailbox\<close>
| SuspendedPool nat        \<comment> \<open>\<open>suspend_thread\<close> of a memory pool\<close>
| SuspendedDev dev_id      \<comment> \<open>\<open>suspended_list\<close> of a completion, the two lists of a data queue\<close>

section \<open>Threads and objects\<close>

abbreviation RT_THREAD_INIT :: u8 where "RT_THREAD_INIT \<equiv> 0"
abbreviation RT_THREAD_READY :: u8 where "RT_THREAD_READY \<equiv> 1"
abbreviation RT_THREAD_SUSPEND :: u8 where "RT_THREAD_SUSPEND \<equiv> 2"
abbreviation RT_THREAD_CLOSE :: u8 where "RT_THREAD_CLOSE \<equiv> 4"
abbreviation RT_THREAD_STAT_MASK :: u8 where "RT_THREAD_STAT_MASK \<equiv> 0x0f"

record rt_object =
  name :: "u8 list"
  otype :: u8
  oflag :: u8

record rt_thread =
  error :: rt_err
  stat :: u8
  current_priority :: u8
  init_priority :: u8
  number :: u8
  high_mask :: u8
  number_mask :: u32
  event_set :: u32
  event_info :: u8
  thread_init_tick :: u32
  remaining_tick :: u32
  cleanup :: bool

record kbase =
  prio_max :: nat
  thr :: "tid \<Rightarrow> rt_thread"
  tl :: "lhead \<Rightarrow> tid list"
  ready_group :: u32
  ready_table :: "nat \<Rightarrow> u8"
  cur :: "tid option"
  cur_prio :: u8
  lock_nest :: u16
  irq_nest :: u8
  objs :: "oid \<Rightarrow> rt_object"
  olists :: "u8 \<Rightarrow> oid list"
  heap :: "blk set"

definition upd_thr ::
  "tid \<Rightarrow> (rt_thread \<Rightarrow> rt_thread) \<Rightarrow> 'a kbase_scheme \<Rightarrow> 'a kbase_scheme" where
  "upd_thr t f s = s\<lparr>thr := (thr s)(t := f (thr s t))\<rparr>"

definition tstat :: "'a kbase_scheme \<Rightarrow> tid \<Rightarrow> u8" where
  "tstat s t = stat (thr s t) AND RT_THREAD_STAT_MASK"

definition prio_of :: "'a kbase_scheme \<Rightarrow> tid \<Rightarrow> nat" where
  "prio_of s t = unat (current_priority (thr s t))"

lemma upd_thr_sel [simp]:
  "thr (upd_thr t f s) = (thr s)(t := f (thr s t))"
  "prio_max (upd_thr t f s) = prio_max s" "tl (upd_thr t f s) = tl s"
  "ready_group (upd_thr t f s) = ready_group s" "ready_table (upd_thr t f s) = ready_table s"
  "cur (upd_thr t f s) = cur s" "cur_prio (upd_thr t f s) = cur_prio s"
  "lock_nest (upd_thr t f s) = lock_nest s" "irq_nest (upd_thr t f s) = irq_nest s"
  "objs (upd_thr t f s) = objs s" "olists (upd_thr t f s) = olists s"
  "heap (upd_thr t f s) = heap s"
  "kbase.more (upd_thr t f s) = kbase.more s"
  by (simp_all add: upd_thr_def)

text \<open>
  The low four bits of \<open>stat\<close> are the thread's state, the others are signal flags, which
  the scheduler carries along.
\<close>

definition set_stat :: "u8 \<Rightarrow> rt_thread \<Rightarrow> rt_thread" where
  "set_stat st th = th\<lparr>stat := st OR (stat th AND NOT RT_THREAD_STAT_MASK)\<rparr>"

lemma or_masked: "(st OR (x AND NOT m)) AND m = st AND m" for m :: u8
  by (rule bit_word_eqI) (auto simp: bit_simps)

lemma set_stat_state [simp]:
  "st AND RT_THREAD_STAT_MASK = st \<Longrightarrow> stat (set_stat st th) AND RT_THREAD_STAT_MASK = st"
  using or_masked[of st "stat th" RT_THREAD_STAT_MASK] by (simp add: set_stat_def)

lemma set_stat_sel [simp]:
  "current_priority (set_stat st th) = current_priority th"
  "init_priority (set_stat st th) = init_priority th" "number (set_stat st th) = number th"
  "high_mask (set_stat st th) = high_mask th" "number_mask (set_stat st th) = number_mask th"
  "error (set_stat st th) = error th" "event_set (set_stat st th) = event_set th"
  "event_info (set_stat st th) = event_info th"
  "thread_init_tick (set_stat st th) = thread_init_tick th"
  "remaining_tick (set_stat st th) = remaining_tick th" "cleanup (set_stat st th) = cleanup th"
  by (simp_all add: set_stat_def)

text \<open>
  \<^verbatim>\<open>RT_DEBUG_NOT_IN_INTERRUPT\<close> and \<^verbatim>\<open>RT_DEBUG_IN_THREAD_CONTEXT\<close> of
  \<^verbatim>\<open>include/rtdebug.h\<close>.
\<close>

definition rt_debug_not_in_interrupt :: "'a kbase_scheme \<Rightarrow> unit option" where
  "rt_debug_not_in_interrupt s = rt_assert (irq_nest s = 0)"

definition rt_debug_in_thread_context :: "'a kbase_scheme \<Rightarrow> unit option" where
  "rt_debug_in_thread_context s = do { rt_assert (cur s \<noteq> None); rt_debug_not_in_interrupt s }"

text \<open>
  \<^verbatim>\<open>RT_KERNEL_FREE\<close>, as far as the set of allocated blocks goes: \<^verbatim>\<open>rt_free\<close> must not
  be called in an interrupt and asserts that the pointer lies in the heap.
\<close>

definition kernel_free :: "blk \<Rightarrow> 'a kbase_scheme \<Rightarrow> 'a kbase_scheme option" where
  "kernel_free b s = do {
     rt_debug_not_in_interrupt s;
     rt_assert (b \<in> heap s);
     Some (s\<lparr>heap := heap s - {b}\<rparr>)
   }"

end
