(* ===== verification/Scheduler.thy ===== *)
theory Scheduler
  imports KState
begin

unbundle bit_operations_syntax

text \<open>
  \<^verbatim>\<open>src/scheduler.c\<close>, uniprocessor build: the ready queues (one list per priority),
  the bitmaps that say which of them are not empty (one level for up to 32 priorities, two
  levels beyond), and the routines that insert, remove and pick threads.

  The running thread is in no ready queue. The invariant \<open>sched_inv X\<close> says that the queues
  hold exactly the other ready threads, each in the queue of its priority, and that the
  bitmaps mirror the queues; the threads of \<open>X\<close> are in limbo, taken out of every list by an
  operation that has not put them back yet.
\<close>

section \<open>Operations\<close>

text \<open>
  The block that recomputes \<open>number\<close>, \<open>number_mask\<close> and \<open>high_mask\<close> after a change of
  priority, in \<^verbatim>\<open>rt_thread_startup\<close> and \<^verbatim>\<open>rt_thread_control\<close>.
\<close>

definition set_priority_attr :: "nat \<Rightarrow> rt_thread \<Rightarrow> rt_thread" where
  "set_priority_attr pm th =
     (if pm > 32 then
        let n = drop_bit 3 (current_priority th) in
        th\<lparr>number := n, number_mask := push_bit (unat n) 1,
           high_mask := push_bit (unat (current_priority th AND 0x07)) 1\<rparr>
      else th\<lparr>number_mask := push_bit (unat (current_priority th)) 1\<rparr>)"

definition rt_schedule_insert_thread :: "tid \<Rightarrow> 'a kbase_scheme \<Rightarrow> 'a kbase_scheme" where
  "rt_schedule_insert_thread t s =
     (let s1 = upd_thr t (set_stat RT_THREAD_READY) s in
      if cur s1 = Some t then s1
      else
        let th = thr s1 t;
            s2 = s1\<lparr>tl := ls_insert_before (Ready (prio_of s1 t)) t (tl s1)\<rparr>;
            s3 = (if prio_max s2 > 32
                  then s2\<lparr>ready_table := (ready_table s2)
                            (unat (number th) := ready_table s2 (unat (number th)) OR high_mask th)\<rparr>
                  else s2)
        in s3\<lparr>ready_group := ready_group s3 OR number_mask th\<rparr>)"

definition rt_schedule_remove_thread :: "tid \<Rightarrow> 'a kbase_scheme \<Rightarrow> 'a kbase_scheme" where
  "rt_schedule_remove_thread t s =
     (let th = thr s t;
          s1 = s\<lparr>tl := ls_remove t (tl s)\<rparr> in
      if tl s1 (Ready (prio_of s1 t)) = [] then
        if prio_max s1 > 32 then
          let s2 = s1\<lparr>ready_table := (ready_table s1)
                       (unat (number th) := ready_table s1 (unat (number th)) AND NOT (high_mask th))\<rparr>
          in if ready_table s2 (unat (number th)) = 0
             then s2\<lparr>ready_group := ready_group s2 AND NOT (number_mask th)\<rparr> else s2
        else s1\<lparr>ready_group := ready_group s1 AND NOT (number_mask th)\<rparr>
      else s1)"

text \<open>
  \<^verbatim>\<open>_get_highest_priority_thread\<close>: \<open>None\<close> where the code would index a table with \<open>-1\<close>
  or read a list head as if it were a thread.
\<close>

definition get_highest_priority_thread :: "'a kbase_scheme \<Rightarrow> (nat \<times> tid) option" where
  "get_highest_priority_thread s =
     (if ready_group s = 0 then None
      else
        let highest = (if prio_max s > 32 then
                         let n = rt_ffs (ready_group s) - 1
                         in n * 8 + rt_ffs (ucast (ready_table s n)) - 1
                       else rt_ffs (ready_group s) - 1)
        in case tl s (Ready highest) of [] \<Rightarrow> None | t # _ \<Rightarrow> Some (highest, t))"

text \<open>
  \<^verbatim>\<open>rt_schedule\<close>. The context switch is the change of \<open>cur\<close>: from then on the steps
  taken are those of the new thread. \<open>None\<close> is the dereference of a null
  \<^verbatim>\<open>rt_current_thread\<close>, or the undefined read above.
\<close>

definition rt_schedule :: "'a kbase_scheme \<Rightarrow> 'a kbase_scheme option" where
  "rt_schedule s =
     (if lock_nest s = 0 then
        if ready_group s \<noteq> 0 then do {
          (highest, to0) \<leftarrow> get_highest_priority_thread s;
          c \<leftarrow> cur s;
          let (to, need_insert_from_thread) =
            (if tstat s c = RT_THREAD_READY then
               if prio_of s c < highest then (c, False) else (to0, True)
             else (to0, False));
          if to \<noteq> c then
            let s1 = s\<lparr>cur_prio := of_nat highest, cur := Some to\<rparr>;
                s2 = (if need_insert_from_thread then rt_schedule_insert_thread c s1 else s1)
            in Some (rt_schedule_remove_thread to s2)
          else Some (rt_schedule_remove_thread c s)
        }
        else Some s
      else Some s)"

definition rt_system_scheduler_init :: "'a kbase_scheme \<Rightarrow> 'a kbase_scheme" where
  "rt_system_scheduler_init s =
     s\<lparr>lock_nest := 0,
       tl := (\<lambda>h. case h of Ready p \<Rightarrow> if p < prio_max s then [] else tl s h
                          | Defunct \<Rightarrow> [] | _ \<Rightarrow> tl s h),
       ready_group := 0,
       ready_table := (if prio_max s > 32 then (\<lambda>n. if n < 32 then 0 else ready_table s n)
                       else ready_table s)\<rparr>"

definition rt_system_scheduler_start :: "'a kbase_scheme \<Rightarrow> 'a kbase_scheme option" where
  "rt_system_scheduler_start s = do {
     (_, to_thread) \<leftarrow> get_highest_priority_thread s;
     Some (rt_schedule_remove_thread to_thread (s\<lparr>cur := Some to_thread\<rparr>))
   }"

definition rt_enter_critical :: "'a kbase_scheme \<Rightarrow> 'a kbase_scheme" where
  "rt_enter_critical s = s\<lparr>lock_nest := lock_nest s + 1\<rparr>"

definition rt_exit_critical :: "'a kbase_scheme \<Rightarrow> 'a kbase_scheme option" where
  "rt_exit_critical s =
     (let s1 = s\<lparr>lock_nest := lock_nest s - 1\<rparr> in
      if sint (lock_nest s1) \<le> 0 then rt_schedule (s1\<lparr>lock_nest := 0\<rparr>) else Some s1)"

definition rt_critical_level :: "'a kbase_scheme \<Rightarrow> u16" where
  "rt_critical_level s = lock_nest s"

section \<open>Invariant\<close>

definition attr_ok :: "nat \<Rightarrow> rt_thread \<Rightarrow> bool" where
  "attr_ok pm th \<longleftrightarrow>
     unat (current_priority th) < pm \<and>
     (if pm > 32 then
        number th = drop_bit 3 (current_priority th) \<and>
        number_mask th = push_bit (unat (number th)) 1 \<and>
        high_mask th = push_bit (unat (current_priority th AND 0x07)) 1
      else number_mask th = push_bit (unat (current_priority th)) 1)"

text \<open>The state a thread in a given list is in.\<close>

definition list_stat :: "lhead \<Rightarrow> u8" where
  "list_stat h = (case h of Ready _ \<Rightarrow> RT_THREAD_READY | Defunct \<Rightarrow> RT_THREAD_CLOSE
                          | _ \<Rightarrow> RT_THREAD_SUSPEND)"

definition queue_ok :: "tid set \<Rightarrow> 'a kbase_scheme \<Rightarrow> bool" where
  "queue_ok X s \<longleftrightarrow>
     lists_ok (tl s) \<and>
     (\<forall>h t. t \<in> set (tl s h) \<longrightarrow> tstat s t = list_stat h) \<and>
     (\<forall>p t. t \<in> set (tl s (Ready p)) \<longrightarrow> prio_of s t = p \<and> cur s \<noteq> Some t) \<and>
     (\<forall>t. tstat s t = RT_THREAD_READY \<longrightarrow> cur s \<noteq> Some t \<longrightarrow> t \<notin> X \<longrightarrow>
          t \<in> set (tl s (Ready (prio_of s t)))) \<and>
     (\<forall>t \<in> X. unlinked t (tl s)) \<and>
     (\<forall>t. tstat s t \<noteq> RT_THREAD_INIT \<longrightarrow> attr_ok (prio_max s) (thr s t))"

definition bitmap_ok :: "'a kbase_scheme \<Rightarrow> bool" where
  "bitmap_ok s \<longleftrightarrow>
     (if prio_max s > 32 then
        (\<forall>n < 32. bit (ready_group s) n \<longleftrightarrow> ready_table s n \<noteq> 0) \<and>
        (\<forall>p < 256. bit (ready_table s (p div 8)) (p mod 8) \<longleftrightarrow> tl s (Ready p) \<noteq> [])
      else (\<forall>p < 32. bit (ready_group s) p \<longleftrightarrow> tl s (Ready p) \<noteq> []))"

definition sched_inv :: "tid set \<Rightarrow> 'a kbase_scheme \<Rightarrow> bool" where
  "sched_inv X s \<longleftrightarrow> prio_max s \<le> 256 \<and> queue_ok X s \<and> bitmap_ok s"

section \<open>What insertion and removal change\<close>

lemma insert_thread_sel [simp]:
  "thr (rt_schedule_insert_thread t s) = (thr s)(t := set_stat RT_THREAD_READY (thr s t))"
  "tl (rt_schedule_insert_thread t s) =
     (if cur s = Some t then tl s else ls_insert_before (Ready (prio_of s t)) t (tl s))"
  "cur (rt_schedule_insert_thread t s) = cur s"
  "prio_max (rt_schedule_insert_thread t s) = prio_max s"
  "cur_prio (rt_schedule_insert_thread t s) = cur_prio s"
  "lock_nest (rt_schedule_insert_thread t s) = lock_nest s"
  "irq_nest (rt_schedule_insert_thread t s) = irq_nest s"
  "objs (rt_schedule_insert_thread t s) = objs s"
  "olists (rt_schedule_insert_thread t s) = olists s"
  "heap (rt_schedule_insert_thread t s) = heap s"
  "kbase.more (rt_schedule_insert_thread t s) = kbase.more s"
  by (simp_all add: rt_schedule_insert_thread_def Let_def prio_of_def)

lemma remove_thread_sel [simp]:
  "thr (rt_schedule_remove_thread t s) = thr s"
  "tl (rt_schedule_remove_thread t s) = ls_remove t (tl s)"
  "cur (rt_schedule_remove_thread t s) = cur s"
  "prio_max (rt_schedule_remove_thread t s) = prio_max s"
  "cur_prio (rt_schedule_remove_thread t s) = cur_prio s"
  "lock_nest (rt_schedule_remove_thread t s) = lock_nest s"
  "irq_nest (rt_schedule_remove_thread t s) = irq_nest s"
  "objs (rt_schedule_remove_thread t s) = objs s"
  "olists (rt_schedule_remove_thread t s) = olists s"
  "heap (rt_schedule_remove_thread t s) = heap s"
  "kbase.more (rt_schedule_remove_thread t s) = kbase.more s"
  by (simp_all add: rt_schedule_remove_thread_def Let_def)

lemma prio_of_insert_thread [simp]: "prio_of (rt_schedule_insert_thread t s) u = prio_of s u"
  by (simp add: prio_of_def)

lemma prio_of_remove_thread [simp]: "prio_of (rt_schedule_remove_thread t s) u = prio_of s u"
  by (simp add: prio_of_def)

lemma tstat_insert_thread [simp]:
  "tstat (rt_schedule_insert_thread t s) u = (if u = t then RT_THREAD_READY else tstat s u)"
  by (simp add: tstat_def)

lemma tstat_remove_thread [simp]: "tstat (rt_schedule_remove_thread t s) u = tstat s u"
  by (simp add: tstat_def)

section \<open>The bitmaps mirror the queues\<close>

lemma unat_and_7: "unat (x AND 7) = unat x mod 8" for x :: u8
proof -
  have "unat (x AND 7) = unat (take_bit 3 x)"
    by (simp add: take_bit_eq_mask mask_eq_exp_minus_1)
  also have "\<dots> = unat x mod 8" by (simp add: take_bit_eq_mod unat_mod_distrib)
  finally show ?thesis .
qed

lemma unat_drop_3: "unat (drop_bit 3 x) = unat x div 8" for x :: u8
  by (simp add: drop_bit_eq_div unat_div_distrib)

lemma bit_shifted_one: "bit (push_bit k 1 :: 'a::len word) n \<longleftrightarrow> n = k \<and> n < LENGTH('a)"
  by (auto simp: bit_simps)

lemma u8_zero_iff: "x = 0 \<longleftrightarrow> (\<forall>i < 8. \<not> bit x i)" for x :: u8
  by (auto simp: bit_eq_iff)

lemma ucast_u8_zero: "ucast x = (0::u32) \<Longrightarrow> x = 0" for x :: u8
proof (rule bit_eqI)
  fix i
  assume *: "ucast x = (0::u32)"
  have "bit x i \<Longrightarrow> bit (ucast x :: u32) i"
    using bit_imp_le_length[of x i] by (simp add: bit_unsigned_iff)
  then show "bit x i = bit 0 i" using * by auto
qed

lemma attr_ok_masks:
  assumes "attr_ok pm th" "pm > 32"
  shows "unat (number th) = unat (current_priority th) div 8"
    "number_mask th = push_bit (unat (current_priority th) div 8) 1"
    "high_mask th = push_bit (unat (current_priority th) mod 8) 1"
  using assms by (simp_all add: attr_ok_def unat_drop_3 unat_and_7)

lemma attr_ok_set_stat [simp]: "attr_ok pm (set_stat st th) = attr_ok pm th"
  by (simp add: attr_ok_def)

lemma attr_ok_set_priority:
  "unat (current_priority th) < pm \<Longrightarrow> attr_ok pm (set_priority_attr pm th)"
  by (simp add: attr_ok_def set_priority_attr_def Let_def)

lemma div_mod_eq_8: "p = q \<longleftrightarrow> p div 8 = q div 8 \<and> p mod 8 = q mod 8" for p q :: nat
  by (metis div_mult_mod_eq)

lemma table_set_bit:
  "bit ((tb(k div 8 := tb (k div 8) OR push_bit (k mod 8) 1)) (p div 8)) (p mod 8) \<longleftrightarrow>
     bit (tb (p div 8)) (p mod 8) \<or> p = k" for tb :: "nat \<Rightarrow> u8"
  using div_mod_eq_8[of p k] by (auto simp: bit_or_iff bit_shifted_one simp del: push_bit_of_1)

lemma table_clear_bit:
  "bit ((tb(k div 8 := tb (k div 8) AND NOT (push_bit (k mod 8) 1))) (p div 8)) (p mod 8) \<longleftrightarrow>
     bit (tb (p div 8)) (p mod 8) \<and> p \<noteq> k" for tb :: "nat \<Rightarrow> u8"
  using div_mod_eq_8[of p k]
  by (auto simp: bit_and_iff bit_not_iff bit_shifted_one simp del: push_bit_of_1)

lemma bitmap_insert_thread:
  assumes b: "bitmap_ok s" and a: "attr_ok (prio_max s) (thr s t)" and pm: "prio_max s \<le> 256"
    and c: "cur s \<noteq> Some t"
  shows "bitmap_ok (rt_schedule_insert_thread t s)"
proof (cases "prio_max s > 32")
  case True
  let ?p = "prio_of s t" and ?s' = "rt_schedule_insert_thread t s"
  have p: "?p < 256" using a pm by (simp add: attr_ok_def prio_of_def)
  have tb: "ready_table ?s' = (ready_table s)
      (?p div 8 := ready_table s (?p div 8) OR push_bit (?p mod 8) 1)"
    and gr: "ready_group ?s' = ready_group s OR push_bit (?p div 8) 1"
    using True c attr_ok_masks[OF a]
    by (simp_all add: rt_schedule_insert_thread_def Let_def prio_of_def)
  have nz: "ready_table s n OR push_bit (?p mod 8) 1 \<noteq> 0" for n
    by (auto simp: u8_zero_iff bit_or_iff bit_shifted_one simp del: push_bit_of_1
        intro!: exI[of _ "?p mod 8"])
  have "bit (ready_group ?s') n \<longleftrightarrow> ready_table ?s' n \<noteq> 0" if "n < 32" for n
    using that b True nz
    by (auto simp: bitmap_ok_def gr tb bit_or_iff bit_shifted_one simp del: push_bit_of_1)
  moreover have "bit (ready_table ?s' (p div 8)) (p mod 8) \<longleftrightarrow> tl ?s' (Ready p) \<noteq> []"
    if "p < 256" for p
    using that b True c unfolding tb table_set_bit by (auto simp: bitmap_ok_def ls_insert_before_def)
  ultimately show ?thesis using True unfolding bitmap_ok_def by simp
next
  case False
  then show ?thesis
    using b a c
    by (auto simp: bitmap_ok_def rt_schedule_insert_thread_def Let_def attr_ok_def prio_of_def
        bit_or_iff bit_shifted_one ls_insert_before_def simp del: push_bit_of_1)
qed

lemma bitmap_remove_thread:
  assumes b: "bitmap_ok s" and a: "attr_ok (prio_max s) (thr s t)" and pm: "prio_max s \<le> 256"
    and q: "\<And>p. t \<in> set (tl s (Ready p)) \<Longrightarrow> p = prio_of s t"
  shows "bitmap_ok (rt_schedule_remove_thread t s)"
proof -
  let ?p = "prio_of s t" and ?s' = "rt_schedule_remove_thread t s"
  have oth: "removeAll t (tl s (Ready p)) = tl s (Ready p)" if "p \<noteq> ?p" for p
    using q[of p] that by (metis removeAll_notin)
  have p: "?p < 256" using a pm by (simp add: attr_ok_def prio_of_def)
  consider (ne) "removeAll t (tl s (Ready ?p)) \<noteq> []"
    | (two) "removeAll t (tl s (Ready ?p)) = []" "prio_max s > 32"
    | (one) "removeAll t (tl s (Ready ?p)) = []" "prio_max s \<le> 32" by linarith
  then show ?thesis
  proof cases
    case ne
    then have "?s' = s\<lparr>tl := ls_remove t (tl s)\<rparr>"
      by (simp add: rt_schedule_remove_thread_def Let_def prio_of_def)
    moreover have "removeAll t (tl s (Ready p)) = [] \<longleftrightarrow> tl s (Ready p) = []" for p
      using oth ne by (cases "p = ?p") auto
    ultimately show ?thesis using b by (simp add: bitmap_ok_def)
  next
    case two
    have tb: "ready_table ?s' = (ready_table s)
        (?p div 8 := ready_table s (?p div 8) AND NOT (push_bit (?p mod 8) 1))"
      and gr: "ready_group ?s' = (if ready_table s (?p div 8) AND NOT (push_bit (?p mod 8) 1) = 0
          then ready_group s AND NOT (push_bit (?p div 8) 1) else ready_group s)"
      using two attr_ok_masks[OF a]
      by (simp_all add: rt_schedule_remove_thread_def Let_def prio_of_def)
    have "bit (ready_group ?s') n \<longleftrightarrow> ready_table ?s' n \<noteq> 0" if "n < 32" for n
      using that b two
      by (auto simp: bitmap_ok_def gr tb bit_and_iff bit_not_iff bit_shifted_one
          simp del: push_bit_of_1)
    moreover have "bit (ready_table ?s' (p div 8)) (p mod 8) \<longleftrightarrow> tl ?s' (Ready p) \<noteq> []"
      if "p < 256" for p
      using that b two oth[of p] unfolding tb table_clear_bit by (auto simp: bitmap_ok_def)
    ultimately show ?thesis using two unfolding bitmap_ok_def by simp
  next
    case one
    have "ready_group ?s' = ready_group s AND NOT (push_bit ?p 1)"
      using one a by (simp add: rt_schedule_remove_thread_def Let_def attr_ok_def prio_of_def)
    then have "bit (ready_group ?s') p \<longleftrightarrow> tl ?s' (Ready p) \<noteq> []" if "p < 32" for p
      using that b one oth[of p]
      by (auto simp: bitmap_ok_def bit_and_iff bit_not_iff bit_shifted_one simp del: push_bit_of_1)
    then show ?thesis using one unfolding bitmap_ok_def by simp
  qed
qed

section \<open>The invariant is kept\<close>

lemma sched_invD:
  assumes "sched_inv X s"
  shows "lists_ok (tl s)" "prio_max s \<le> 256" "bitmap_ok s" "queue_ok X s"
    "t \<in> set (tl s h) \<Longrightarrow> tstat s t = list_stat h"
    "t \<in> set (tl s (Ready p)) \<Longrightarrow> p = prio_of s t"
    "t \<in> set (tl s (Ready p)) \<Longrightarrow> cur s \<noteq> Some t"
    "tstat s t = RT_THREAD_READY \<Longrightarrow> cur s \<noteq> Some t \<Longrightarrow> t \<notin> X \<Longrightarrow> t \<in> set (tl s (Ready (prio_of s t)))"
    "t \<in> X \<Longrightarrow> unlinked t (tl s)"
    "tstat s t \<noteq> RT_THREAD_INIT \<Longrightarrow> attr_ok (prio_max s) (thr s t)"
  using assms unfolding sched_inv_def queue_ok_def by blast+

text \<open>The invariant reads only the scheduler's own fields.\<close>

lemma sched_inv_cong:
  "thr s' = thr s \<Longrightarrow> tl s' = tl s \<Longrightarrow> ready_group s' = ready_group s \<Longrightarrow>
   ready_table s' = ready_table s \<Longrightarrow> cur s' = cur s \<Longrightarrow> prio_max s' = prio_max s \<Longrightarrow>
   sched_inv X s' = sched_inv X s" for s :: "'a kbase_scheme" and s' :: "'b kbase_scheme"
  by (simp add: sched_inv_def queue_ok_def bitmap_ok_def tstat_def prio_of_def)

lemma sched_inv_remove_thread:
  assumes inv: "sched_inv X s" and a: "attr_ok (prio_max s) (thr s t)"
  shows "sched_inv (insert t X) (rt_schedule_remove_thread t s)"
proof -
  have "bitmap_ok (rt_schedule_remove_thread t s)"
    using bitmap_remove_thread[OF sched_invD(3)[OF inv] a sched_invD(2)[OF inv]] sched_invD(6)[OF inv]
    by blast
  moreover have "queue_ok (insert t X) (rt_schedule_remove_thread t s)"
    using sched_invD(4)[OF inv] lists_ok_remove[of "tl s" t]
    by (auto simp: queue_ok_def unlinked_def)
  ultimately show ?thesis using sched_invD(2)[OF inv] by (simp add: sched_inv_def)
qed

lemma mem_insert_before:
  "u \<in> set (ls_insert_before h t st k) \<longleftrightarrow> u \<in> set (st k) \<or> u = t \<and> k = h"
  by (auto simp: ls_insert_before_def)

lemma sched_inv_insert_thread:
  assumes inv: "sched_inv X s" and t: "t \<in> X" and a: "attr_ok (prio_max s) (thr s t)"
  shows "sched_inv (X - {t}) (rt_schedule_insert_thread t s)"
proof -
  have un: "unlinked t (tl s)" using sched_invD(9)[OF inv t] .
  have "bitmap_ok (rt_schedule_insert_thread t s)"
  proof (cases "cur s = Some t")
    case True
    then show ?thesis using sched_invD(3)[OF inv]
      by (simp add: bitmap_ok_def rt_schedule_insert_thread_def Let_def)
  next
    case False
    then show ?thesis
      using bitmap_insert_thread[OF sched_invD(3)[OF inv] a sched_invD(2)[OF inv]] by blast
  qed
  moreover have "queue_ok (X - {t}) (rt_schedule_insert_thread t s)"
    unfolding queue_ok_def
  proof (intro conjI allI impI ballI, goal_cases)
    case 1
    show ?case using sched_invD(1)[OF inv] lists_ok_insert_before[OF _ un] by simp
  next
    case (2 h u)
    then show ?case using sched_invD(5)[OF inv, of u h] un
      by (auto simp: mem_insert_before list_stat_def unlinked_def split: if_splits)
  next
    case (3 p u)
    then show ?case using sched_invD(6)[OF inv, of u p]
      by (auto simp: mem_insert_before split: if_splits)
  next
    case (4 p u)
    then show ?case using sched_invD(7)[OF inv, of u p]
      by (auto simp: mem_insert_before split: if_splits)
  next
    case (5 u)
    then show ?case using sched_invD(8)[OF inv, of u]
      by (auto simp: ls_insert_before_def split: if_splits)
  next
    case (6 u)
    then show ?case using sched_invD(9)[OF inv, of u]
      by (auto simp: unlinked_def mem_insert_before split: if_splits)
  next
    case (7 u)
    then show ?case using sched_invD(10)[OF inv, of u] a by (auto split: if_splits)
  qed
  ultimately show ?thesis using sched_invD(2)[OF inv] by (simp add: sched_inv_def)
qed

text \<open>A thread leaves limbo without being inserted when it runs, or when it is not ready.\<close>

lemma sched_inv_drop:
  "sched_inv (insert t X) s \<Longrightarrow> cur s = Some t \<or> tstat s t \<noteq> RT_THREAD_READY \<Longrightarrow> sched_inv X s"
  unfolding sched_inv_def queue_ok_def by auto

section \<open>Threads outside the ready queues\<close>

text \<open>Changing the record of a thread that is in no list.\<close>

lemma sched_inv_upd_unlinked:
  assumes inv: "sched_inv X s" and un: "unlinked t (tl s)"
    and a: "stat (f (thr s t)) AND RT_THREAD_STAT_MASK \<noteq> RT_THREAD_INIT \<Longrightarrow> attr_ok (prio_max s) (f (thr s t))"
    and r: "stat (f (thr s t)) AND RT_THREAD_STAT_MASK = RT_THREAD_READY \<Longrightarrow> cur s = Some t \<or> t \<in> X"
  shows "sched_inv X (upd_thr t f s)"
proof -
  have ne: "u \<noteq> t" if "u \<in> set (tl s h)" for u h using un that by (auto simp: unlinked_def)
  have ts: "tstat (upd_thr t f s) u = (if u = t then stat (f (thr s t)) AND RT_THREAD_STAT_MASK else tstat s u)"
    and pr: "u \<noteq> t \<Longrightarrow> prio_of (upd_thr t f s) u = prio_of s u" for u
    by (simp_all add: tstat_def prio_of_def)
  have "queue_ok X (upd_thr t f s)"
    unfolding queue_ok_def
  proof (intro conjI allI impI ballI, goal_cases)
    case 1
    then show ?case using sched_invD(1)[OF inv] by simp
  next
    case (2 h u)
    then show ?case using sched_invD(5)[OF inv, of u h] ne[of u h] by (simp add: ts)
  next
    case (3 p u)
    then show ?case using sched_invD(6)[OF inv, of u p] ne[of u "Ready p"] by (simp add: pr)
  next
    case (4 p u)
    then show ?case using sched_invD(7)[OF inv, of u p] by simp
  next
    case (5 u)
    then show ?case using sched_invD(8)[OF inv, of u] r by (cases "u = t") (auto simp: ts pr)
  next
    case (6 u)
    then show ?case using sched_invD(9)[OF inv, of u] by simp
  next
    case (7 u)
    then show ?case using sched_invD(10)[OF inv, of u] a by (cases "u = t") (auto simp: ts)
  qed
  then show ?thesis using sched_invD(2,3)[OF inv] by (simp add: sched_inv_def bitmap_ok_def)
qed

text \<open>Changes of fields the scheduler does not read.\<close>

lemma sched_inv_upd_same:
  assumes "stat (f (thr s t)) = stat (thr s t)" "current_priority (f (thr s t)) = current_priority (thr s t)"
    and "\<And>pm. attr_ok pm (f (thr s t)) = attr_ok pm (thr s t)"
  shows "sched_inv X (upd_thr t f s) = sched_inv X s"
proof -
  have "tstat (upd_thr t f s) = tstat s" "prio_of (upd_thr t f s) = prio_of s"
    using assms by (auto simp: tstat_def prio_of_def fun_eq_iff)
  moreover have "attr_ok pm (thr (upd_thr t f s) u) = attr_ok pm (thr s u)" for pm u
    using assms(3) by simp
  ultimately show ?thesis by (simp add: sched_inv_def queue_ok_def bitmap_ok_def del: upd_thr_sel(1))
qed

text \<open>A thread that is not ready may change its priority in place.\<close>

lemma sched_inv_upd_notready:
  assumes inv: "sched_inv X s" and t: "tstat s t \<noteq> RT_THREAD_READY"
    and f: "stat (f (thr s t)) = stat (thr s t)" "attr_ok (prio_max s) (f (thr s t))"
  shows "sched_inv X (upd_thr t f s)"
proof -
  have ts: "tstat (upd_thr t f s) = tstat s" using f by (auto simp: tstat_def fun_eq_iff)
  have pr: "prio_of (upd_thr t f s) u = prio_of s u" if "u \<noteq> t" for u using that by (simp add: prio_of_def)
  have nr: "u \<noteq> t" if "u \<in> set (tl s (Ready p))" for u p
    using sched_invD(5)[OF inv that] t by (auto simp: list_stat_def)
  have "queue_ok X (upd_thr t f s)"
    unfolding queue_ok_def ts
  proof (intro conjI allI impI ballI, goal_cases)
    case (3 p u)
    then show ?case using sched_invD(6)[OF inv, of u p] nr[of u p] pr by simp
  next
    case (5 u)
    then show ?case using sched_invD(8)[OF inv, of u] t pr[of u] by (cases "u = t") auto
  next
    case (7 u)
    then show ?case using sched_invD(10)[OF inv, of u] f by simp
  qed (use sched_invD[OF inv] in auto)
  then show ?thesis using sched_invD(2,3)[OF inv] by (simp add: sched_inv_def bitmap_ok_def)
qed

text \<open>Taking a thread that is not ready off the list it waits in, and linking one.\<close>

lemma sched_inv_unlink:
  assumes inv: "sched_inv X s" and t: "tstat s t \<noteq> RT_THREAD_READY"
  shows "sched_inv (insert t X) (s\<lparr>tl := ls_remove t (tl s)\<rparr>)"
proof -
  have un: "removeAll t (tl s (Ready p)) = tl s (Ready p)" for p
    using sched_invD(5)[OF inv, of t "Ready p"] t by (metis list_stat_def lhead.case(1) removeAll_notin)
  have "queue_ok (insert t X) (s\<lparr>tl := ls_remove t (tl s)\<rparr>)"
    using sched_invD(4)[OF inv] lists_ok_remove[of "tl s" t]
    unfolding queue_ok_def by (auto simp: tstat_def prio_of_def unlinked_def un)
  then show ?thesis using sched_invD(2,3)[OF inv] un by (simp add: sched_inv_def bitmap_ok_def)
qed

lemma sched_inv_link:
  assumes inv: "sched_inv X s" and t: "t \<in> X" "tstat s t = list_stat h" and h: "\<nexists>p. h = Ready p"
    and ok: "lists_ok tl'" and mem: "\<And>k u. u \<in> set (tl' k) \<longleftrightarrow> u \<in> set (tl s k) \<or> u = t \<and> k = h"
    and oth: "\<And>k. k \<noteq> h \<Longrightarrow> tl' k = tl s k"
  shows "sched_inv (X - {t}) (s\<lparr>tl := tl'\<rparr>)"
proof -
  have nr: "tstat s t \<noteq> RT_THREAD_READY" using t(2) h by (cases h) (auto simp: list_stat_def)
  have R: "tl' (Ready p) = tl s (Ready p)" for p using oth h by metis
  have ts: "tstat (s\<lparr>tl := tl'\<rparr>) = tstat s" "prio_of (s\<lparr>tl := tl'\<rparr>) = prio_of s"
    by (simp_all add: tstat_def prio_of_def fun_eq_iff)
  have "queue_ok (X - {t}) (s\<lparr>tl := tl'\<rparr>)"
    unfolding queue_ok_def ts
  proof (intro conjI allI impI ballI, goal_cases)
    case (2 k u)
    then show ?case using sched_invD(5)[OF inv, of u k] t by (auto simp: mem)
  next
    case (5 u)
    then show ?case using sched_invD(8)[OF inv, of u] nr by (auto simp: R)
  next
    case (6 u)
    then show ?case using sched_invD(9)[OF inv, of u] by (auto simp: unlinked_def mem)
  qed (use ok sched_invD[OF inv] in \<open>auto simp: R\<close>)
  then show ?thesis using sched_invD(2,3)[OF inv] by (simp add: sched_inv_def bitmap_ok_def R)
qed

section \<open>Picking the next thread\<close>

definition highest_ready :: "'a kbase_scheme \<Rightarrow> nat \<Rightarrow> tid \<Rightarrow> bool" where
  "highest_ready s p t \<longleftrightarrow>
     (case tl s (Ready p) of [] \<Rightarrow> False | u # _ \<Rightarrow> u = t) \<and> (\<forall>q < p. tl s (Ready q) = [])"

lemma ready_prio_bound:
  assumes inv: "sched_inv X s" and ne: "tl s (Ready p) \<noteq> []"
  shows "p < prio_max s"
proof -
  obtain t where t: "t \<in> set (tl s (Ready p))" using ne by (meson list.set_sel(1))
  then have "tstat s t \<noteq> RT_THREAD_INIT" using sched_invD(5)[OF inv t] by (simp add: list_stat_def)
  then show ?thesis
    using sched_invD(10)[OF inv, of t] sched_invD(6)[OF inv t] by (simp add: attr_ok_def prio_of_def)
qed

lemma group_bit:
  assumes inv: "sched_inv X s" and ne: "tl s (Ready p) \<noteq> []"
  shows "if prio_max s > 32 then bit (ready_table s (p div 8)) (p mod 8) \<and> bit (ready_group s) (p div 8)
         else bit (ready_group s) p"
proof -
  have "p < prio_max s" "prio_max s \<le> 256" using ready_prio_bound[OF inv ne] sched_invD(2)[OF inv] .
  moreover from this have "p div 8 < 32" by linarith
  ultimately have "if prio_max s > 32 then bit (ready_table s (p div 8)) (p mod 8) \<and>
      (bit (ready_group s) (p div 8) \<longleftrightarrow> ready_table s (p div 8) \<noteq> 0) else bit (ready_group s) p"
    using ne sched_invD(3)[OF inv] by (simp add: bitmap_ok_def)
  then show ?thesis by (auto split: if_splits)
qed

lemma ready_group_zero_iff:
  assumes "sched_inv X s"
  shows "ready_group s = 0 \<longleftrightarrow> (\<forall>p. tl s (Ready p) = [])"
proof
  assume "ready_group s = 0"
  then show "\<forall>p. tl s (Ready p) = []" using group_bit[OF assms] by (metis bit_0_eq bot_apply bot_bool_def)
next
  assume *: "\<forall>p. tl s (Ready p) = []"
  have "\<not> bit (ready_group s) n" for n
  proof (cases "n < 32")
    case True
    have "\<not> bit (ready_table s n) i" if "i < 8" "prio_max s > 32" for i
    proof -
      have "(n * 8 + i) div 8 = n" "(n * 8 + i) mod 8 = i" "n * 8 + i < 256"
        using True \<open>i < 8\<close> by auto
      then show ?thesis
        using sched_invD(3)[OF assms] that * unfolding bitmap_ok_def by metis
    qed
    then show ?thesis
      using True * sched_invD(3)[OF assms] by (auto simp: bitmap_ok_def u8_zero_iff split: if_splits)
  next
    case False
    then show ?thesis using bit_imp_le_length[of "ready_group s" n] by auto
  qed
  then show "ready_group s = 0" by (auto intro: bit_eqI)
qed

lemma get_highest_two_level:
  assumes inv: "sched_inv X s" and pm: "prio_max s > 32" and g: "ready_group s \<noteq> 0"
  defines "n \<equiv> rt_ffs (ready_group s) - 1"
  defines "p \<equiv> n * 8 + rt_ffs (ucast (ready_table s n)) - 1"
  shows "tl s (Ready p) \<noteq> [] \<and> (\<forall>q < p. tl s (Ready q) = [])"
proof -
  let ?v = "ucast (ready_table s n) :: u32"
  define m where "m = rt_ffs ?v - 1"
  have bn: "bit (ready_group s) n" unfolding n_def using g by (rule ffs.ffs_bit)
  then have n: "n < 32" using bit_imp_le_length[of "ready_group s" n] by simp
  have bm: "\<And>n. n < 32 \<Longrightarrow> bit (ready_group s) n \<longleftrightarrow> ready_table s n \<noteq> 0"
    "\<And>p. p < 256 \<Longrightarrow> bit (ready_table s (p div 8)) (p mod 8) \<longleftrightarrow> tl s (Ready p) \<noteq> []"
    using sched_invD(3)[OF inv] pm by (auto simp: bitmap_ok_def)
  have v: "?v \<noteq> 0" using bm(1)[OF n] bn ucast_u8_zero by blast
  have bt: "bit (ready_table s n) m"
    using ffs.ffs_bit[OF v] by (simp add: m_def bit_simps)
  have bmm: "bit (ready_table s n) m" "m < 8"
    using bt bit_imp_le_length[OF bt] by simp_all
  have p: "p = n * 8 + m" using v ffs.ffs_zero_iff[of ?v] by (simp add: p_def m_def)
  have "p div 8 = n" "p mod 8 = m" "p < 256" using p bmm n by auto
  then have ne: "tl s (Ready p) \<noteq> []" using bm(2)[of p] bmm by simp
  have "tl s (Ready q) = []" if "q < p" for q
  proof (rule ccontr)
    assume "tl s (Ready q) \<noteq> []"
    then have b: "bit (ready_table s (q div 8)) (q mod 8)" "bit (ready_group s) (q div 8)"
      using group_bit[OF inv] pm by (simp_all add: split: if_splits)
    have "n \<le> q div 8" using ffs.ffs_least[OF b(2)] by (simp add: n_def)
    then have e: "q div 8 = n" using that p bmm by linarith
    then have "bit ?v (q mod 8)" using b(1) by (simp add: bit_simps)
    then have "m \<le> q mod 8" using ffs.ffs_least[of ?v] by (simp add: m_def)
    then show False using that p e div_mult_mod_eq[of q 8] by linarith
  qed
  with ne show ?thesis by blast
qed

lemma get_highest_correct:
  assumes inv: "sched_inv X s" and g: "ready_group s \<noteq> 0"
  shows "\<exists>p t. get_highest_priority_thread s = Some (p, t) \<and> highest_ready s p t"
proof (cases "prio_max s > 32")
  case True
  then show ?thesis
    using get_highest_two_level[OF inv True g] g
    by (auto simp: get_highest_priority_thread_def highest_ready_def Let_def split: list.splits)
next
  case False
  let ?p = "rt_ffs (ready_group s) - 1"
  have b: "bit (ready_group s) ?p" using ffs.ffs_bit[OF g] .
  then have "?p < 32" using bit_imp_le_length by fastforce
  then have "tl s (Ready ?p) \<noteq> []" using b False sched_invD(3)[OF inv] by (auto simp: bitmap_ok_def)
  moreover have "tl s (Ready q) = []" if "q < ?p" for q
    using group_bit[OF inv, of q] False ffs.ffs_least[of "ready_group s" q] that by auto
  ultimately show ?thesis using False g
    by (auto simp: get_highest_priority_thread_def highest_ready_def Let_def split: list.splits)
qed

section \<open>Scheduling\<close>

lemma set_stat_same: "stat th AND RT_THREAD_STAT_MASK = st \<Longrightarrow> set_stat st th = th"
proof -
  assume "stat th AND RT_THREAD_STAT_MASK = st"
  moreover have "(x AND m) OR (x AND NOT m) = x" for x m :: u8
    by (rule bit_word_eqI) (auto simp: bit_simps)
  ultimately have "st OR (stat th AND NOT RT_THREAD_STAT_MASK) = stat th" by metis
  then show ?thesis by (simp add: set_stat_def)
qed

text \<open>
  The two ways \<^verbatim>\<open>rt_schedule\<close> changes the state: it takes the running thread off the
  list it is not in (a removal without effect on the queues), or it switches.
\<close>

definition switch_to :: "tid \<Rightarrow> nat \<Rightarrow> tid \<Rightarrow> 'a kbase_scheme \<Rightarrow> 'a kbase_scheme" where
  "switch_to c p t s =
     rt_schedule_remove_thread t
       ((if tstat s c = RT_THREAD_READY then rt_schedule_insert_thread c else id)
         (s\<lparr>cur_prio := of_nat p, cur := Some t\<rparr>))"

lemma highest_readyD:
  assumes "highest_ready s p t"
  obtains ts where "tl s (Ready p) = t # ts" "\<And>q. q < p \<Longrightarrow> tl s (Ready q) = []"
  using assms that by (auto simp: highest_ready_def split: list.splits)

lemma rt_schedule_cases:
  assumes inv: "sched_inv {} s" and c: "cur s = Some c"
  obtains (locked) "lock_nest s \<noteq> 0" "rt_schedule s = Some s"
  | (none) "lock_nest s = 0" "\<And>p. tl s (Ready p) = []" "rt_schedule s = Some s"
  | (stay) p t where "lock_nest s = 0" "highest_ready s p t" "tstat s c = RT_THREAD_READY"
      "prio_of s c < p" "rt_schedule s = Some (rt_schedule_remove_thread c s)"
  | (switch) p t where "lock_nest s = 0" "highest_ready s p t" "t \<noteq> c"
      "tstat s c = RT_THREAD_READY \<Longrightarrow> p \<le> prio_of s c" "rt_schedule s = Some (switch_to c p t s)"
proof (cases "lock_nest s = 0 \<and> ready_group s \<noteq> 0")
  case False
  then show thesis
    using ready_group_zero_iff[OF inv] locked none by (cases "lock_nest s = 0") (auto simp: rt_schedule_def)
next
  case True
  then obtain p t where g: "get_highest_priority_thread s = Some (p, t)" and h: "highest_ready s p t"
    using get_highest_correct[OF inv] by blast
  have "t \<in> set (tl s (Ready p))" using h by (elim highest_readyD) simp
  then have tc: "t \<noteq> c" using sched_invD(7)[OF inv] c by blast
  show thesis
  proof (cases "tstat s c = RT_THREAD_READY \<and> prio_of s c < p")
    case stay': True
    then show thesis using True g c stay[OF _ h] by (simp add: rt_schedule_def)
  next
    case sw: False
    have "rt_schedule s = Some (switch_to c p t s)"
      using True g c sw tc by (auto simp: rt_schedule_def switch_to_def Let_def)
    then show thesis using True sw h tc switch by auto
  qed
qed

lemma switch_to_sel:
  "thr (switch_to c p t s) = thr s" "cur (switch_to c p t s) = Some t"
  "prio_max (switch_to c p t s) = prio_max s" "lock_nest (switch_to c p t s) = lock_nest s"
  "irq_nest (switch_to c p t s) = irq_nest s" "cur_prio (switch_to c p t s) = of_nat p"
  "objs (switch_to c p t s) = objs s" "olists (switch_to c p t s) = olists s"
  "heap (switch_to c p t s) = heap s"
  "kbase.more (switch_to c p t s) = kbase.more s"
  by (auto simp: switch_to_def tstat_def set_stat_same fun_upd_idem)

lemma switch_to_tl:
  "t \<noteq> c \<Longrightarrow> tl (switch_to c p t s) =
     ls_remove t (if tstat s c = RT_THREAD_READY then ls_insert_before (Ready (prio_of s c)) c (tl s)
                  else tl s)"
  by (auto simp: switch_to_def prio_of_def)

lemma running_unlinked:
  assumes inv: "sched_inv X s" and c: "cur s = Some c" "tstat s c = RT_THREAD_READY"
  shows "unlinked c (tl s)"
  unfolding unlinked_def
proof
  fix h
  show "c \<notin> set (tl s h)"
    using sched_invD(5)[OF inv, of c h] sched_invD(7)[OF inv, of c] c
    by (cases h) (auto simp: list_stat_def)
qed

lemma init_unlinked:
  assumes inv: "sched_inv X s" and t: "tstat s t = RT_THREAD_INIT"
  shows "unlinked t (tl s)"
  unfolding unlinked_def
proof
  fix h
  show "t \<notin> set (tl s h)" using sched_invD(5)[OF inv, of t h] t by (cases h) (auto simp: list_stat_def)
qed

lemma ready_member:
  assumes "sched_inv X s" "t \<in> set (tl s (Ready p))"
  shows "tstat s t = RT_THREAD_READY \<and> prio_of s t = p \<and> cur s \<noteq> Some t"
  using sched_invD(5,6,7)[OF assms(1) assms(2)] by (simp add: list_stat_def)

lemma sched_inv_switch:
  assumes inv: "sched_inv {} s" and c: "cur s = Some c" and h: "highest_ready s p t"
  shows "sched_inv {} (switch_to c p t s)"
proof -
  define s1 where "s1 = s\<lparr>cur_prio := of_nat p, cur := Some t\<rparr>"
  define s2 where "s2 = (if tstat s c = RT_THREAD_READY then rt_schedule_insert_thread c s1 else s1)"
  have sw: "switch_to c p t s = rt_schedule_remove_thread t s2"
    by (simp add: switch_to_def s1_def s2_def)
  have s1: "prio_of s1 = prio_of s" "tstat s1 = tstat s" "thr s1 = thr s" "tl s1 = tl s"
    "prio_max s1 = prio_max s" "cur s1 = Some t"
    by (auto simp: s1_def prio_of_def tstat_def fun_eq_iff)
  have t: "t \<in> set (tl s (Ready p))" using h by (elim highest_readyD) simp
  have tR: "tstat s t = RT_THREAD_READY" using sched_invD(5)[OF inv t] by (simp add: list_stat_def)
  have tc: "t \<noteq> c" using sched_invD(7)[OF inv t] c by blast
  have s2: "thr s2 = thr s" "cur s2 = Some t" "prio_max s2 = prio_max s" "prio_of s2 = prio_of s"
    "tstat s2 = tstat s"
    using set_stat_same[of "thr s c" RT_THREAD_READY] by (auto simp: s2_def s1 prio_of_def tstat_def fun_upd_idem fun_eq_iff)
  have mem: "u \<in> set (tl s2 k) \<longleftrightarrow> u \<in> set (tl s k) \<or>
      u = c \<and> k = Ready (prio_of s c) \<and> tstat s c = RT_THREAD_READY" for u k
    using tc by (auto simp: s2_def s1 mem_insert_before)
  have attr: "tstat s u \<noteq> RT_THREAD_INIT \<Longrightarrow> attr_ok (prio_max s) (thr s u)" for u
    by (rule sched_invD(10)[OF inv])
  have "bitmap_ok s1" using sched_invD(3)[OF inv] by (simp add: s1_def bitmap_ok_def)
  then have b2: "bitmap_ok s2"
    using bitmap_insert_thread[of s1 c] attr[of c] sched_invD(2)[OF inv] tc
    by (auto simp: s2_def s1)
  have b: "bitmap_ok (rt_schedule_remove_thread t s2)"
    by (rule bitmap_remove_thread[OF b2])
      (use attr[of t] tR tc sched_invD(2,6)[OF inv] in \<open>auto simp: s2 mem\<close>)
  have "lists_ok (tl s2)"
    using sched_invD(1)[OF inv] lists_ok_insert_before[OF _ running_unlinked[OF inv c]]
    by (auto simp: s2_def s1)
  moreover have "u \<in> set (tl s2 (Ready (prio_of s u)))" if "tstat s u = RT_THREAD_READY" for u
    using sched_invD(8)[OF inv that] c that by (auto simp: mem)
  moreover have "tstat s u = list_stat k" if "u \<in> set (tl s2 k)" for u k
    using that sched_invD(5)[OF inv, of u k] by (auto simp: mem list_stat_def)
  moreover have "prio_of s u = p" if "u \<in> set (tl s2 (Ready p))" for u p
    using that sched_invD(6)[OF inv, of u p] by (auto simp: mem)
  ultimately have "queue_ok {} (rt_schedule_remove_thread t s2)"
    unfolding queue_ok_def using attr by (simp add: s2 lists_ok_remove)
  with b show ?thesis using sched_invD(2)[OF inv] by (simp add: sw sched_inv_def s2)
qed

lemma sched_inv_stay:
  assumes inv: "sched_inv {} s" and c: "cur s = Some c" "tstat s c = RT_THREAD_READY"
  shows "sched_inv {} (rt_schedule_remove_thread c s)"
  by (rule sched_inv_drop[of c "{}"], rule sched_inv_remove_thread[OF inv sched_invD(10)[OF inv]])
    (use c in simp_all)

text \<open>What every operation that ends in \<^verbatim>\<open>rt_schedule\<close> relies on.\<close>

lemma rt_schedule_total:
  assumes inv: "sched_inv {} s" and c: "cur s = Some c"
  obtains s' where "rt_schedule s = Some s'" "sched_inv {} s'" "thr s' = thr s"
    "prio_max s' = prio_max s" "lock_nest s' = lock_nest s" "irq_nest s' = irq_nest s"
    "objs s' = objs s" "olists s' = olists s" "heap s' = heap s" "kbase.more s' = kbase.more s" "cur s' \<noteq> None"
    "\<And>h. (\<nexists>p. h = Ready p) \<Longrightarrow> tl s' h = tl s h"
  using inv c
proof (cases rule: rt_schedule_cases)
  case (stay p t)
  then show thesis
    using that[of "rt_schedule_remove_thread c s"] sched_inv_stay[OF inv c] c
      running_unlinked[OF inv c] by simp
next
  case (switch p t)
  have "t \<in> set (tl s (Ready p))" using switch(2) by (elim highest_readyD) simp
  then have "tl (switch_to c p t s) h = tl s h" if "\<nexists>q. h = Ready q" for h
    using that lists_ok_other[OF sched_invD(1)[OF inv], of t "Ready p" h] switch(3)
    by (auto simp: switch_to_tl ls_insert_before_def)
  then show thesis
    using that[OF switch(5) sched_inv_switch[OF inv c switch(2)]] by (simp add: switch_to_sel)
qed (use that inv c in auto)

lemma rt_schedule_highest:
  assumes inv: "sched_inv {} s" and c: "cur s = Some c"
  shows "\<exists>s' c'. rt_schedule s = Some s' \<and> sched_inv {} s' \<and> thr s' = thr s \<and> cur s' = Some c' \<and>
           (lock_nest s \<noteq> 0 \<longrightarrow> s' = s) \<and>
           (lock_nest s = 0 \<longrightarrow> (\<forall>t. tstat s t = RT_THREAD_READY \<longrightarrow>
              tstat s c' = RT_THREAD_READY \<and> prio_of s c' \<le> prio_of s t))"
  using inv c
proof (cases rule: rt_schedule_cases)
  case locked
  then show ?thesis using inv c by auto
next
  case none
  have "t = c" if "tstat s t = RT_THREAD_READY" for t
    using sched_invD(8)[OF inv that] none(2) c by auto
  then show ?thesis using none inv c by auto
next
  case (stay p t)
  have "prio_of s c \<le> prio_of s u" if "tstat s u = RT_THREAD_READY" for u
  proof (cases "u = c")
    case False
    then have "u \<in> set (tl s (Ready (prio_of s u)))" using sched_invD(8)[OF inv that] c by auto
    then have "p \<le> prio_of s u"
      using stay(2) by (elim highest_readyD) (metis empty_iff list.set(1) not_less)
    then show ?thesis using stay(4) by simp
  qed simp
  then show ?thesis using stay sched_inv_stay[OF inv c stay(3)] c by auto
next
  case (switch p t)
  obtain ts where ts: "tl s (Ready p) = t # ts" "\<And>q. q < p \<Longrightarrow> tl s (Ready q) = []"
    using highest_readyD[OF switch(2)] by blast
  have t: "tstat s t = RT_THREAD_READY" "prio_of s t = p"
    using ready_member[OF inv, of t p] ts(1) by simp_all
  have "p \<le> prio_of s u" if "tstat s u = RT_THREAD_READY" for u
  proof (cases "u = c")
    case False
    then have "u \<in> set (tl s (Ready (prio_of s u)))" using sched_invD(8)[OF inv that] c by auto
    then show ?thesis using ts(2) by (metis empty_iff list.set(1) not_less)
  qed (use that switch(4) in simp)
  then show ?thesis
    using switch t sched_inv_switch[OF inv c switch(2)] by (auto simp: switch_to_sel)
qed

text \<open>
  C4. \<^verbatim>\<open>rt_schedule\<close>, called by a running thread in a consistent state, always returns
  in a consistent state and changes no thread's state or priority. With the scheduler locked
  it changes nothing. Otherwise, as soon as one thread is ready, the thread that runs
  afterwards is ready and has the highest priority (the least number) among all ready
  threads, the caller included.
\<close>

theorem rt_schedule_runs_highest:
  assumes inv: "sched_inv {} s" and c: "cur s = Some c"
  shows "\<exists>s' c'. rt_schedule s = Some s' \<and> sched_inv {} s' \<and> thr s' = thr s \<and> cur s' = Some c' \<and>
           (lock_nest s \<noteq> 0 \<longrightarrow> s' = s) \<and>
           (lock_nest s = 0 \<longrightarrow> (\<forall>t. tstat s t = RT_THREAD_READY \<longrightarrow>
              tstat s c' = RT_THREAD_READY \<and> prio_of s c' \<le> prio_of s t))"
  using assms by (rule rt_schedule_highest)

text \<open>Whatever the state, scheduling changes no thread record.\<close>

lemma rt_schedule_thr: "rt_schedule s = Some s' \<Longrightarrow> thr s' = thr s"
  by (auto simp: rt_schedule_def tstat_def set_stat_same fun_upd_idem Let_def bind_eq_Some_conv split: if_splits)

lemma rt_schedule_picks:
  assumes "sched_inv {} s" "cur s = Some c" "lock_nest s = 0" "tstat s u = RT_THREAD_READY"
    and "rt_schedule s = Some s'"
  shows "\<exists>c'. cur s' = Some c' \<and> tstat s c' = RT_THREAD_READY \<and> prio_of s c' \<le> prio_of s u"
  using rt_schedule_highest[OF assms(1,2)] assms(3-5) by auto

text \<open>A small consistent state: thread 1 runs, 2 is ready beside it, 3 at a lower priority.\<close>

definition idle_thread :: rt_thread where
  "idle_thread = \<lparr>error = 0, stat = RT_THREAD_INIT, current_priority = 0, init_priority = 0,
     number = 0, high_mask = 0, number_mask = 0, event_set = 0, event_info = 0,
     thread_init_tick = 0, remaining_tick = 0, cleanup = False\<rparr>"

definition demo_thread :: "nat \<Rightarrow> u8 \<Rightarrow> u8 \<Rightarrow> rt_thread" where
  "demo_thread pm p st = set_priority_attr pm
     (idle_thread\<lparr>stat := st, current_priority := p, init_priority := p,
                  thread_init_tick := 10, remaining_tick := 10\<rparr>)"

definition demo_sched :: kbase where
  "demo_sched = \<lparr>prio_max = 32,
     thr = (\<lambda>_. idle_thread)(1 := demo_thread 32 5 RT_THREAD_READY,
            2 := demo_thread 32 5 RT_THREAD_READY, 3 := demo_thread 32 9 RT_THREAD_READY),
     tl = (\<lambda>_. [])(Ready 5 := [2], Ready 9 := [3]),
     ready_group = 0x220, ready_table = (\<lambda>_. 0), cur = Some 1, cur_prio = 5,
     lock_nest = 0, irq_nest = 0, objs = (\<lambda>_. \<lparr>name = [], otype = 0, oflag = 0\<rparr>),
     olists = (\<lambda>_. []), heap = {}\<rparr>"

lemma demo_thread_sel [simp]:
  "stat (demo_thread pm p st) = st" "current_priority (demo_thread pm p st) = p"
  "init_priority (demo_thread pm p st) = p" "remaining_tick (demo_thread pm p st) = 10"
  "thread_init_tick (demo_thread pm p st) = 10" "error (demo_thread pm p st) = 0"
  "cleanup (demo_thread pm p st) = False"
  by (simp_all add: demo_thread_def set_priority_attr_def Let_def idle_thread_def)

lemma attr_ok_demo_thread: "unat p < pm \<Longrightarrow> attr_ok pm (demo_thread pm p st)"
  unfolding demo_thread_def by (rule attr_ok_set_priority) simp

lemma bit_0x220: "bit (0x220 :: u32) n \<longleftrightarrow> n = 5 \<or> n = 9"
proof -
  have "(0x220 :: u32) = 2 ^ 5 OR 2 ^ 9" by simp
  then show ?thesis by (auto simp only: bit_or_iff bit_exp_iff) simp_all
qed

lemma demo_sched_inv: "sched_inv {} demo_sched"
proof -
  have "queue_ok {} demo_sched"
    unfolding queue_ok_def
    by (auto simp: demo_sched_def tstat_def prio_of_def idle_thread_def list_stat_def lists_ok_def
        attr_ok_demo_thread split: if_splits)
  moreover have "bitmap_ok demo_sched"
    using bit_0x220 by (auto simp: bitmap_ok_def demo_sched_def)
  ultimately show ?thesis by (simp add: sched_inv_def) (simp add: demo_sched_def)
qed

theorem rt_schedule_runs_highest_witness:
  "sched_inv {} demo_sched \<and> cur demo_sched = Some 1 \<and>
   (\<exists>s' c'. rt_schedule demo_sched = Some s' \<and> sched_inv {} s' \<and> cur s' = Some c' \<and>
      prio_of demo_sched c' \<le> 5)"
proof -
  have c: "cur demo_sched = Some 1" "lock_nest demo_sched = 0" "tstat demo_sched 2 = RT_THREAD_READY"
    "prio_of demo_sched 2 = 5"
    by (simp_all add: demo_sched_def tstat_def prio_of_def)
  then show ?thesis
    using rt_schedule_runs_highest[OF demo_sched_inv c(1)] demo_sched_inv by metis
qed

text \<open>
  C3. Threads of one priority take turns. When the running thread is still ready and other
  threads of its priority wait, no ready thread being of higher priority, \<^verbatim>\<open>rt_schedule\<close>
  hands the processor to the one that waited longest and puts the caller at the end of their
  queue.
\<close>

theorem rt_schedule_round_robin:
  assumes inv: "sched_inv {} s" and c: "cur s = Some c" "tstat s c = RT_THREAD_READY"
    and "lock_nest s = 0" and q: "tl s (Ready (prio_of s c)) = t # ts"
    and hi: "\<forall>p < prio_of s c. tl s (Ready p) = []"
  shows "\<exists>s'. rt_schedule s = Some s' \<and> cur s' = Some t \<and> tl s' (Ready (prio_of s c)) = ts @ [c] \<and>
           cur_prio s' = current_priority (thr s c)"
  using inv c(1)
proof (cases rule: rt_schedule_cases)
  case (stay p u)
  then show ?thesis using q by (elim highest_readyD) auto
next
  case (switch p u)
  obtain us where us: "tl s (Ready p) = u # us" "\<And>q. q < p \<Longrightarrow> tl s (Ready q) = []"
    using highest_readyD[OF switch(2)] by blast
  have p: "p = prio_of s c" using switch(4)[OF c(2)] hi us(1) by (metis le_neq_implies_less list.distinct(1))
  then have u: "u = t" "us = ts" using us(1) q by simp_all
  have "distinct (tl s (Ready p))" using sched_invD(1)[OF inv] by (simp add: lists_ok_def)
  then have "t \<notin> set ts" using us(1) u by simp
  then show ?thesis using switch c q u p
    by (auto simp: switch_to_sel switch_to_tl ls_insert_before_def) (simp add: prio_of_def)
qed (use assms in auto)

theorem rt_schedule_round_robin_witness:
  "tl demo_sched (Ready 5) = [2] \<and>
   (\<exists>s'. rt_schedule demo_sched = Some s' \<and> cur s' = Some 2 \<and> tl s' (Ready 5) = [1])"
proof -
  have c: "cur demo_sched = Some 1" "tstat demo_sched 1 = RT_THREAD_READY" "lock_nest demo_sched = 0"
    "tl demo_sched (Ready (prio_of demo_sched 1)) = 2 # []"
    "\<forall>p < prio_of demo_sched 1. tl demo_sched (Ready p) = []" "prio_of demo_sched 1 = 5"
    by (simp_all add: demo_sched_def tstat_def prio_of_def)
  then show ?thesis
    using rt_schedule_round_robin[OF demo_sched_inv c(1-5)] by auto
qed

section \<open>Critical sections\<close>

fun exit_critical_n :: "nat \<Rightarrow> 'a kbase_scheme \<Rightarrow> 'a kbase_scheme option" where
  "exit_critical_n 0 s = Some s"
| "exit_critical_n (Suc n) s = do { s' \<leftarrow> rt_exit_critical s; exit_critical_n n s' }"

lemma enter_critical_pow: "(rt_enter_critical ^^ n) s = s\<lparr>lock_nest := lock_nest s + of_nat n\<rparr>"
  by (induction n) (simp_all add: rt_enter_critical_def ac_simps)

lemma sint_u16_of_nat: "n < 32768 \<Longrightarrow> sint (of_nat n :: u16) = int n"
  using int_word_sint[of "int n", where ?'a = 16] by simp

lemma u16_of_nat_nonzero: "0 < n \<Longrightarrow> n < 65536 \<Longrightarrow> (of_nat n :: u16) \<noteq> 0"
  by (auto simp: word_of_nat_eq_0_iff dest: dvd_imp_le)

lemma bind_exit_0: "Option.bind x (exit_critical_n 0) = x"
  by (cases x) simp_all

lemma unlocked_idem: "lock_nest s = 0 \<Longrightarrow> s\<lparr>lock_nest := 0\<rparr> = s"
  by (cases s) simp

text \<open>
  C5. The scheduler lock nests. After \<open>n\<close> calls of \<^verbatim>\<open>rt_enter_critical\<close> from an unlocked
  state, \<open>0 < n < 32768\<close>, \<^verbatim>\<open>rt_schedule\<close> does nothing; of the \<open>n\<close> matching calls of
  \<^verbatim>\<open>rt_exit_critical\<close> the last one alone unlocks, and together they amount to one
  \<^verbatim>\<open>rt_schedule\<close> in the state before the section.
\<close>

theorem critical_sections_nest:
  assumes "lock_nest s = 0" "0 < n" "n < 32768"
  shows "rt_schedule ((rt_enter_critical ^^ n) s) = Some ((rt_enter_critical ^^ n) s) \<and>
         rt_critical_level ((rt_enter_critical ^^ n) s) = of_nat n \<and>
         exit_critical_n n ((rt_enter_critical ^^ n) s) = rt_schedule s"
proof -
  have "exit_critical_n (Suc k) ((rt_enter_critical ^^ Suc k) s) = rt_schedule s" if "k < 32767" for k
    using that
  proof (induction k)
    case 0
    then show ?case using assms(1)
      by (simp add: rt_exit_critical_def rt_enter_critical_def unlocked_idem bind_exit_0)
  next
    case (Suc k)
    have "rt_exit_critical ((rt_enter_critical ^^ Suc (Suc k)) s) = Some ((rt_enter_critical ^^ Suc k) s)"
      using Suc.prems assms(1) sint_u16_of_nat[of "Suc k"]
      by (simp add: rt_exit_critical_def enter_critical_pow Let_def del: funpow.simps)
    then show ?case using Suc by (simp del: funpow.simps)
  qed
  from this[of "n - 1"] show ?thesis
    using assms u16_of_nat_nonzero[of n]
    by (simp add: rt_schedule_def rt_critical_level_def enter_critical_pow del: funpow.simps)
qed

theorem critical_sections_nest_witness:
  "lock_nest demo_sched = 0 \<and>
   exit_critical_n 3 ((rt_enter_critical ^^ 3) demo_sched) = rt_schedule demo_sched"
  using critical_sections_nest[of demo_sched 3] by (simp add: demo_sched_def)

lemma exit_after_enter:
  assumes "0 \<le> sint (lock_nest s)"
  shows "rt_exit_critical (rt_enter_critical s) = (if lock_nest s = 0 then rt_schedule s else Some s)"
proof -
  have "sint (lock_nest s) \<le> 0 \<longleftrightarrow> lock_nest s = 0"
    using assms signed_eq_0_iff[of "lock_nest s", where ?'a = int] by linarith
  then show ?thesis
    by (simp add: rt_exit_critical_def rt_enter_critical_def Let_def unlocked_idem)
qed

text \<open>
  The counter is a signed 16 bit integer, so that the bound is sharp: in the section
  nested 32769 deep the counter is \<open>-32767\<close> and the first exit unlocks the scheduler.
\<close>

lemma critical_section_overflow:
  "lock_nest s = 0 \<Longrightarrow>
   rt_exit_critical ((rt_enter_critical ^^ 32769) s) = rt_schedule s"
  by (simp add: rt_exit_critical_def enter_critical_pow Let_def unlocked_idem del: funpow.simps)

section \<open>Start-up\<close>

text \<open>
  \<^verbatim>\<open>rt_system_scheduler_init\<close> establishes the invariant when no thread has been
  started and nothing waits on an IPC object yet, whatever the ready queues, bitmaps and
  nesting counter held before.
\<close>

theorem rt_system_scheduler_init_establishes:
  assumes "prio_max s \<le> 256" "\<forall>t. tstat s t = RT_THREAD_INIT"
    and "\<forall>h. tl s h = [] \<or> h = Defunct \<or> (\<exists>p < prio_max s. h = Ready p)"
  shows "sched_inv {} (rt_system_scheduler_init s) \<and> ready_group (rt_system_scheduler_init s) = 0"
proof -
  let ?s = "rt_system_scheduler_init s"
  have tl: "tl ?s h = []" for h
    using assms(3) by (cases h) (force simp: rt_system_scheduler_init_def)+
  have st: "tstat ?s t = RT_THREAD_INIT" for t
    using assms(2) by (simp add: rt_system_scheduler_init_def tstat_def)
  have "bit (ready_table ?s (p div 8)) k = False" if "prio_max s > 32" "p < 256" for p k
  proof -
    have "p div 8 < 32" using that by linarith
    then show ?thesis using that by (simp add: rt_system_scheduler_init_def)
  qed
  then show ?thesis
    using tl st assms(1)
    by (auto simp: sched_inv_def queue_ok_def bitmap_ok_def lists_ok_def)
      (auto simp: rt_system_scheduler_init_def)
qed

definition boot_sched :: kbase where
  "boot_sched = demo_sched\<lparr>thr := (\<lambda>_. idle_thread)\<rparr>"

theorem rt_system_scheduler_init_establishes_witness:
  "tl boot_sched (Ready 5) = [2] \<and> sched_inv {} (rt_system_scheduler_init boot_sched)"
  using rt_system_scheduler_init_establishes[of boot_sched]
  by (auto simp: boot_sched_def demo_sched_def tstat_def idle_thread_def)

text \<open>
  \<^verbatim>\<open>rt_system_scheduler_start\<close>, with some thread started and none running, keeps the
  invariant and runs a ready thread of the highest priority.
\<close>

theorem rt_system_scheduler_start_runs_highest:
  assumes inv: "sched_inv {} s" and c: "cur s = None" and u: "tstat s u = RT_THREAD_READY"
  shows "\<exists>s' c'. rt_system_scheduler_start s = Some s' \<and> sched_inv {} s' \<and> cur s' = Some c' \<and>
           (\<forall>t. tstat s t = RT_THREAD_READY \<longrightarrow> prio_of s c' \<le> prio_of s t)"
proof -
  have mem: "tstat s t = RT_THREAD_READY \<Longrightarrow> t \<in> set (tl s (Ready (prio_of s t)))" for t
    using sched_invD(8)[OF inv] c by simp
  then have "ready_group s \<noteq> 0" using ready_group_zero_iff[OF inv] u by fastforce
  then obtain p t where g: "get_highest_priority_thread s = Some (p, t)" and h: "highest_ready s p t"
    using get_highest_correct[OF inv] by blast
  obtain ts where ts: "tl s (Ready p) = t # ts" "\<And>q. q < p \<Longrightarrow> tl s (Ready q) = []"
    using highest_readyD[OF h] by blast
  have t: "tstat s t = RT_THREAD_READY" "prio_of s t = p"
    using ready_member[OF inv, of t p] ts(1) by simp_all
  let ?s = "rt_schedule_remove_thread t s"
  have "sched_inv {t} ?s"
    using sched_inv_remove_thread[OF inv sched_invD(10)[OF inv], of t] t by simp
  then have "sched_inv {} (?s\<lparr>cur := Some t\<rparr>)"
    unfolding sched_inv_def queue_ok_def bitmap_ok_def using c
    by (auto simp: tstat_def prio_of_def unlinked_def)
  moreover have "rt_schedule_remove_thread t (s\<lparr>cur := Some t\<rparr>) = ?s\<lparr>cur := Some t\<rparr>"
    by (simp add: rt_schedule_remove_thread_def Let_def prio_of_def)
  moreover have "prio_of s t \<le> prio_of s v" if "tstat s v = RT_THREAD_READY" for v
    using mem[OF that] ts(2) t(2) by (metis empty_iff list.set(1) not_less)
  ultimately show ?thesis using g by (auto simp: rt_system_scheduler_start_def)
qed

definition demo_ready :: kbase where
  "demo_ready = demo_sched\<lparr>cur := None, tl := (\<lambda>_. [])(Ready 5 := [1, 2], Ready 9 := [3])\<rparr>"

lemma demo_ready_inv: "sched_inv {} demo_ready"
proof -
  have "queue_ok {} demo_ready"
    unfolding queue_ok_def
    by (auto simp: demo_ready_def demo_sched_def tstat_def prio_of_def idle_thread_def list_stat_def
        lists_ok_def attr_ok_demo_thread split: if_splits)
  moreover have "bitmap_ok demo_ready"
    using bit_0x220 by (auto simp: bitmap_ok_def demo_ready_def demo_sched_def)
  ultimately show ?thesis by (simp add: sched_inv_def) (simp add: demo_ready_def demo_sched_def)
qed

theorem rt_system_scheduler_start_runs_highest_witness:
  "\<exists>s' c'. rt_system_scheduler_start demo_ready = Some s' \<and> sched_inv {} s' \<and> cur s' = Some c' \<and>
     prio_of demo_ready c' \<le> 9"
proof -
  have c: "cur demo_ready = None" "tstat demo_ready 3 = RT_THREAD_READY" "prio_of demo_ready 3 = 9"
    by (simp_all add: demo_ready_def demo_sched_def tstat_def prio_of_def)
  then show ?thesis
    using rt_system_scheduler_start_runs_highest[OF demo_ready_inv c(1,2)] by metis
qed

end
