(* ===== verification/KString.thy ===== *)
theory KString
  imports Prelude
begin

text \<open>
  The string functions of \<^verbatim>\<open>src/kservice.c\<close> that the kernel uses on object names. A C
  string is the list of its bytes; reading at or past the end of the list yields the
  terminating NUL, which is as far as these functions look. \<^verbatim>\<open>char\<close> is unsigned, as in the
  ARM ABI.
\<close>

section \<open>Definitions\<close>

text \<open>The \<open>n\<close> bytes that \<^verbatim>\<open>rt_strncpy\<close> stores at its destination.\<close>

fun rt_strncpy :: "u8 list \<Rightarrow> nat \<Rightarrow> u8 list" where
  "rt_strncpy s 0 = []"
| "rt_strncpy [] (Suc n) = 0 # replicate n 0"
| "rt_strncpy (c # s) (Suc n) = (if c = 0 then 0 # replicate n 0 else c # rt_strncpy s n)"

text \<open>\<open>*cs\<close> and \<open>cs + 1\<close>.\<close>

definition chr :: "u8 list \<Rightarrow> u8" where
  "chr s = (case s of [] \<Rightarrow> 0 | c # _ \<Rightarrow> c)"

text \<open>
  \<^verbatim>\<open>rt_strncmp\<close>: the difference is stored in a \<^verbatim>\<open>signed char\<close>, an 8 bit word read with
  \<open>sint\<close>.
\<close>

fun strncmp_res :: "u8 list \<Rightarrow> u8 list \<Rightarrow> nat \<Rightarrow> u8 \<Rightarrow> u8" where
  "strncmp_res cs ct 0 res = res"
| "strncmp_res cs ct (Suc n) res =
     (let res' = chr cs - chr ct in
      if res' \<noteq> 0 \<or> chr cs = 0 then res' else strncmp_res (drop 1 cs) (drop 1 ct) n res')"

definition rt_strncmp :: "u8 list \<Rightarrow> u8 list \<Rightarrow> nat \<Rightarrow> int" where
  "rt_strncmp cs ct n = sint (strncmp_res cs ct n 0)"

function rt_strcmp :: "u8 list \<Rightarrow> u8 list \<Rightarrow> int" where
  "rt_strcmp cs ct =
     (if chr cs \<noteq> 0 \<and> chr cs = chr ct then rt_strcmp (drop 1 cs) (drop 1 ct)
      else uint (chr cs) - uint (chr ct))"
  by pat_completeness auto
termination
  by (relation "measure (length \<circ> fst)") (auto simp: chr_def split: list.splits)

declare rt_strcmp.simps [simp del]

text \<open>\<^verbatim>\<open>rt_strnlen\<close> and \<^verbatim>\<open>rt_strlen\<close>.\<close>

fun rt_strnlen :: "u8 list \<Rightarrow> nat \<Rightarrow> nat" where
  "rt_strnlen [] n = 0"
| "rt_strnlen (c # s) n = (if c \<noteq> 0 \<and> 0 < n then Suc (rt_strnlen s (n - 1)) else 0)"

fun rt_strlen :: "u8 list \<Rightarrow> nat" where
  "rt_strlen [] = 0"
| "rt_strlen (c # s) = (if c \<noteq> 0 then Suc (rt_strlen s) else 0)"

section \<open>What they compute\<close>

text \<open>The characters of a string, up to its terminator.\<close>

definition chars :: "u8 list \<Rightarrow> u8 list" where
  "chars s = takeWhile (\<lambda>c. c \<noteq> 0) s"

lemma chars_simps [simp]: "chars [] = []" "chars (c # s) = (if c = 0 then [] else c # chars s)"
  by (simp_all add: chars_def)

lemma chars_chr: "chars s = (if chr s = 0 then [] else chr s # chars (drop 1 s))"
  by (cases s) (simp_all add: chr_def)

lemma rt_strlen_chars: "rt_strlen s = length (chars s)"
  by (induction s) auto

lemma rt_strnlen_chars: "rt_strnlen s n = min n (length (chars s))"
  by (induction s n rule: rt_strnlen.induct) auto

lemma length_rt_strncpy [simp]: "length (rt_strncpy s n) = n"
  by (induction s n rule: rt_strncpy.induct) auto

lemma chars_replicate_0 [simp]: "chars (replicate n 0) = []"
  by (induction n) auto

lemma chars_rt_strncpy [simp]: "chars (rt_strncpy s n) = take n (chars s)"
  by (induction s n rule: rt_strncpy.induct) auto

lemma strncmp_res_zero_iff:
  "strncmp_res cs ct n 0 = 0 \<longleftrightarrow> take n (chars cs) = take n (chars ct)"
proof (induction n arbitrary: cs ct)
  case (Suc n)
  then show ?case
    by (subst chars_chr[of cs], subst chars_chr[of ct]) (auto simp: Let_def)
qed simp

lemma rt_strncmp_zero_iff: "rt_strncmp cs ct n = 0 \<longleftrightarrow> take n (chars cs) = take n (chars ct)"
  by (simp add: rt_strncmp_def strncmp_res_zero_iff[symmetric] signed_eq_0_iff)

lemma rt_strcmp_zero_iff: "rt_strcmp cs ct = 0 \<longleftrightarrow> chars cs = chars ct"
proof (induction cs ct rule: rt_strcmp.induct)
  case (1 cs ct)
  show ?case
  proof (cases "chr cs \<noteq> 0 \<and> chr cs = chr ct")
    case True
    then show ?thesis using 1
      by (subst rt_strcmp.simps, subst chars_chr[of cs], subst chars_chr[of ct]) simp
  next
    case False
    then have "rt_strcmp cs ct = uint (chr cs) - uint (chr ct)" by (subst rt_strcmp.simps) auto
    then have "rt_strcmp cs ct = 0 \<longleftrightarrow> chr cs = chr ct" by (simp add: word_uint_eq_iff)
    then show ?thesis using False chars_chr[of cs] chars_chr[of ct] by auto
  qed
qed

text \<open>
  The comparisons decide equality and the copy round-trips: \<^verbatim>\<open>rt_strncmp\<close> is 0 exactly
  when the two strings agree on their first \<open>n\<close> characters, \<^verbatim>\<open>rt_strcmp\<close> exactly when they
  are equal, \<^verbatim>\<open>rt_strnlen\<close> is the length cut at \<open>n\<close>, and what \<^verbatim>\<open>rt_strncpy\<close> stored compares
  equal to its source.
\<close>

theorem string_comparisons:
  "(rt_strncmp s t n = 0 \<longleftrightarrow> take n (chars s) = take n (chars t)) \<and>
   (rt_strcmp s t = 0 \<longleftrightarrow> chars s = chars t) \<and>
   rt_strnlen s n = min n (rt_strlen s) \<and>
   rt_strncmp (rt_strncpy s n) s n = 0 \<and> length (rt_strncpy s n) = n"
  by (simp add: rt_strncmp_zero_iff rt_strcmp_zero_iff rt_strnlen_chars rt_strlen_chars)

text \<open>
  The sign of \<^verbatim>\<open>rt_strncmp\<close> does not order strings: the \<^verbatim>\<open>signed char\<close> wraps, and the
  string \<open>01\<close> compares greater than \<open>ff\<close>, while \<^verbatim>\<open>rt_strcmp\<close> orders them.
\<close>

theorem rt_strncmp_sign_wraps: "rt_strncmp [0x01] [0xff] 1 > 0 \<and> rt_strcmp [0x01] [0xff] < 0"
  by (simp add: rt_strncmp_def chr_def rt_strcmp.simps[of "[0x01]"])

end
