(* ===== verification/KObject.thy ===== *)
theory KObject
  imports KString Scheduler
begin

unbundle bit_operations_syntax

text \<open>
  \<^verbatim>\<open>src/object.c\<close>: the object container, one list per class of kernel objects. The
  configuration has every IPC object, memory pools and memory heaps, and neither devices nor
  modules. The memory that \<^verbatim>\<open>RT_KERNEL_MALLOC\<close> returns is an argument of
  \<open>rt_object_allocate\<close>.
\<close>

section \<open>Definitions\<close>

abbreviation RT_NAME_MAX :: nat where "RT_NAME_MAX \<equiv> 8"

abbreviation RT_Object_Class_Thread :: u8 where "RT_Object_Class_Thread \<equiv> 0"
abbreviation RT_Object_Class_Semaphore :: u8 where "RT_Object_Class_Semaphore \<equiv> 1"
abbreviation RT_Object_Class_Mutex :: u8 where "RT_Object_Class_Mutex \<equiv> 2"
abbreviation RT_Object_Class_Event :: u8 where "RT_Object_Class_Event \<equiv> 3"
abbreviation RT_Object_Class_MailBox :: u8 where "RT_Object_Class_MailBox \<equiv> 4"
abbreviation RT_Object_Class_MessageQueue :: u8 where "RT_Object_Class_MessageQueue \<equiv> 5"
abbreviation RT_Object_Class_MemHeap :: u8 where "RT_Object_Class_MemHeap \<equiv> 6"
abbreviation RT_Object_Class_MemPool :: u8 where "RT_Object_Class_MemPool \<equiv> 7"
abbreviation RT_Object_Class_Timer :: u8 where "RT_Object_Class_Timer \<equiv> 9"
abbreviation RT_Object_Class_Unknown :: u8 where "RT_Object_Class_Unknown \<equiv> 11"
abbreviation RT_Object_Class_Static :: u8 where "RT_Object_Class_Static \<equiv> 0x80"

text \<open>The \<open>type\<close> fields of \<^verbatim>\<open>rt_object_container\<close>, in order.\<close>

definition rt_object_container :: "u8 list" where
  "rt_object_container =
     [RT_Object_Class_Thread, RT_Object_Class_Semaphore, RT_Object_Class_Mutex,
      RT_Object_Class_Event, RT_Object_Class_MailBox, RT_Object_Class_MessageQueue,
      RT_Object_Class_MemHeap, RT_Object_Class_MemPool, RT_Object_Class_Timer]"

definition rt_object_get_information :: "u8 \<Rightarrow> u8 option" where
  "rt_object_get_information ty = List.find (\<lambda>t. t = ty) rt_object_container"

definition rt_object_init ::
  "oid \<Rightarrow> u8 \<Rightarrow> u8 list \<Rightarrow> 'a kbase_scheme \<Rightarrow> 'a kbase_scheme option" where
  "rt_object_init ob ty nm s = do {
     information \<leftarrow> rt_object_get_information ty;
     let s1 = s\<lparr>objs := (objs s)(ob := (objs s ob)
                  \<lparr>otype := ty OR RT_Object_Class_Static, name := rt_strncpy nm RT_NAME_MAX\<rparr>)\<rparr>;
     Some (s1\<lparr>olists := ls_insert_after information ob (olists s1)\<rparr>)
   }"

definition rt_object_detach :: "oid \<Rightarrow> 'a kbase_scheme \<Rightarrow> 'a kbase_scheme" where
  "rt_object_detach ob s =
     s\<lparr>objs := (objs s)(ob := (objs s ob)\<lparr>otype := 0\<rparr>), olists := ls_remove ob (olists s)\<rparr>"

definition rt_object_allocate ::
  "u8 \<Rightarrow> u8 list \<Rightarrow> oid option \<Rightarrow> 'a kbase_scheme \<Rightarrow> ('a kbase_scheme \<times> oid option) option" where
  "rt_object_allocate ty nm mem s = do {
     rt_debug_not_in_interrupt s;
     information \<leftarrow> rt_object_get_information ty;
     (case mem of
        None \<Rightarrow> Some (s, None)
      | Some ob \<Rightarrow>
          let s1 = s\<lparr>heap := insert (ObjBlk ob) (heap s),
                     objs := (objs s)(ob := \<lparr>name = rt_strncpy nm RT_NAME_MAX, otype = ty, oflag = 0\<rparr>)\<rparr>
          in Some (s1\<lparr>olists := ls_insert_after information ob (olists s1)\<rparr>, Some ob))
   }"

definition rt_object_is_systemobject :: "oid \<Rightarrow> 'a kbase_scheme \<Rightarrow> bool" where
  "rt_object_is_systemobject ob s \<longleftrightarrow> otype (objs s ob) AND RT_Object_Class_Static \<noteq> 0"

definition rt_object_get_type :: "oid \<Rightarrow> 'a kbase_scheme \<Rightarrow> u8" where
  "rt_object_get_type ob s = otype (objs s ob) AND NOT RT_Object_Class_Static"

definition rt_object_delete :: "oid \<Rightarrow> 'a kbase_scheme \<Rightarrow> 'a kbase_scheme option" where
  "rt_object_delete ob s = do {
     rt_assert (\<not> rt_object_is_systemobject ob s);
     kernel_free (ObjBlk ob) (s\<lparr>objs := (objs s)(ob := (objs s ob)\<lparr>otype := 0\<rparr>),
                                olists := ls_remove ob (olists s)\<rparr>)
   }"

text \<open>The walk of \<^verbatim>\<open>rt_object_find\<close> along one list of the container.\<close>

definition object_lookup :: "u8 list \<Rightarrow> u8 \<Rightarrow> 'a kbase_scheme \<Rightarrow> oid option" where
  "object_lookup nm information s =
     List.find (\<lambda>ob. rt_strncmp (name (objs s ob)) nm RT_NAME_MAX = 0) (olists s information)"

definition rt_object_find ::
  "u8 list option \<Rightarrow> u8 \<Rightarrow> 'a kbase_scheme \<Rightarrow> ('a kbase_scheme \<times> oid option) option" where
  "rt_object_find nm ty s =
     (case nm of
        None \<Rightarrow> Some (s, None)
      | Some n \<Rightarrow>
          if ty > RT_Object_Class_Unknown then Some (s, None)
          else do {
            rt_debug_not_in_interrupt s;
            let s1 = rt_enter_critical s;
            information \<leftarrow> rt_object_get_information ty;
            let r = object_lookup n information s1;
            s2 \<leftarrow> rt_exit_critical s1;
            Some (s2, r)
          })"

section \<open>The container\<close>

text \<open>Every object in a list of the container is of the class of the list, and in no other list.\<close>

definition container_ok :: "'a kbase_scheme \<Rightarrow> bool" where
  "container_ok s \<longleftrightarrow> lists_ok (olists s) \<and>
     (\<forall>ty ob. ob \<in> set (olists s ty) \<longrightarrow> rt_object_get_type ob s = ty \<and> length (name (objs s ob)) = RT_NAME_MAX)"

lemma get_information_iff [simp]:
  "ty \<in> set rt_object_container \<Longrightarrow> rt_object_get_information ty = Some ty"
  "ty \<notin> set rt_object_container \<Longrightarrow> rt_object_get_information ty = None"
  by (auto simp: rt_object_get_information_def rt_object_container_def find_None_iff)

lemma class_masks:
  assumes "ty \<in> set rt_object_container"
  shows "ty AND NOT RT_Object_Class_Static = ty" "ty AND RT_Object_Class_Static = 0"
    "(ty OR RT_Object_Class_Static) AND NOT RT_Object_Class_Static = ty"
    "(ty OR RT_Object_Class_Static) AND RT_Object_Class_Static \<noteq> 0"
    "\<not> ty > RT_Object_Class_Unknown"
  using assms by (auto simp: rt_object_container_def)

lemma container_okD:
  "container_ok s \<Longrightarrow> lists_ok (olists s)"
  "container_ok s \<Longrightarrow> ob \<in> set (olists s ty) \<Longrightarrow> rt_object_get_type ob s = ty"
  "container_ok s \<Longrightarrow> ob \<in> set (olists s ty) \<Longrightarrow> length (name (objs s ob)) = RT_NAME_MAX"
  by (auto simp: container_ok_def)

lemma container_ok_cong:
  "objs s' = objs s \<Longrightarrow> olists s' = olists s \<Longrightarrow> container_ok s' = container_ok s"
  by (simp add: container_ok_def rt_object_get_type_def)

lemma object_lookup_cong:
  "objs s' = objs s \<Longrightarrow> olists s' = olists s \<Longrightarrow> object_lookup nm ty s' = object_lookup nm ty s"
  by (simp add: object_lookup_def)

lemma mem_insert_after:
  "u \<in> set (ls_insert_after h t st k) \<longleftrightarrow> u \<in> set (st k) \<or> u = t \<and> k = h"
  by (auto simp: ls_insert_after_def)

text \<open>Attaching a new object with a record of the right class.\<close>

lemma container_attach:
  assumes ok: "container_ok s" and un: "unlinked ob (olists s)"
    and s': "olists s' = ls_insert_after ty ob (olists s)" "objs s' = (objs s)(ob := r)"
    and r: "otype r AND NOT RT_Object_Class_Static = ty" "name r = rt_strncpy nm RT_NAME_MAX"
  shows "container_ok s'" "object_lookup nm ty s' = Some ob"
    and "ty' \<noteq> ty \<or> take RT_NAME_MAX (chars nm') \<noteq> take RT_NAME_MAX (chars nm) \<Longrightarrow>
           object_lookup nm' ty' s' = object_lookup nm' ty' s"
proof -
  show "container_ok s'"
    using ok un r lists_ok_insert_after[OF _ un, of ty] unfolding container_ok_def
    by (auto simp: s' mem_insert_after rt_object_get_type_def unlinked_def)
  show "object_lookup nm ty s' = Some ob"
    using r by (simp add: object_lookup_def s' ls_insert_after_def rt_strncmp_zero_iff)
  have old: "List.find (\<lambda>x. rt_strncmp (name (objs s' x)) n RT_NAME_MAX = 0) (olists s k) =
      object_lookup n k s" for n k
    unfolding object_lookup_def
    by (rule find_cong) (use un in \<open>auto simp: s' unlinked_def\<close>)
  show "object_lookup nm' ty' s' = object_lookup nm' ty' s"
    if "ty' \<noteq> ty \<or> take RT_NAME_MAX (chars nm') \<noteq> take RT_NAME_MAX (chars nm)"
  proof (cases "ty' = ty")
    case True
    with that have "rt_strncmp (name (objs s' ob)) nm' RT_NAME_MAX \<noteq> 0"
      using r by (auto simp: s' rt_strncmp_zero_iff)
    then show ?thesis using True old[of nm' ty] by (simp add: object_lookup_def s'(1) ls_insert_after_def)
  next
    case False
    then show ?thesis using old[of nm' ty'] by (simp add: object_lookup_def s'(1) ls_insert_after_def)
  qed
qed

lemma container_detach:
  assumes "container_ok s" "olists s' = ls_remove ob (olists s)"
    and "\<And>x. x \<noteq> ob \<Longrightarrow> objs s' x = objs s x"
  shows "container_ok s'" "unlinked ob (olists s')"
  using assms lists_ok_remove[of "olists s" ob]
  by (auto simp: container_ok_def rt_object_get_type_def)

lemma rt_object_find_result:
  assumes inv: "sched_inv {} s" and c: "cur s = Some c" "irq_nest s = 0" "0 \<le> sint (lock_nest s)"
    and ty: "ty \<in> set rt_object_container"
  shows "\<exists>s'. rt_object_find (Some nm) ty s = Some (s', object_lookup nm ty s) \<and> sched_inv {} s' \<and>
           objs s' = objs s \<and> olists s' = olists s"
proof -
  obtain s' where s': "rt_schedule s = Some s'" "sched_inv {} s'" "objs s' = objs s" "olists s' = olists s"
    using rt_schedule_total[OF inv c(1)] by metis
  have "object_lookup nm ty (rt_enter_critical s) = object_lookup nm ty s"
    by (rule object_lookup_cong) (simp_all add: rt_enter_critical_def)
  then show ?thesis
    using s' c ty inv class_masks(5)[OF ty] exit_after_enter[OF c(3)]
    by (auto simp: rt_object_find_def rt_debug_not_in_interrupt_def)
qed

text \<open>
  C6. Registering and looking up static objects. In a consistent container,
  \<^verbatim>\<open>rt_object_init\<close> of an object that is in no list succeeds for every class the container
  has and keeps the container consistent; \<^verbatim>\<open>rt_object_find\<close> then returns that object for its
  name, even if an older object has the same name, and finds for every other name (up to
  \<^verbatim>\<open>RT_NAME_MAX\<close> characters) and class what it found before; \<^verbatim>\<open>rt_object_detach\<close> undoes the
  registration.
\<close>

theorem rt_object_init_find_detach:
  assumes ok: "container_ok s" and un: "unlinked ob (olists s)" and ty: "ty \<in> set rt_object_container"
    and inv: "sched_inv {} s" and c: "cur s = Some c" "irq_nest s = 0" "lock_nest s = 0"
  shows "\<exists>s1. rt_object_init ob ty nm s = Some s1 \<and> container_ok s1 \<and>
           rt_object_is_systemobject ob s1 \<and> rt_object_get_type ob s1 = ty \<and>
           (\<exists>s2. rt_object_find (Some nm) ty s1 = Some (s2, Some ob)) \<and>
           (\<forall>nm' ty'. ty' \<in> set rt_object_container \<longrightarrow>
              ty' \<noteq> ty \<or> take RT_NAME_MAX (chars nm') \<noteq> take RT_NAME_MAX (chars nm) \<longrightarrow>
              map_option snd (rt_object_find (Some nm') ty' s1) = map_option snd (rt_object_find (Some nm') ty' s)) \<and>
           container_ok (rt_object_detach ob s1) \<and> olists (rt_object_detach ob s1) = olists s"
proof -
  define s1 where "s1 = s\<lparr>objs := (objs s)(ob := (objs s ob)
      \<lparr>otype := ty OR RT_Object_Class_Static, name := rt_strncpy nm RT_NAME_MAX\<rparr>),
      olists := ls_insert_after ty ob (olists s)\<rparr>"
  have init: "rt_object_init ob ty nm s = Some s1"
    using ty by (simp add: rt_object_init_def s1_def)
  have frame: "sched_inv {} s1" "cur s1 = Some c" "irq_nest s1 = 0" "0 \<le> sint (lock_nest s1)"
    using inv c sched_inv_cong[of s1 s] by (simp_all add: s1_def)
  note att = container_attach[OF ok un, of s1 ty _ nm]
  have 1: "container_ok s1" "object_lookup nm ty s1 = Some ob"
    and 2: "ty' \<noteq> ty \<or> take RT_NAME_MAX (chars nm') \<noteq> take RT_NAME_MAX (chars nm) \<Longrightarrow>
      object_lookup nm' ty' s1 = object_lookup nm' ty' s" for ty' nm'
    using att class_masks(3)[OF ty] by (simp_all add: s1_def)
  have find: "map_option snd (rt_object_find (Some n) k s1) = Some (object_lookup n k s1)"
    "map_option snd (rt_object_find (Some n) k s) = Some (object_lookup n k s)"
    if "k \<in> set rt_object_container" for n k
    using rt_object_find_result[OF frame that, of n] rt_object_find_result[OF inv c(1,2) _ that, of n] c(3)
    by auto
  have det: "olists (rt_object_detach ob s1) = olists s"
    using un by (auto simp: rt_object_detach_def s1_def ls_insert_after_def unlinked_def fun_eq_iff)
  have "container_ok (rt_object_detach ob s1)"
    by (rule container_detach(1)[OF 1(1)]) (auto simp: rt_object_detach_def)
  moreover have "rt_object_is_systemobject ob s1" "rt_object_get_type ob s1 = ty"
    using class_masks[OF ty] by (simp_all add: rt_object_is_systemobject_def rt_object_get_type_def s1_def)
  moreover have "\<exists>s2. rt_object_find (Some nm) ty s1 = Some (s2, Some ob)"
    using rt_object_find_result[OF frame ty, of nm] 1(2) by auto
  moreover have "map_option snd (rt_object_find (Some n) k s1) = map_option snd (rt_object_find (Some n) k s)"
    if "k \<in> set rt_object_container" "k \<noteq> ty \<or> take RT_NAME_MAX (chars n) \<noteq> take RT_NAME_MAX (chars nm)"
    for n k
    using find[OF that(1)] 2[OF that(2)] by metis
  ultimately show ?thesis using init 1(1) det by blast
qed

theorem rt_object_init_find_detach_witness:
  "container_ok demo_sched \<and> unlinked (IpcObj (SemId 3)) (olists demo_sched) \<and>
   (\<exists>s1 s2. rt_object_init (IpcObj (SemId 3)) RT_Object_Class_Semaphore [115, 101, 109] demo_sched = Some s1 \<and>
      rt_object_find (Some [115, 101, 109]) RT_Object_Class_Semaphore s1 = Some (s2, Some (IpcObj (SemId 3))))"
proof -
  have 1: "container_ok demo_sched" "unlinked (IpcObj (SemId 3)) (olists demo_sched)"
    by (simp_all add: container_ok_def lists_ok_def unlinked_def demo_sched_def)
  have 2: "RT_Object_Class_Semaphore \<in> set rt_object_container" by (simp add: rt_object_container_def)
  have 3: "cur demo_sched = Some 1" "irq_nest demo_sched = 0" "lock_nest demo_sched = 0"
    by (simp_all add: demo_sched_def)
  show ?thesis
    using rt_object_init_find_detach[OF 1 2 demo_sched_inv 3, of "[115, 101, 109]"] 1 by blast
qed

text \<open>
  C7. Dynamic objects: when the heap has no memory \<^verbatim>\<open>rt_object_allocate\<close> returns the null
  pointer and changes nothing; otherwise the object it returns is of its class, found by its
  name and not a system object, and \<^verbatim>\<open>rt_object_delete\<close> gives the memory back and restores
  the container. Deleting a static object fails an assertion.
\<close>

theorem rt_object_allocate_delete:
  assumes ok: "container_ok s" and un: "unlinked ob (olists s)" and ty: "ty \<in> set rt_object_container"
    and irq: "irq_nest s = 0" and new: "ObjBlk ob \<notin> heap s"
  shows "rt_object_allocate ty nm None s = Some (s, None) \<and>
         (\<exists>s1. rt_object_allocate ty nm (Some ob) s = Some (s1, Some ob) \<and> container_ok s1 \<and>
            \<not> rt_object_is_systemobject ob s1 \<and> rt_object_get_type ob s1 = ty \<and>
            object_lookup nm ty s1 = Some ob \<and>
            (\<exists>s2. rt_object_delete ob s1 = Some s2 \<and> container_ok s2 \<and>
               olists s2 = olists s \<and> heap s2 = heap s)) \<and>
         (\<forall>ob'. rt_object_is_systemobject ob' s \<longrightarrow> rt_object_delete ob' s = None)"
proof -
  define s1 where "s1 = s\<lparr>heap := insert (ObjBlk ob) (heap s),
      objs := (objs s)(ob := \<lparr>name = rt_strncpy nm RT_NAME_MAX, otype = ty, oflag = 0\<rparr>),
      olists := ls_insert_after ty ob (olists s)\<rparr>"
  have alloc: "rt_object_allocate ty nm (Some ob) s = Some (s1, Some ob)"
    using ty irq by (simp add: rt_object_allocate_def s1_def rt_debug_not_in_interrupt_def)
  have 1: "container_ok s1" "object_lookup nm ty s1 = Some ob"
    using container_attach[OF ok un, of s1 ty _ nm] class_masks[OF ty] by (simp_all add: s1_def)
  have sys: "\<not> rt_object_is_systemobject ob s1" "rt_object_get_type ob s1 = ty"
    using class_masks[OF ty] by (simp_all add: rt_object_is_systemobject_def rt_object_get_type_def s1_def)
  define s2 where "s2 = s1\<lparr>objs := (objs s1)(ob := (objs s1 ob)\<lparr>otype := 0\<rparr>),
      olists := ls_remove ob (olists s1), heap := heap s\<rparr>"
  have "rt_object_delete ob s1 = Some s2"
    using sys(1) irq new
    by (simp add: rt_object_delete_def kernel_free_def rt_debug_not_in_interrupt_def s2_def) (simp add: s1_def)
  moreover have "container_ok s2" by (rule container_detach(1)[OF 1(1)]) (auto simp: s2_def)
  moreover have "olists s2 = olists s"
    using un by (auto simp: s2_def s1_def ls_insert_after_def unlinked_def fun_eq_iff)
  moreover have "heap s2 = heap s" by (simp add: s2_def)
  ultimately show ?thesis
    using alloc 1 sys ty irq
    by (auto simp: rt_object_delete_def rt_object_allocate_def rt_debug_not_in_interrupt_def)
qed

theorem rt_object_allocate_delete_witness:
  "\<exists>s1 s2. rt_object_allocate RT_Object_Class_Timer [116] (Some (TimerObj (UserTimer 0))) demo_sched =
       Some (s1, Some (TimerObj (UserTimer 0))) \<and>
     rt_object_delete (TimerObj (UserTimer 0)) s1 = Some s2 \<and> heap s2 = {}"
proof -
  have 1: "container_ok demo_sched" "unlinked (TimerObj (UserTimer 0)) (olists demo_sched)"
    "irq_nest demo_sched = 0" "heap demo_sched = {}"
    by (simp_all add: container_ok_def lists_ok_def unlinked_def demo_sched_def)
  have 2: "RT_Object_Class_Timer \<in> set rt_object_container" by (simp add: rt_object_container_def)
  show ?thesis
    using rt_object_allocate_delete[OF 1(1,2) 2 1(3), of "[116]"] 1(4) by auto
qed

end
