(* ===== verification/Timer.thy ===== *)
theory Timer
  imports KObject
begin

unbundle bit_operations_syntax

text \<open>
  \<^verbatim>\<open>src/timer.c\<close> and the tick of \<^verbatim>\<open>src/clock.c\<close>: hard timers in one list ordered by
  expiry, \<^verbatim>\<open>RT_TIMER_SKIP_LIST_LEVEL\<close> being 1 as in \<^verbatim>\<open>include/rtdef.h\<close>. Ticks are 32 bit
  and wrap. A timeout function and its parameter are one value, a call of
  \<^verbatim>\<open>rt_thread_timeout\<close> on a thread or a user function; \<open>rt_timer_check\<close> takes the effect of
  these calls as an argument, which \<^verbatim>\<open>Thread\<close> instantiates.

  The order of the list is relative to a base tick \<open>b\<close>, the time of the last check: \<open>due b t\<close>
  is how long after \<open>b\<close> the timer \<open>t\<close> expires. \<open>timer_inv b\<close> says that the list is sorted by
  it, that no timer is further ahead than \<^verbatim>\<open>RT_TICK_MAX / 2\<close> from now, and that the list is
  checked on every tick; this is what makes the wrap-around comparisons of the code agree with
  the order.
\<close>

section \<open>Definitions\<close>

datatype timer_fn = ThreadTimeout tid | UserFn nat

record rt_timer =
  timeout_func :: timer_fn
  init_tick :: u32
  timeout_tick :: u32

record ktimer = kbase +
  tick :: u32
  timers :: "timer_id \<Rightarrow> rt_timer"
  timer_list :: "timer_id list"
  random_nr :: u32

abbreviation RT_TIMER_FLAG_ACTIVATED :: u8 where "RT_TIMER_FLAG_ACTIVATED \<equiv> 0x1"
abbreviation RT_TIMER_FLAG_ONE_SHOT :: u8 where "RT_TIMER_FLAG_ONE_SHOT \<equiv> 0x0"
abbreviation RT_TIMER_FLAG_PERIODIC :: u8 where "RT_TIMER_FLAG_PERIODIC \<equiv> 0x2"

definition timer_flag :: "timer_id \<Rightarrow> 'a kbase_scheme \<Rightarrow> u8" where
  "timer_flag t s = oflag (objs s (TimerObj t))"

definition upd_flag :: "timer_id \<Rightarrow> (u8 \<Rightarrow> u8) \<Rightarrow> 'a kbase_scheme \<Rightarrow> 'a kbase_scheme" where
  "upd_flag t f s = s\<lparr>objs := (objs s)(TimerObj t := (objs s (TimerObj t))\<lparr>oflag := f (timer_flag t s)\<rparr>)\<rparr>"

text \<open>\<^verbatim>\<open>flag &= ~RT_TIMER_FLAG_ACTIVATED\<close> and \<^verbatim>\<open>flag |= RT_TIMER_FLAG_ACTIVATED\<close>.\<close>

definition deactivate :: "timer_id \<Rightarrow> 'a kbase_scheme \<Rightarrow> 'a kbase_scheme" where
  "deactivate t = upd_flag t (\<lambda>fl. fl AND NOT RT_TIMER_FLAG_ACTIVATED)"

definition activate :: "timer_id \<Rightarrow> 'a kbase_scheme \<Rightarrow> 'a kbase_scheme" where
  "activate t = upd_flag t (\<lambda>fl. fl OR RT_TIMER_FLAG_ACTIVATED)"

definition timer_init ::
  "timer_id \<Rightarrow> timer_fn \<Rightarrow> u32 \<Rightarrow> u8 \<Rightarrow> 'a ktimer_scheme \<Rightarrow> 'a ktimer_scheme" where
  "timer_init t f time flag s =
     (let s1 = upd_flag t (\<lambda>_. flag) s;
          s2 = deactivate t s1
      in s2\<lparr>timers := (timers s2)(t := \<lparr>timeout_func = f, init_tick = time, timeout_tick = 0\<rparr>)\<rparr>)"

definition rt_timer_list_next_timeout :: "'a ktimer_scheme \<Rightarrow> u32" where
  "rt_timer_list_next_timeout s =
     (case timer_list s of [] \<Rightarrow> RT_TICK_MAX | t # _ \<Rightarrow> timeout_tick (timers s t))"

definition timer_remove :: "timer_id \<Rightarrow> 'a ktimer_scheme \<Rightarrow> 'a ktimer_scheme" where
  "timer_remove t s = s\<lparr>timer_list := removeAll t (timer_list s)\<rparr>"

definition rt_timer_init ::
  "timer_id \<Rightarrow> u8 list \<Rightarrow> timer_fn \<Rightarrow> u32 \<Rightarrow> u8 \<Rightarrow> 'a ktimer_scheme \<Rightarrow> 'a ktimer_scheme option" where
  "rt_timer_init t nm f time flag s = do {
     s1 \<leftarrow> rt_object_init (TimerObj t) RT_Object_Class_Timer nm s;
     Some (timer_init t f time flag s1)
   }"

definition rt_timer_detach :: "timer_id \<Rightarrow> 'a ktimer_scheme \<Rightarrow> ('a ktimer_scheme \<times> rt_err) option" where
  "rt_timer_detach t s = do {
     rt_assert (rt_object_get_type (TimerObj t) s = RT_Object_Class_Timer);
     rt_assert (rt_object_is_systemobject (TimerObj t) s);
     Some (rt_object_detach (TimerObj t) (timer_remove t s), RT_EOK)
   }"

definition rt_timer_create ::
  "u8 list \<Rightarrow> timer_fn \<Rightarrow> u32 \<Rightarrow> u8 \<Rightarrow> timer_id option \<Rightarrow> 'a ktimer_scheme \<Rightarrow>
   ('a ktimer_scheme \<times> timer_id option) option" where
  "rt_timer_create nm f time flag mem s = do {
     (s1, r) \<leftarrow> rt_object_allocate RT_Object_Class_Timer nm (map_option TimerObj mem) s;
     (case r of
        Some (TimerObj t) \<Rightarrow> Some (timer_init t f time flag s1, Some t)
      | _ \<Rightarrow> Some (s1, None))
   }"

definition rt_timer_delete :: "timer_id \<Rightarrow> 'a ktimer_scheme \<Rightarrow> ('a ktimer_scheme \<times> rt_err) option" where
  "rt_timer_delete t s = do {
     rt_assert (rt_object_get_type (TimerObj t) s = RT_Object_Class_Timer);
     rt_assert (\<not> rt_object_is_systemobject (TimerObj t) s);
     s1 \<leftarrow> rt_object_delete (TimerObj t) (timer_remove t s);
     Some (s1, RT_EOK)
   }"

text \<open>
  The walk of \<^verbatim>\<open>rt_timer_start\<close>: past the timers that expire before or together with the
  new one, up to the first that expires later.
\<close>

fun timer_insert :: "(timer_id \<Rightarrow> u32) \<Rightarrow> timer_id \<Rightarrow> timer_id list \<Rightarrow> timer_id list" where
  "timer_insert to timer [] = [timer]"
| "timer_insert to timer (t # ts) =
     (if to t - to timer = 0 then t # timer_insert to timer ts
      else if to t - to timer < RT_TICK_HALF then timer # t # ts
      else t # timer_insert to timer ts)"

definition rt_tick_get :: "'a ktimer_scheme \<Rightarrow> u32" where
  "rt_tick_get s = tick s"

definition rt_timer_start :: "timer_id \<Rightarrow> 'a ktimer_scheme \<Rightarrow> ('a ktimer_scheme \<times> rt_err) option" where
  "rt_timer_start t s = do {
     rt_assert (rt_object_get_type (TimerObj t) s = RT_Object_Class_Timer);
     let s1 = deactivate t (timer_remove t s);
     rt_assert (init_tick (timers s1 t) < RT_TICK_HALF);
     let s2 = s1\<lparr>timers := (timers s1)(t := (timers s1 t)
                  \<lparr>timeout_tick := rt_tick_get s1 + init_tick (timers s1 t)\<rparr>)\<rparr>;
     let s3 = s2\<lparr>random_nr := random_nr s2 + 1,
                 timer_list := timer_insert (\<lambda>u. timeout_tick (timers s2 u)) t (timer_list s2)\<rparr>;
     Some (activate t s3, RT_EOK)
   }"

definition rt_timer_stop :: "timer_id \<Rightarrow> 'a ktimer_scheme \<Rightarrow> ('a ktimer_scheme \<times> rt_err) option" where
  "rt_timer_stop t s = do {
     rt_assert (rt_object_get_type (TimerObj t) s = RT_Object_Class_Timer);
     if timer_flag t s AND RT_TIMER_FLAG_ACTIVATED = 0 then Some (s, - RT_ERROR)
     else Some (deactivate t (timer_remove t s), RT_EOK)
   }"

datatype timer_cmd = RT_TIMER_CTRL_SET_TIME u32 | RT_TIMER_CTRL_GET_TIME
  | RT_TIMER_CTRL_SET_ONESHOT | RT_TIMER_CTRL_SET_PERIODIC | TIMER_CTRL_OTHER

text \<open>The second component of the result is what \<^verbatim>\<open>GET_TIME\<close> stores at \<open>arg\<close>.\<close>

definition rt_timer_control ::
  "timer_id \<Rightarrow> timer_cmd \<Rightarrow> 'a ktimer_scheme \<Rightarrow> ('a ktimer_scheme \<times> u32 option \<times> rt_err) option" where
  "rt_timer_control t cmd s = do {
     rt_assert (rt_object_get_type (TimerObj t) s = RT_Object_Class_Timer);
     Some (case cmd of
       RT_TIMER_CTRL_GET_TIME \<Rightarrow> (s, Some (init_tick (timers s t)), RT_EOK)
     | RT_TIMER_CTRL_SET_TIME v \<Rightarrow> (s\<lparr>timers := (timers s)(t := (timers s t)\<lparr>init_tick := v\<rparr>)\<rparr>, None, RT_EOK)
     | RT_TIMER_CTRL_SET_ONESHOT \<Rightarrow> (upd_flag t (\<lambda>fl. fl AND NOT RT_TIMER_FLAG_PERIODIC) s, None, RT_EOK)
     | RT_TIMER_CTRL_SET_PERIODIC \<Rightarrow> (upd_flag t (\<lambda>fl. fl OR RT_TIMER_FLAG_PERIODIC) s, None, RT_EOK)
     | TIMER_CTRL_OTHER \<Rightarrow> (s, None, RT_EOK))
   }"

text \<open>
  The loop of \<^verbatim>\<open>rt_timer_check\<close>. \<open>cb f s\<close> is the state after the call of the timeout
  function \<open>f\<close>; it may itself start or stop timers. \<open>None\<close> also stands for a loop that never
  ends.
\<close>

partial_function (option) timer_check_loop ::
  "(timer_fn \<Rightarrow> 'a ktimer_scheme \<Rightarrow> 'a ktimer_scheme option) \<Rightarrow> u32 \<Rightarrow> 'a ktimer_scheme \<Rightarrow>
   'a ktimer_scheme option" where
  "timer_check_loop cb current_tick s =
     (case timer_list s of
        [] \<Rightarrow> Some s
      | t # _ \<Rightarrow>
          if current_tick - timeout_tick (timers s t) < RT_TICK_HALF then do {
            let s1 = timer_remove t s;
            s2 \<leftarrow> cb (timeout_func (timers s1 t)) s1;
            s3 \<leftarrow> (if timer_flag t s2 AND RT_TIMER_FLAG_PERIODIC \<noteq> 0 \<and>
                       timer_flag t s2 AND RT_TIMER_FLAG_ACTIVATED \<noteq> 0
                    then map_option fst
                      (rt_timer_start t (deactivate t s2))
                    else Some (deactivate t s2));
            timer_check_loop cb (rt_tick_get s2) s3
          }
          else Some s)"

definition rt_timer_check ::
  "(timer_fn \<Rightarrow> 'a ktimer_scheme \<Rightarrow> 'a ktimer_scheme option) \<Rightarrow> 'a ktimer_scheme \<Rightarrow>
   'a ktimer_scheme option" where
  "rt_timer_check cb s = timer_check_loop cb (rt_tick_get s) s"

definition rt_timer_next_timeout_tick :: "'a ktimer_scheme \<Rightarrow> u32" where
  "rt_timer_next_timeout_tick s = rt_timer_list_next_timeout s"

definition rt_system_timer_init :: "'a ktimer_scheme \<Rightarrow> 'a ktimer_scheme" where
  "rt_system_timer_init s = s\<lparr>timer_list := []\<rparr>"

section \<open>Frames\<close>

lemma upd_flag_sel [simp]:
  "thr (upd_flag t f s) = thr s" "tl (upd_flag t f s) = tl s" "cur (upd_flag t f s) = cur s"
  "prio_max (upd_flag t f s) = prio_max s" "ready_group (upd_flag t f s) = ready_group s"
  "ready_table (upd_flag t f s) = ready_table s" "cur_prio (upd_flag t f s) = cur_prio s"
  "lock_nest (upd_flag t f s) = lock_nest s" "irq_nest (upd_flag t f s) = irq_nest s"
  "olists (upd_flag t f s) = olists s" "heap (upd_flag t f s) = heap s"
  "kbase.more (upd_flag t f s) = kbase.more s"
  by (simp_all add: upd_flag_def)

lemma upd_flag_timer_sel [simp]:
  "tick (upd_flag t f s) = tick s" "timers (upd_flag t f s) = timers s"
  "timer_list (upd_flag t f s) = timer_list s" "random_nr (upd_flag t f s) = random_nr s"
  "ktimer.more (upd_flag t f s) = ktimer.more s"
  by (simp_all add: upd_flag_def)

lemma upd_flag_flag [simp]: "timer_flag u (upd_flag t f s) = (if u = t then f (timer_flag t s) else timer_flag u s)"
  by (simp add: timer_flag_def upd_flag_def)

lemma upd_flag_type [simp]:
  "rt_object_get_type x (upd_flag t f s) = rt_object_get_type x s"
  "rt_object_is_systemobject x (upd_flag t f s) = rt_object_is_systemobject x s"
  by (simp_all add: rt_object_get_type_def rt_object_is_systemobject_def upd_flag_def)

lemma upd_flag_otype [simp]: "otype (objs (upd_flag t f s) x) = otype (objs s x)"
  "name (objs (upd_flag t f s) x) = name (objs s x)"
  by (simp_all add: upd_flag_def)

lemma timer_remove_sel [simp]:
  "thr (timer_remove t s) = thr s" "tl (timer_remove t s) = tl s" "cur (timer_remove t s) = cur s"
  "prio_max (timer_remove t s) = prio_max s" "ready_group (timer_remove t s) = ready_group s"
  "ready_table (timer_remove t s) = ready_table s" "cur_prio (timer_remove t s) = cur_prio s"
  "lock_nest (timer_remove t s) = lock_nest s" "irq_nest (timer_remove t s) = irq_nest s"
  "olists (timer_remove t s) = olists s" "heap (timer_remove t s) = heap s"
  "objs (timer_remove t s) = objs s" "tick (timer_remove t s) = tick s"
  "timers (timer_remove t s) = timers s" "timer_list (timer_remove t s) = removeAll t (timer_list s)"
  "random_nr (timer_remove t s) = random_nr s" "ktimer.more (timer_remove t s) = ktimer.more s"
  by (simp_all add: timer_remove_def)

lemma timer_flag_cong: "objs s' = objs s \<Longrightarrow> timer_flag t s' = timer_flag t s"
  by (simp add: timer_flag_def)

lemma get_type_cong: "objs s' = objs s \<Longrightarrow> rt_object_get_type x s' = rt_object_get_type x s"
  by (simp add: rt_object_get_type_def)

lemma timer_remove_flag [simp]:
  "timer_flag u (timer_remove t s) = timer_flag u s"
  "rt_object_get_type x (timer_remove t s) = rt_object_get_type x s"
  by (simp_all add: timer_flag_def rt_object_get_type_def)

section \<open>Wrap-around comparison of ticks\<close>

abbreviation half :: nat where "half \<equiv> 0x7fffffff"

definition due :: "u32 \<Rightarrow> 'a ktimer_scheme \<Rightarrow> timer_id \<Rightarrow> nat" where
  "due b s t = unat (timeout_tick (timers s t) - b)"

definition timer_inv :: "u32 \<Rightarrow> 'a ktimer_scheme \<Rightarrow> bool" where
  "timer_inv b s \<longleftrightarrow>
     distinct (timer_list s) \<and> sorted (map (due b s) (timer_list s)) \<and>
     unat (tick s - b) \<le> 1 \<and>
     (\<forall>t \<in> set (timer_list s). due b s t < half + unat (tick s - b))"

lemma tick_diff:
  "unat (x - y) + unat (y - b) =
     unat (x - b) + (if unat (y - b) \<le> unat (x - b) then 0 else 4294967296)" for x y b :: u32
  using unat_sub_if'[of "x - b" "y - b"] unsigned_less[of "y - b", where ?'a = nat] by simp

lemma later_iff:
  fixes x y b :: u32
  assumes "unat (x - b) < half + d" "d \<le> unat (y - b)" "unat (y - b) < half + d" "d \<le> 1"
  shows "x - y \<noteq> 0 \<and> x - y < RT_TICK_HALF \<longleftrightarrow> unat (y - b) < unat (x - b)"
proof -
  have "x - y = 0 \<longleftrightarrow> unat (x - y) = 0" by (metis unat_eq_zero)
  moreover have "x - y < RT_TICK_HALF \<longleftrightarrow> unat (x - y) < half" by (simp add: word_less_nat_alt)
  ultimately show ?thesis using assms tick_diff[of x y b]
    by (cases "unat (y - b) \<le> unat (x - b)") auto
qed

lemma expired_iff:
  fixes x b now :: u32
  assumes "unat (x - b) < half + unat (now - b)" "unat (now - b) \<le> 1"
  shows "now - x < RT_TICK_HALF \<longleftrightarrow> unat (x - b) \<le> unat (now - b)"
proof -
  have "now - x < RT_TICK_HALF \<longleftrightarrow> unat (now - x) < half" by (simp add: word_less_nat_alt)
  then show ?thesis using assms tick_diff[of now x b]
    by (cases "unat (x - b) \<le> unat (now - b)") auto
qed

lemma timer_insert_eq:
  assumes "\<forall>u \<in> set xs. unat (to u - b) < half + d"
    and t: "d \<le> unat (to t - b)" "unat (to t - b) < half + d" "d \<le> 1"
  shows "timer_insert to t xs =
    takeWhile (\<lambda>u. unat (to u - b) \<le> unat (to t - b)) xs @ t #
    dropWhile (\<lambda>u. unat (to u - b) \<le> unat (to t - b)) xs"
  using assms(1)
proof (induction xs)
  case (Cons u us)
  then show ?case using later_iff[of "to u" b d "to t"] t by (auto simp: not_le)
qed simp

lemma timer_insert_cong:
  "(\<And>u. u \<in> insert t (set xs) \<Longrightarrow> to u = to' u) \<Longrightarrow> timer_insert to t xs = timer_insert to' t xs"
  by (induction xs) auto

lemma set_timer_insert [simp]: "set (timer_insert to t xs) = insert t (set xs)"
  by (induction xs) auto

lemma distinct_timer_insert [simp]: "distinct (timer_insert to t xs) \<longleftrightarrow> t \<notin> set xs \<and> distinct xs"
  by (induction xs) auto

lemma sorted_insert_between:
  "sorted (map f xs) \<Longrightarrow>
     sorted (map f (takeWhile (\<lambda>u. f u \<le> f t) xs @ t # dropWhile (\<lambda>u. f u \<le> f t) xs))"
  for f :: "'a \<Rightarrow> nat"
  by (induction xs) (auto dest: set_takeWhileD set_dropWhileD)

lemma sorted_dropWhile_gt:
  "sorted (map f xs) \<Longrightarrow> u \<in> set (dropWhile (\<lambda>u. f u \<le> d) xs) \<Longrightarrow> d < f u" for f :: "'a \<Rightarrow> nat"
  by (induction xs) (auto split: if_splits)

lemma sorted_takeWhile_map: "sorted (map f xs) \<Longrightarrow> sorted (map f (takeWhile P xs))"
  by (induction xs) (auto dest: set_takeWhileD)

section \<open>Starting and stopping\<close>

text \<open>The next three definitions say what a started timer looks like.\<close>

definition timer_ok :: "'a ktimer_scheme \<Rightarrow> timer_id \<Rightarrow> bool" where
  "timer_ok s t \<longleftrightarrow> rt_object_get_type (TimerObj t) s = RT_Object_Class_Timer \<and>
     init_tick (timers s t) < RT_TICK_HALF"

definition active :: "'a kbase_scheme \<Rightarrow> timer_id \<Rightarrow> bool" where
  "active s t \<longleftrightarrow> timer_flag t s AND RT_TIMER_FLAG_ACTIVATED \<noteq> 0"

definition periodic :: "'a kbase_scheme \<Rightarrow> timer_id \<Rightarrow> bool" where
  "periodic s t \<longleftrightarrow> timer_flag t s AND RT_TIMER_FLAG_PERIODIC \<noteq> 0"

lemma mask_same: "(x OR m) AND m = m" "(x AND NOT m) AND m = 0" for x m :: u8
  by (rule bit_word_eqI; auto simp: bit_simps)+

lemma mask_other:
  "m AND k = 0 \<Longrightarrow> (x OR m) AND k = x AND k" "m AND k = 0 \<Longrightarrow> (x AND NOT m) AND k = x AND k" for x m k :: u8
  by (auto simp: bit_eq_iff bit_simps)

lemma active_upd [simp]:
  "active (activate t s) u \<longleftrightarrow> u = t \<or> active s u" "active (deactivate t s) u \<longleftrightarrow> u \<noteq> t \<and> active s u"
  using mask_same[of "timer_flag t s" RT_TIMER_FLAG_ACTIVATED]
  by (auto simp: active_def activate_def deactivate_def)

lemma periodic_upd [simp]:
  "periodic (activate t s) u = periodic s u" "periodic (deactivate t s) u = periodic s u"
  using mask_other[of RT_TIMER_FLAG_ACTIVATED RT_TIMER_FLAG_PERIODIC "timer_flag t s"]
  by (auto simp: periodic_def activate_def deactivate_def)

lemma active_cong: "objs s' = objs s \<Longrightarrow> active s' t = active s t"
  by (simp add: active_def timer_flag_def)

lemma periodic_cong: "objs s' = objs s \<Longrightarrow> periodic s' t = periodic s t"
  by (simp add: periodic_def timer_flag_def)

lemmas upd_flag_frames [simp] =
  upd_flag_sel[of _ "\<lambda>fl. fl AND NOT RT_TIMER_FLAG_ACTIVATED", folded deactivate_def]
  upd_flag_sel[of _ "\<lambda>fl. fl OR RT_TIMER_FLAG_ACTIVATED", folded activate_def]
  upd_flag_timer_sel[of _ "\<lambda>fl. fl AND NOT RT_TIMER_FLAG_ACTIVATED", folded deactivate_def]
  upd_flag_timer_sel[of _ "\<lambda>fl. fl OR RT_TIMER_FLAG_ACTIVATED", folded activate_def]
  upd_flag_type[of _ _ "\<lambda>fl. fl AND NOT RT_TIMER_FLAG_ACTIVATED", folded deactivate_def]
  upd_flag_type[of _ _ "\<lambda>fl. fl OR RT_TIMER_FLAG_ACTIVATED", folded activate_def]
  upd_flag_otype[of _ "\<lambda>fl. fl AND NOT RT_TIMER_FLAG_ACTIVATED", folded deactivate_def]
  upd_flag_otype[of _ "\<lambda>fl. fl OR RT_TIMER_FLAG_ACTIVATED", folded activate_def]

text \<open>The state a successful \<^verbatim>\<open>rt_timer_start\<close> leaves.\<close>

definition started :: "timer_id \<Rightarrow> 'a ktimer_scheme \<Rightarrow> 'a ktimer_scheme" where
  "started t s =
     (let s1 = deactivate t (timer_remove t s);
          ts = (timers s)(t := (timers s t)\<lparr>timeout_tick := tick s + init_tick (timers s t)\<rparr>)
      in activate t (s1\<lparr>timers := ts, random_nr := random_nr s + 1,
           timer_list := timer_insert (\<lambda>u. timeout_tick (ts u)) t (removeAll t (timer_list s))\<rparr>))"

lemma rt_timer_start_eq: "timer_ok s t \<Longrightarrow> rt_timer_start t s = Some (started t s, RT_EOK)"
  by (simp add: timer_ok_def rt_timer_start_def started_def rt_tick_get_def Let_def
      del: fun_upd_apply)

lemma started_sel [simp]:
  "thr (started t s) = thr s" "tl (started t s) = tl s" "cur (started t s) = cur s"
  "prio_max (started t s) = prio_max s" "ready_group (started t s) = ready_group s"
  "ready_table (started t s) = ready_table s" "cur_prio (started t s) = cur_prio s"
  "lock_nest (started t s) = lock_nest s" "irq_nest (started t s) = irq_nest s"
  "olists (started t s) = olists s" "heap (started t s) = heap s"
  "tick (started t s) = tick s" "ktimer.more (started t s) = ktimer.more s"
  "timers (started t s) = (timers s)(t := (timers s t)\<lparr>timeout_tick := tick s + init_tick (timers s t)\<rparr>)"
  "set (timer_list (started t s)) = insert t (set (timer_list s))"
  by (auto simp: started_def Let_def)

lemma started_list:
  "timer_list (started t s) =
     timer_insert (\<lambda>u. timeout_tick (timers (started t s) u)) t (removeAll t (timer_list s))"
  by (simp add: started_def Let_def)

lemma started_obj [simp]:
  "otype (objs (started t s) x) = otype (objs s x)" "name (objs (started t s) x) = name (objs s x)"
  by (auto simp: started_def Let_def)

lemma started_type [simp]:
  "rt_object_get_type x (started t s) = rt_object_get_type x s"
  "rt_object_is_systemobject x (started t s) = rt_object_is_systemobject x s"
  by (simp_all add: rt_object_get_type_def rt_object_is_systemobject_def)

lemma started_flags [simp]:
  "active (started t s) u \<longleftrightarrow> u = t \<or> active s u" "periodic (started t s) u = periodic s u"
proof -
  define s1 where "s1 = deactivate t (timer_remove t s)"
  have "objs (s1\<lparr>timers := ts, random_nr := n, timer_list := l\<rparr>) = objs s1" for ts n l by simp
  note c = active_cong[OF this] periodic_cong[OF this]
  have "active (timer_remove t s) u = active s u" "periodic (timer_remove t s) u = periodic s u"
    by (simp_all add: active_def periodic_def)
  then show "active (started t s) u \<longleftrightarrow> u = t \<or> active s u" "periodic (started t s) u = periodic s u"
    by (auto simp: started_def Let_def c s1_def[symmetric]) (simp_all add: s1_def)
qed

lemma timer_inv_removeAll: "timer_inv b s \<Longrightarrow> sorted (map (due b s) (removeAll t (timer_list s)))"
  using sorted_filter[of "due b s" "timer_list s"] by (simp add: timer_inv_def removeAll_filter_not_eq)

lemma timer_inv_started:
  assumes inv: "timer_inv b s" and ok: "timer_ok s t"
  defines "d \<equiv> unat (tick s - b) + unat (init_tick (timers s t))"
  shows "timer_inv b (started t s)" "due b (started t s) t = d"
    "timer_list (started t s) =
       takeWhile (\<lambda>u. due b s u \<le> d) (removeAll t (timer_list s)) @ t #
       dropWhile (\<lambda>u. due b s u \<le> d) (removeAll t (timer_list s))"
proof -
  let ?to = "\<lambda>u. timeout_tick (timers (started t s) u)"
  let ?xs = "removeAll t (timer_list s)"
  have i: "unat (init_tick (timers s t)) < half"
    using ok by (simp add: timer_ok_def word_less_nat_alt)
  have w: "\<forall>u \<in> set ?xs. unat (?to u - b) < half + unat (tick s - b)" "unat (tick s - b) \<le> 1"
    using inv by (auto simp: timer_inv_def due_def)
  have eq: "tick s + init_tick (timers s t) - b = (tick s - b) + init_tick (timers s t)" by simp
  have d: "unat (?to t - b) = d"
    using i w(2) unat_plus_if'[of "tick s - b" "init_tick (timers s t)"]
    by (simp add: d_def eq del: add_diff_eq diff_add_eq)
  have L: "timer_list (started t s) =
      takeWhile (\<lambda>u. unat (?to u - b) \<le> d) ?xs @ t # dropWhile (\<lambda>u. unat (?to u - b) \<le> d) ?xs"
    using timer_insert_eq[OF w(1), of t] w(2) i d by (simp add: started_list d_def)
  also have "\<dots> = takeWhile (\<lambda>u. due b s u \<le> d) ?xs @ t # dropWhile (\<lambda>u. due b s u \<le> d) ?xs"
    by (intro arg_cong2[where f = "\<lambda>xs ys. xs @ t # ys"] takeWhile_cong dropWhile_cong)
      (auto simp: due_def)
  finally show "timer_list (started t s) = \<dots>" .
  have du: "due b (started t s) = (\<lambda>u. unat (?to u - b))" by (simp add: due_def fun_eq_iff)
  then show "due b (started t s) t = d" using d by simp
  have m: "map (\<lambda>u. unat (?to u - b)) ?xs = map (due b s) ?xs" by (auto simp: due_def)
  have "sorted (map (\<lambda>u. unat (?to u - b)) ?xs)"
    unfolding m by (rule timer_inv_removeAll[OF inv])
  then have "sorted (map (due b (started t s)) (timer_list (started t s)))"
    using sorted_insert_between[of "\<lambda>u. unat (?to u - b)" ?xs t] unfolding L du d by blast
  moreover have "distinct (timer_list (started t s))"
    using inv by (auto simp: started_list timer_inv_def distinct_removeAll)
  moreover have "\<forall>u \<in> set (timer_list (started t s)). due b (started t s) u < half + unat (tick s - b)"
    using w i d by (auto simp: du d_def)
  ultimately show "timer_inv b (started t s)" using w(2) by (simp add: timer_inv_def)
qed

text \<open>
  C7. \<^verbatim>\<open>rt_timer_start\<close> on a timer whose period is below \<^verbatim>\<open>RT_TICK_MAX / 2\<close> returns
  \<^verbatim>\<open>RT_EOK\<close> and arms it to expire \<open>init_tick\<close> ticks from now, whether or not it was running:
  it takes its place in the list behind the timers that expire before it or at the same tick
  and in front of the others, whose order does not change, the tick counter wrapping or not.
  For a longer period the assertion fails.
\<close>

theorem rt_timer_start_arms:
  assumes inv: "timer_inv b s" and ty: "rt_object_get_type (TimerObj t) s = RT_Object_Class_Timer"
  shows "(init_tick (timers s t) \<ge> RT_TICK_HALF \<longrightarrow> rt_timer_start t s = None) \<and>
         (init_tick (timers s t) < RT_TICK_HALF \<longrightarrow>
            (\<exists>s'. rt_timer_start t s = Some (s', RT_EOK) \<and> timer_inv b s' \<and> active s' t \<and>
               due (tick s') s' t = unat (init_tick (timers s t)) \<and>
               (\<exists>as bs. timer_list s' = as @ t # bs \<and> as @ bs = removeAll t (timer_list s) \<and>
                  (\<forall>u \<in> set as. due b s' u \<le> due b s' t) \<and> (\<forall>u \<in> set bs. due b s' t < due b s' u))))"
proof (cases "init_tick (timers s t) < RT_TICK_HALF")
  case True
  then have ok: "timer_ok s t" using ty by (simp add: timer_ok_def)
  note st = timer_inv_started[OF inv ok]
  let ?d = "unat (tick s - b) + unat (init_tick (timers s t))" and ?xs = "removeAll t (timer_list s)"
  have oth: "due b (started t s) u = due b s u" if "u \<in> set ?xs" for u
    using that by (auto simp: due_def)
  have srt: "sorted (map (due b s) ?xs)" by (rule timer_inv_removeAll[OF inv])
  let ?as = "takeWhile (\<lambda>u. due b s u \<le> ?d) ?xs" and ?bs = "dropWhile (\<lambda>u. due b s u \<le> ?d) ?xs"
  have "due b (started t s) u \<le> ?d" if "u \<in> set ?as" for u
    using set_takeWhileD[OF that] oth by simp
  moreover have "?d < due b (started t s) u" if "u \<in> set ?bs" for u
    using sorted_dropWhile_gt[OF srt that] oth[OF set_dropWhileD[OF that]] by simp
  moreover have "timer_list (started t s) = ?as @ t # ?bs" "?as @ ?bs = ?xs" using st(3) by simp_all
  ultimately have "\<exists>as bs. timer_list (started t s) = as @ t # bs \<and> as @ bs = ?xs \<and>
      (\<forall>u \<in> set as. due b (started t s) u \<le> due b (started t s) t) \<and>
      (\<forall>u \<in> set bs. due b (started t s) t < due b (started t s) u)"
    unfolding st(2) by blast
  moreover have "due (tick s) (started t s) t = unat (init_tick (timers s t))" by (simp add: due_def)
  ultimately show ?thesis using rt_timer_start_eq[OF ok] st(1) True by simp
next
  case False
  then show ?thesis using ty by (simp add: rt_timer_start_def Let_def)
qed

section \<open>Checking for expired timers\<close>

definition expired :: "'a ktimer_scheme \<Rightarrow> timer_id \<Rightarrow> bool" where
  "expired s t \<longleftrightarrow> tick s - timeout_tick (timers s t) < RT_TICK_HALF"

text \<open>
  What the timers in the list must satisfy for a check to end: a periodic timer whose period
  is 0 would expire again at once.
\<close>

definition timers_wf :: "'a ktimer_scheme \<Rightarrow> bool" where
  "timers_wf s \<longleftrightarrow> (\<forall>t \<in> set (timer_list s).
     timer_ok s t \<and> active s t \<and> (periodic s t \<longrightarrow> init_tick (timers s t) \<noteq> 0))"

text \<open>
  The outcome of a check that took \<open>s\<close> to \<open>s'\<close>: expired one-shot timers left the list and are
  inactive, expired periodic timers are armed anew, the others are as before.
\<close>

definition checked :: "'a ktimer_scheme \<Rightarrow> 'a ktimer_scheme \<Rightarrow> bool" where
  "checked s s' \<longleftrightarrow> tick s' = tick s \<and>
     (\<forall>t. t \<in> set (timer_list s') \<longleftrightarrow> t \<in> set (timer_list s) \<and> (expired s t \<longrightarrow> periodic s t)) \<and>
     (\<forall>t. periodic s' t = periodic s t) \<and>
     (\<forall>t. if t \<in> set (timer_list s) \<and> expired s t
          then if periodic s t
               then active s' t \<and> timers s' t = (timers s t)\<lparr>timeout_tick := tick s + init_tick (timers s t)\<rparr>
               else \<not> active s' t \<and> timers s' t = timers s t
          else active s' t = active s t \<and> timers s' t = timers s t)"

lemma expired_due:
  "timer_inv b s \<Longrightarrow> t \<in> set (timer_list s) \<Longrightarrow> expired s t \<longleftrightarrow> due b s t \<le> unat (tick s - b)"
  using expired_iff[of "timeout_tick (timers s t)" b "tick s"]
  by (auto simp: timer_inv_def expired_def due_def)

lemma not_expired_fresh:
  assumes "timeout_tick (timers s t) = tick s + i" "i \<noteq> 0" "i < RT_TICK_HALF"
  shows "\<not> expired s t"
  using expired_iff[of "timeout_tick (timers s t)" "tick s" "tick s"] assms
  by (simp add: expired_def word_less_nat_alt unat_eq_zero)

text \<open>A timer taken off the front keeps the invariant; so does a change of the other fields.\<close>

lemma due_cong: "timers s' = timers s \<Longrightarrow> due b s' = due b s"
  for s :: "'a ktimer_scheme" and s' :: "'b ktimer_scheme"
  by (simp add: due_def fun_eq_iff)

lemma timer_inv_cong:
  "timers s' = timers s \<Longrightarrow> timer_list s' = timer_list s \<Longrightarrow> tick s' = tick s \<Longrightarrow> timer_inv b s' = timer_inv b s"
  for s :: "'a ktimer_scheme" and s' :: "'b ktimer_scheme"
  using due_cong[of s' s] by (simp add: timer_inv_def)

lemma timer_inv_tail:
  "timer_inv b s \<Longrightarrow> timer_list s = t # ts \<Longrightarrow> timers s' = timers s \<Longrightarrow> timer_list s' = ts \<Longrightarrow>
   tick s' = tick s \<Longrightarrow> timer_inv b s'"
  using due_cong[of s' s] by (simp add: timer_inv_def)

text \<open>
  The contract of timeout functions: in a state where \<open>I\<close> holds, the function of a timer that
  has just been taken off the list returns, keeps \<open>I\<close>, and leaves the timers alone.
\<close>

locale timer_client =
  fixes cb :: "timer_fn \<Rightarrow> 'a ktimer_scheme \<Rightarrow> 'a ktimer_scheme option"
    and I :: "'a ktimer_scheme \<Rightarrow> bool"
  assumes fire: "I s \<Longrightarrow> timer_list s = t # ts \<Longrightarrow> expired s t \<Longrightarrow>
      \<exists>s'. cb (timeout_func (timers s t)) (timer_remove t s) = Some s' \<and> I s' \<and> tick s' = tick s \<and>
        timers s' = timers s \<and> timer_list s' = removeAll t (timer_list s) \<and> objs s' = objs s"
    and rearm: "I s \<Longrightarrow> periodic s t \<Longrightarrow> I (started t s)"
    and clear: "I s \<Longrightarrow> I (deactivate t s)"
begin

definition outcome :: "timer_id \<Rightarrow> 'a ktimer_scheme \<Rightarrow> 'a ktimer_scheme" where
  "outcome t s2 = (if periodic s2 t then started t (deactivate t s2) else deactivate t s2)"

lemma loop_step:
  assumes I: "I s" and inv: "timer_inv b s" and wf: "timers_wf s"
    and l: "timer_list s = t # ts" and e: "expired s t"
  obtains s2 where "timer_check_loop cb (tick s) s = timer_check_loop cb (tick s) (outcome t s2)"
    "I (outcome t s2)" "timer_inv b (outcome t s2)" "timers s2 = timers s" "tick s2 = tick s"
    "timer_list s2 = ts" "objs s2 = objs s"
    "cb (timeout_func (timers s t)) (timer_remove t s) = Some s2"
proof -
  have d: "t \<notin> set ts" using inv l by (simp add: timer_inv_def)
  obtain s2 where s2: "cb (timeout_func (timers s t)) (timer_remove t s) = Some s2" "I s2"
    "tick s2 = tick s" "timers s2 = timers s" "timer_list s2 = ts" "objs s2 = objs s"
    using fire[OF I l e] l d by auto
  have t: "timer_ok s t" "active s t" using wf l by (auto simp: timers_wf_def)
  have t2: "active s2 t" "timer_ok (deactivate t s2) t"
    using t s2 active_cong[of s2 s t] get_type_cong[of s2 s "TimerObj t"] by (simp_all add: timer_ok_def)
  have inv2: "timer_inv b s2" by (rule timer_inv_tail[OF inv l s2(4,5,3)])
  then have inv3: "timer_inv b (deactivate t s2)" using timer_inv_cong[of "deactivate t s2" s2] by simp
  have "timer_check_loop cb (tick s) s = timer_check_loop cb (tick s) (outcome t s2)"
    using s2 t2 e l
    by (subst timer_check_loop.simps)
      (simp add: expired_def rt_tick_get_def outcome_def rt_timer_start_eq
        periodic_def[symmetric] active_def[symmetric])
  moreover have "I (outcome t s2)" using s2(2) rearm clear by (simp add: outcome_def)
  moreover have "timer_inv b (outcome t s2)"
    using inv3 timer_inv_started(1)[OF inv3 t2(2)] by (simp add: outcome_def)
  ultimately show thesis using that s2 by blast
qed

lemma loop_step_checked:
  assumes inv: "timer_inv b s" and wf: "timers_wf s" and l: "timer_list s = t # ts" and e: "expired s t"
    and s2: "timers s2 = timers s" "tick s2 = tick s" "timer_list s2 = ts" "objs s2 = objs s"
  shows "timers_wf (outcome t s2)" "checked (outcome t s2) s' \<Longrightarrow> checked s s'"
    and "card {u \<in> set (timer_list (outcome t s2)). expired (outcome t s2) u} <
         card {u \<in> set (timer_list s). expired s u}"
proof -
  let ?s3 = "outcome t s2"
  have d: "t \<notin> set ts" using inv l by (simp add: timer_inv_def)
  have t: "timer_ok s t" "active s t" "periodic s t \<Longrightarrow> init_tick (timers s t) \<noteq> 0"
    using wf l by (auto simp: timers_wf_def)
  have flags: "active s2 = active s" "periodic s2 = periodic s"
    and ty: "\<And>x. rt_object_get_type x s2 = rt_object_get_type x s"
    using s2(4) active_cong[of s2 s] periodic_cong[of s2 s] get_type_cong[of s2 s] by auto
  have tk: "tick ?s3 = tick s" using s2 by (simp add: outcome_def)
  have per: "periodic ?s3 u = periodic s u" for u by (simp add: outcome_def flags)
  have list3: "set (timer_list ?s3) = (if periodic s t then insert t (set ts) else set ts)"
    using s2 by (simp add: outcome_def flags)
  have tm: "timers ?s3 u = (if u = t \<and> periodic s t
      then (timers s t)\<lparr>timeout_tick := tick s + init_tick (timers s t)\<rparr> else timers s u)" for u
    using s2 by (simp add: outcome_def flags)
  have act: "active ?s3 u \<longleftrightarrow> (if u = t then periodic s t else active s u)" for u
    by (auto simp: outcome_def flags)
  have exp: "expired ?s3 u \<longleftrightarrow> expired s u" if "u \<noteq> t" for u
    using that by (simp add: expired_def tk tm)
  have nexp: "\<not> expired ?s3 t" if "periodic s t"
    using that t not_expired_fresh[of ?s3 t "init_tick (timers s t)"] by (simp add: tm tk timer_ok_def)
  have tys: "rt_object_get_type x ?s3 = rt_object_get_type x s" for x by (simp add: outcome_def ty)
  show "timers_wf ?s3"
    using wf l d by (auto simp: timers_wf_def list3 timer_ok_def tys tm act per split: if_splits)
  have "{u \<in> set (timer_list ?s3). expired ?s3 u} \<subset> {u \<in> set (timer_list s). expired s u}"
    using l e d nexp by (auto simp: list3 split: if_splits) (metis exp)+
  then show "card {u \<in> set (timer_list ?s3). expired ?s3 u} < card {u \<in> set (timer_list s). expired s u}"
    by (intro psubset_card_mono) auto
  assume c: "checked ?s3 s'"
  show "checked s s'"
    unfolding checked_def
  proof (intro conjI allI, goal_cases)
    case 1
    then show ?case using c tk by (simp add: checked_def)
  next
    case (2 u)
    then show ?case using c exp[of u] nexp l e d
      by (cases "u = t") (auto simp: checked_def list3 per split: if_splits)
  next
    case (3 u)
    then show ?case using c by (simp add: checked_def per)
  next
    case (4 u)
    then show ?case using c exp[of u] nexp l e d unfolding checked_def
      by (cases "u = t"; cases "periodic s t") (simp_all add: list3 per tm act tk)
  qed
qed

lemma loop_checked:
  assumes "I s" "timer_inv b s" "timers_wf s"
  shows "\<exists>s'. timer_check_loop cb (tick s) s = Some s' \<and> I s' \<and> timer_inv b s' \<and> timers_wf s' \<and>
           checked s s' \<and> (\<forall>t \<in> set (timer_list s'). \<not> expired s' t)"
  using assms
proof (induction "card {u \<in> set (timer_list s). expired s u}" arbitrary: s rule: less_induct)
  case less
  show ?case
  proof (cases "\<exists>t ts. timer_list s = t # ts \<and> expired s t")
    case True
    then obtain t ts where t: "timer_list s = t # ts" "expired s t" by blast
    obtain s2 where s2: "timer_check_loop cb (tick s) s = timer_check_loop cb (tick s) (outcome t s2)"
      "I (outcome t s2)" "timer_inv b (outcome t s2)" "timers s2 = timers s" "tick s2 = tick s"
      "timer_list s2 = ts" "objs s2 = objs s"
      using loop_step[OF less.prems t] by blast
    note st = loop_step_checked[OF less.prems(2,3) t s2(4-7)]
    have "tick (outcome t s2) = tick s" using s2(5) by (simp add: outcome_def)
    then show ?thesis using less.hyps[OF st(3) s2(2,3) st(1)] s2(1) st(2) by auto
  next
    case False
    have ne: "\<not> expired s u" if "u \<in> set (timer_list s)" for u
    proof (cases "timer_list s")
      case (Cons t ts)
      then have "due b s t \<le> due b s u" "t \<in> set (timer_list s)"
        using that less.prems(2) by (auto simp: timer_inv_def)
      then show ?thesis
        using False Cons that expired_due[OF less.prems(2)] by (meson le_trans)
    qed (use that in simp)
    have "timer_check_loop cb (tick s) s = Some s"
      using False by (subst timer_check_loop.simps) (auto simp: expired_def split: list.splits)
    moreover have "checked s s" using ne by (auto simp: checked_def)
    ultimately show ?thesis using less.prems ne by auto
  qed
qed

end

text \<open>
  When the callbacks act on a part \<open>v\<close> of the state that the timers do not touch, a check calls
  the functions of the expired timers once each, in the order of the list.
\<close>

locale timer_view = timer_client cb I
  for cb :: "timer_fn \<Rightarrow> 'a ktimer_scheme \<Rightarrow> 'a ktimer_scheme option" and I +
  fixes v :: "'a ktimer_scheme \<Rightarrow> 'v" and act :: "timer_fn \<Rightarrow> 'v \<Rightarrow> 'v"
  assumes v_cb: "cb f s = Some s' \<Longrightarrow> v s' = act f (v s)"
    and v_remove: "v (timer_remove t s) = v s"
    and v_deactivate: "v (deactivate t s) = v s"
    and v_started: "v (started t s) = v s"
begin

lemma takeWhile_expired_step:
  assumes inv: "timer_inv b s" "timer_inv b (outcome t s2)" and wf: "timers_wf s"
    and l: "timer_list s = t # ts" and e: "expired s t"
    and s2: "timers s2 = timers s" "tick s2 = tick s" "timer_list s2 = ts" "objs s2 = objs s"
  shows "takeWhile (expired (outcome t s2)) (timer_list (outcome t s2)) = takeWhile (expired s) ts"
proof (cases "periodic s2 t")
  case False
  then have "expired (outcome t s2) = expired s" "timer_list (outcome t s2) = ts"
    using s2 by (auto simp: outcome_def expired_def fun_eq_iff)
  then show ?thesis by simp
next
  case True
  let ?s3 = "started t (deactivate t s2)"
  have o: "outcome t s2 = ?s3" using True by (simp add: outcome_def)
  have d: "t \<notin> set ts" using inv(1) l by (simp add: timer_inv_def)
  have per: "periodic s t" using True s2(4) periodic_cong[of s2 s] by simp
  have ok: "timer_ok s t" "init_tick (timers s t) \<noteq> 0" using wf l per by (auto simp: timers_wf_def)
  then have ok2: "timer_ok (deactivate t s2) t"
    using s2 get_type_cong[of s2 s "TimerObj t"] by (simp add: timer_ok_def)
  have inv2: "timer_inv b (deactivate t s2)"
    using timer_inv_tail[OF inv(1) l, of s2] s2 timer_inv_cong[of "deactivate t s2" s2] by simp
  obtain as bs where ab: "timer_list ?s3 = as @ t # bs" "as @ bs = ts"
    using timer_inv_started(3)[OF inv2 ok2] s2 d by simp
  have nt: "\<not> expired ?s3 t"
    using ok s2 not_expired_fresh[of ?s3 t "init_tick (timers s t)"] by (simp add: timer_ok_def)
  have old: "expired ?s3 u = expired s u" if "u \<in> set ts" for u
    using that d s2 by (auto simp: expired_def)
  have "\<not> expired ?s3 u" if "u \<in> set bs" for u
    using that nt inv(2) expired_due[of b ?s3] unfolding o
    by (auto simp: timer_inv_def ab sorted_append)
  then have bs: "\<not> expired s u" if "u \<in> set bs" for u using that old ab(2) by auto
  have "takeWhile (expired ?s3) (as @ t # bs) = takeWhile (expired ?s3) as"
    using nt by (simp add: takeWhile_tail)
  also have "\<dots> = takeWhile (expired s) as" by (rule takeWhile_cong) (use old ab(2) in auto)
  also have "\<dots> = takeWhile (expired s) (as @ bs)"
    using bs by (cases bs) (simp_all add: takeWhile_tail)
  finally show ?thesis using ab o by simp
qed

lemma loop_calls:
  assumes "I s" "timer_inv b s" "timers_wf s"
  shows "map_option v (timer_check_loop cb (tick s) s) =
    Some (fold act (map (\<lambda>t. timeout_func (timers s t)) (takeWhile (expired s) (timer_list s))) (v s))"
  using assms
proof (induction "card {u \<in> set (timer_list s). expired s u}" arbitrary: s rule: less_induct)
  case less
  show ?case
  proof (cases "\<exists>t ts. timer_list s = t # ts \<and> expired s t")
    case True
    then obtain t ts where t: "timer_list s = t # ts" "expired s t" by blast
    obtain s2 where s2: "timer_check_loop cb (tick s) s = timer_check_loop cb (tick s) (outcome t s2)"
      "I (outcome t s2)" "timer_inv b (outcome t s2)" "timers s2 = timers s" "tick s2 = tick s"
      "timer_list s2 = ts" "objs s2 = objs s"
      "cb (timeout_func (timers s t)) (timer_remove t s) = Some s2"
      using loop_step[OF less.prems t] by blast
    let ?s3 = "outcome t s2"
    note st = loop_step_checked[OF less.prems(2,3) t s2(4-7)]
    note tw = takeWhile_expired_step[OF less.prems(2) s2(3) less.prems(3) t s2(4-7)]
    have v: "v ?s3 = act (timeout_func (timers s t)) (v s)"
      using v_cb[OF s2(8)] by (simp add: outcome_def v_remove v_deactivate v_started)
    have "tick ?s3 = tick s" using s2(5) by (simp add: outcome_def)
    moreover have "(\<lambda>u. timeout_func (timers ?s3 u)) = (\<lambda>u. timeout_func (timers s u))"
      using s2(4) by (auto simp: outcome_def fun_eq_iff)
    ultimately show ?thesis using less.hyps[OF st(3) s2(2,3) st(1)] s2(1) t v tw
      by (simp only: takeWhile.simps list.map fold.simps comp_apply if_True)
  next
    case False
    then show ?thesis by (subst timer_check_loop.simps) (auto simp: expired_def split: list.splits)
  qed
qed

end

text \<open>Timeout functions that act outside the kernel, on the extension of the state.\<close>

definition ext_call :: "(timer_fn \<Rightarrow> 'a \<Rightarrow> 'a) \<Rightarrow> timer_fn \<Rightarrow> 'a ktimer_scheme \<Rightarrow> 'a ktimer_scheme option" where
  "ext_call g f s = Some (ktimer.more_update (g f) s)"

interpretation ext: timer_view "ext_call g" "\<lambda>_. True" "ktimer.more" g for g
  by unfold_locales (auto simp: ext_call_def)

lemma timer_inv_rebase:
  assumes inv: "timer_inv b s" and ne: "\<forall>t \<in> set (timer_list s). \<not> expired s t"
  shows "timer_inv (tick s) s"
proof -
  have d: "due b s t = due (tick s) s t + unat (tick s - b)" if "t \<in> set (timer_list s)" for t
    using tick_diff[of "timeout_tick (timers s t)" "tick s" b] expired_due[OF inv that] ne that
    by (auto simp: due_def)
  then have "sorted (map (\<lambda>t. due (tick s) s t + unat (tick s - b)) (timer_list s))"
    using inv by (simp add: timer_inv_def cong: map_cong)
  then have "sorted (map (due (tick s) s) (timer_list s))"
    by (simp add: sorted_map)
  then show ?thesis using inv d by (auto simp: timer_inv_def)
qed

lemma takeWhile_expired_set:
  assumes inv: "timer_inv b s"
  shows "set (takeWhile (expired s) (timer_list s)) = {t \<in> set (timer_list s). expired s t}"
proof -
  have "takeWhile (expired s) (timer_list s) = takeWhile (\<lambda>t. due b s t \<le> unat (tick s - b)) (timer_list s)"
    by (rule takeWhile_cong) (use expired_due[OF inv] in auto)
  moreover have "set (takeWhile (\<lambda>t. f t \<le> d) xs) = {t \<in> set xs. f t \<le> d}" if "sorted (map f xs)"
    for f :: "timer_id \<Rightarrow> nat" and d xs
    using that by (induction xs) auto
  moreover have "sorted (map (due b s) (timer_list s))" using inv by (simp add: timer_inv_def)
  ultimately have "set (takeWhile (expired s) (timer_list s)) =
      {t \<in> set (timer_list s). due b s t \<le> unat (tick s - b)}" by simp
  then show ?thesis using expired_due[OF inv] by auto
qed


text \<open>
  A state with two timers due at tick 100, one of them periodic, and one due later; \<open>x\<close> is
  what the timeout functions act on.
\<close>

definition demo_timers :: "'x \<Rightarrow> 'x ktimer_scheme" where
  "demo_timers x = \<lparr>prio_max = 32, thr = thr demo_sched, tl = tl demo_sched,
     ready_group = ready_group demo_sched, ready_table = ready_table demo_sched, cur = Some 1,
     cur_prio = 5, lock_nest = 0, irq_nest = 0,
     objs = (\<lambda>_. \<lparr>name = replicate RT_NAME_MAX 0, otype = 0x89, oflag = 1\<rparr>)
       (TimerObj (UserTimer 1) := \<lparr>name = replicate RT_NAME_MAX 0, otype = 0x89, oflag = 3\<rparr>),
     olists = (\<lambda>_. []), heap = {}, tick = 100,
     timers = (\<lambda>_. \<lparr>timeout_func = UserFn 7, init_tick = 5, timeout_tick = 0\<rparr>)
       (UserTimer 0 := \<lparr>timeout_func = UserFn 0, init_tick = 5, timeout_tick = 100\<rparr>,
        UserTimer 1 := \<lparr>timeout_func = UserFn 1, init_tick = 10, timeout_tick = 100\<rparr>,
        UserTimer 2 := \<lparr>timeout_func = UserFn 2, init_tick = 50, timeout_tick = 120\<rparr>),
     timer_list = [UserTimer 0, UserTimer 1, UserTimer 2], random_nr = 0, \<dots> = x\<rparr>"

lemma demo_timers_ok: "timer_inv 99 (demo_timers x)" "timers_wf (demo_timers x)"
  "{t \<in> set (timer_list (demo_timers x)). expired (demo_timers x) t} = {UserTimer 0, UserTimer 1}"
  "rt_object_get_type (TimerObj t) (demo_timers x) = RT_Object_Class_Timer"
  by (auto simp: demo_timers_def timer_inv_def due_def timers_wf_def timer_ok_def active_def
      periodic_def timer_flag_def rt_object_get_type_def expired_def)

theorem rt_timer_start_arms_witness:
  "timer_inv 99 (demo_timers ()) \<and>
   (\<exists>s'. rt_timer_start (UserTimer 5) (demo_timers ()) = Some (s', RT_EOK) \<and> active s' (UserTimer 5))"
  using rt_timer_start_arms[OF demo_timers_ok(1,4), of "()" "UserTimer 5"] demo_timers_ok(1)[of "()"]
  by (simp add: demo_timers_def) blast


lemma timer_check_loop_diverges:
  "timer_check_loop cb n s = Some s' \<Longrightarrow> cb = ext_call g \<Longrightarrow> n = tick s \<Longrightarrow> timer_list s = [t] \<Longrightarrow>
   periodic s t \<Longrightarrow> active s t \<Longrightarrow> timer_ok s t \<Longrightarrow> init_tick (timers s t) = 0 \<Longrightarrow> expired s t \<Longrightarrow> False"
proof (induction rule: timer_check_loop.raw_induct[rotated 1, consumes 1, case_names step])
  case (step loop cb n s s')
  let ?s2 = "ktimer.more_update (g (timeout_func (timers s t))) (timer_remove t s)"
  let ?s3 = "started t (deactivate t ?s2)"
  have fl: "periodic ?s2 t" "active ?s2 t"
    using step.prems periodic_cong[of ?s2 s] active_cong[of ?s2 s] by simp_all
  have ok: "timer_ok (deactivate t ?s2) t"
    using step.prems get_type_cong[of ?s2 s "TimerObj t"] by (simp add: timer_ok_def)
  have "loop cb (tick s) ?s3 = Some s'"
    using step.prems fl ok step(2)
    by (simp add: expired_def ext_call_def rt_tick_get_def rt_timer_start_eq
        periodic_def[symmetric] active_def[symmetric])
  moreover have "timer_list ?s3 = [t]" using step.prems by (simp add: started_list)
  moreover have "timer_ok ?s3 t" "expired ?s3 t" "init_tick (timers ?s3 t) = 0"
    using ok step.prems by (simp_all add: timer_ok_def expired_def)
  ultimately show False
    by (intro step(1)[of cb "tick s" ?s3 s']) (use step.prems fl in simp_all)
qed

text \<open>
  C10. The bound on periods is needed: \<^verbatim>\<open>rt_timer_check\<close> never returns once a periodic timer
  with \<open>init_tick\<close> 0 has expired, since the timer it re-arms is expired again.
\<close>

theorem rt_timer_check_period_zero_diverges:
  assumes "timer_list s = [t]" "expired s t" "active s t" "periodic s t" "init_tick (timers s t) = 0"
    and "rt_object_get_type (TimerObj t) s = RT_Object_Class_Timer"
  shows "rt_timer_check (ext_call g) s = None"
proof -
  have "timer_ok s t" using assms by (simp add: timer_ok_def)
  then have "timer_check_loop (ext_call g) (tick s) s \<noteq> Some s'" for s'
    using assms timer_check_loop_diverges[of "ext_call g" "tick s" s s' g t] by blast
  then have "timer_check_loop (ext_call g) (tick s) s = None"
    by (cases "timer_check_loop (ext_call g) (tick s) s") auto
  then show ?thesis by (simp add: rt_timer_check_def rt_tick_get_def)
qed

definition demo_period_zero :: ktimer where
  "demo_period_zero = (demo_timers ())\<lparr>timers := (\<lambda>_. \<lparr>timeout_func = UserFn 0, init_tick = 0, timeout_tick = 100\<rparr>),
     timer_list := [UserTimer 1]\<rparr>"

theorem rt_timer_check_period_zero_diverges_witness:
  "rt_timer_check (ext_call (\<lambda>f x. x)) demo_period_zero = None"
  by (rule rt_timer_check_period_zero_diverges[of _ "UserTimer 1"])
    (simp_all add: demo_period_zero_def demo_timers_def expired_def active_def periodic_def
      timer_flag_def rt_object_get_type_def)

text \<open>
  C11. A one-shot timer that its own timeout function starts again ends up armed but marked
  inactive: \<^verbatim>\<open>rt_timer_check\<close> clears the flag after the call. The timer stays in the list and
  will fire, yet \<^verbatim>\<open>rt_timer_stop\<close> refuses to stop it.
\<close>

theorem one_shot_restarted_in_callback:
  assumes l: "timer_list s = [t]" and e: "expired s t" and p: "\<not> periodic s t"
    and ok: "rt_object_get_type (TimerObj t) s = RT_Object_Class_Timer"
      "init_tick (timers s t) \<noteq> 0" "init_tick (timers s t) < RT_TICK_HALF"
  shows "\<exists>s'. rt_timer_check (\<lambda>f s. map_option fst (rt_timer_start t s)) s = Some s' \<and>
           timer_list s' = [t] \<and> \<not> active s' t \<and> rt_timer_stop t s' = Some (s', - RT_ERROR)"
proof -
  let ?s2 = "started t (timer_remove t s)" and ?cb = "\<lambda>f s. map_option fst (rt_timer_start t s)"
  let ?s3 = "deactivate t ?s2"
  have ok1: "timer_ok (timer_remove t s) t" using ok by (simp add: timer_ok_def)
  have p2: "\<not> periodic ?s2 t" using p periodic_cong[of "timer_remove t s" s] by simp
  have l3: "timer_list ?s2 = [t]" using l by (simp add: started_list)
  have "timer_check_loop ?cb (tick s) s = timer_check_loop ?cb (tick s) ?s3"
    using l e p2 ok1
    by (subst timer_check_loop.simps)
      (simp add: expired_def rt_timer_start_eq rt_tick_get_def periodic_def[symmetric])
  moreover have "\<not> expired ?s3 t"
    by (rule not_expired_fresh[of _ _ "init_tick (timers s t)"]) (use ok in simp_all)
  then have "timer_check_loop ?cb (tick s) ?s3 = Some ?s3"
    by (subst timer_check_loop.simps) (simp add: l3 expired_def)
  moreover have na: "\<not> active ?s3 t" by simp
  moreover have "rt_timer_stop t ?s3 = Some (?s3, - RT_ERROR)"
    using na ok(1) by (simp add: rt_timer_stop_def active_def)
  ultimately show ?thesis using l3 by (simp add: rt_timer_check_def rt_tick_get_def)
qed

theorem one_shot_restarted_in_callback_witness:
  "\<exists>s'. rt_timer_check (\<lambda>f s. map_option fst (rt_timer_start (UserTimer 0) s))
          ((demo_timers ())\<lparr>timer_list := [UserTimer 0]\<rparr>) = Some s' \<and>
        timer_list s' = [UserTimer 0] \<and> rt_timer_stop (UserTimer 0) s' = Some (s', - RT_ERROR)"
proof -
  let ?s = "(demo_timers ())\<lparr>timer_list := [UserTimer 0]\<rparr>"
  have "timer_list ?s = [UserTimer 0]" "expired ?s (UserTimer 0)" "\<not> periodic ?s (UserTimer 0)"
    "rt_object_get_type (TimerObj (UserTimer 0)) ?s = RT_Object_Class_Timer"
    "init_tick (timers ?s (UserTimer 0)) \<noteq> 0" "init_tick (timers ?s (UserTimer 0)) < RT_TICK_HALF"
    by (simp_all add: demo_timers_def expired_def periodic_def timer_flag_def rt_object_get_type_def)
  from one_shot_restarted_in_callback[OF this] show ?thesis by blast
qed

text \<open>
  \<^verbatim>\<open>rt_timer_stop\<close> takes an active timer off the list and refuses an inactive one, and
  \<^verbatim>\<open>rt_timer_next_timeout_tick\<close> returns the expiry of the timer that expires first, or
  \<^verbatim>\<open>RT_TICK_MAX\<close> when none is armed.
\<close>

theorem rt_timer_stop_next_timeout:
  assumes inv: "timer_inv b s" and ty: "rt_object_get_type (TimerObj t) s = RT_Object_Class_Timer"
  shows "(active s t \<longrightarrow> (\<exists>s'. rt_timer_stop t s = Some (s', RT_EOK) \<and> timer_inv b s' \<and> \<not> active s' t \<and>
            timer_list s' = removeAll t (timer_list s) \<and> timers s' = timers s)) \<and>
         (\<not> active s t \<longrightarrow> rt_timer_stop t s = Some (s, - RT_ERROR)) \<and>
         (timer_list s = [] \<longrightarrow> rt_timer_next_timeout_tick s = RT_TICK_MAX) \<and>
         (timer_list s \<noteq> [] \<longrightarrow> (\<exists>u \<in> set (timer_list s). rt_timer_next_timeout_tick s = timeout_tick (timers s u) \<and>
            (\<forall>x \<in> set (timer_list s). due b s u \<le> due b s x)))"
proof -
  have "timer_inv b (timer_remove t s)"
    using inv timer_inv_removeAll[OF inv, of t] due_cong[of "timer_remove t s" s]
    by (auto simp: timer_inv_def distinct_removeAll)
  then have "timer_inv b (deactivate t (timer_remove t s))"
    using timer_inv_cong[of "deactivate t (timer_remove t s)" "timer_remove t s"] by simp
  moreover have "\<exists>u \<in> set (timer_list s). rt_timer_next_timeout_tick s = timeout_tick (timers s u) \<and>
      (\<forall>x \<in> set (timer_list s). due b s u \<le> due b s x)" if "timer_list s \<noteq> []"
    using that inv
    by (cases "timer_list s")
      (auto simp: timer_inv_def rt_timer_next_timeout_tick_def rt_timer_list_next_timeout_def)
  moreover have "rt_timer_stop t s = (if active s t then Some (deactivate t (timer_remove t s), RT_EOK)
      else Some (s, - RT_ERROR))"
    using ty by (simp add: rt_timer_stop_def active_def)
  moreover have "timer_list s = [] \<longrightarrow> rt_timer_next_timeout_tick s = RT_TICK_MAX"
    by (simp add: rt_timer_next_timeout_tick_def rt_timer_list_next_timeout_def)
  ultimately show ?thesis by simp
qed

theorem rt_timer_stop_next_timeout_witness:
  "\<exists>s'. rt_timer_stop (UserTimer 1) (demo_timers ()) = Some (s', RT_EOK) \<and>
     timer_list s' = [UserTimer 0, UserTimer 2]"
proof -
  have "active (demo_timers ()) (UserTimer 1)" by (simp add: demo_timers_def active_def timer_flag_def)
  moreover have "removeAll (UserTimer 1) (timer_list (demo_timers ())) = [UserTimer 0, UserTimer 2]"
    by (simp add: demo_timers_def)
  ultimately show ?thesis
    using rt_timer_stop_next_timeout[OF demo_timers_ok(1,4), of "()" "UserTimer 1"] by auto
qed

end
