(* ===== verification/Thread.thy ===== *)
theory Thread
  imports Timer
begin

unbundle bit_operations_syntax

text \<open>
  \<^verbatim>\<open>src/thread.c\<close>: the life cycle of threads. Each call is one step of the model. A call that
  may give up the processor in the middle returns \<open>Blocks\<close> when \<^verbatim>\<open>rt_schedule\<close> switched to
  another thread; the rest of the call is a definition of its own, which runs when the thread
  is scheduled again.

  The memory that \<^verbatim>\<open>RT_KERNEL_MALLOC\<close> returns is an argument of \<open>rt_thread_create\<close>. The
  stack contents and the machine-level entry frame (\<^verbatim>\<open>rt_hw_stack_init\<close>) are not modelled.
\<close>

section \<open>Definitions\<close>

datatype 'r call = Returns 'r | Blocks

definition rt_thread_self :: "'a kbase_scheme \<Rightarrow> tid option" where
  "rt_thread_self s = cur s"

definition thread_init ::
  "tid \<Rightarrow> u8 \<Rightarrow> u32 \<Rightarrow> 'a ktimer_scheme \<Rightarrow> ('a ktimer_scheme \<times> rt_err) option" where
  "thread_init t priority tk s = do {
     rt_assert (unat priority < prio_max s);
     let s1 = upd_thr t (\<lambda>th. th\<lparr>init_priority := priority, current_priority := priority,
                number_mask := 0, thread_init_tick := tk, remaining_tick := tk,
                error := RT_EOK, stat := RT_THREAD_INIT, cleanup := False\<rparr>) s;
     let s2 = (if prio_max s1 > 32 then upd_thr t (\<lambda>th. th\<lparr>number := 0, high_mask := 0\<rparr>) s1 else s1);
     s3 \<leftarrow> rt_timer_init (ThreadTimer t) (name (objs s2 (ThreadObj t))) (ThreadTimeout t) 0
             RT_TIMER_FLAG_ONE_SHOT s2;
     Some (s3, RT_EOK)
   }"

definition rt_thread_init ::
  "tid \<Rightarrow> u8 list \<Rightarrow> u8 \<Rightarrow> u32 \<Rightarrow> 'a ktimer_scheme \<Rightarrow> ('a ktimer_scheme \<times> rt_err) option" where
  "rt_thread_init t nm priority tk s = do {
     s1 \<leftarrow> rt_object_init (ThreadObj t) RT_Object_Class_Thread nm s;
     thread_init t priority tk s1
   }"

definition rt_thread_suspend :: "tid \<Rightarrow> 'a ktimer_scheme \<Rightarrow> ('a ktimer_scheme \<times> rt_err) option" where
  "rt_thread_suspend t s = do {
     rt_assert (rt_object_get_type (ThreadObj t) s = RT_Object_Class_Thread);
     if tstat s t \<noteq> RT_THREAD_READY then Some (s, - RT_ERROR)
     else do {
       rt_assert (rt_thread_self s = Some t);
       let s1 = upd_thr t (set_stat RT_THREAD_SUSPEND) s;
       let s2 = rt_schedule_remove_thread t s1;
       (s3, _) \<leftarrow> rt_timer_stop (ThreadTimer t) s2;
       Some (s3, RT_EOK)
     }
   }"

definition rt_thread_resume :: "tid \<Rightarrow> 'a ktimer_scheme \<Rightarrow> ('a ktimer_scheme \<times> rt_err) option" where
  "rt_thread_resume t s = do {
     rt_assert (rt_object_get_type (ThreadObj t) s = RT_Object_Class_Thread);
     if tstat s t \<noteq> RT_THREAD_SUSPEND then Some (s, - RT_ERROR)
     else do {
       let s1 = s\<lparr>tl := ls_remove t (tl s)\<rparr>;
       (s2, _) \<leftarrow> rt_timer_stop (ThreadTimer t) s1;
       Some (rt_schedule_insert_thread t s2, RT_EOK)
     }
   }"

definition rt_thread_startup :: "tid \<Rightarrow> 'a ktimer_scheme \<Rightarrow> ('a ktimer_scheme \<times> rt_err) option" where
  "rt_thread_startup t s = do {
     rt_assert (tstat s t = RT_THREAD_INIT);
     rt_assert (rt_object_get_type (ThreadObj t) s = RT_Object_Class_Thread);
     let s1 = upd_thr t (\<lambda>th. set_priority_attr (prio_max s) (th\<lparr>current_priority := init_priority th\<rparr>)) s;
     let s2 = upd_thr t (\<lambda>th. th\<lparr>stat := RT_THREAD_SUSPEND\<rparr>) s1;
     (s3, _) \<leftarrow> rt_thread_resume t s2;
     s4 \<leftarrow> (if rt_thread_self s3 \<noteq> None then rt_schedule s3 else Some s3);
     Some (s4, RT_EOK)
   }"

definition rt_thread_detach :: "tid \<Rightarrow> 'a ktimer_scheme \<Rightarrow> ('a ktimer_scheme \<times> rt_err) option" where
  "rt_thread_detach t s = do {
     rt_assert (rt_object_get_type (ThreadObj t) s = RT_Object_Class_Thread);
     rt_assert (rt_object_is_systemobject (ThreadObj t) s);
     let s1 = (if tstat s t \<noteq> RT_THREAD_INIT then rt_schedule_remove_thread t s else s);
     (s2, _) \<leftarrow> rt_timer_detach (ThreadTimer t) s1;
     let s3 = upd_thr t (\<lambda>th. th\<lparr>stat := RT_THREAD_CLOSE\<rparr>) s2;
     let s4 = rt_object_detach (ThreadObj t) s3;
     Some (if cleanup (thr s4 t) then s4\<lparr>tl := ls_insert_after Defunct t (tl s4)\<rparr> else s4, RT_EOK)
   }"

text \<open>\<open>mem\<close> is the memory for the thread object, \<open>stack\<close> whether the stack could be allocated.\<close>

definition rt_thread_create ::
  "u8 list \<Rightarrow> u8 \<Rightarrow> u32 \<Rightarrow> tid option \<Rightarrow> bool \<Rightarrow> 'a ktimer_scheme \<Rightarrow>
   ('a ktimer_scheme \<times> tid option) option" where
  "rt_thread_create nm priority tk mem stack s = do {
     (s1, r) \<leftarrow> rt_object_allocate RT_Object_Class_Thread nm (map_option ThreadObj mem) s;
     (case r of
        Some (ThreadObj t) \<Rightarrow>
          if \<not> stack then do {
            s2 \<leftarrow> rt_object_delete (ThreadObj t) s1;
            Some (s2, None)
          }
          else do {
            let s2 = s1\<lparr>heap := insert (BufBlk (ThreadObj t)) (heap s1)\<rparr>;
            (s3, _) \<leftarrow> thread_init t priority tk s2;
            Some (s3, Some t)
          }
      | _ \<Rightarrow> Some (s1, None))
   }"

definition rt_thread_delete :: "tid \<Rightarrow> 'a ktimer_scheme \<Rightarrow> ('a ktimer_scheme \<times> rt_err) option" where
  "rt_thread_delete t s = do {
     rt_assert (rt_object_get_type (ThreadObj t) s = RT_Object_Class_Thread);
     rt_assert (\<not> rt_object_is_systemobject (ThreadObj t) s);
     let s1 = (if tstat s t \<noteq> RT_THREAD_INIT then rt_schedule_remove_thread t s else s);
     (s2, _) \<leftarrow> rt_timer_detach (ThreadTimer t) s1;
     let s3 = upd_thr t (\<lambda>th. th\<lparr>stat := RT_THREAD_CLOSE\<rparr>) s2;
     Some (s3\<lparr>tl := ls_insert_after Defunct t (tl s3)\<rparr>, RT_EOK)
   }"

text \<open>\<^verbatim>\<open>rt_thread_exit\<close> of the running thread; it does not return to the caller.\<close>

definition rt_thread_exit :: "'a ktimer_scheme \<Rightarrow> 'a ktimer_scheme option" where
  "rt_thread_exit s = do {
     t \<leftarrow> rt_thread_self s;
     let s1 = rt_schedule_remove_thread t s;
     let s2 = upd_thr t (\<lambda>th. th\<lparr>stat := RT_THREAD_CLOSE\<rparr>) s1;
     (s3, _) \<leftarrow> rt_timer_detach (ThreadTimer t) s2;
     let s4 = (if rt_object_is_systemobject (ThreadObj t) s3 \<and> \<not> cleanup (thr s3 t)
               then rt_object_detach (ThreadObj t) s3
               else s3\<lparr>tl := ls_insert_after Defunct t (tl s3)\<rparr>);
     rt_schedule s4
   }"

definition rt_thread_yield :: "'a kbase_scheme \<Rightarrow> ('a kbase_scheme \<times> rt_err) option" where
  "rt_thread_yield s = do { s' \<leftarrow> rt_schedule s; Some (s', RT_EOK) }"

text \<open>The end of \<^verbatim>\<open>rt_thread_sleep\<close>, after the thread has been scheduled again.\<close>

definition rt_thread_sleep_end :: "tid \<Rightarrow> 'a kbase_scheme \<Rightarrow> 'a kbase_scheme \<times> rt_err" where
  "rt_thread_sleep_end t s =
     (if error (thr s t) = - RT_ETIMEOUT then upd_thr t (\<lambda>th. th\<lparr>error := RT_EOK\<rparr>) s else s, RT_EOK)"

definition rt_thread_sleep :: "u32 \<Rightarrow> 'a ktimer_scheme \<Rightarrow> ('a ktimer_scheme \<times> rt_err call) option" where
  "rt_thread_sleep tk s = do {
     t \<leftarrow> rt_thread_self s;
     rt_assert (rt_object_get_type (ThreadObj t) s = RT_Object_Class_Thread);
     (s1, _) \<leftarrow> rt_thread_suspend t s;
     (s2, _, _) \<leftarrow> rt_timer_control (ThreadTimer t) (RT_TIMER_CTRL_SET_TIME tk) s1;
     (s3, _) \<leftarrow> rt_timer_start (ThreadTimer t) s2;
     s4 \<leftarrow> rt_schedule s3;
     if cur s4 = Some t then (let (s5, r) = rt_thread_sleep_end t s4 in Some (s5, Returns r))
     else Some (s4, Blocks)
   }"

definition rt_thread_delay :: "u32 \<Rightarrow> 'a ktimer_scheme \<Rightarrow> ('a ktimer_scheme \<times> rt_err call) option" where
  "rt_thread_delay tk s = rt_thread_sleep tk s"

datatype thread_cmd = RT_THREAD_CTRL_STARTUP | RT_THREAD_CTRL_CLOSE
  | RT_THREAD_CTRL_CHANGE_PRIORITY u8 | THREAD_CTRL_OTHER

definition rt_thread_control ::
  "tid \<Rightarrow> thread_cmd \<Rightarrow> 'a ktimer_scheme \<Rightarrow> ('a ktimer_scheme \<times> rt_err) option" where
  "rt_thread_control t cmd s = do {
     rt_assert (rt_object_get_type (ThreadObj t) s = RT_Object_Class_Thread);
     (case cmd of
        RT_THREAD_CTRL_CHANGE_PRIORITY p \<Rightarrow>
          if tstat s t = RT_THREAD_READY then
            let s1 = rt_schedule_remove_thread t s;
                s2 = upd_thr t (\<lambda>th. set_priority_attr (prio_max s) (th\<lparr>current_priority := p\<rparr>)) s1
            in Some (rt_schedule_insert_thread t s2, RT_EOK)
          else
            Some (upd_thr t (\<lambda>th. set_priority_attr (prio_max s) (th\<lparr>current_priority := p\<rparr>)) s, RT_EOK)
      | RT_THREAD_CTRL_STARTUP \<Rightarrow> rt_thread_startup t s
      | RT_THREAD_CTRL_CLOSE \<Rightarrow> rt_thread_delete t s
      | THREAD_CTRL_OTHER \<Rightarrow> Some (s, RT_EOK))
   }"

definition rt_thread_timeout :: "tid \<Rightarrow> 'a kbase_scheme \<Rightarrow> 'a kbase_scheme option" where
  "rt_thread_timeout t s = do {
     rt_assert (tstat s t = RT_THREAD_SUSPEND);
     rt_assert (rt_object_get_type (ThreadObj t) s = RT_Object_Class_Thread);
     let s1 = upd_thr t (\<lambda>th. th\<lparr>error := - RT_ETIMEOUT\<rparr>) s;
     let s2 = s1\<lparr>tl := ls_remove t (tl s1)\<rparr>;
     rt_schedule (rt_schedule_insert_thread t s2)
   }"

definition rt_thread_find :: "u8 list \<Rightarrow> 'a kbase_scheme \<Rightarrow> ('a kbase_scheme \<times> oid option) option" where
  "rt_thread_find nm s = do {
     let s1 = (if rt_thread_self s \<noteq> None then rt_enter_critical s else s);
     information \<leftarrow> rt_object_get_information RT_Object_Class_Thread;
     let r = object_lookup nm information s1;
     s2 \<leftarrow> (if rt_thread_self s1 \<noteq> None then rt_exit_critical s1 else Some s1);
     Some (s2, r)
   }"

section \<open>The kernel invariant\<close>

text \<open>
  A started thread is a registered thread object whose built-in timer is a registered one-shot
  timer that calls \<^verbatim>\<open>rt_thread_timeout\<close> on it.
\<close>

definition thread_obj_ok :: "'a ktimer_scheme \<Rightarrow> tid \<Rightarrow> bool" where
  "thread_obj_ok s t \<longleftrightarrow>
     rt_object_get_type (ThreadObj t) s = RT_Object_Class_Thread \<and>
     rt_object_get_type (TimerObj (ThreadTimer t)) s = RT_Object_Class_Timer \<and>
     rt_object_is_systemobject (TimerObj (ThreadTimer t)) s \<and>
     timeout_func (timers s (ThreadTimer t)) = ThreadTimeout t"

definition live :: "'a kbase_scheme \<Rightarrow> tid \<Rightarrow> bool" where
  "live s t \<longleftrightarrow> tstat s t = RT_THREAD_READY \<or> tstat s t = RT_THREAD_SUSPEND"

text \<open>
  Only suspended threads have their timer running, thread timers are never periodic, and no
  other timer calls \<^verbatim>\<open>rt_thread_timeout\<close>.
\<close>

definition threads_ok :: "'a ktimer_scheme \<Rightarrow> bool" where
  "threads_ok s \<longleftrightarrow>
     (\<forall>t. live s t \<longrightarrow> thread_obj_ok s t) \<and>
     (\<forall>t. ThreadTimer t \<in> set (timer_list s) \<longrightarrow> tstat s t = RT_THREAD_SUSPEND) \<and>
     (\<forall>u t. timeout_func (timers s u) = ThreadTimeout t \<longrightarrow> u = ThreadTimer t) \<and>
     (\<forall>t. \<not> periodic s (ThreadTimer t))"

definition thread_inv :: "'a ktimer_scheme \<Rightarrow> bool" where
  "thread_inv s \<longleftrightarrow> threads_ok s \<and> timers_wf s"

definition kinv :: "tid set \<Rightarrow> u32 \<Rightarrow> 'a ktimer_scheme \<Rightarrow> bool" where
  "kinv X b s \<longleftrightarrow> sched_inv X s \<and> timer_inv b s \<and> thread_inv s"

lemma kinvD:
  assumes "kinv X b s"
  shows "sched_inv X s" "timer_inv b s" "thread_inv s" "timers_wf s"
    "live s t \<Longrightarrow> thread_obj_ok s t"
    "ThreadTimer t \<in> set (timer_list s) \<Longrightarrow> tstat s t = RT_THREAD_SUSPEND"
  using assms by (auto simp: kinv_def thread_inv_def threads_ok_def)

text \<open>The invariant on the timer side reads the threads only through their states.\<close>

lemma threads_ok_cong:
  assumes "timers s' = timers s" "timer_list s' = timer_list s" "objs s' = objs s"
    and "\<And>t. tstat s' t = tstat s t \<or>
      ThreadTimer t \<notin> set (timer_list s) \<and> (live s' t \<longrightarrow> live s t \<or> thread_obj_ok s t)"
    and inv: "threads_ok s"
  shows "threads_ok s'"
proof -
  have ty: "\<And>x. rt_object_get_type x s' = rt_object_get_type x s"
    "\<And>x. rt_object_is_systemobject x s' = rt_object_is_systemobject x s"
    "\<And>u. periodic s' u = periodic s u"
    using assms(3)
    by (simp_all add: rt_object_get_type_def rt_object_is_systemobject_def periodic_def timer_flag_def)
  have ok: "thread_obj_ok s' t = thread_obj_ok s t" for t
    by (simp add: thread_obj_ok_def ty assms(1))
  have lv: "live s' t \<Longrightarrow> live s t \<or> thread_obj_ok s t" for t using assms(4)[of t] by (auto simp: live_def)
  show ?thesis
    using inv lv assms(4) unfolding threads_ok_def by (simp add: ok ty assms(1,2)) metis
qed

lemma timers_wf_cong:
  "timers s' = timers s \<Longrightarrow> timer_list s' = timer_list s \<Longrightarrow> objs s' = objs s \<Longrightarrow> timers_wf s' = timers_wf s"
  for s :: "'a ktimer_scheme"
  by (simp add: timers_wf_def timer_ok_def rt_object_get_type_def periodic_def active_def timer_flag_def)

text \<open>What a successful \<^verbatim>\<open>rt_timer_stop\<close> leaves, and a call on an inactive timer.\<close>

definition stopped :: "timer_id \<Rightarrow> 'a ktimer_scheme \<Rightarrow> 'a ktimer_scheme" where
  "stopped u s = (if active s u then deactivate u (timer_remove u s) else s)"

lemma rt_timer_stop_eq:
  "rt_object_get_type (TimerObj u) s = RT_Object_Class_Timer \<Longrightarrow>
   rt_timer_stop u s = Some (stopped u s, if active s u then RT_EOK else - RT_ERROR)"
  by (simp add: rt_timer_stop_def stopped_def active_def)

lemma stopped_sel [simp]:
  "thr (stopped u s) = thr s" "tl (stopped u s) = tl s" "cur (stopped u s) = cur s"
  "prio_max (stopped u s) = prio_max s" "ready_group (stopped u s) = ready_group s"
  "ready_table (stopped u s) = ready_table s" "cur_prio (stopped u s) = cur_prio s"
  "lock_nest (stopped u s) = lock_nest s" "irq_nest (stopped u s) = irq_nest s"
  "olists (stopped u s) = olists s" "heap (stopped u s) = heap s" "tick (stopped u s) = tick s"
  "timers (stopped u s) = timers s" "random_nr (stopped u s) = random_nr s"
  "ktimer.more (stopped u s) = ktimer.more s"
  "otype (objs (stopped u s) x) = otype (objs s x)" "name (objs (stopped u s) x) = name (objs s x)"
  by (simp_all add: stopped_def)

lemma stopped_type [simp]:
  "rt_object_get_type x (stopped u s) = rt_object_get_type x s"
  "rt_object_is_systemobject x (stopped u s) = rt_object_is_systemobject x s"
  "periodic (stopped u s) v = periodic s v" "active (stopped u s) v \<longleftrightarrow> v \<noteq> u \<and> active s v"
  using periodic_cong[of "timer_remove u s" s] active_cong[of "timer_remove u s" s]
  by (auto simp: stopped_def rt_object_get_type_def rt_object_is_systemobject_def)

lemma stopped_list: "timers_wf s \<Longrightarrow> timer_list (stopped u s) = removeAll u (timer_list s)"
  by (auto simp: stopped_def timers_wf_def)

lemma tstat_stopped [simp]: "tstat (stopped u s) t = tstat s t" "live (stopped u s) t = live s t"
  by (simp_all add: tstat_def live_def)

lemma tstat_timer_remove [simp]:
  "tstat (timer_remove u s) t = tstat s t" "live (timer_remove u s) t = live s t"
  "prio_of (timer_remove u s) t = prio_of s t"
  by (simp_all add: tstat_def live_def prio_of_def)

lemma tstat_started [simp]:
  "tstat (started u s) t = tstat s t" "live (started u s) t = live s t" "prio_of (started u s) t = prio_of s t"
  by (simp_all add: tstat_def live_def prio_of_def)

lemma thread_obj_ok_stopped [simp]: "thread_obj_ok (stopped u s) t = thread_obj_ok s t"
  by (simp add: thread_obj_ok_def)

lemma kinv_stopped:
  assumes "kinv X b s"
  shows "kinv X b (stopped u s)"
proof -
  have wf: "timers_wf s" using kinvD(4)[OF assms] .
  have "sched_inv X (stopped u s)"
    using kinvD(1)[OF assms] sched_inv_cong[of "stopped u s" s] by simp
  moreover have "timer_inv b (stopped u s)"
    using kinvD(2)[OF assms] timer_inv_removeAll[OF kinvD(2)[OF assms], of u] due_cong[of "stopped u s" s]
    by (auto simp: timer_inv_def stopped_list[OF wf] distinct_removeAll)
  moreover have "thread_inv (stopped u s)"
    using kinvD(3)[OF assms]
    by (auto simp: thread_inv_def threads_ok_def timers_wf_def timer_ok_def stopped_list[OF wf])
  ultimately show ?thesis by (simp add: kinv_def)
qed

section \<open>Every operation keeps the invariant\<close>

lemma ktimer_more_eq:
  assumes "kbase.more s' = kbase.more (s :: 'a ktimer_scheme)"
  shows "tick s' = tick s" "timers s' = timers s" "timer_list s' = timer_list s"
    "random_nr s' = random_nr s" "ktimer.more s' = ktimer.more s"
  using assms by (cases s; cases s'; simp)+

lemma sched_sel_ktimer [simp]:
  "timers (rt_schedule_remove_thread t s) = timers s"
  "timer_list (rt_schedule_remove_thread t s) = timer_list s"
  "tick (rt_schedule_remove_thread t s) = tick s"
  "timers (rt_schedule_insert_thread t s) = timers s"
  "timer_list (rt_schedule_insert_thread t s) = timer_list s"
  "tick (rt_schedule_insert_thread t s) = tick s"
  "timers (upd_thr t f s) = timers s" "timer_list (upd_thr t f s) = timer_list s"
  "tick (upd_thr t f s) = tick s"
  by (rule ktimer_more_eq; simp)+

lemma sched_inv_limbo: "sched_inv X s \<Longrightarrow> unlinked t (tl s) \<Longrightarrow> sched_inv (insert t X) s"
  by (auto simp: sched_inv_def queue_ok_def)

lemma kinv_schedI:
  assumes "kinv X b s" "sched_inv Y s'" "kbase.more s' = kbase.more s" "objs s' = objs s"
    and "\<And>t. tstat s' t = tstat s t \<or>
      ThreadTimer t \<notin> set (timer_list s) \<and> (live s' t \<longrightarrow> live s t \<or> thread_obj_ok s t)"
  shows "kinv Y b s'"
proof -
  note eq = ktimer_more_eq[OF assms(3)]
  have "thread_inv s'"
    using kinvD(3)[OF assms(1)] threads_ok_cong[OF eq(2,3) assms(4,5)] timers_wf_cong[OF eq(2,3) assms(4)]
    by (simp add: thread_inv_def)
  then show ?thesis
    using assms(1,2) timer_inv_cong[OF eq(2,3,1)] by (simp add: kinv_def)
qed

lemma kinv_attr: "kinv X b s \<Longrightarrow> live s t \<Longrightarrow> attr_ok (prio_max s) (thr s t)"
  using sched_invD(10)[OF kinvD(1), of X b s t] by (auto simp: live_def)

lemma kinv_insert_thread:
  assumes inv: "kinv X b s" and t: "t \<in> X" "live s t" "ThreadTimer t \<notin> set (timer_list s)"
  shows "kinv (X - {t}) b (rt_schedule_insert_thread t s)"
  by (rule kinv_schedI[OF inv sched_inv_insert_thread[OF kinvD(1)[OF inv] t(1) kinv_attr[OF inv t(2)]]])
    (use t in \<open>auto simp: live_def\<close>)

lemma rt_schedule_kinv:
  assumes inv: "kinv {} b s" and c: "cur s = Some c"
  obtains s' where "rt_schedule s = Some s'" "kinv {} b s'" "thr s' = thr s" "cur s' \<noteq> None"
    "objs s' = objs s" "olists s' = olists s" "heap s' = heap s" "kbase.more s' = kbase.more s"
    "lock_nest s' = lock_nest s" "irq_nest s' = irq_nest s" "prio_max s' = prio_max s"
    "\<And>h. (\<nexists>p. h = Ready p) \<Longrightarrow> tl s' h = tl s h"
proof -
  obtain s' where s': "rt_schedule s = Some s'" "sched_inv {} s'" "thr s' = thr s"
    "prio_max s' = prio_max s" "lock_nest s' = lock_nest s" "irq_nest s' = irq_nest s"
    "objs s' = objs s" "olists s' = olists s" "heap s' = heap s" "kbase.more s' = kbase.more s" "cur s' \<noteq> None"
    "\<And>h. (\<nexists>p. h = Ready p) \<Longrightarrow> tl s' h = tl s h"
    using rt_schedule_total[OF kinvD(1)[OF inv] c] by blast
  have "kinv {} b s'"
    by (rule kinv_schedI[OF inv s'(2,10,7)]) (simp add: tstat_def s'(3))
  with s' show thesis by (intro that)
qed

subsection \<open>Suspending and resuming\<close>

definition suspend_state :: "tid \<Rightarrow> 'a ktimer_scheme \<Rightarrow> 'a ktimer_scheme" where
  "suspend_state t s = stopped (ThreadTimer t)
     (rt_schedule_remove_thread t (upd_thr t (set_stat RT_THREAD_SUSPEND) s))"

lemma tstat_set_stat [simp]:
  "tstat (upd_thr t (set_stat RT_THREAD_SUSPEND) s) u = (if u = t then RT_THREAD_SUSPEND else tstat s u)"
  by (simp add: tstat_def)

lemma suspend_state_sel [simp]:
  "thr (suspend_state t s) = (thr s)(t := set_stat RT_THREAD_SUSPEND (thr s t))"
  "tl (suspend_state t s) = ls_remove t (tl s)" "cur (suspend_state t s) = cur s"
  "prio_max (suspend_state t s) = prio_max s" "lock_nest (suspend_state t s) = lock_nest s"
  "irq_nest (suspend_state t s) = irq_nest s" "olists (suspend_state t s) = olists s"
  "heap (suspend_state t s) = heap s" "tick (suspend_state t s) = tick s"
  "timers (suspend_state t s) = timers s" "ktimer.more (suspend_state t s) = ktimer.more s"
  "tstat (suspend_state t s) u = (if u = t then RT_THREAD_SUSPEND else tstat s u)"
  "rt_object_get_type x (suspend_state t s) = rt_object_get_type x s"
  "periodic (suspend_state t s) v = periodic s v"
  using get_type_cong[of "rt_schedule_remove_thread t (upd_thr t (set_stat RT_THREAD_SUSPEND) s)" s]
    periodic_cong[of "rt_schedule_remove_thread t (upd_thr t (set_stat RT_THREAD_SUSPEND) s)" s]
    ktimer_more_eq(5)[of "rt_schedule_remove_thread t (upd_thr t (set_stat RT_THREAD_SUSPEND) s)" s]
  by (simp_all add: suspend_state_def)

lemma rt_thread_suspend_ok:
  assumes inv: "kinv {} b s" and t: "cur s = Some t" "tstat s t = RT_THREAD_READY"
  shows "rt_thread_suspend t s = Some (suspend_state t s, RT_EOK)" "kinv {} b (suspend_state t s)"
    "unlinked t (tl (suspend_state t s))" "timer_list (suspend_state t s) = timer_list s"
proof -
  let ?s1 = "upd_thr t (set_stat RT_THREAD_SUSPEND) s"
  let ?s2 = "rt_schedule_remove_thread t ?s1"
  have ok: "thread_obj_ok s t" using kinvD(5)[OF inv, of t] t(2) by (simp add: live_def)
  have un: "unlinked t (tl s)" using running_unlinked[OF kinvD(1)[OF inv] t] .
  have a: "attr_ok (prio_max s) (thr s t)" using kinv_attr[OF inv] t(2) by (simp add: live_def)
  have nt: "ThreadTimer t \<notin> set (timer_list s)" using kinvD(6)[OF inv, of t] t(2) by auto
  have "sched_inv {} ?s1"
    by (rule sched_inv_upd_unlinked[OF kinvD(1)[OF inv] un]) (use a in simp_all)
  then have "sched_inv {t} ?s2" by (rule sched_inv_remove_thread) (use a in simp)
  then have "sched_inv {} ?s2" by (rule sched_inv_drop) simp
  then have k2: "kinv {} b ?s2"
    by (rule kinv_schedI[OF inv]) (use nt t(2) in \<open>auto simp: live_def\<close>)
  then show "kinv {} b (suspend_state t s)" unfolding suspend_state_def by (rule kinv_stopped)
  show "unlinked t (tl (suspend_state t s))" by simp
  show "timer_list (suspend_state t s) = timer_list s"
    using stopped_list[OF kinvD(4)[OF k2]] nt by (simp add: suspend_state_def)
  have "rt_object_get_type (TimerObj (ThreadTimer t)) ?s2 = RT_Object_Class_Timer"
    using ok get_type_cong[of ?s2 s] by (simp add: thread_obj_ok_def)
  then show "rt_thread_suspend t s = Some (suspend_state t s, RT_EOK)"
    using t ok by (simp add: rt_thread_suspend_def rt_timer_stop_eq suspend_state_def rt_thread_self_def thread_obj_ok_def)
qed

definition resume_state :: "tid \<Rightarrow> 'a ktimer_scheme \<Rightarrow> 'a ktimer_scheme" where
  "resume_state t s = rt_schedule_insert_thread t (stopped (ThreadTimer t) (s\<lparr>tl := ls_remove t (tl s)\<rparr>))"

lemma kinv_unlink:
  assumes inv: "kinv X b s" and t: "tstat s t \<noteq> RT_THREAD_READY"
  shows "kinv (insert t X) b (s\<lparr>tl := ls_remove t (tl s)\<rparr>)"
  by (rule kinv_schedI[OF inv sched_inv_unlink[OF kinvD(1)[OF inv] t]]) (simp_all add: tstat_def)

lemma rt_thread_resume_ok:
  assumes inv: "kinv {} b s" and t: "tstat s t = RT_THREAD_SUSPEND"
  shows "rt_thread_resume t s = Some (resume_state t s, RT_EOK)" "kinv {} b (resume_state t s)"
    "timer_list (resume_state t s) = removeAll (ThreadTimer t) (timer_list s)"
proof -
  let ?s1 = "s\<lparr>tl := ls_remove t (tl s)\<rparr>"
  let ?s2 = "stopped (ThreadTimer t) ?s1"
  have lv: "live s t" using t by (simp add: live_def)
  have ok: "thread_obj_ok s t" using kinvD(5)[OF inv lv] .
  have k1: "kinv {t} b ?s1" using kinv_unlink[OF inv, of t] t by simp
  then have k2: "kinv {t} b ?s2" by (rule kinv_stopped)
  have tm: "timer_list ?s2 = removeAll (ThreadTimer t) (timer_list s)"
    using stopped_list[OF kinvD(4)[OF k1]] by simp
  have "kinv ({t} - {t}) b (resume_state t s)"
    unfolding resume_state_def
    by (rule kinv_insert_thread[OF k2]) (use lv tm in \<open>auto simp: live_def tstat_def\<close>)
  then show "kinv {} b (resume_state t s)" by simp
  show "timer_list (resume_state t s) = removeAll (ThreadTimer t) (timer_list s)"
    using tm by (simp add: resume_state_def)
  have "rt_object_get_type (TimerObj (ThreadTimer t)) ?s1 = RT_Object_Class_Timer"
    using ok get_type_cong[of ?s1 s] by (simp add: thread_obj_ok_def)
  then show "rt_thread_resume t s = Some (resume_state t s, RT_EOK)"
    using t ok by (simp add: rt_thread_resume_def rt_timer_stop_eq resume_state_def thread_obj_ok_def)
qed

subsection \<open>Timeouts\<close>

text \<open>
  The calls that a timer check makes: \<^verbatim>\<open>rt_thread_timeout\<close>, and user functions that act
  outside the kernel.
\<close>

definition kernel_call :: "(nat \<Rightarrow> 'a \<Rightarrow> 'a) \<Rightarrow> timer_fn \<Rightarrow> 'a ktimer_scheme \<Rightarrow> 'a ktimer_scheme option" where
  "kernel_call g f s =
     (case f of ThreadTimeout t \<Rightarrow> rt_thread_timeout t s | UserFn n \<Rightarrow> Some (ktimer.more_update (g n) s))"

definition timeout_state :: "tid \<Rightarrow> 'a kbase_scheme \<Rightarrow> 'a kbase_scheme" where
  "timeout_state t s = rt_schedule_insert_thread t
     ((upd_thr t (\<lambda>th. th\<lparr>error := - RT_ETIMEOUT\<rparr>) s)\<lparr>tl := ls_remove t (tl s)\<rparr>)"

lemma timeout_state_sel [simp]:
  "thr (timeout_state t s) = (thr s)(t := set_stat RT_THREAD_READY ((thr s t)\<lparr>error := - RT_ETIMEOUT\<rparr>))"
  "cur (timeout_state t s) = cur s" "objs (timeout_state t s) = objs s"
  "kbase.more (timeout_state t s) = kbase.more s" "lock_nest (timeout_state t s) = lock_nest s"
  "prio_max (timeout_state t s) = prio_max s"
  "tstat (timeout_state t s) u = (if u = t then RT_THREAD_READY else tstat s u)"
  by (simp_all add: timeout_state_def tstat_def)

lemma sched_inv_timeout_state:
  assumes inv: "sched_inv {} s" and t: "tstat s t = RT_THREAD_SUSPEND"
  shows "sched_inv {} (timeout_state t s)"
proof -
  let ?s1 = "upd_thr t (\<lambda>th. th\<lparr>error := - RT_ETIMEOUT\<rparr>) s"
  have 1: "sched_inv {} ?s1" using inv sched_inv_upd_same by (subst sched_inv_upd_same) (auto simp: attr_ok_def)
  have "tstat ?s1 t = RT_THREAD_SUSPEND" using t by (simp add: tstat_def)
  then have "sched_inv {t} (?s1\<lparr>tl := ls_remove t (tl ?s1)\<rparr>)" using sched_inv_unlink[OF 1, of t] by simp
  moreover have "attr_ok (prio_max s) ((thr s t)\<lparr>error := - RT_ETIMEOUT\<rparr>)"
    using sched_invD(10)[OF inv, of t] t by (simp add: attr_ok_def)
  ultimately show ?thesis
    using sched_inv_insert_thread[of "{t}" "?s1\<lparr>tl := ls_remove t (tl ?s1)\<rparr>" t] by (simp add: timeout_state_def)
qed

lemma rt_thread_timeout_eq:
  "tstat s t = RT_THREAD_SUSPEND \<Longrightarrow> rt_object_get_type (ThreadObj t) s = RT_Object_Class_Thread \<Longrightarrow>
   rt_thread_timeout t s = rt_schedule (timeout_state t s)"
  by (simp add: rt_thread_timeout_def timeout_state_def)

text \<open>What the timeout functions keep: the scheduler's invariant and that of the threads.\<close>

definition tick_inv :: "'a ktimer_scheme \<Rightarrow> bool" where
  "tick_inv s \<longleftrightarrow> sched_inv {} s \<and> threads_ok s \<and> cur s \<noteq> None"

lemma tick_inv_cong:
  "thr s' = thr s \<Longrightarrow> tl s' = tl s \<Longrightarrow> ready_group s' = ready_group s \<Longrightarrow> ready_table s' = ready_table s \<Longrightarrow>
   cur s' = cur s \<Longrightarrow> prio_max s' = prio_max s \<Longrightarrow> threads_ok s' \<Longrightarrow> tick_inv s \<Longrightarrow> tick_inv s'"
  using sched_inv_cong[of s' s] by (auto simp: tick_inv_def)

lemma thread_timeout_fires:
  assumes inv: "tick_inv s" and l: "timer_list s = u # us" and f: "timeout_func (timers s u) = ThreadTimeout t"
  shows "\<exists>s'. rt_thread_timeout t (timer_remove u s) = Some s' \<and> tick_inv s' \<and> tick s' = tick s \<and>
    timers s' = timers s \<and> timer_list s' = removeAll u (timer_list s) \<and> objs s' = objs s"
proof -
  let ?s1 = "timer_remove u s"
  have ut: "u = ThreadTimer t" and t: "tstat s t = RT_THREAD_SUSPEND"
    using inv l f by (auto simp: tick_inv_def threads_ok_def)
  have t1: "tstat ?s1 t = RT_THREAD_SUSPEND" using t by simp
  have ty: "rt_object_get_type (ThreadObj t) ?s1 = RT_Object_Class_Thread"
    using inv t by (simp add: tick_inv_def threads_ok_def live_def thread_obj_ok_def)
  have "sched_inv {} ?s1" using inv sched_inv_cong[of ?s1 s] by (simp add: tick_inv_def)
  then have inv2: "sched_inv {} (timeout_state t ?s1)" using sched_inv_timeout_state t1 by blast
  obtain c where c: "cur (timeout_state t ?s1) = Some c" using inv by (auto simp: tick_inv_def)
  obtain s' where s': "rt_schedule (timeout_state t ?s1) = Some s'" "sched_inv {} s'"
    "thr s' = thr (timeout_state t ?s1)" "objs s' = objs s" "kbase.more s' = kbase.more ?s1" "cur s' \<noteq> None"
    using rt_schedule_total[OF inv2 c] by (metis timeout_state_sel(3,4) timer_remove_sel(12))
  note eq = ktimer_more_eq[OF s'(5)]
  have ts: "tstat s' w = (if w = t then RT_THREAD_READY else tstat s w)" for w
    using timeout_state_sel(7)[of t ?s1 w] s'(3) by (simp add: tstat_def)
  have "threads_ok ?s1" using inv by (auto simp: tick_inv_def threads_ok_def live_def tstat_def thread_obj_ok_def
        rt_object_get_type_def rt_object_is_systemobject_def periodic_def timer_flag_def)
  then have "threads_ok s'"
    by (rule threads_ok_cong[OF eq(2,3), rotated 2])
      (use s'(4) ts t ut in \<open>auto simp: live_def\<close>)
  then show ?thesis
    using s' eq rt_thread_timeout_eq[OF t1 ty] by (auto simp: tick_inv_def)
qed

interpretation kc: timer_client "kernel_call g" tick_inv for g
proof (unfold_locales, goal_cases)
  case (1 s t ts)
  show ?case
  proof (cases "timeout_func (timers s t)")
    case (ThreadTimeout u)
    then show ?thesis using thread_timeout_fires[OF 1(1,2)] by (simp add: kernel_call_def)
  next
    case (UserFn n)
    let ?s' = "ktimer.more_update (g n) (timer_remove t s)"
    have "threads_ok ?s'" using 1(1) by (auto simp: tick_inv_def threads_ok_def live_def tstat_def thread_obj_ok_def
        rt_object_get_type_def rt_object_is_systemobject_def periodic_def timer_flag_def)
    then have "tick_inv ?s'" by (intro tick_inv_cong[OF _ _ _ _ _ _ _ 1(1)]) simp_all
    then show ?thesis using UserFn by (simp add: kernel_call_def)
  qed
next
  case (2 s t)
  have "threads_ok (started t s)"
    using 2 by (auto simp: tick_inv_def threads_ok_def live_def tstat_def thread_obj_ok_def split: if_splits)
  then show ?case by (intro tick_inv_cong[OF _ _ _ _ _ _ _ 2(1)]) simp_all
next
  case (3 s t)
  have "threads_ok (deactivate t s)"
    using 3 by (auto simp: tick_inv_def threads_ok_def live_def tstat_def thread_obj_ok_def)
  then show ?case by (intro tick_inv_cong[OF _ _ _ _ _ _ _ 3]) simp_all
qed

subsection \<open>Arming a thread's timer\<close>

definition arm :: "tid \<Rightarrow> u32 \<Rightarrow> 'a ktimer_scheme \<Rightarrow> 'a ktimer_scheme" where
  "arm t n s = started (ThreadTimer t)
     (s\<lparr>timers := (timers s)(ThreadTimer t := (timers s (ThreadTimer t))\<lparr>init_tick := n\<rparr>)\<rparr>)"

lemma arm_sel [simp]:
  "thr (arm t n s) = thr s" "tl (arm t n s) = tl s" "cur (arm t n s) = cur s"
  "prio_max (arm t n s) = prio_max s" "ready_group (arm t n s) = ready_group s"
  "ready_table (arm t n s) = ready_table s" "lock_nest (arm t n s) = lock_nest s"
  "irq_nest (arm t n s) = irq_nest s" "olists (arm t n s) = olists s" "heap (arm t n s) = heap s"
  "tick (arm t n s) = tick s" "ktimer.more (arm t n s) = ktimer.more s"
  "tstat (arm t n s) u = tstat s u" "live (arm t n s) u = live s u" "prio_of (arm t n s) u = prio_of s u"
  "set (timer_list (arm t n s)) = insert (ThreadTimer t) (set (timer_list s))"
  "due (tick s) (arm t n s) (ThreadTimer t) = unat n"
  by (simp_all add: arm_def tstat_def live_def prio_of_def due_def)

lemma arm_type [simp]:
  "rt_object_get_type x (arm t n s) = rt_object_get_type x s"
  "rt_object_is_systemobject x (arm t n s) = rt_object_is_systemobject x s"
  by (simp_all add: arm_def rt_object_get_type_def rt_object_is_systemobject_def)

lemma arm_calls:
  assumes "rt_object_get_type (TimerObj (ThreadTimer t)) s = RT_Object_Class_Timer"
  shows "do { (s2, _, _) \<leftarrow> rt_timer_control (ThreadTimer t) (RT_TIMER_CTRL_SET_TIME n) s;
              rt_timer_start (ThreadTimer t) s2 } =
         (if n < RT_TICK_HALF then Some (arm t n s, RT_EOK) else None)"
proof -
  let ?s2 = "s\<lparr>timers := (timers s)(ThreadTimer t := (timers s (ThreadTimer t))\<lparr>init_tick := n\<rparr>)\<rparr>"
  have ty: "rt_object_get_type (TimerObj (ThreadTimer t)) ?s2 = RT_Object_Class_Timer"
    using assms get_type_cong[of ?s2 s] by simp
  have "rt_timer_start (ThreadTimer t) ?s2 = (if n < RT_TICK_HALF then Some (arm t n s, RT_EOK) else None)"
  proof (cases "n < RT_TICK_HALF")
    case True
    then show ?thesis using rt_timer_start_eq[of ?s2 "ThreadTimer t"] ty by (simp add: timer_ok_def arm_def)
  next
    case False
    then show ?thesis using ty by (simp add: rt_timer_start_def Let_def)
  qed
  then show ?thesis using assms by (simp add: rt_timer_control_def)
qed

lemma kinv_arm:
  assumes inv: "kinv X b s" and t: "tstat s t = RT_THREAD_SUSPEND" and n: "n < RT_TICK_HALF"
  shows "kinv X b (arm t n s)"
proof -
  let ?s2 = "s\<lparr>timers := (timers s)(ThreadTimer t := (timers s (ThreadTimer t))\<lparr>init_tick := n\<rparr>)\<rparr>"
  have ok: "thread_obj_ok s t" using kinvD(5)[OF inv, of t] t by (simp add: live_def)
  have ty: "rt_object_get_type x ?s2 = rt_object_get_type x s" "periodic ?s2 u = periodic s u"
    "active ?s2 u = active s u" "rt_object_is_systemobject x ?s2 = rt_object_is_systemobject x s" for x u
    by (simp_all add: rt_object_get_type_def rt_object_is_systemobject_def periodic_def active_def timer_flag_def)
  have np: "\<not> periodic s (ThreadTimer u)" for u
    using kinvD(3)[OF inv] by (simp add: thread_inv_def threads_ok_def)
  have "due b ?s2 = due b s" by (auto simp: due_def fun_eq_iff)
  then have inv2: "timer_inv b ?s2" using kinvD(2)[OF inv] by (simp add: timer_inv_def)
  have ok2: "timer_ok ?s2 (ThreadTimer t)" using ok n by (simp add: timer_ok_def ty thread_obj_ok_def)
  have "timer_inv b (arm t n s)" unfolding arm_def by (rule timer_inv_started(1)[OF inv2 ok2])
  moreover have "sched_inv X (arm t n s)"
    using kinvD(1)[OF inv] sched_inv_cong[of "arm t n s" s] by simp
  moreover have "threads_ok (arm t n s)"
    using kinvD(3)[OF inv] t unfolding thread_inv_def threads_ok_def thread_obj_ok_def
    by (auto simp: arm_def ty) (auto simp: live_def tstat_def)
  moreover have "timers_wf (arm t n s)"
    using kinvD(4)[OF inv] ok2 np unfolding timers_wf_def timer_ok_def
    by (auto simp: arm_def ty)
  ultimately show ?thesis by (simp add: kinv_def thread_inv_def)
qed

lemma kinv_upd_same:
  assumes "kinv X b s" "stat (f (thr s t)) = stat (thr s t)"
    and "current_priority (f (thr s t)) = current_priority (thr s t)"
    and "\<And>pm. attr_ok pm (f (thr s t)) = attr_ok pm (thr s t)"
  shows "kinv X b (upd_thr t f s)"
proof (rule kinv_schedI[OF assms(1)])
  show "sched_inv X (upd_thr t f s)" using sched_inv_upd_same[of f s t X] assms kinvD(1) by blast
qed (use assms(2) in \<open>auto simp: tstat_def\<close>)

section \<open>Properties\<close>

lemma resume_state_sel [simp]:
  "thr (resume_state t s) = (thr s)(t := set_stat RT_THREAD_READY (thr s t))"
  "tl (resume_state t s) = (if cur s = Some t then ls_remove t (tl s)
     else ls_insert_before (Ready (prio_of s t)) t (ls_remove t (tl s)))"
  "cur (resume_state t s) = cur s" "prio_max (resume_state t s) = prio_max s"
  "lock_nest (resume_state t s) = lock_nest s" "irq_nest (resume_state t s) = irq_nest s"
  "tick (resume_state t s) = tick s" "timers (resume_state t s) = timers s"
  "ktimer.more (resume_state t s) = ktimer.more s"
  "tstat (resume_state t s) u = (if u = t then RT_THREAD_READY else tstat s u)"
  "prio_of (resume_state t s) u = prio_of s u"
  using ktimer_more_eq(5)[of "resume_state t s" "stopped (ThreadTimer t) (s\<lparr>tl := ls_remove t (tl s)\<rparr>)"]
  by (auto simp: resume_state_def tstat_def prio_of_def)

text \<open>
  C9. \<^verbatim>\<open>rt_thread_suspend\<close> of the running thread and \<^verbatim>\<open>rt_thread_resume\<close> of a suspended one
  succeed and keep the kernel invariant. A resumed thread leaves the list it waited in, its
  timer is stopped, and it is the last in the ready queue of its priority. Both refuse a thread
  in the wrong state with \<^verbatim>\<open>-RT_ERROR\<close> and then change nothing; suspending another ready
  thread fails the assertion.
\<close>

theorem rt_thread_suspend_resume:
  assumes inv: "kinv {} b s" and ty: "rt_object_get_type (ThreadObj t) s = RT_Object_Class_Thread"
  shows "(tstat s t = RT_THREAD_READY \<and> cur s = Some t \<longrightarrow>
            (\<exists>s'. rt_thread_suspend t s = Some (s', RT_EOK) \<and> kinv {} b s' \<and>
               tstat s' t = RT_THREAD_SUSPEND \<and> unlinked t (tl s'))) \<and>
         (tstat s t = RT_THREAD_READY \<and> cur s \<noteq> Some t \<longrightarrow> rt_thread_suspend t s = None) \<and>
         (tstat s t \<noteq> RT_THREAD_READY \<longrightarrow> rt_thread_suspend t s = Some (s, - RT_ERROR)) \<and>
         (tstat s t \<noteq> RT_THREAD_SUSPEND \<longrightarrow> rt_thread_resume t s = Some (s, - RT_ERROR)) \<and>
         (tstat s t = RT_THREAD_SUSPEND \<and> cur s \<noteq> Some t \<longrightarrow>
            (\<exists>s' q. rt_thread_resume t s = Some (s', RT_EOK) \<and> kinv {} b s' \<and>
               tstat s' t = RT_THREAD_READY \<and> ThreadTimer t \<notin> set (timer_list s') \<and>
               tl s' (Ready (prio_of s t)) = q @ [t] \<and> q = tl s (Ready (prio_of s t)) \<and>
               (\<forall>h. h \<noteq> Ready (prio_of s t) \<longrightarrow> t \<notin> set (tl s' h))))"
proof (intro conjI impI)
  assume "tstat s t = RT_THREAD_READY \<and> cur s = Some t"
  then show "\<exists>s'. rt_thread_suspend t s = Some (s', RT_EOK) \<and> kinv {} b s' \<and>
      tstat s' t = RT_THREAD_SUSPEND \<and> unlinked t (tl s')"
    using rt_thread_suspend_ok[OF inv] by auto
next
  assume *: "tstat s t = RT_THREAD_SUSPEND \<and> cur s \<noteq> Some t"
  then have "t \<notin> set (tl s (Ready (prio_of s t)))" using ready_member[OF kinvD(1)[OF inv]] by fastforce
  then show "\<exists>s' q. rt_thread_resume t s = Some (s', RT_EOK) \<and> kinv {} b s' \<and>
       tstat s' t = RT_THREAD_READY \<and> ThreadTimer t \<notin> set (timer_list s') \<and>
       tl s' (Ready (prio_of s t)) = q @ [t] \<and> q = tl s (Ready (prio_of s t)) \<and>
       (\<forall>h. h \<noteq> Ready (prio_of s t) \<longrightarrow> t \<notin> set (tl s' h))"
    using rt_thread_resume_ok[OF inv, of t] * by (auto simp: ls_insert_before_def)
qed (use ty in \<open>auto simp: rt_thread_suspend_def rt_thread_resume_def rt_thread_self_def\<close>)

text \<open>
  A consistent kernel: thread 1 runs, thread 2 is ready beside it, thread 4 is ready at a lower
  priority, and thread 3 waits for semaphore 0 with its timer due in 5 ticks.
\<close>

definition demo_kernel :: "'x \<Rightarrow> 'x ktimer_scheme" where
  "demo_kernel x = \<lparr>prio_max = 32,
     thr = (\<lambda>_. idle_thread)(1 := demo_thread 32 5 RT_THREAD_READY, 2 := demo_thread 32 5 RT_THREAD_READY,
            3 := demo_thread 32 3 RT_THREAD_SUSPEND, 4 := demo_thread 32 9 RT_THREAD_READY),
     tl = (\<lambda>_. [])(Ready 5 := [2], Ready 9 := [4], Suspended (SemId 0) := [3]),
     ready_group = 0x220, ready_table = (\<lambda>_. 0), cur = Some 1, cur_prio = 5, lock_nest = 0, irq_nest = 0,
     objs = (\<lambda>ob. case ob of
         ThreadObj _ \<Rightarrow> \<lparr>name = replicate RT_NAME_MAX 0, otype = 0x80, oflag = 0\<rparr>
       | TimerObj u \<Rightarrow> \<lparr>name = replicate RT_NAME_MAX 0, otype = 0x89, oflag = if u = ThreadTimer 3 then 1 else 0\<rparr>
       | IpcObj (SemId _) \<Rightarrow> \<lparr>name = replicate RT_NAME_MAX 0, otype = 0x81, oflag = 0\<rparr>
       | IpcObj (MutexId _) \<Rightarrow> \<lparr>name = replicate RT_NAME_MAX 0, otype = 0x82, oflag = 0\<rparr>
       | IpcObj (EventId _) \<Rightarrow> \<lparr>name = replicate RT_NAME_MAX 0, otype = 0x83, oflag = 0\<rparr>
       | IpcObj (MailBoxId _) \<Rightarrow> \<lparr>name = replicate RT_NAME_MAX 0, otype = 0x84, oflag = 0\<rparr>
       | IpcObj (MessageQueueId _) \<Rightarrow> \<lparr>name = replicate RT_NAME_MAX 0, otype = 0x85, oflag = 0\<rparr>
       | MemPoolObj _ \<Rightarrow> \<lparr>name = replicate RT_NAME_MAX 0, otype = 0x87, oflag = 0\<rparr>),
     olists = (\<lambda>_. []), heap = {}, tick = 100,
     timers = (\<lambda>u. case u of
         ThreadTimer t \<Rightarrow> \<lparr>timeout_func = ThreadTimeout t, init_tick = 5, timeout_tick = 105\<rparr>
       | UserTimer n \<Rightarrow> \<lparr>timeout_func = UserFn n, init_tick = 1, timeout_tick = 0\<rparr>),
     timer_list = [ThreadTimer 3], random_nr = 0, \<dots> = x\<rparr>"

lemma demo_kernel_stat:
  "tstat (demo_kernel x) t = (if t = 1 \<or> t = 2 \<or> t = 4 then RT_THREAD_READY
     else if t = 3 then RT_THREAD_SUSPEND else RT_THREAD_INIT)"
  "prio_of (demo_kernel x) t = (if t = 1 \<or> t = 2 then 5 else if t = 3 then 3 else if t = 4 then 9 else 0)"
  "rt_object_get_type (ThreadObj t) (demo_kernel x) = RT_Object_Class_Thread"
  "rt_object_is_systemobject (ThreadObj t) (demo_kernel x)"
  "cur (demo_kernel x) = Some 1" "lock_nest (demo_kernel x) = 0" "irq_nest (demo_kernel x) = 0"
  "tick (demo_kernel x) = 100" "timer_list (demo_kernel x) = [ThreadTimer 3]"
  by (simp_all add: tstat_def prio_of_def demo_kernel_def idle_thread_def rt_object_get_type_def
      rt_object_is_systemobject_def)

lemma demo_kernel_sched: "sched_inv {} (demo_kernel x)"
proof -
  have "queue_ok {} (demo_kernel x)"
    unfolding queue_ok_def
    by (auto simp: demo_kernel_stat list_stat_def lists_ok_def)
      (auto simp: demo_kernel_def attr_ok_demo_thread split: if_splits)
  moreover have "bitmap_ok (demo_kernel x)"
    using bit_0x220 by (auto simp: bitmap_ok_def demo_kernel_def)
  ultimately show ?thesis by (simp add: sched_inv_def) (simp add: demo_kernel_def)
qed

lemma demo_kernel_inv: "kinv {} 100 (demo_kernel x)"
proof -
  have "timer_inv 100 (demo_kernel x)"
    by (simp add: timer_inv_def due_def demo_kernel_def)
  moreover have "threads_ok (demo_kernel x)"
    by (auto simp: threads_ok_def live_def demo_kernel_stat)
      (auto simp: demo_kernel_def thread_obj_ok_def periodic_def timer_flag_def rt_object_get_type_def
        rt_object_is_systemobject_def split: timer_id.splits if_splits)
  moreover have "timers_wf (demo_kernel x)"
    by (auto simp: demo_kernel_def timers_wf_def timer_ok_def rt_object_get_type_def active_def timer_flag_def)
  ultimately show ?thesis using demo_kernel_sched by (simp add: kinv_def thread_inv_def)
qed

theorem rt_thread_suspend_resume_witness:
  "\<exists>s' q. rt_thread_resume 3 (demo_kernel ()) = Some (s', RT_EOK) \<and> kinv {} 100 s' \<and> tl s' (Ready 3) = q @ [3]"
  using rt_thread_suspend_resume[OF demo_kernel_inv demo_kernel_stat(3), of "()" 3]
  by (simp add: demo_kernel_stat) blast

text \<open>
  C8. \<^verbatim>\<open>rt_thread_sleep\<close> suspends the caller and arms its timer to expire after the given
  ticks, keeping the kernel invariant; with the scheduler unlocked and any other thread ready
  the processor goes to another thread. A sleep of \<^verbatim>\<open>RT_TICK_MAX / 2\<close> ticks or more fails an
  assertion of \<^verbatim>\<open>rt_timer_start\<close>.
\<close>

theorem rt_thread_sleep_suspends:
  assumes inv: "kinv {} b s" and t: "cur s = Some t" "tstat s t = RT_THREAD_READY"
  shows "(n \<ge> RT_TICK_HALF \<longrightarrow> rt_thread_sleep n s = None) \<and>
         (n < RT_TICK_HALF \<longrightarrow>
            (\<exists>s' r. rt_thread_sleep n s = Some (s', r) \<and> kinv {} b s' \<and>
               tstat s' t = RT_THREAD_SUSPEND \<and> ThreadTimer t \<in> set (timer_list s') \<and>
               due (tick s') s' (ThreadTimer t) = unat n \<and>
               (r = (if cur s' = Some t then Returns RT_EOK else Blocks)) \<and>
               (lock_nest s = 0 \<and> (\<exists>u. u \<noteq> t \<and> tstat s u = RT_THREAD_READY) \<longrightarrow> cur s' \<noteq> Some t)))"
proof -
  note sus = rt_thread_suspend_ok[OF inv t]
  let ?s1 = "suspend_state t s"
  have ok: "thread_obj_ok s t" using kinvD(5)[OF inv, of t] t(2) by (simp add: live_def)
  have ty1: "rt_object_get_type (TimerObj (ThreadTimer t)) ?s1 = RT_Object_Class_Timer"
    using ok by (simp add: thread_obj_ok_def)
  have sl: "rt_thread_sleep n s = do {
      (s3, _) \<leftarrow> (if n < RT_TICK_HALF then Some (arm t n ?s1, RT_EOK) else None);
      s4 \<leftarrow> rt_schedule s3;
      if cur s4 = Some t then (let (s5, r) = rt_thread_sleep_end t s4 in Some (s5, Returns r))
      else Some (s4, Blocks) }"
    using t ok sus(1) arm_calls[OF ty1, of n, symmetric]
    by (simp add: rt_thread_sleep_def rt_thread_self_def thread_obj_ok_def split_def)
  show ?thesis
  proof (cases "n < RT_TICK_HALF")
    case True
    have k3: "kinv {} b (arm t n ?s1)" by (rule kinv_arm[OF sus(2) _ True]) simp
    have c3: "cur (arm t n ?s1) = Some t" using t by simp
    obtain s4 where s4: "rt_schedule (arm t n ?s1) = Some s4" "kinv {} b s4" "thr s4 = thr (arm t n ?s1)"
      "kbase.more s4 = kbase.more (arm t n ?s1)" "cur s4 \<noteq> None"
      by (rule rt_schedule_kinv[OF k3 c3], rule that)
    note eq = ktimer_more_eq[OF s4(4)]
    define s5 where "s5 = (if cur s4 = Some t then fst (rt_thread_sleep_end t s4) else s4)"
    have k5: "kinv {} b s5"
      using s4(2) by (auto simp: s5_def rt_thread_sleep_end_def attr_ok_def intro!: kinv_upd_same)
    have s5: "timer_list s5 = timer_list s4" "timers s5 = timers s4" "tick s5 = tick s4" "cur s5 = cur s4"
      "tstat s5 t = tstat s4 t"
      by (simp_all add: s5_def rt_thread_sleep_end_def tstat_def)
    have ts: "tstat s4 u = (if u = t then RT_THREAD_SUSPEND else tstat s u)" for u
      using s4(3) arm_sel(13)[of t n ?s1 u] suspend_state_sel(12)[of t s u] by (simp add: tstat_def)
    have "cur s4 \<noteq> Some t" if "lock_nest s = 0" "u \<noteq> t" "tstat s u = RT_THREAD_READY" for u
      using rt_schedule_picks[OF kinvD(1)[OF k3] c3 _ _ s4(1), of u] that ts by auto
    moreover have "due (tick s5) s5 (ThreadTimer t) = unat n"
      using arm_sel(17)[of "?s1" t n] s5 eq by (simp add: due_def)
    moreover have "rt_thread_sleep n s = Some (s5, if cur s5 = Some t then Returns RT_EOK else Blocks)"
      using True sl s4(1) by (simp add: s5_def rt_thread_sleep_end_def)
    ultimately show ?thesis using True k5 s5 ts eq by auto
  qed (use sl in simp)
qed

theorem rt_thread_sleep_suspends_witness:
  "\<exists>s'. rt_thread_sleep 20 (demo_kernel ()) = Some (s', Blocks) \<and> kinv {} 100 s' \<and> tstat s' 1 = RT_THREAD_SUSPEND"
proof -
  have "2 \<noteq> (1::nat) \<and> tstat (demo_kernel ()) 2 = RT_THREAD_READY" by (simp add: demo_kernel_stat)
  then show ?thesis
    using rt_thread_sleep_suspends[OF demo_kernel_inv demo_kernel_stat(5), of "()" 20] demo_kernel_stat(6)[of "()"]
    by (auto simp: demo_kernel_stat(1))
qed

text \<open>
  \<^verbatim>\<open>rt_thread_startup\<close> of an initialized thread makes it ready at its initial priority
  and keeps the kernel invariant; when the scheduler is not locked and the new thread has the
  highest priority, it runs at once.
\<close>

theorem rt_thread_startup_preempts:
  assumes inv: "kinv {} b s" and c: "cur s = Some c" and t: "tstat s t = RT_THREAD_INIT" "thread_obj_ok s t"
    and p: "unat (init_priority (thr s t)) < prio_max s"
  shows "\<exists>s'. rt_thread_startup t s = Some (s', RT_EOK) \<and> kinv {} b s' \<and> tstat s' t = RT_THREAD_READY \<and>
           prio_of s' t = unat (init_priority (thr s t)) \<and>
           (lock_nest s = 0 \<and> (\<forall>u. tstat s u = RT_THREAD_READY \<longrightarrow> prio_of s' t < prio_of s u) \<longrightarrow>
              cur s' = Some t)"
proof -
  let ?f = "\<lambda>th. (set_priority_attr (prio_max s) (th\<lparr>current_priority := init_priority th\<rparr>))\<lparr>stat := RT_THREAD_SUSPEND\<rparr>"
  let ?s2 = "upd_thr t ?f s"
  have un: "unlinked t (tl s)" by (rule init_unlinked[OF kinvD(1)[OF inv] t(1)])
  have a: "attr_ok (prio_max s) (?f (thr s t))"
    using p attr_ok_set_priority[of "(thr s t)\<lparr>current_priority := init_priority (thr s t)\<rparr>" "prio_max s"]
    by (simp add: attr_ok_def)
  have nt: "ThreadTimer t \<notin> set (timer_list s)" using kinvD(6)[OF inv, of t] t(1) by auto
  have ts2: "tstat ?s2 u = (if u = t then RT_THREAD_SUSPEND else tstat s u)" for u by (simp add: tstat_def)
  have "sched_inv {} ?s2"
    by (rule sched_inv_upd_unlinked[OF kinvD(1)[OF inv] un]) (use a in simp_all)
  then have k2: "kinv {} b ?s2"
    by (rule kinv_schedI[OF inv]) (use nt t(2) in \<open>auto simp: ts2\<close>)
  note res = rt_thread_resume_ok[OF k2, of t, unfolded ts2, simplified]
  let ?s3 = "resume_state t ?s2"
  have c3: "cur ?s3 = Some c" using c by simp
  have pr: "prio_of ?s2 u = (if u = t then unat (init_priority (thr s t)) else prio_of s u)" for u
    by (simp add: prio_of_def set_priority_attr_def Let_def)
  obtain s4 where s4: "rt_schedule ?s3 = Some s4" "kinv {} b s4" "thr s4 = thr ?s3"
    by (rule rt_schedule_kinv[OF res(2) c3], rule that)
  have st: "tstat s4 u = (if u = t then RT_THREAD_READY else tstat s u)" "prio_of s4 u = prio_of ?s2 u" for u
    using s4(3) resume_state_sel(10)[of t ?s2 u] resume_state_sel(11)[of t ?s2 u] ts2[of u]
    by (auto simp: tstat_def prio_of_def)
  have "cur s4 = Some t" if l: "lock_nest s = 0" and hi: "\<forall>u. tstat s u = RT_THREAD_READY \<longrightarrow> prio_of s4 t < prio_of s u"
  proof -
    obtain c' where c': "cur s4 = Some c'" "tstat ?s3 c' = RT_THREAD_READY" "prio_of ?s3 c' \<le> prio_of ?s3 t"
      using rt_schedule_picks[OF kinvD(1)[OF res(2)] c3 _ _ s4(1), of t] l by auto
    show ?thesis
    proof (rule ccontr)
      assume "cur s4 \<noteq> Some t"
      then have "c' \<noteq> t" using c' by simp
      then have "tstat s c' = RT_THREAD_READY" "prio_of s c' \<le> prio_of s4 t" using c'(2,3) st pr ts2 by auto
      then show False using hi by (meson not_less)
    qed
  qed
  moreover have "rt_thread_startup t s = Some (s4, RT_EOK)"
    using t res(1) s4(1) c3 unfolding rt_thread_startup_def
    by (simp add: thread_obj_ok_def rt_thread_self_def upd_thr_def)
  ultimately show ?thesis using s4(2) st pr by simp
qed

lemma demo_thread_obj: "thread_obj_ok (demo_kernel x) t"
  by (simp add: thread_obj_ok_def demo_kernel_def rt_object_get_type_def rt_object_is_systemobject_def)

theorem rt_thread_startup_preempts_witness:
  "\<exists>s'. rt_thread_startup 7 (demo_kernel ()) = Some (s', RT_EOK) \<and> kinv {} 100 s' \<and> cur s' = Some 7"
proof -
  have "tstat (demo_kernel ()) 7 = RT_THREAD_INIT" "unat (init_priority (thr (demo_kernel ()) 7)) < prio_max (demo_kernel ())"
    "init_priority (thr (demo_kernel ()) 7) = 0"
    by (simp_all add: demo_kernel_stat) (simp_all add: demo_kernel_def idle_thread_def)
  moreover have "\<forall>u. tstat (demo_kernel ()) u = RT_THREAD_READY \<longrightarrow> 0 < prio_of (demo_kernel ()) u"
    by (simp add: demo_kernel_stat)
  ultimately show ?thesis
    using rt_thread_startup_preempts[OF demo_kernel_inv demo_kernel_stat(5) _ demo_thread_obj, of "()" 7]
      demo_kernel_stat(6)[of "()"]
    by auto
qed

subsection \<open>Changing the priority\<close>

lemma change_priority_ok:
  assumes inv: "kinv {} b s" and ty: "rt_object_get_type (ThreadObj t) s = RT_Object_Class_Thread"
    and p: "unat p < prio_max s"
  obtains s' where "rt_thread_control t (RT_THREAD_CTRL_CHANGE_PRIORITY p) s = Some (s', RT_EOK)"
    "kinv {} b s'" "current_priority (thr s' t) = p" "\<And>u. u \<noteq> t \<Longrightarrow> thr s' u = thr s u"
    "error (thr s' t) = error (thr s t)" "\<And>u. tstat s' u = tstat s u" "cur s' = cur s" "objs s' = objs s"
    "kbase.more s' = kbase.more s" "lock_nest s' = lock_nest s" "irq_nest s' = irq_nest s"
    "prio_max s' = prio_max s" "heap s' = heap s" "\<And>k. (\<nexists>p. k = Ready p) \<Longrightarrow> tl s' k = tl s k"
    "if tstat s t = RT_THREAD_READY \<and> cur s \<noteq> Some t
     then tl s' (Ready (unat p)) = removeAll t (tl s (Ready (unat p))) @ [t] else tl s' = tl s"
proof -
  let ?f = "\<lambda>th. set_priority_attr (prio_max s) (th\<lparr>current_priority := p\<rparr>)"
  have a: "attr_ok (prio_max s) (?f th)" for th
    using p attr_ok_set_priority[of "th\<lparr>current_priority := p\<rparr>" "prio_max s"] by simp
  have st: "stat (?f th) = stat th" "current_priority (?f th) = p" "error (?f th) = error th" for th
    by (simp_all add: set_priority_attr_def Let_def)
  show thesis
  proof (cases "tstat s t = RT_THREAD_READY")
    case True
    let ?s1 = "rt_schedule_remove_thread t s"
    let ?s2 = "upd_thr t ?f ?s1"
    let ?s3 = "rt_schedule_insert_thread t ?s2"
    have lv: "live s t" using True by (simp add: live_def)
    have nt: "ThreadTimer t \<notin> set (timer_list s)" using kinvD(6)[OF inv, of t] True by auto
    have "sched_inv {t} ?s1"
      using sched_inv_remove_thread[OF kinvD(1)[OF inv] kinv_attr[OF inv lv]] by simp
    then have "sched_inv {t} ?s2" by (rule sched_inv_upd_unlinked) (use a in simp_all)
    then have "sched_inv ({t} - {t}) ?s3" by (rule sched_inv_insert_thread) (use a in simp_all)
    moreover have ts: "tstat ?s3 u = tstat s u" for u using True by (simp add: tstat_def st)
    ultimately have k: "kinv {} b ?s3" by (intro kinv_schedI[OF inv]) simp_all
    have un: "removeAll t (tl s h) = tl s h" if "cur s = Some t" for h
      using running_unlinked[OF kinvD(1)[OF inv] that True] by (simp add: unlinked_def)
    have nr: "removeAll t (tl s h) = tl s h" if "\<nexists>p. h = Ready p" for h
    proof -
      have "t \<notin> set (tl s h)"
        using sched_invD(5)[OF kinvD(1)[OF inv], of t h] True that by (cases h) (auto simp: list_stat_def)
      then show ?thesis by simp
    qed
    have pr: "prio_of ?s2 t = unat p" by (simp add: prio_of_def st)
    have rc: "rt_thread_control t (RT_THREAD_CTRL_CHANGE_PRIORITY p) s = Some (?s3, RT_EOK)"
      using ty True by (simp add: rt_thread_control_def Let_def)
    show thesis
      by (rule that[OF rc k])
        (use ts st nr un pr True in \<open>auto simp: ls_insert_before_def fun_eq_iff split: if_splits\<close>)
  next
    case False
    let ?s1 = "upd_thr t ?f s"
    have ts: "tstat ?s1 u = tstat s u" for u by (simp add: tstat_def st)
    have "sched_inv {} ?s1" by (rule sched_inv_upd_notready[OF kinvD(1)[OF inv] False]) (simp_all add: st a)
    then have k: "kinv {} b ?s1" by (rule kinv_schedI[OF inv]) (simp_all add: ts)
    have rc: "rt_thread_control t (RT_THREAD_CTRL_CHANGE_PRIORITY p) s = Some (?s1, RT_EOK)"
      using ty False by (simp add: rt_thread_control_def Let_def)
    show thesis by (rule that[OF rc k]) (use False ts st in simp_all)
  qed
qed

text \<open>
  C14. \<^verbatim>\<open>rt_thread_control\<close> with \<^verbatim>\<open>RT_THREAD_CTRL_CHANGE_PRIORITY\<close> and a priority in range
  returns \<^verbatim>\<open>RT_EOK\<close> and keeps the kernel invariant. A ready thread that does not run moves to
  the end of the queue of its new priority; a thread in any other state keeps its place.
\<close>

theorem rt_thread_control_priority:
  assumes inv: "kinv {} b s" and ty: "rt_object_get_type (ThreadObj t) s = RT_Object_Class_Thread"
    and p: "unat p < prio_max s"
  shows "\<exists>s'. rt_thread_control t (RT_THREAD_CTRL_CHANGE_PRIORITY p) s = Some (s', RT_EOK) \<and> kinv {} b s' \<and>
           current_priority (thr s' t) = p \<and> (\<forall>u. tstat s' u = tstat s u) \<and> cur s' = cur s \<and>
           (if tstat s t = RT_THREAD_READY \<and> cur s \<noteq> Some t
            then tl s' (Ready (unat p)) = removeAll t (tl s (Ready (unat p))) @ [t]
            else tl s' = tl s)"
proof -
  obtain s' where "rt_thread_control t (RT_THREAD_CTRL_CHANGE_PRIORITY p) s = Some (s', RT_EOK)"
    "kinv {} b s'" "current_priority (thr s' t) = p" "\<And>u. tstat s' u = tstat s u" "cur s' = cur s"
    "if tstat s t = RT_THREAD_READY \<and> cur s \<noteq> Some t
     then tl s' (Ready (unat p)) = removeAll t (tl s (Ready (unat p))) @ [t] else tl s' = tl s"
    by (rule change_priority_ok[OF assms]) blast
  then show ?thesis by blast
qed

theorem rt_thread_control_priority_witness:
  "\<exists>s'. rt_thread_control 4 (RT_THREAD_CTRL_CHANGE_PRIORITY 5) (demo_kernel ()) = Some (s', RT_EOK) \<and>
     kinv {} 100 s' \<and> tl s' (Ready 5) = [2, 4]"
proof -
  have "unat (5::u8) < prio_max (demo_kernel ())" "tl (demo_kernel ()) (Ready 5) = [2]"
    by (simp_all add: demo_kernel_def)
  then show ?thesis
    using rt_thread_control_priority[OF demo_kernel_inv demo_kernel_stat(3), of 5 "()" 4]
    by (auto simp: demo_kernel_stat)
qed

text \<open>
  The range of the new priority is not checked: a ready thread given a priority of
  \<^verbatim>\<open>RT_THREAD_PRIORITY_MAX\<close> or more is linked into a queue beyond the end of
  \<^verbatim>\<open>rt_thread_priority_table\<close>, and the call returns \<^verbatim>\<open>RT_EOK\<close>.
\<close>

theorem rt_thread_control_priority_unchecked:
  assumes "rt_object_get_type (ThreadObj t) s = RT_Object_Class_Thread" "tstat s t = RT_THREAD_READY"
    and "cur s \<noteq> Some t" "prio_max s \<le> unat p"
  shows "\<exists>s'. rt_thread_control t (RT_THREAD_CTRL_CHANGE_PRIORITY p) s = Some (s', RT_EOK) \<and>
           t \<in> set (tl s' (Ready (unat p))) \<and> \<not> sched_inv {} s'"
proof -
  let ?f = "\<lambda>th. set_priority_attr (prio_max s) (th\<lparr>current_priority := p\<rparr>)"
  let ?s' = "rt_schedule_insert_thread t (upd_thr t ?f (rt_schedule_remove_thread t s))"
  have "prio_of (upd_thr t ?f (rt_schedule_remove_thread t s)) t = unat p"
    by (simp add: prio_of_def set_priority_attr_def Let_def)
  then have t: "t \<in> set (tl ?s' (Ready (unat p)))" using assms(3) by (simp add: ls_insert_before_def)
  then have "\<not> sched_inv {} ?s'"
    using ready_prio_bound[of "{}" ?s' "unat p"] assms(4) by fastforce
  then show ?thesis using assms t by (simp add: rt_thread_control_def Let_def)
qed

theorem rt_thread_control_priority_unchecked_witness:
  "\<exists>s'. rt_thread_control 2 (RT_THREAD_CTRL_CHANGE_PRIORITY 200) (demo_kernel ()) = Some (s', RT_EOK) \<and>
     \<not> sched_inv {} s'"
proof -
  have "prio_max (demo_kernel ()) \<le> unat (200::u8)" by (simp add: demo_kernel_def)
  then show ?thesis
    using rt_thread_control_priority_unchecked[OF demo_kernel_stat(3), of "()" 2 200]
    by (auto simp: demo_kernel_stat)
qed

subsection \<open>The end of a thread\<close>

definition timer_detached :: "timer_id \<Rightarrow> 'a ktimer_scheme \<Rightarrow> 'a ktimer_scheme" where
  "timer_detached u s = rt_object_detach (TimerObj u) (timer_remove u s)"

definition closed :: "tid \<Rightarrow> 'a ktimer_scheme \<Rightarrow> 'a ktimer_scheme" where
  "closed t s = upd_thr t (\<lambda>th. th\<lparr>stat := RT_THREAD_CLOSE\<rparr>) (timer_detached (ThreadTimer t) s)"

lemma timer_detached_sel [simp]:
  "thr (timer_detached u s) = thr s" "tl (timer_detached u s) = tl s" "cur (timer_detached u s) = cur s"
  "prio_max (timer_detached u s) = prio_max s" "ready_group (timer_detached u s) = ready_group s"
  "ready_table (timer_detached u s) = ready_table s" "lock_nest (timer_detached u s) = lock_nest s"
  "irq_nest (timer_detached u s) = irq_nest s" "heap (timer_detached u s) = heap s"
  "cur_prio (timer_detached u s) = cur_prio s"
  "tick (timer_detached u s) = tick s" "timers (timer_detached u s) = timers s"
  "timer_list (timer_detached u s) = removeAll u (timer_list s)"
  "ktimer.more (timer_detached u s) = ktimer.more s"
  "x \<noteq> TimerObj u \<Longrightarrow> objs (timer_detached u s) x = objs s x"
  "timer_flag v (timer_detached u s) = timer_flag v s"
  by (simp_all add: timer_detached_def rt_object_detach_def timer_flag_def)

lemma timer_detached_type:
  "x \<noteq> TimerObj u \<Longrightarrow> rt_object_get_type x (timer_detached u s) = rt_object_get_type x s"
  "x \<noteq> TimerObj u \<Longrightarrow> rt_object_is_systemobject x (timer_detached u s) = rt_object_is_systemobject x s"
  by (simp_all add: rt_object_get_type_def rt_object_is_systemobject_def)

lemma rt_timer_detach_eq:
  "rt_object_get_type (TimerObj u) s = RT_Object_Class_Timer \<Longrightarrow> rt_object_is_systemobject (TimerObj u) s \<Longrightarrow>
   rt_timer_detach u s = Some (timer_detached u s, RT_EOK)"
  by (simp add: rt_timer_detach_def timer_detached_def)

lemma timer_detached_upd_thr: "timer_detached u (upd_thr t f s) = upd_thr t f (timer_detached u s)"
  by (simp add: timer_detached_def rt_object_detach_def timer_remove_def upd_thr_def)

lemma closed_sel [simp]:
  "tl (closed t s) = tl s" "cur (closed t s) = cur s" "prio_max (closed t s) = prio_max s"
  "lock_nest (closed t s) = lock_nest s" "irq_nest (closed t s) = irq_nest s" "heap (closed t s) = heap s"
  "tick (closed t s) = tick s" "timers (closed t s) = timers s"
  "timer_list (closed t s) = removeAll (ThreadTimer t) (timer_list s)"
  "ktimer.more (closed t s) = ktimer.more s"
  "tstat (closed t s) u = (if u = t then RT_THREAD_CLOSE else tstat s u)"
  "cleanup (thr (closed t s) u) = cleanup (thr s u)" "prio_of (closed t s) u = prio_of s u"
  using ktimer_more_eq(5)[of "closed t s" "timer_detached (ThreadTimer t) s"]
  by (simp_all add: closed_def tstat_def prio_of_def)

lemma closed_type [simp]:
  "rt_object_is_systemobject (ThreadObj u) (closed t s) = rt_object_is_systemobject (ThreadObj u) s"
  "rt_object_get_type (ThreadObj u) (closed t s) = rt_object_get_type (ThreadObj u) s"
  by (simp_all add: closed_def rt_object_is_systemobject_def rt_object_get_type_def)

lemma kinv_closed:
  assumes inv: "kinv X b s" and un: "unlinked t (tl s)"
    and a: "tstat s t \<noteq> RT_THREAD_INIT \<or> attr_ok (prio_max s) (thr s t)"
  shows "kinv X b (closed t s)"
proof -
  let ?d = "timer_detached (ThreadTimer t) s"
  have "attr_ok (prio_max s) (thr s t)" using a sched_invD(10)[OF kinvD(1)[OF inv]] by blast
  then have at: "attr_ok (prio_max ?d) ((thr ?d t)\<lparr>stat := RT_THREAD_CLOSE\<rparr>)" by (simp add: attr_ok_def)
  have "sched_inv X ?d" using kinvD(1)[OF inv] sched_inv_cong[of ?d s] by simp
  then have sch: "sched_inv X (closed t s)"
    unfolding closed_def by (rule sched_inv_upd_unlinked) (use un at in simp_all)
  have "timer_inv b (closed t s)"
    using kinvD(2)[OF inv] timer_inv_removeAll[OF kinvD(2)[OF inv], of "ThreadTimer t"] due_cong[of "closed t s" s]
    by (auto simp: timer_inv_def distinct_removeAll)
  moreover have ob: "thread_obj_ok (closed t s) u = thread_obj_ok s u" if "u \<noteq> t" for u
    using that by (simp add: thread_obj_ok_def closed_def rt_object_get_type_def rt_object_is_systemobject_def)
  moreover have fl: "timer_flag v (closed t s) = timer_flag v s" for v
    by (simp add: closed_def timer_flag_def) (simp add: timer_detached_def rt_object_detach_def)
  moreover have "rt_object_get_type (TimerObj v) (closed t s) = rt_object_get_type (TimerObj v) s"
    if "v \<noteq> ThreadTimer t" for v
    using that by (simp add: closed_def rt_object_get_type_def)
  ultimately show ?thesis
    using kinvD(3)[OF inv] sch unfolding kinv_def thread_inv_def threads_ok_def timers_wf_def timer_ok_def live_def
      active_def periodic_def
    by auto
qed

lemma kinv_remove_thread:
  assumes "kinv X b s" "attr_ok (prio_max s) (thr s t)"
  shows "kinv (insert t X) b (rt_schedule_remove_thread t s)"
  by (rule kinv_schedI[OF assms(1) sched_inv_remove_thread[OF kinvD(1)[OF assms(1)] assms(2)]]) simp_all

lemma kinv_defunct:
  assumes inv: "kinv X b s" and t: "t \<in> X" "tstat s t = RT_THREAD_CLOSE"
  shows "kinv (X - {t}) b (s\<lparr>tl := ls_insert_after Defunct t (tl s)\<rparr>)"
proof (rule kinv_schedI[OF inv])
  have un: "unlinked t (tl s)" using sched_invD(9)[OF kinvD(1)[OF inv] t(1)] .
  show "sched_inv (X - {t}) (s\<lparr>tl := ls_insert_after Defunct t (tl s)\<rparr>)"
    by (rule sched_inv_link[OF kinvD(1)[OF inv] t(1), of Defunct])
      (use t(2) lists_ok_insert_after[OF sched_invD(1)[OF kinvD(1)[OF inv]] un]
        in \<open>auto simp: list_stat_def mem_insert_after ls_insert_after_def\<close>)
qed (simp_all add: tstat_def)

lemma kinv_detach_thread_obj:
  assumes "kinv X b s"
  shows "kinv X b (rt_object_detach (ThreadObj t) s)"
proof -
  let ?s = "rt_object_detach (ThreadObj t) s"
  have sel: "thr ?s = thr s" "tl ?s = tl s" "ready_group ?s = ready_group s" "ready_table ?s = ready_table s"
    "cur ?s = cur s" "prio_max ?s = prio_max s" "timers ?s = timers s" "timer_list ?s = timer_list s"
    "tick ?s = tick s" "\<And>u. tstat ?s u = tstat s u" "\<And>u. live ?s u = live s u"
    "\<And>u. timer_flag u ?s = timer_flag u s"
    "\<And>u. rt_object_get_type (TimerObj u) ?s = rt_object_get_type (TimerObj u) s"
    "\<And>u. rt_object_is_systemobject (TimerObj u) ?s = rt_object_is_systemobject (TimerObj u) s"
    "\<And>u. rt_object_get_type (ThreadObj u) s = 0 \<Longrightarrow> rt_object_get_type (ThreadObj u) ?s = 0"
    by (auto simp: rt_object_detach_def tstat_def live_def timer_flag_def rt_object_get_type_def
        rt_object_is_systemobject_def)
  have "threads_ok ?s"
    using kinvD(3)[OF assms] unfolding thread_inv_def threads_ok_def thread_obj_ok_def periodic_def
    by (simp add: sel)
  moreover have "timers_wf ?s"
    using kinvD(4)[OF assms] unfolding timers_wf_def timer_ok_def active_def periodic_def by (simp add: sel)
  ultimately show ?thesis
    using assms sched_inv_cong[OF sel(1-6)] timer_inv_cong[OF sel(7,8,9)] by (simp add: kinv_def thread_inv_def)
qed

text \<open>
  C9. \<^verbatim>\<open>rt_thread_exit\<close> closes the running thread and keeps the kernel invariant: its timer
  is off the list, a static thread without cleanup function is in no list any more, any other
  one is in the defunct list, and if any other thread is ready, with the scheduler unlocked,
  the closed thread does not run on.
\<close>

theorem rt_thread_exit_closes:
  assumes inv: "kinv {} b s" and t: "cur s = Some t" "tstat s t = RT_THREAD_READY"
  shows "\<exists>s'. rt_thread_exit s = Some s' \<and> kinv {} b s' \<and> tstat s' t = RT_THREAD_CLOSE \<and>
           ThreadTimer t \<notin> set (timer_list s') \<and>
           (if rt_object_is_systemobject (ThreadObj t) s \<and> \<not> cleanup (thr s t)
            then unlinked t (tl s') else tl s' Defunct = t # tl s Defunct) \<and>
           (lock_nest s = 0 \<and> (\<exists>u. u \<noteq> t \<and> tstat s u = RT_THREAD_READY) \<longrightarrow> cur s' \<noteq> Some t)"
proof -
  let ?s1 = "rt_schedule_remove_thread t s"
  let ?s3 = "closed t ?s1"
  let ?sys = "rt_object_is_systemobject (ThreadObj t) s \<and> \<not> cleanup (thr s t)"
  define s4 where "s4 = (if ?sys then rt_object_detach (ThreadObj t) ?s3
                         else ?s3\<lparr>tl := ls_insert_after Defunct t (tl ?s3)\<rparr>)"
  have lv: "live s t" using t by (simp add: live_def)
  have ok: "thread_obj_ok s t" using kinvD(5)[OF inv lv] .
  have un: "ls_remove t (tl s) = tl s" using running_unlinked[OF kinvD(1)[OF inv] t] by simp
  have k1: "kinv {t} b ?s1" using kinv_remove_thread[OF inv kinv_attr[OF inv lv]] .
  have k3: "kinv {t} b ?s3" by (rule kinv_closed[OF k1]) (use t in simp_all)
  have "kinv {} b ?s3"
    using k3 sched_inv_drop[of t "{}" ?s3] by (simp add: kinv_def)
  then have k4: "kinv {} b s4"
    using kinv_detach_thread_obj[of "{}" b ?s3 t] kinv_defunct[OF k3, of t] by (simp add: s4_def)
  have sel: "cur s4 = Some t" "lock_nest s4 = lock_nest s" "tstat s4 u = (if u = t then RT_THREAD_CLOSE else tstat s u)"
    "timer_list s4 = removeAll (ThreadTimer t) (timer_list s)" "tl s4 h = (if ?sys then tl s h else (if h = Defunct then t # tl s h else tl s h))"
    for u h using t closed_sel(11)[of t ?s1 u] un
    by (auto simp: s4_def rt_object_detach_def tstat_def ls_insert_after_def)
  have "rt_object_get_type (TimerObj (ThreadTimer t)) (upd_thr t f ?s1) = RT_Object_Class_Timer"
    "rt_object_is_systemobject (TimerObj (ThreadTimer t)) (upd_thr t f ?s1)" for f
    using ok by (simp_all add: thread_obj_ok_def rt_object_get_type_def rt_object_is_systemobject_def)
  then have td: "rt_timer_detach (ThreadTimer t) (upd_thr t (\<lambda>th. th\<lparr>stat := RT_THREAD_CLOSE\<rparr>) ?s1) = Some (?s3, RT_EOK)"
    by (simp add: rt_timer_detach_eq timer_detached_upd_thr closed_def)
  have "rt_object_is_systemobject (ThreadObj t) ?s3 = rt_object_is_systemobject (ThreadObj t) s"
    by simp (simp add: rt_object_is_systemobject_def)
  then have ex: "rt_thread_exit s = rt_schedule s4"
    using t by (simp add: rt_thread_exit_def rt_thread_self_def td s4_def Let_def)
  obtain s' where s': "rt_schedule s4 = Some s'" "kinv {} b s'" "thr s' = thr s4" "kbase.more s' = kbase.more s4"
    "\<And>h. (\<nexists>p. h = Ready p) \<Longrightarrow> tl s' h = tl s4 h"
    by (rule rt_schedule_kinv[OF k4 sel(1)], rule that)
  have ts: "tstat s' u = tstat s4 u" for u using s'(3) by (simp add: tstat_def)
  have "cur s' \<noteq> Some t" if "lock_nest s = 0" "u \<noteq> t" "tstat s u = RT_THREAD_READY" for u
    using rt_schedule_picks[OF kinvD(1)[OF k4] sel(1) _ _ s'(1), of u] that sel by auto
  moreover have "unlinked t (tl s')" if ?sys
    unfolding unlinked_def
  proof
    fix h
    show "t \<notin> set (tl s' h)"
      using sched_invD(5)[OF kinvD(1)[OF s'(2)], of t h] s'(5)[of h] ts[of t] sel that
        running_unlinked[OF kinvD(1)[OF inv] t]
      by (cases h) (auto simp: list_stat_def unlinked_def)
  qed
  moreover have "\<not> ?sys \<Longrightarrow> tl s' Defunct = t # tl s Defunct" using s'(5)[of Defunct] sel(5)[of Defunct] by auto
  ultimately show ?thesis
    using ex s' ts sel ktimer_more_eq(3)[OF s'(4)] by (auto simp: if_splits)
qed

theorem rt_thread_exit_closes_witness:
  "\<exists>s'. rt_thread_exit (demo_kernel ()) = Some s' \<and> kinv {} 100 s' \<and> tstat s' 1 = RT_THREAD_CLOSE \<and> cur s' \<noteq> Some 1"
proof -
  have "2 \<noteq> (1::nat) \<and> tstat (demo_kernel ()) 2 = RT_THREAD_READY" by (simp add: demo_kernel_stat)
  then show ?thesis
    using rt_thread_exit_closes[OF demo_kernel_inv demo_kernel_stat(5), of "()"] demo_kernel_stat(6)[of "()"]
    by (auto simp: demo_kernel_stat(1))
qed

text \<open>
  C10. \<^verbatim>\<open>rt_thread_delete\<close> of a started dynamic thread and \<^verbatim>\<open>rt_thread_detach\<close> of a started
  static one close it in every state, ready, waiting in any list or suspended, and keep the
  kernel invariant. A deleted thread is in the defunct list and nowhere else.
\<close>

theorem rt_thread_delete_detach:
  assumes inv: "kinv {} b s" and t: "live s t"
  shows "if rt_object_is_systemobject (ThreadObj t) s
         then rt_thread_delete t s = None \<and>
           (\<exists>s'. rt_thread_detach t s = Some (s', RT_EOK) \<and> kinv {} b s' \<and> tstat s' t = RT_THREAD_CLOSE \<and>
              (\<forall>h. t \<in> set (tl s' h) \<longleftrightarrow> h = Defunct \<and> cleanup (thr s t)) \<and> ThreadTimer t \<notin> set (timer_list s'))
         else rt_thread_detach t s = None \<and>
           (\<exists>s'. rt_thread_delete t s = Some (s', RT_EOK) \<and> kinv {} b s' \<and> tstat s' t = RT_THREAD_CLOSE \<and>
              (\<forall>h. t \<in> set (tl s' h) \<longleftrightarrow> h = Defunct) \<and> ThreadTimer t \<notin> set (timer_list s'))"
proof -
  let ?s1 = "rt_schedule_remove_thread t s"
  let ?s3 = "closed t ?s1"
  let ?def = "\<lambda>s. s\<lparr>tl := ls_insert_after Defunct t (tl s)\<rparr>"
  have ok: "thread_obj_ok s t" using kinvD(5)[OF inv t] .
  have ni: "tstat s t \<noteq> RT_THREAD_INIT" using t by (auto simp: live_def)
  have k1: "kinv {t} b ?s1" using kinv_remove_thread[OF inv kinv_attr[OF inv t]] .
  have k3: "kinv {t} b ?s3" by (rule kinv_closed[OF k1]) (use ni in simp_all)
  have "kinv {} b ?s3" using k3 sched_inv_drop[of t "{}" ?s3] by (simp add: kinv_def)
  then have k4: "kinv {} b (rt_object_detach (ThreadObj t) ?s3)" by (rule kinv_detach_thread_obj)
  have k5: "kinv {} b (?def ?s3)" using kinv_defunct[OF k3, of t] by simp
  have k6: "kinv {} b (?def (rt_object_detach (ThreadObj t) ?s3))"
    using kinv_defunct[OF kinv_detach_thread_obj[OF k3], of t t] by (simp add: rt_object_detach_def tstat_def closed_def)
  have td: "rt_timer_detach (ThreadTimer t) ?s1 = Some (timer_detached (ThreadTimer t) ?s1, RT_EOK)"
    using ok by (intro rt_timer_detach_eq)
      (simp_all add: thread_obj_ok_def rt_object_get_type_def rt_object_is_systemobject_def)
  have del: "rt_thread_delete t s = Some (?def ?s3, RT_EOK)" if "\<not> rt_object_is_systemobject (ThreadObj t) s"
    using that ok ni td by (simp add: rt_thread_delete_def thread_obj_ok_def closed_def)
  have det: "rt_thread_detach t s = Some (if cleanup (thr s t) then ?def (rt_object_detach (ThreadObj t) ?s3)
      else rt_object_detach (ThreadObj t) ?s3, RT_EOK)" if "rt_object_is_systemobject (ThreadObj t) s"
    using that ok ni td
    by (simp add: rt_thread_detach_def thread_obj_ok_def closed_def) (simp add: rt_object_detach_def)
  have sel: "tstat (?def ?s3) t = RT_THREAD_CLOSE" "tstat (rt_object_detach (ThreadObj t) ?s3) t = RT_THREAD_CLOSE"
    "tstat (?def (rt_object_detach (ThreadObj t) ?s3)) t = RT_THREAD_CLOSE"
    "tl (rt_object_detach (ThreadObj t) ?s3) = ls_remove t (tl s)"
    "timer_list (rt_object_detach (ThreadObj t) ?s3) = removeAll (ThreadTimer t) (timer_list s)"
    using closed_sel(11)[of t ?s1 t] by (simp_all add: rt_object_detach_def tstat_def)
  show ?thesis
  proof (cases "rt_object_is_systemobject (ThreadObj t) s")
    case True
    then have "rt_thread_delete t s = None" by (simp add: rt_thread_delete_def rt_assert_def)
    then show ?thesis using True det k4 k6 sel by (simp add: mem_insert_after)
  next
    case False
    then have "rt_thread_detach t s = None" by (simp add: rt_thread_detach_def rt_assert_def)
    then show ?thesis using False del k5 sel by (simp add: mem_insert_after)
  qed
qed

theorem rt_thread_delete_detach_witness:
  "\<exists>s'. rt_thread_detach 3 (demo_kernel ()) = Some (s', RT_EOK) \<and> kinv {} 100 s' \<and> tstat s' 3 = RT_THREAD_CLOSE"
proof -
  have "live (demo_kernel ()) 3" by (simp add: live_def demo_kernel_stat)
  then show ?thesis
    using rt_thread_delete_detach[OF demo_kernel_inv, of "()" 3] by (auto simp: demo_kernel_stat(4))
qed

end
