(* ===== verification/Clock.thy ===== *)
theory Clock
  imports Thread
begin

unbundle bit_operations_syntax

text \<open>
  \<^verbatim>\<open>src/clock.c\<close> and \<^verbatim>\<open>src/irq.c\<close>: the tick interrupt, the conversion of milliseconds, and
  the interrupt nesting counter. \<^verbatim>\<open>RT_TICK_PER_SECOND\<close> is an argument of the conversion.
\<close>

section \<open>Definitions\<close>

definition rt_tick_set :: "u32 \<Rightarrow> 'a ktimer_scheme \<Rightarrow> 'a ktimer_scheme" where
  "rt_tick_set n s = s\<lparr>tick := n\<rparr>"

definition rt_tick_increase ::
  "(timer_fn \<Rightarrow> 'a ktimer_scheme \<Rightarrow> 'a ktimer_scheme option) \<Rightarrow> 'a ktimer_scheme \<Rightarrow> 'a ktimer_scheme option" where
  "rt_tick_increase cb s = do {
     let s1 = s\<lparr>tick := tick s + 1\<rparr>;
     t \<leftarrow> rt_thread_self s1;
     let s2 = upd_thr t (\<lambda>th. th\<lparr>remaining_tick := remaining_tick th - 1\<rparr>) s1;
     s4 \<leftarrow> (if remaining_tick (thr s2 t) = 0 then do {
              let s3 = upd_thr t (\<lambda>th. th\<lparr>remaining_tick := thread_init_tick th\<rparr>) s2;
              (s4, _) \<leftarrow> rt_thread_yield s3;
              Some s4
            }
            else Some s2);
     rt_timer_check cb s4
   }"

text \<open>
  \<^verbatim>\<open>int\<close> arithmetic wraps at 32 bits (the overflow is undefined in C; this is what the
  machines do) and the division rounds towards 0.
\<close>

definition int32 :: "int \<Rightarrow> int" where
  "int32 x = sint (word_of_int x :: u32)"

definition rt_tick_from_millisecond :: "int \<Rightarrow> int \<Rightarrow> int" where
  "rt_tick_from_millisecond RT_TICK_PER_SECOND ms =
     (if ms < 0 then -1
      else let x = int32 (RT_TICK_PER_SECOND * ms + 999) in sgn x * (\<bar>x\<bar> div 1000))"

definition rt_thread_mdelay ::
  "int \<Rightarrow> int \<Rightarrow> 'a ktimer_scheme \<Rightarrow> ('a ktimer_scheme \<times> rt_err call) option" where
  "rt_thread_mdelay tps ms s = rt_thread_sleep (word_of_int (rt_tick_from_millisecond tps ms)) s"

definition rt_interrupt_enter :: "'a kbase_scheme \<Rightarrow> 'a kbase_scheme" where
  "rt_interrupt_enter s = s\<lparr>irq_nest := irq_nest s + 1\<rparr>"

definition rt_interrupt_leave :: "'a kbase_scheme \<Rightarrow> 'a kbase_scheme" where
  "rt_interrupt_leave s = s\<lparr>irq_nest := irq_nest s - 1\<rparr>"

definition rt_interrupt_get_nest :: "'a kbase_scheme \<Rightarrow> u8" where
  "rt_interrupt_get_nest s = irq_nest s"

section \<open>The tick\<close>

lemma kinv_tick:
  assumes "kinv {} (tick s) s"
  shows "timer_inv (tick s) (s\<lparr>tick := tick s + 1\<rparr>)" "thread_inv (s\<lparr>tick := tick s + 1\<rparr>)"
    "sched_inv {} (s\<lparr>tick := tick s + 1\<rparr>)"
proof -
  let ?s = "s\<lparr>tick := tick s + 1\<rparr>"
  have "due (tick s) ?s = due (tick s) s" by (rule due_cong) simp
  then show "timer_inv (tick s) ?s"
    using kinvD(2)[OF assms] by (auto simp: timer_inv_def)
  have "threads_ok ?s" by (rule threads_ok_cong[OF _ _ _ _ ]) (use kinvD(3)[OF assms] in \<open>auto simp: thread_inv_def tstat_def\<close>)
  moreover have "timers_wf ?s" using kinvD(4)[OF assms] timers_wf_cong[of ?s s] by simp
  ultimately show "thread_inv ?s" by (simp add: thread_inv_def)
  show "sched_inv {} ?s" using kinvD(1)[OF assms] sched_inv_cong[of ?s s] by simp
qed

text \<open>The part of the tick before the timer check, in a state where the tick has advanced.\<close>

lemma tick_slice:
  assumes inv: "kinv {} b s" and c: "cur s = Some c"
  obtains s4 where
    "(let s2 = upd_thr c (\<lambda>th. th\<lparr>remaining_tick := remaining_tick th - 1\<rparr>) s in
      if remaining_tick (thr s2 c) = 0 then do {
        let s3 = upd_thr c (\<lambda>th. th\<lparr>remaining_tick := thread_init_tick th\<rparr>) s2;
        (s4, _) \<leftarrow> rt_thread_yield s3;
        Some s4 } else Some s2) = Some s4"
    "kinv {} b s4" "kbase.more s4 = kbase.more s" "cur s4 \<noteq> None" "objs s4 = objs s"
    "\<And>t. tstat s4 t = tstat s t \<and> prio_of s4 t = prio_of s t \<and> error (thr s4 t) = error (thr s t)"
proof -
  let ?s2 = "upd_thr c (\<lambda>th. th\<lparr>remaining_tick := remaining_tick th - 1\<rparr>) s"
  let ?s3 = "upd_thr c (\<lambda>th. th\<lparr>remaining_tick := thread_init_tick th\<rparr>) ?s2"
  have k2: "kinv {} b ?s2" by (rule kinv_upd_same[OF inv]) (simp_all add: attr_ok_def)
  have k3: "kinv {} b ?s3" by (rule kinv_upd_same[OF k2]) (simp_all add: attr_ok_def)
  have c3: "cur ?s3 = Some c" using c by simp
  obtain s4 where s4: "rt_schedule ?s3 = Some s4" "kinv {} b s4" "thr s4 = thr ?s3" "cur s4 \<noteq> None"
    "kbase.more s4 = kbase.more ?s3" "objs s4 = objs ?s3"
    by (rule rt_schedule_kinv[OF k3 c3], rule that)
  show thesis
  proof (cases "remaining_tick (thr ?s2 c) = 0")
    case True
    show thesis
      by (rule that[of s4]) (use True s4 in \<open>simp_all add: rt_thread_yield_def tstat_def prio_of_def\<close>)
  next
    case False
    show thesis
      by (rule that[of ?s2]) (use False k2 c in \<open>simp_all add: tstat_def prio_of_def\<close>)
  qed
qed

text \<open>
  The threads as the timer calls see them: state and error code. A call of
  \<^verbatim>\<open>rt_thread_timeout\<close> changes those of its thread only.
\<close>

definition wakes :: "timer_fn \<Rightarrow> (tid \<Rightarrow> u8 \<times> rt_err) \<Rightarrow> tid \<Rightarrow> u8 \<times> rt_err" where
  "wakes f v = (case f of ThreadTimeout t \<Rightarrow> v(t := (RT_THREAD_READY, - RT_ETIMEOUT)) | UserFn _ \<Rightarrow> v)"

lemma fold_wakes:
  "fold wakes fs v t = (if ThreadTimeout t \<in> set fs then (RT_THREAD_READY, - RT_ETIMEOUT) else v t)"
  by (induction fs arbitrary: v) (auto simp: wakes_def split: timer_fn.splits)

interpretation kv: timer_view "kernel_call g" tick_inv "\<lambda>s t. (tstat s t, error (thr s t))" wakes for g
proof (unfold_locales, goal_cases)
  case (1 f s s')
  show ?case
  proof (cases f)
    case (ThreadTimeout t)
    then have st: "tstat s t = RT_THREAD_SUSPEND" "rt_schedule (timeout_state t s) = Some s'"
      using 1 by (auto simp: kernel_call_def rt_thread_timeout_def timeout_state_def)
    then show ?thesis
      using rt_schedule_thr[OF st(2)] timeout_state_sel(7)[of t s] ThreadTimeout
      by (auto simp: wakes_def fun_eq_iff tstat_def)
  next
    case (UserFn n)
    then show ?thesis using 1 by (auto simp: kernel_call_def wakes_def tstat_def)
  qed
qed (simp_all add: tstat_def)

lemma expired_timeouts:
  assumes inv: "timer_inv b s" and "threads_ok s"
  shows "ThreadTimeout t \<in> set (map (\<lambda>u. timeout_func (timers s u)) (takeWhile (expired s) (timer_list s))) \<longleftrightarrow>
     ThreadTimer t \<in> set (timer_list s) \<and> expired s (ThreadTimer t)"
proof -
  have "timeout_func (timers s u) = ThreadTimeout t \<longleftrightarrow> u = ThreadTimer t" if "u \<in> set (timer_list s)" for u
    using assms(2) that unfolding threads_ok_def thread_obj_ok_def live_def by metis
  moreover have "ThreadTimeout t \<in> set (map (\<lambda>u. timeout_func (timers s u)) (takeWhile (expired s) (timer_list s))) \<longleftrightarrow>
      (\<exists>u \<in> set (timer_list s). expired s u \<and> timeout_func (timers s u) = ThreadTimeout t)"
    unfolding set_map takeWhile_expired_set[OF inv] by force
  ultimately show ?thesis by blast
qed

lemma rt_tick_increase_ok:
  assumes inv: "kinv {} (tick s) s" and c: "cur s \<noteq> None"
  defines "s1 \<equiv> s\<lparr>tick := tick s + 1\<rparr>"
  obtains s' where "rt_tick_increase (kernel_call g) s = Some s'" "tick s' = tick s + 1" "kinv {} (tick s') s'"
    "cur s' \<noteq> None" "checked s1 s'" "\<forall>t \<in> set (timer_list s'). \<not> expired s' t"
    "\<And>t. (tstat s' t, error (thr s' t)) =
       (if ThreadTimer t \<in> set (timer_list s) \<and> expired s1 (ThreadTimer t) then (RT_THREAD_READY, - RT_ETIMEOUT)
        else (tstat s t, error (thr s t)))"
proof -
  obtain t where t: "cur s1 = Some t" using c by (auto simp: s1_def)
  have k1: "kinv {} (tick s) s1" using kinv_tick[OF inv] by (simp add: kinv_def s1_def)
  obtain s4 where s4: "(let s2 = upd_thr t (\<lambda>th. th\<lparr>remaining_tick := remaining_tick th - 1\<rparr>) s1 in
      if remaining_tick (thr s2 t) = 0 then do {
        let s3 = upd_thr t (\<lambda>th. th\<lparr>remaining_tick := thread_init_tick th\<rparr>) s2;
        (s4, _) \<leftarrow> rt_thread_yield s3;
        Some s4 } else Some s2) = Some s4"
    "kinv {} (tick s) s4" "kbase.more s4 = kbase.more s1" "cur s4 \<noteq> None" "objs s4 = objs s1"
    "\<And>t. tstat s4 t = tstat s1 t \<and> prio_of s4 t = prio_of s1 t \<and> error (thr s4 t) = error (thr s1 t)"
    by (rule tick_slice[OF k1 t], rule that)
  note eq = ktimer_more_eq[OF s4(3)]
  have ti: "tick_inv s4" using s4(2,4) by (simp add: tick_inv_def kinv_def thread_inv_def)
  then obtain s' where s': "timer_check_loop (kernel_call g) (tick s4) s4 = Some s'" "tick_inv s'"
    "timer_inv (tick s) s'" "timers_wf s'" "checked s4 s'" "\<forall>t \<in> set (timer_list s'). \<not> expired s' t"
    using kc.loop_checked[OF _ kinvD(2)[OF s4(2)] kinvD(4)[OF s4(2)], of g] by blast
  have ex: "expired s4 = expired s1" "periodic s4 = periodic s1" "active s4 = active s1"
    using eq(1,2) s4(5) by (auto simp: expired_def fun_eq_iff periodic_def active_def timer_flag_def)
  have "threads_ok s4" using ti by (simp add: tick_inv_def)
  note to = expired_timeouts[OF kinvD(2)[OF s4(2)] this]
  have v: "(tstat s' t, error (thr s' t)) = (if ThreadTimer t \<in> set (timer_list s) \<and> expired s1 (ThreadTimer t)
      then (RT_THREAD_READY, - RT_ETIMEOUT) else (tstat s t, error (thr s t)))" for t
  proof -
    have "(\<lambda>t. (tstat s' t, error (thr s' t))) = fold wakes
        (map (\<lambda>u. timeout_func (timers s4 u)) (takeWhile (expired s4) (timer_list s4))) (\<lambda>t. (tstat s4 t, error (thr s4 t)))"
      using kv.loop_calls[OF ti kinvD(2)[OF s4(2)] kinvD(4)[OF s4(2)], of g] s'(1) by simp
    from fun_cong[OF this, of t] show ?thesis
      using s4(6)[of t] eq(3) unfolding fold_wakes to unfolding ex by (simp add: s1_def tstat_def)
  qed
  have ch: "checked s1 s'" using s'(5) eq unfolding checked_def ex by simp
  have tk: "tick s' = tick s + 1" using s'(5) eq(1) by (simp add: checked_def s1_def)
  have kk: "kinv {} (tick s') s'"
    using timer_inv_rebase[OF s'(3,6)] s'(2,4) by (simp add: kinv_def thread_inv_def tick_inv_def)
  have run: "rt_tick_increase (kernel_call g) s = Some s'"
    using s4(1) s'(1) t unfolding rt_tick_increase_def rt_thread_self_def rt_timer_check_def rt_tick_get_def
    by (simp add: Let_def s1_def)
  show thesis by (rule that[OF run tk kk _ ch s'(6) v]) (use s'(2) in \<open>simp add: tick_inv_def\<close>)
qed

text \<open>
  C11. The tick interrupt: in a consistent kernel with a running thread and no overdue timer,
  \<^verbatim>\<open>rt_tick_increase\<close> returns, advances the tick by one, keeps the kernel invariant and leaves
  no timer overdue. Every expired one-shot timer has left the list and every periodic one is
  armed again. User timeout functions are assumed to act outside the kernel.
\<close>

theorem rt_tick_increase_keeps_invariant:
  assumes inv: "kinv {} (tick s) s" and c: "cur s \<noteq> None"
  shows "\<exists>s'. rt_tick_increase (kernel_call g) s = Some s' \<and> tick s' = tick s + 1 \<and> kinv {} (tick s') s' \<and>
           cur s' \<noteq> None \<and> checked (s\<lparr>tick := tick s + 1\<rparr>) s' \<and> (\<forall>t \<in> set (timer_list s'). \<not> expired s' t)"
  by (rule rt_tick_increase_ok[OF assms]) blast

theorem rt_tick_increase_keeps_invariant_witness:
  "\<exists>s'. rt_tick_increase (kernel_call (\<lambda>n x. x)) (demo_kernel ()) = Some s' \<and> tick s' = 101 \<and> kinv {} 101 s'"
proof -
  have "kinv {} (tick (demo_kernel ())) (demo_kernel ())" using demo_kernel_inv[of "()"] by (simp add: demo_kernel_stat)
  from rt_tick_increase_keeps_invariant[OF this, of "\<lambda>n x. x"] show ?thesis
    by (auto simp: demo_kernel_stat)
qed

section \<open>Waking up\<close>

fun ticks ::
  "(timer_fn \<Rightarrow> 'a ktimer_scheme \<Rightarrow> 'a ktimer_scheme option) \<Rightarrow> nat \<Rightarrow> 'a ktimer_scheme \<Rightarrow> 'a ktimer_scheme option" where
  "ticks cb 0 s = Some s"
| "ticks cb (Suc n) s = do { s' \<leftarrow> rt_tick_increase cb s; ticks cb n s' }"

text \<open>One tick, seen from a thread that waits with its timer running.\<close>

lemma tick_waiting:
  assumes inv: "kinv {} (tick s) s" and c: "cur s \<noteq> None" and t: "ThreadTimer t \<in> set (timer_list s)"
    and n: "due (tick s) s (ThreadTimer t) = n" "0 < n"
  obtains s' where "rt_tick_increase (kernel_call g) s = Some s'" "kinv {} (tick s') s'" "cur s' \<noteq> None"
    "1 < n \<Longrightarrow> tstat s' t = RT_THREAD_SUSPEND \<and> ThreadTimer t \<in> set (timer_list s') \<and>
       due (tick s') s' (ThreadTimer t) = n - 1"
    "n = 1 \<Longrightarrow> tstat s' t = RT_THREAD_READY \<and> error (thr s' t) = - RT_ETIMEOUT \<and> ThreadTimer t \<notin> set (timer_list s')"
proof -
  let ?u = "ThreadTimer t" and ?s1 = "s\<lparr>tick := tick s + 1\<rparr>"
  obtain s' where s': "rt_tick_increase (kernel_call g) s = Some s'" "tick s' = tick s + 1" "kinv {} (tick s') s'"
    "cur s' \<noteq> None" "checked ?s1 s'"
    "\<And>t. (tstat s' t, error (thr s' t)) =
       (if ThreadTimer t \<in> set (timer_list s) \<and> expired ?s1 (ThreadTimer t) then (RT_THREAD_READY, - RT_ETIMEOUT)
        else (tstat s t, error (thr s t)))"
    by (rule rt_tick_increase_ok[OF inv c], rule that)
  have inv1: "timer_inv (tick s) ?s1" using kinv_tick[OF inv] by simp
  have d1: "due (tick s) ?s1 ?u = n" using n(1) by (simp add: due_def)
  have ex: "expired ?s1 ?u \<longleftrightarrow> n \<le> 1"
    using expired_due[OF inv1, of ?u] t d1 by simp
  have np: "\<not> periodic ?s1 ?u"
    using kinvD(3)[OF inv] by (simp add: thread_inv_def threads_ok_def periodic_def timer_flag_def)
  have late: "tstat s' t = RT_THREAD_SUSPEND \<and> ?u \<in> set (timer_list s') \<and> due (tick s') s' ?u = n - 1" if "1 < n"
  proof -
    have "timers s' ?u = timers s ?u" "?u \<in> set (timer_list s')"
      using s'(5) t ex that by (auto simp: checked_def)
    moreover have "unat (timeout_tick (timers s ?u) - (tick s + 1)) = n - 1"
    proof -
      define x where "x = timeout_tick (timers s ?u) - tick s"
      have "unat x = n" "x \<noteq> 0" using n by (auto simp: x_def due_def)
      then have "unat (x - 1) = n - 1" using unat_minus_one[of x] by simp
      moreover have "timeout_tick (timers s ?u) - (tick s + 1) = x - 1" by (simp add: x_def)
      ultimately show ?thesis by (simp only:)
    qed
    ultimately show ?thesis
      using s'(6)[of t] ex that kinvD(6)[OF inv t] s'(2) by (auto simp: due_def)
  qed
  have fire: "tstat s' t = RT_THREAD_READY \<and> error (thr s' t) = - RT_ETIMEOUT \<and> ?u \<notin> set (timer_list s')" if "n = 1"
    using s'(5) s'(6)[of t] t ex np that by (auto simp: checked_def)
  show thesis by (rule that[OF s'(1,3,4) late fire])
qed

text \<open>
  C12. A sleeping or waiting thread whose timer is due in \<open>n\<close> ticks is woken by the \<open>n\<close>-th tick
  and by no earlier one, if nothing else happens to it: after \<open>k < n\<close> ticks it is still
  suspended, after \<open>n\<close> ticks it is ready with the error code \<^verbatim>\<open>-RT_ETIMEOUT\<close> and its timer is
  off the list. The kernel invariant holds throughout and every tick returns.
\<close>

theorem timeout_wakes_on_time:
  assumes "kinv {} (tick s) s" "cur s \<noteq> None" "ThreadTimer t \<in> set (timer_list s)"
    and "due (tick s) s (ThreadTimer t) = n" "0 < n" "k \<le> n"
  shows "\<exists>s'. ticks (kernel_call g) k s = Some s' \<and> kinv {} (tick s') s' \<and>
           (k < n \<longrightarrow> tstat s' t = RT_THREAD_SUSPEND) \<and>
           (k = n \<longrightarrow> tstat s' t = RT_THREAD_READY \<and> error (thr s' t) = - RT_ETIMEOUT \<and>
              ThreadTimer t \<notin> set (timer_list s'))"
  using assms
proof (induction k arbitrary: s n)
  case 0
  then show ?case using kinvD(6)[OF 0(1,3)] by simp
next
  case (Suc k)
  obtain s1 where s1: "rt_tick_increase (kernel_call g) s = Some s1" "kinv {} (tick s1) s1" "cur s1 \<noteq> None"
    "1 < n \<Longrightarrow> tstat s1 t = RT_THREAD_SUSPEND \<and> ThreadTimer t \<in> set (timer_list s1) \<and>
       due (tick s1) s1 (ThreadTimer t) = n - 1"
    "n = 1 \<Longrightarrow> tstat s1 t = RT_THREAD_READY \<and> error (thr s1 t) = - RT_ETIMEOUT \<and> ThreadTimer t \<notin> set (timer_list s1)"
    by (rule tick_waiting[OF Suc.prems(1-5)], rule that)
  show ?case
  proof (cases "n = 1")
    case True
    then show ?thesis using s1 Suc.prems(6) by auto
  next
    case False
    then obtain m where m: "n = Suc m" "0 < m" using Suc.prems(5) by (cases n) auto
    then show ?thesis using Suc.IH[of s1 m] s1(1-3) s1(4) Suc.prems(6) by auto
  qed
qed

theorem timeout_wakes_on_time_witness:
  "\<exists>s'. ticks (kernel_call (\<lambda>n x. x)) 5 (demo_kernel ()) = Some s' \<and> tstat s' 3 = RT_THREAD_READY \<and>
     error (thr s' 3) = - RT_ETIMEOUT"
proof -
  have "kinv {} (tick (demo_kernel ())) (demo_kernel ())" "cur (demo_kernel ()) \<noteq> None"
    "ThreadTimer 3 \<in> set (timer_list (demo_kernel ()))"
    using demo_kernel_inv[of "()"] by (simp_all add: demo_kernel_stat)
  moreover have "due (tick (demo_kernel ())) (demo_kernel ()) (ThreadTimer 3) = 5"
    by (simp add: due_def demo_kernel_def)
  ultimately show ?thesis
    using timeout_wakes_on_time[of "demo_kernel ()" 3 5 5 "\<lambda>n x. x"] by auto
qed

section \<open>Milliseconds\<close>

lemma int32_self: "- (2 ^ 31) \<le> x \<Longrightarrow> x < 2 ^ 31 \<Longrightarrow> int32 x = x"
  using int_word_sint[of x, where ?'a = 32] by (simp add: int32_def)

text \<open>
  As long as the product fits in 31 bits, \<^verbatim>\<open>rt_tick_from_millisecond\<close> rounds the time up
  to whole ticks: the result is the least number of ticks that last at least \<open>ms\<close>
  milliseconds. Negative times mean waiting forever.
\<close>

theorem rt_tick_from_millisecond_rounds_up:
  assumes "0 < tps" "tps * ms + 999 < 2 ^ 31"
  shows "(ms < 0 \<longrightarrow> rt_tick_from_millisecond tps ms = -1) \<and>
         (0 \<le> ms \<longrightarrow> (let n = rt_tick_from_millisecond tps ms in
            0 \<le> n \<and> tps * ms \<le> n * 1000 \<and> (n = 0 \<or> (n - 1) * 1000 < tps * ms)))"
proof (cases "ms < 0")
  case True
  then show ?thesis by (simp add: rt_tick_from_millisecond_def)
next
  case False
  then have p: "0 \<le> tps * ms" using assms(1) by simp
  then have "rt_tick_from_millisecond tps ms = (tps * ms + 999) div 1000"
    using False assms(2) int32_self[of "tps * ms + 999"]
    by (simp add: rt_tick_from_millisecond_def Let_def sgn_if)
  moreover define q r where "q = (tps * ms + 999) div 1000" and "r = (tps * ms + 999) mod 1000"
  have "q * 1000 + r = tps * ms + 999" "0 \<le> r" "r < 1000" by (simp_all add: q_def r_def)
  then have "0 \<le> q \<and> tps * ms \<le> q * 1000 \<and> (q = 0 \<or> (q - 1) * 1000 < tps * ms)"
    using p by (intro conjI disjI2) (simp_all add: left_diff_distrib, linarith?)
  ultimately show ?thesis using False by (simp add: Let_def q_def)
qed

theorem rt_tick_from_millisecond_rounds_up_witness:
  "rt_tick_from_millisecond 100 15 = 2 \<and> (0::int) < 100 \<and> 100 * 15 \<le> rt_tick_from_millisecond 100 15 * 1000"
  using rt_tick_from_millisecond_rounds_up[of 100 15]
  by (simp add: rt_tick_from_millisecond_def int32_self Let_def)

text \<open>
  Beyond that the multiplication overflows, although the comment allows times up to
  \<open>0x7fffffff\<close>: at 1000 ticks per second, 2147484 seconds become a negative number of ticks,
  and a delay of that length fails the assertion of \<^verbatim>\<open>rt_timer_start\<close>.
\<close>

theorem rt_tick_from_millisecond_overflows:
  "rt_tick_from_millisecond 1000 2147484 < 0"
  by (simp add: rt_tick_from_millisecond_def int32_def Let_def)

end
