(* ===== verification/Idle.thy ===== *)
theory Idle
  imports Clock
begin

unbundle bit_operations_syntax

text \<open>
  \<^verbatim>\<open>src/idle.c\<close>: the reaping of defunct threads. A thread's cleanup function is an argument.
  The loop is a \<open>partial_function\<close>; \<open>None\<close> is a failed assertion or a loop that does not end.
  Between unlocking the scheduler and freeing the memory another thread may run; the model
  goes on with the freeing at once.
\<close>

section \<open>Definitions\<close>

definition has_defunct_thread :: "'a kbase_scheme \<Rightarrow> bool" where
  "has_defunct_thread s \<longleftrightarrow> tl s Defunct \<noteq> []"

partial_function (option) rt_thread_idle_excute ::
  "(tid \<Rightarrow> 'a kbase_scheme \<Rightarrow> 'a kbase_scheme option) \<Rightarrow> 'a kbase_scheme \<Rightarrow> 'a kbase_scheme option" where
  "rt_thread_idle_excute clean s =
     (if has_defunct_thread s then do {
        rt_debug_not_in_interrupt s;
        let t = hd (tl s Defunct);
        let s1 = s\<lparr>tl := ls_remove t (tl s)\<rparr>;
        let s2 = rt_enter_critical s1;
        s3 \<leftarrow> (if cleanup (thr s2 t) then clean t s2 else Some s2);
        if rt_object_is_systemobject (ThreadObj t) s3 then rt_exit_critical s3
        else do {
          s4 \<leftarrow> rt_exit_critical s3;
          s5 \<leftarrow> kernel_free (BufBlk (ThreadObj t)) s4;
          s6 \<leftarrow> rt_object_delete (ThreadObj t) s5;
          rt_thread_idle_excute clean s6
        }
      }
      else Some s)"

section \<open>Reaping\<close>

text \<open>A defunct thread whose memory came from the heap.\<close>

definition reapable :: "'a kbase_scheme \<Rightarrow> tid \<Rightarrow> bool" where
  "reapable s t \<longleftrightarrow> \<not> rt_object_is_systemobject (ThreadObj t) s \<and> \<not> cleanup (thr s t) \<and>
     BufBlk (ThreadObj t) \<in> heap s \<and> ObjBlk (ThreadObj t) \<in> heap s"

definition reaped :: "tid \<Rightarrow> 'a kbase_scheme \<Rightarrow> 'a kbase_scheme" where
  "reaped t s = s\<lparr>tl := ls_remove t (tl s),
     objs := (objs s)(ThreadObj t := (objs s (ThreadObj t))\<lparr>otype := 0\<rparr>),
     olists := ls_remove (ThreadObj t) (olists s),
     heap := heap s - {BufBlk (ThreadObj t), ObjBlk (ThreadObj t)}\<rparr>"

text \<open>
  While the idle thread runs and nothing else is ready, leaving the critical section does not
  switch.
\<close>

lemma schedule_idle:
  assumes "sched_inv {} s" "cur s = Some i" "\<And>p. tl s (Ready p) = []"
  shows "rt_schedule s = Some s"
  using ready_group_zero_iff[OF assms(1)] assms(3) by (simp add: rt_schedule_def)

lemma sched_inv_reaped:
  assumes inv: "sched_inv {} s" and t: "t \<in> set (tl s Defunct)"
  shows "sched_inv {} (reaped t s)"
proof -
  have c: "tstat s t = RT_THREAD_CLOSE" using sched_invD(5)[OF inv t] by (simp add: list_stat_def)
  then have "sched_inv {t} (s\<lparr>tl := ls_remove t (tl s)\<rparr>)" using sched_inv_unlink[OF inv, of t] by simp
  then have "sched_inv {} (s\<lparr>tl := ls_remove t (tl s)\<rparr>)"
    by (rule sched_inv_drop) (use c in \<open>simp add: tstat_def\<close>)
  then show ?thesis using sched_inv_cong[of "reaped t s" "s\<lparr>tl := ls_remove t (tl s)\<rparr>"] by (simp add: reaped_def)
qed

lemma idle_step:
  assumes inv: "sched_inv {} s" and i: "cur s = Some i" "irq_nest s = 0" "lock_nest s = 0"
    and R: "\<And>p. tl s (Ready p) = []" and D: "tl s Defunct = t # ts" and t: "reapable s t"
  shows "rt_thread_idle_excute clean s = rt_thread_idle_excute clean (reaped t s)"
proof -
  let ?s1 = "s\<lparr>tl := ls_remove t (tl s)\<rparr>"
  have c: "tstat s t = RT_THREAD_CLOSE" using sched_invD(5)[OF inv, of t Defunct] D by (simp add: list_stat_def)
  then have "sched_inv {t} ?s1" using sched_inv_unlink[OF inv, of t] by simp
  then have inv1: "sched_inv {} ?s1" by (rule sched_inv_drop) (use c in \<open>simp add: tstat_def\<close>)
  have "rt_exit_critical (rt_enter_critical ?s1) = Some ?s1"
    using exit_after_enter[of ?s1] schedule_idle[OF inv1, of i] i R by simp
  moreover have "\<not> rt_object_is_systemobject (ThreadObj t) (rt_enter_critical ?s1)"
    "\<not> cleanup (thr (rt_enter_critical ?s1) t)"
    using t by (simp_all add: reapable_def rt_enter_critical_def rt_object_is_systemobject_def)
  moreover define s5 where "s5 = ?s1\<lparr>heap := heap s - {BufBlk (ThreadObj t)}\<rparr>"
  have "kernel_free (BufBlk (ThreadObj t)) ?s1 = Some s5"
    using t i by (simp add: reapable_def kernel_free_def rt_debug_not_in_interrupt_def s5_def)
  moreover have "rt_object_delete (ThreadObj t) s5 = Some (reaped t s)"
    using t i by (simp add: reapable_def kernel_free_def rt_object_delete_def rt_debug_not_in_interrupt_def
        rt_object_is_systemobject_def reaped_def s5_def Diff_insert2[symmetric])
  ultimately show ?thesis
    using D i by (simp add: rt_thread_idle_excute.simps[of clean s] has_defunct_thread_def rt_debug_not_in_interrupt_def)
qed


text \<open>The idle thread runs at the lowest priority while two closed threads wait to be reaped.\<close>

definition demo_idle :: kbase where
  "demo_idle = demo_sched\<lparr>
     thr := (\<lambda>_. idle_thread)(0 := demo_thread 32 31 RT_THREAD_READY,
            1 := demo_thread 32 5 RT_THREAD_CLOSE, 2 := demo_thread 32 9 RT_THREAD_CLOSE),
     tl := (\<lambda>_. [])(Defunct := [2, 1]), ready_group := 0, cur := Some 0, cur_prio := 31,
     heap := {BufBlk (ThreadObj 1), ObjBlk (ThreadObj 1), BufBlk (ThreadObj 2), ObjBlk (ThreadObj 2),
              ObjBlk (MemPoolObj 0)}\<rparr>"

lemma demo_idle_inv: "sched_inv {} demo_idle"
proof -
  have "queue_ok {} demo_idle"
    unfolding queue_ok_def
    by (auto simp: demo_idle_def demo_sched_def tstat_def prio_of_def idle_thread_def list_stat_def
        lists_ok_def attr_ok_demo_thread split: if_splits)
  moreover have "bitmap_ok demo_idle" by (auto simp: bitmap_ok_def demo_idle_def demo_sched_def)
  ultimately show ?thesis by (simp add: sched_inv_def) (simp add: demo_idle_def demo_sched_def)
qed


end
