(* ===== verification/Ipc.thy ===== *)
theory Ipc
  imports Clock
begin

unbundle bit_operations_syntax

text \<open>
  The IPC objects of \<^verbatim>\<open>include/rtdef.h\<close>, the whole kernel state, and the part of
  \<^verbatim>\<open>src/ipc.c\<close> that all IPC objects share: the lists of suspended threads.

  The head of a list of suspended threads is an \<open>lhead\<close>. Linking a thread into a list it is
  already in would tie a knot in the list; the model has no value for that and returns \<open>None\<close>.
\<close>

section \<open>The objects\<close>

record rt_semaphore =
  sem_value :: u16

record rt_mutex =
  mutex_value :: u16
  original_priority :: u8
  hold :: u8
  owner :: "tid option"

record rt_event =
  ev_set :: u32

text \<open>The pool of a mailbox is the list of its words.\<close>

record rt_mailbox =
  mb_msg_pool :: "u32 list"
  mb_size :: u16
  mb_entry :: u16
  mb_in_offset :: u16
  mb_out_offset :: u16

text \<open>
  The pool of a message queue is an array of blocks, each a \<^verbatim>\<open>struct rt_mq_message\<close> and the
  bytes behind it; a pointer to a block is its index.
\<close>

record rt_messagequeue =
  mq_pool_null :: bool
  msg_size :: u16
  max_msgs :: u16
  mq_entry :: u16
  msg_queue_head :: "nat option"
  msg_queue_tail :: "nat option"
  msg_queue_free :: "nat option"
  mq_next :: "nat \<Rightarrow> nat option"
  mq_data :: "nat \<Rightarrow> u8 list"

text \<open>
  The first word of a block of a memory pool: the next block of the free list, or the pool the
  block belongs to.
\<close>

datatype mp_word = NextFree "nat option" | PoolPtr nat

record rt_mempool =
  mp_size :: u32
  block_size :: u32
  block_list :: "nat option"
  block_total_count :: u32
  block_free_count :: u32
  suspend_thread_count :: u32
  mp_words :: "nat \<Rightarrow> mp_word"

record kernel = ktimer +
  sems :: "nat \<Rightarrow> rt_semaphore"
  mutexes :: "nat \<Rightarrow> rt_mutex"
  events :: "nat \<Rightarrow> rt_event"
  mailboxes :: "nat \<Rightarrow> rt_mailbox"
  mqueues :: "nat \<Rightarrow> rt_messagequeue"
  mempools :: "nat \<Rightarrow> rt_mempool"

abbreviation RT_IPC_FLAG_FIFO :: u8 where "RT_IPC_FLAG_FIFO \<equiv> 0"
abbreviation RT_IPC_FLAG_PRIO :: u8 where "RT_IPC_FLAG_PRIO \<equiv> 1"

datatype ipc_cmd = RT_IPC_CMD_RESET u32 | IPC_CMD_OTHER

section \<open>Operations on the lists of suspended threads\<close>

definition rt_ipc_object_init :: "lhead \<Rightarrow> 'a kbase_scheme \<Rightarrow> 'a kbase_scheme" where
  "rt_ipc_object_init h s = s\<lparr>tl := (tl s)(h := [])\<rparr>"

text \<open>\<^verbatim>\<open>object->flag = flag\<close>, and reading it.\<close>

definition set_oflag :: "oid \<Rightarrow> u8 \<Rightarrow> 'a kbase_scheme \<Rightarrow> 'a kbase_scheme" where
  "set_oflag ob flag s = s\<lparr>objs := (objs s)(ob := (objs s ob)\<lparr>oflag := flag\<rparr>)\<rparr>"

text \<open>The walk to the place of a thread in a list that is kept in the order of priorities.\<close>

fun prio_insert :: "(tid \<Rightarrow> u8) \<Rightarrow> tid \<Rightarrow> tid list \<Rightarrow> tid list" where
  "prio_insert pr thread [] = [thread]"
| "prio_insert pr thread (sthread # n) =
     (if pr thread < pr sthread then thread # sthread # n
      else sthread # prio_insert pr thread n)"

definition rt_ipc_list_suspend ::
  "lhead \<Rightarrow> tid \<Rightarrow> u8 \<Rightarrow> 'a ktimer_scheme \<Rightarrow> ('a ktimer_scheme \<times> rt_err) option" where
  "rt_ipc_list_suspend h thread flag s = do {
     (s1, _) \<leftarrow> rt_thread_suspend thread s;
     rt_assert (thread \<notin> set (tl s1 h));
     Some (if flag = RT_IPC_FLAG_FIFO then s1\<lparr>tl := ls_insert_before h thread (tl s1)\<rparr>
           else if flag = RT_IPC_FLAG_PRIO
           then s1\<lparr>tl := (tl s1)(h := prio_insert (\<lambda>t. current_priority (thr s1 t)) thread (tl s1 h))\<rparr>
           else s1, RT_EOK)
   }"

text \<open>The first node of an empty list is its head, which is no thread.\<close>

definition rt_ipc_list_resume :: "lhead \<Rightarrow> 'a ktimer_scheme \<Rightarrow> ('a ktimer_scheme \<times> rt_err) option" where
  "rt_ipc_list_resume h s =
     (case tl s h of
        [] \<Rightarrow> None
      | thread # _ \<Rightarrow> do { (s1, _) \<leftarrow> rt_thread_resume thread s; Some (s1, RT_EOK) })"

partial_function (option) rt_ipc_list_resume_all ::
  "lhead \<Rightarrow> 'a ktimer_scheme \<Rightarrow> ('a ktimer_scheme \<times> rt_err) option" where
  "rt_ipc_list_resume_all h s =
     (case tl s h of
        [] \<Rightarrow> Some (s, RT_EOK)
      | thread # _ \<Rightarrow> do {
          let s1 = upd_thr thread (\<lambda>th. th\<lparr>error := - RT_ERROR\<rparr>) s;
          (s2, _) \<leftarrow> rt_thread_resume thread s1;
          rt_ipc_list_resume_all h s2
        })"

text \<open>
  The lines that every blocking call has: the caller is suspended in the list, its timer is
  started when the waiting time is positive, and \<^verbatim>\<open>rt_schedule\<close> is called.
\<close>

definition start_wait :: "tid \<Rightarrow> u32 \<Rightarrow> 'a ktimer_scheme \<Rightarrow> 'a ktimer_scheme option" where
  "start_wait thread time s = do {
     s1 \<leftarrow> (if sint time > 0 then do {
               (s', _, _) \<leftarrow> rt_timer_control (ThreadTimer thread) (RT_TIMER_CTRL_SET_TIME time) s;
               (s'', _) \<leftarrow> rt_timer_start (ThreadTimer thread) s';
               Some s''
             }
             else Some s);
     rt_schedule s1
   }"

definition ipc_block :: "lhead \<Rightarrow> tid \<Rightarrow> u8 \<Rightarrow> u32 \<Rightarrow> 'a ktimer_scheme \<Rightarrow> 'a ktimer_scheme option" where
  "ipc_block h thread flag time s = do {
     (s1, _) \<leftarrow> rt_ipc_list_suspend h thread flag s;
     start_wait thread time s1
   }"

text \<open>What is left of a waiting time after waiting from tick \<open>t0\<close> on.\<close>

definition remaining :: "u32 \<Rightarrow> u32 \<Rightarrow> u32 \<Rightarrow> u32" where
  "remaining timeout t0 now =
     (if sint timeout > 0
      then let timeout' = timeout - (now - t0) in if sint timeout' < 0 then 0 else timeout'
      else timeout)"

section \<open>The order of waiting threads\<close>

definition queued :: "u8 \<Rightarrow> (tid \<Rightarrow> u8) \<Rightarrow> tid \<Rightarrow> tid list \<Rightarrow> tid list" where
  "queued flag pr t ts = (if flag = RT_IPC_FLAG_PRIO then prio_insert pr t ts else ts @ [t])"

lemma set_prio_insert [simp]: "set (prio_insert pr t ts) = insert t (set ts)"
  by (induction ts) auto

lemma distinct_prio_insert: "distinct (prio_insert pr t ts) \<longleftrightarrow> t \<notin> set ts \<and> distinct ts"
  by (induction ts) auto

lemma set_queued [simp]: "set (queued flag pr t ts) = insert t (set ts)"
  by (simp add: queued_def)

lemma distinct_queued [simp]: "distinct (queued flag pr t ts) \<longleftrightarrow> t \<notin> set ts \<and> distinct ts"
  by (auto simp: queued_def distinct_prio_insert)

lemma sorted_prio_insert:
  "sorted (map pr ts) \<Longrightarrow> sorted (map pr (prio_insert pr t ts))"
  by (induction ts) (auto simp: not_less intro: order.trans less_imp_le)

text \<open>
  Threads of one priority keep the order of their arrival: the new thread is behind all threads
  of its priority or of a higher one, and in front of all others.
\<close>

lemma prio_insert_split:
  "prio_insert pr t ts = takeWhile (\<lambda>u. pr u \<le> pr t) ts @ t # dropWhile (\<lambda>u. pr u \<le> pr t) ts"
  by (induction ts) (auto simp: not_less)

lemma queued_cong:
  "(\<And>u. u \<in> insert t (set ts) \<Longrightarrow> pr u = pr' u) \<Longrightarrow> queued flag pr t ts = queued flag pr' t ts"
proof -
  assume *: "\<And>u. u \<in> insert t (set ts) \<Longrightarrow> pr u = pr' u"
  then have "prio_insert pr t ts = prio_insert pr' t ts" by (induction ts) auto
  then show ?thesis by (simp add: queued_def)
qed

section \<open>Suspending and resuming in a list\<close>

abbreviation waiting_list :: "lhead \<Rightarrow> bool" where
  "waiting_list h \<equiv> list_stat h = RT_THREAD_SUSPEND"

lemma waiting_list_simps [simp]:
  "waiting_list (Suspended i)" "waiting_list (SuspendedSender n)" "waiting_list (SuspendedPool n)"
  "waiting_list (SuspendedDev d)" "\<not> waiting_list (Ready p)" "\<not> waiting_list Defunct"
  by (simp_all add: list_stat_def)

lemma waiting_not_ready: "waiting_list h \<Longrightarrow> \<nexists>p. h = Ready p"
  by (auto simp: list_stat_def)

lemma waiting_member:
  "kinv X b s \<Longrightarrow> waiting_list h \<Longrightarrow> t \<in> set (tl s h) \<Longrightarrow> tstat s t = RT_THREAD_SUSPEND"
  using sched_invD(5)[OF kinvD(1), of X b s t h] by simp

lemma stopped_objs: "ob \<noteq> TimerObj u \<Longrightarrow> objs (stopped u s) ob = objs s ob"
  by (simp add: stopped_def deactivate_def upd_flag_def)

lemma started_objs: "ob \<noteq> TimerObj u \<Longrightarrow> objs (started u s) ob = objs s ob"
  by (simp add: started_def activate_def deactivate_def upd_flag_def Let_def)

lemma ipc_objs [simp]:
  "objs (suspend_state t s) (IpcObj i) = objs s (IpcObj i)"
  "objs (resume_state t s) (IpcObj i) = objs s (IpcObj i)"
  "objs (arm t n s) (IpcObj i) = objs s (IpcObj i)"
  "objs (suspend_state t s) (MemPoolObj p) = objs s (MemPoolObj p)"
  "objs (resume_state t s) (MemPoolObj p) = objs s (MemPoolObj p)"
  "objs (arm t n s) (MemPoolObj p) = objs s (MemPoolObj p)"
  "objs (suspend_state t s) (ThreadObj u) = objs s (ThreadObj u)"
  "objs (resume_state t s) (ThreadObj u) = objs s (ThreadObj u)"
  "objs (arm t n s) (ThreadObj u) = objs s (ThreadObj u)"
  by (simp_all add: suspend_state_def resume_state_def arm_def stopped_objs started_objs)

definition blocked_state :: "lhead \<Rightarrow> tid \<Rightarrow> u8 \<Rightarrow> 'a ktimer_scheme \<Rightarrow> 'a ktimer_scheme" where
  "blocked_state h t flag s = (suspend_state t s)\<lparr>tl := (tl s)
     (h := queued flag (\<lambda>u. current_priority (thr s u)) t (tl s h))\<rparr>"

lemma blocked_state_sel [simp]:
  "thr (blocked_state h t flag s) = (thr s)(t := set_stat RT_THREAD_SUSPEND (thr s t))"
  "cur (blocked_state h t flag s) = cur s" "prio_max (blocked_state h t flag s) = prio_max s"
  "lock_nest (blocked_state h t flag s) = lock_nest s" "irq_nest (blocked_state h t flag s) = irq_nest s"
  "olists (blocked_state h t flag s) = olists s" "heap (blocked_state h t flag s) = heap s"
  "tick (blocked_state h t flag s) = tick s" "ktimer.more (blocked_state h t flag s) = ktimer.more s"
  "tl (blocked_state h t flag s) =
     (tl s)(h := queued flag (\<lambda>u. current_priority (thr s u)) t (tl s h))"
  "tstat (blocked_state h t flag s) u = (if u = t then RT_THREAD_SUSPEND else tstat s u)"
  "prio_of (blocked_state h t flag s) u = prio_of s u"
  "objs (blocked_state h t flag s) (IpcObj i) = objs s (IpcObj i)"
  "objs (blocked_state h t flag s) (MemPoolObj p) = objs s (MemPoolObj p)"
  "objs (blocked_state h t flag s) (ThreadObj v) = objs s (ThreadObj v)"
  by (simp_all add: blocked_state_def tstat_def prio_of_def)

text \<open>The running thread may be linked into a waiting list at any place once it is suspended.\<close>

lemma parked_kinv:
  assumes inv: "kinv {} b s" and t: "cur s = Some t" "tstat s t = RT_THREAD_READY" and h: "waiting_list h"
    and ts: "set ts = insert t (set (tl s h))" "distinct ts"
  shows "kinv {} b ((suspend_state t s)\<lparr>tl := (tl s)(h := ts)\<rparr>)"
proof -
  note sus = rt_thread_suspend_ok[OF inv t]
  have un: "unlinked t (tl s)" using running_unlinked[OF kinvD(1)[OF inv] t] .
  then have tl1: "tl (suspend_state t s) = tl s" by simp
  have lo: "lists_ok (tl s)" using sched_invD(1)[OF kinvD(1)[OF inv]] .
  have "sched_inv {t} (suspend_state t s)" using sched_inv_limbo[OF kinvD(1)[OF sus(2)] sus(3)] by simp
  then have "sched_inv ({t} - {t}) ((suspend_state t s)\<lparr>tl := (tl s)(h := ts)\<rparr>)"
  proof (rule sched_inv_link[where h = h])
    show "lists_ok ((tl s)(h := ts))" using lo un ts by (auto simp: lists_ok_def unlinked_def)
  qed (use h un ts in \<open>auto simp: tl1 list_stat_def\<close>)
  then show ?thesis by (intro kinv_schedI[OF sus(2)]) (simp_all add: tstat_def)
qed

lemma rt_ipc_list_suspend_ok:
  assumes inv: "kinv {} b s" and t: "cur s = Some t" "tstat s t = RT_THREAD_READY"
    and h: "waiting_list h" and fl: "flag = RT_IPC_FLAG_FIFO \<or> flag = RT_IPC_FLAG_PRIO"
  shows "rt_ipc_list_suspend h t flag s = Some (blocked_state h t flag s, RT_EOK)"
    "kinv {} b (blocked_state h t flag s)"
proof -
  let ?s1 = "suspend_state t s"
  have un: "unlinked t (tl s)" using running_unlinked[OF kinvD(1)[OF inv] t] .
  then have tl1: "tl ?s1 = tl s" by simp
  have pr: "current_priority (thr ?s1 u) = current_priority (thr s u)" for u by simp
  show "rt_ipc_list_suspend h t flag s = Some (blocked_state h t flag s, RT_EOK)"
    using rt_thread_suspend_ok(1)[OF inv t] un fl
    by (auto simp: rt_ipc_list_suspend_def blocked_state_def queued_def ls_insert_before_def unlinked_def tl1 pr
        simp del: suspend_state_sel(1))
  have "distinct (tl s h)" using sched_invD(1)[OF kinvD(1)[OF inv]] by (simp add: lists_ok_def)
  then show "kinv {} b (blocked_state h t flag s)"
    unfolding blocked_state_def using un
    by (intro parked_kinv[OF inv t h]) (auto simp: unlinked_def set_queued distinct_queued)
qed

section \<open>Blocking\<close>

text \<open>
  A waiting time is a signed 32 bit number; a negative one means forever. The timer accepts all
  positive ones but the largest.
\<close>

definition time_ok :: "u32 \<Rightarrow> bool" where
  "time_ok time \<longleftrightarrow> time \<noteq> 0 \<and> time \<noteq> 0x7fffffff"

lemma time_ok_half: "time_ok time \<Longrightarrow> 0 < sint time \<Longrightarrow> time < RT_TICK_HALF"
  by (auto simp: time_ok_def sint_pos_iff)

definition armed :: "tid \<Rightarrow> u32 \<Rightarrow> 'a ktimer_scheme \<Rightarrow> 'a ktimer_scheme" where
  "armed t time s = (if sint time > 0 then arm t time s else s)"

lemma armed_sel [simp]:
  "thr (armed t n s) = thr s" "tl (armed t n s) = tl s" "cur (armed t n s) = cur s"
  "prio_max (armed t n s) = prio_max s" "lock_nest (armed t n s) = lock_nest s"
  "irq_nest (armed t n s) = irq_nest s" "olists (armed t n s) = olists s" "heap (armed t n s) = heap s"
  "tick (armed t n s) = tick s" "ktimer.more (armed t n s) = ktimer.more s"
  "tstat (armed t n s) u = tstat s u" "prio_of (armed t n s) u = prio_of s u"
  "objs (armed t n s) (IpcObj i) = objs s (IpcObj i)"
  "objs (armed t n s) (MemPoolObj p) = objs s (MemPoolObj p)"
  "objs (armed t n s) (ThreadObj v) = objs s (ThreadObj v)"
  by (simp_all add: armed_def)

lemma start_wait_eq:
  assumes inv: "kinv {} b s" and t: "tstat s t = RT_THREAD_SUSPEND" and tm: "time_ok time"
  shows "start_wait t time s = rt_schedule (armed t time s)" "kinv {} b (armed t time s)"
proof -
  have "thread_obj_ok s t" using kinvD(5)[OF inv, of t] t by (simp add: live_def)
  then have ty: "rt_object_get_type (TimerObj (ThreadTimer t)) s = RT_Object_Class_Timer"
    by (simp add: thread_obj_ok_def)
  have "start_wait t time s =
      (if sint time > 0 then
         do { (s'', _) \<leftarrow> do { (s', _, _) \<leftarrow> rt_timer_control (ThreadTimer t) (RT_TIMER_CTRL_SET_TIME time) s;
                               rt_timer_start (ThreadTimer t) s' };
              rt_schedule s'' }
       else rt_schedule s)"
    by (simp add: start_wait_def split_def)
  then show "start_wait t time s = rt_schedule (armed t time s)"
    using arm_calls[OF ty, of time] time_ok_half[OF tm] by (simp add: armed_def)
  show "kinv {} b (armed t time s)"
    using inv kinv_arm[OF inv t] time_ok_half[OF tm] by (simp add: armed_def)
qed

text \<open>
  What waiting leaves: the timer of the caller runs if the waiting time is positive, and the
  processor has gone to a thread of the highest priority that is ready.
\<close>

lemma start_wait_ok:
  assumes inv: "kinv {} b s" and t: "cur s = Some t" "tstat s t = RT_THREAD_SUSPEND" and tm: "time_ok time"
  obtains s' where "start_wait t time s = Some s'" "kinv {} b s'" "thr s' = thr s" "\<And>u. tstat s' u = tstat s u"
    "\<And>k. (\<nexists>p. k = Ready p) \<Longrightarrow> tl s' k = tl s k"
    "\<And>i. objs s' (IpcObj i) = objs s (IpcObj i)" "\<And>p. objs s' (MemPoolObj p) = objs s (MemPoolObj p)"
    "ktimer.more s' = ktimer.more s" "tick s' = tick s" "lock_nest s' = lock_nest s"
    "irq_nest s' = irq_nest s" "heap s' = heap s" "prio_max s' = prio_max s" "cur s' \<noteq> None"
    "0 < sint time \<Longrightarrow> ThreadTimer t \<in> set (timer_list s') \<and> due (tick s') s' (ThreadTimer t) = unat time"
    "\<And>u. lock_nest s = 0 \<Longrightarrow> tstat s u = RT_THREAD_READY \<Longrightarrow> cur s' \<noteq> Some t"
    "lock_nest s \<noteq> 0 \<Longrightarrow> cur s' = Some t"
proof -
  let ?s2 = "armed t time s"
  note eq = start_wait_eq[OF inv t(2) tm]
  have c2: "cur ?s2 = Some t" using t by simp
  obtain s' where s': "rt_schedule ?s2 = Some s'" "kinv {} b s'" "thr s' = thr ?s2" "cur s' \<noteq> None"
    "objs s' = objs ?s2" "olists s' = olists ?s2" "heap s' = heap ?s2" "kbase.more s' = kbase.more ?s2"
    "lock_nest s' = lock_nest ?s2" "irq_nest s' = irq_nest ?s2" "prio_max s' = prio_max ?s2"
    "\<And>h. (\<nexists>p. h = Ready p) \<Longrightarrow> tl s' h = tl ?s2 h"
    by (rule rt_schedule_kinv[OF eq(2) c2], rule that)
  note more = ktimer_more_eq[OF s'(8)]
  have ts: "tstat s' u = tstat s u" for u using s'(3) by (simp add: tstat_def)
  have "cur s' \<noteq> Some t" if "lock_nest s = 0" "tstat s u = RT_THREAD_READY" for u
    using rt_schedule_picks[OF kinvD(1)[OF eq(2)] c2 _ _ s'(1), of u] that t by (auto split: if_splits)
  moreover have "cur s' = Some t" if "lock_nest s \<noteq> 0" using s'(1) that c2 by (auto simp: rt_schedule_def)
  moreover have "ThreadTimer t \<in> set (timer_list s') \<and> due (tick s') s' (ThreadTimer t) = unat time"
    if "0 < sint time"
    using that more arm_sel(16)[of t time s] arm_sel(17)[of s t time] by (simp add: armed_def due_def)
  ultimately show thesis using eq(1) s' ts more by (intro that) auto
qed

lemma ipc_block_ok:
  assumes inv: "kinv {} b s" and t: "cur s = Some t" "tstat s t = RT_THREAD_READY"
    and h: "waiting_list h" and fl: "flag = RT_IPC_FLAG_FIFO \<or> flag = RT_IPC_FLAG_PRIO" and tm: "time_ok time"
  obtains s' where "ipc_block h t flag time s = Some s'" "kinv {} b s'"
    "thr s' = (thr s)(t := set_stat RT_THREAD_SUSPEND (thr s t))"
    "\<And>u. tstat s' u = (if u = t then RT_THREAD_SUSPEND else tstat s u)"
    "\<And>k. (\<nexists>p. k = Ready p) \<Longrightarrow> tl s' k =
       (if k = h then queued flag (\<lambda>u. current_priority (thr s u)) t (tl s h) else tl s k)"
    "\<And>i. objs s' (IpcObj i) = objs s (IpcObj i)" "\<And>p. objs s' (MemPoolObj p) = objs s (MemPoolObj p)"
    "ktimer.more s' = ktimer.more s" "tick s' = tick s" "lock_nest s' = lock_nest s"
    "irq_nest s' = irq_nest s" "heap s' = heap s" "prio_max s' = prio_max s" "cur s' \<noteq> None"
    "0 < sint time \<Longrightarrow> ThreadTimer t \<in> set (timer_list s') \<and> due (tick s') s' (ThreadTimer t) = unat time"
    "\<And>u. lock_nest s = 0 \<Longrightarrow> u \<noteq> t \<Longrightarrow> tstat s u = RT_THREAD_READY \<Longrightarrow> cur s' \<noteq> Some t"
    "lock_nest s \<noteq> 0 \<Longrightarrow> cur s' = Some t"
proof -
  let ?s1 = "blocked_state h t flag s"
  note sus = rt_ipc_list_suspend_ok[OF inv t h fl]
  have c1: "cur ?s1 = Some t" "tstat ?s1 t = RT_THREAD_SUSPEND" using t by simp_all
  obtain s' where s': "start_wait t time ?s1 = Some s'" "kinv {} b s'" "thr s' = thr ?s1" "\<And>u. tstat s' u = tstat ?s1 u"
    "\<And>k. (\<nexists>p. k = Ready p) \<Longrightarrow> tl s' k = tl ?s1 k"
    "\<And>i. objs s' (IpcObj i) = objs ?s1 (IpcObj i)" "\<And>p. objs s' (MemPoolObj p) = objs ?s1 (MemPoolObj p)"
    "ktimer.more s' = ktimer.more ?s1" "tick s' = tick ?s1" "lock_nest s' = lock_nest ?s1"
    "irq_nest s' = irq_nest ?s1" "heap s' = heap ?s1" "prio_max s' = prio_max ?s1" "cur s' \<noteq> None"
    "0 < sint time \<Longrightarrow> ThreadTimer t \<in> set (timer_list s') \<and> due (tick s') s' (ThreadTimer t) = unat time"
    "\<And>u. lock_nest ?s1 = 0 \<Longrightarrow> tstat ?s1 u = RT_THREAD_READY \<Longrightarrow> cur s' \<noteq> Some t"
    "lock_nest ?s1 \<noteq> 0 \<Longrightarrow> cur s' = Some t"
    by (rule start_wait_ok[OF sus(2) c1 tm], rule that)
  have "ipc_block h t flag time s = Some s'" using sus(1) s'(1) by (simp add: ipc_block_def)
  moreover have "cur s' \<noteq> Some t" if "lock_nest s = 0" "u \<noteq> t" "tstat s u = RT_THREAD_READY" for u
    using s'(16)[of u] that by simp
  ultimately show thesis using s'(2-15,17) by (intro that[of s']) simp_all
qed

text \<open>
  The blocking calls write to fields of the caller's control block first that the scheduler
  does not read: its error number, and the events it waits for.
\<close>

lemma upd_thr_ktimer_more [simp]: "ktimer.more (upd_thr t f s) = ktimer.more s"
  by (simp add: upd_thr_def)

lemma ipc_block_upd:
  assumes inv: "kinv {} b s" and t: "cur s = Some t" "tstat s t = RT_THREAD_READY"
    and h: "waiting_list h" and fl: "flag = RT_IPC_FLAG_FIFO \<or> flag = RT_IPC_FLAG_PRIO" and tm: "time_ok time"
    and f: "stat (f (thr s t)) = stat (thr s t)" "current_priority (f (thr s t)) = current_priority (thr s t)"
      "\<And>pm. attr_ok pm (f (thr s t)) = attr_ok pm (thr s t)"
  obtains s' where "ipc_block h t flag time (upd_thr t f s) = Some s'" "kinv {} b s'"
    "thr s' = (thr s)(t := set_stat RT_THREAD_SUSPEND (f (thr s t)))"
    "\<And>u. tstat s' u = (if u = t then RT_THREAD_SUSPEND else tstat s u)"
    "\<And>k. (\<nexists>p. k = Ready p) \<Longrightarrow> tl s' k =
       (if k = h then queued flag (\<lambda>u. current_priority (thr s u)) t (tl s h) else tl s k)"
    "\<And>i. objs s' (IpcObj i) = objs s (IpcObj i)" "\<And>p. objs s' (MemPoolObj p) = objs s (MemPoolObj p)"
    "ktimer.more s' = ktimer.more s" "tick s' = tick s" "lock_nest s' = lock_nest s"
    "irq_nest s' = irq_nest s" "heap s' = heap s" "prio_max s' = prio_max s" "cur s' \<noteq> None"
    "0 < sint time \<Longrightarrow> ThreadTimer t \<in> set (timer_list s') \<and> due (tick s') s' (ThreadTimer t) = unat time"
    "\<And>u. lock_nest s = 0 \<Longrightarrow> u \<noteq> t \<Longrightarrow> tstat s u = RT_THREAD_READY \<Longrightarrow> cur s' \<noteq> Some t"
proof -
  let ?s1 = "upd_thr t f s"
  have k1: "kinv {} b ?s1" by (rule kinv_upd_same[OF inv]) (rule f)+
  have ts: "tstat ?s1 u = tstat s u" for u using f(1) by (simp add: tstat_def)
  have pr: "(\<lambda>u. current_priority (thr ?s1 u)) = (\<lambda>u. current_priority (thr s u))"
    using f(2) by (auto simp: fun_eq_iff)
  have t1: "cur ?s1 = Some t" "tstat ?s1 t = RT_THREAD_READY" using t ts by simp_all
  obtain s' where s': "ipc_block h t flag time ?s1 = Some s'" "kinv {} b s'"
    "thr s' = (thr ?s1)(t := set_stat RT_THREAD_SUSPEND (thr ?s1 t))"
    "\<And>u. tstat s' u = (if u = t then RT_THREAD_SUSPEND else tstat ?s1 u)"
    "\<And>k. (\<nexists>p. k = Ready p) \<Longrightarrow> tl s' k =
       (if k = h then queued flag (\<lambda>u. current_priority (thr ?s1 u)) t (tl ?s1 h) else tl ?s1 k)"
    "\<And>i. objs s' (IpcObj i) = objs ?s1 (IpcObj i)" "\<And>p. objs s' (MemPoolObj p) = objs ?s1 (MemPoolObj p)"
    "ktimer.more s' = ktimer.more ?s1" "tick s' = tick ?s1" "lock_nest s' = lock_nest ?s1"
    "irq_nest s' = irq_nest ?s1" "heap s' = heap ?s1" "prio_max s' = prio_max ?s1" "cur s' \<noteq> None"
    "0 < sint time \<Longrightarrow> ThreadTimer t \<in> set (timer_list s') \<and> due (tick s') s' (ThreadTimer t) = unat time"
    "\<And>u. lock_nest ?s1 = 0 \<Longrightarrow> u \<noteq> t \<Longrightarrow> tstat ?s1 u = RT_THREAD_READY \<Longrightarrow> cur s' \<noteq> Some t"
    by (rule ipc_block_ok[OF k1 t1 h fl tm], rule that)
  show thesis
    by (rule that[OF s'(1,2)]) (use s'(3-) in \<open>simp_all add: ts pr del: upd_thr_sel(1)\<close>, simp_all)
qed

lemma clear_error_kinv: "kinv X b s \<Longrightarrow> kinv X b (upd_thr t (\<lambda>th. th\<lparr>error := e\<rparr>) s)"
  by (rule kinv_upd_same) (simp_all add: attr_ok_def)

lemma clear_error_sel [simp]:
  "tstat (upd_thr t (\<lambda>th. th\<lparr>error := e\<rparr>) s) u = tstat s u"
  "prio_of (upd_thr t (\<lambda>th. th\<lparr>error := e\<rparr>) s) u = prio_of s u"
  by (simp_all add: tstat_def prio_of_def)

text \<open>A call that cannot leave the processor comes back to its loop and suspends its thread again.\<close>

lemma ipc_block_twice:
  assumes "tstat s t = RT_THREAD_SUSPEND" "t \<in> set (tl s h)"
  shows "ipc_block h t flag time s = None"
  using assms by (simp add: ipc_block_def rt_ipc_list_suspend_def rt_thread_suspend_def rt_assert_def)

lemma ipc_block_locked:
  fixes s :: "'a ktimer_scheme"
  assumes inv: "kinv {} b s" and t: "cur s = Some t" "tstat s t = RT_THREAD_READY"
    and h: "waiting_list h" and fl: "flag = RT_IPC_FLAG_FIFO \<or> flag = RT_IPC_FLAG_PRIO" and tm: "time_ok time"
    and l: "lock_nest s \<noteq> 0" and s': "ipc_block h t flag time s = Some s'"
  shows "cur s' = Some t"
  by (rule ipc_block_ok[OF inv t h fl tm]) (use l s' in simp)

text \<open>The two outcomes of waiting without an error to report.\<close>

lemma ipc_wait_outcomes:
  fixes s :: "'a kernel_scheme"
  assumes inv: "kinv {} b s" and t: "cur s = Some t" "tstat s t = RT_THREAD_READY"
    and h: "waiting_list h" and fl: "flag = RT_IPC_FLAG_FIFO \<or> flag = RT_IPC_FLAG_PRIO" and tm: "time_ok time"
  obtains s' where "ipc_block h t flag time (upd_thr t (\<lambda>th. th\<lparr>error := RT_EOK\<rparr>) s) = Some s'" "kinv {} b s'"
    "thr s' = (thr s)(t := set_stat RT_THREAD_SUSPEND ((thr s t)\<lparr>error := RT_EOK\<rparr>))"
    "tstat s' t = RT_THREAD_SUSPEND"
    "\<And>k. (\<nexists>p. k = Ready p) \<Longrightarrow> tl s' k =
       (if k = h then queued flag (\<lambda>u. current_priority (thr s u)) t (tl s h) else tl s k)"
    "\<And>i. objs s' (IpcObj i) = objs s (IpcObj i)" "\<And>p. objs s' (MemPoolObj p) = objs s (MemPoolObj p)"
    "ktimer.more s' = ktimer.more s" "irq_nest s' = irq_nest s" "tick s' = tick s" "cur s' \<noteq> None" "error (thr s' t) = RT_EOK"
    "0 < sint time \<Longrightarrow> ThreadTimer t \<in> set (timer_list s') \<and> due (tick s') s' (ThreadTimer t) = unat time"
    "\<And>u. lock_nest s = 0 \<Longrightarrow> u \<noteq> t \<Longrightarrow> tstat s u = RT_THREAD_READY \<Longrightarrow> cur s' \<noteq> Some t"
    "lock_nest s \<noteq> 0 \<Longrightarrow> cur s' = Some t" "t \<in> set (tl s' h)"
    "\<And>e fl' time'. ipc_block h t fl' time' (upd_thr t (\<lambda>th. th\<lparr>error := e\<rparr>) s') = None"
proof -
  let ?f = "\<lambda>th :: rt_thread. th\<lparr>error := RT_EOK\<rparr>"
  obtain s' where s': "ipc_block h t flag time (upd_thr t ?f s) = Some s'" "kinv {} b s'"
    "thr s' = (thr s)(t := set_stat RT_THREAD_SUSPEND (?f (thr s t)))"
    "\<And>u. tstat s' u = (if u = t then RT_THREAD_SUSPEND else tstat s u)"
    "\<And>k. (\<nexists>p. k = Ready p) \<Longrightarrow> tl s' k =
       (if k = h then queued flag (\<lambda>u. current_priority (thr s u)) t (tl s h) else tl s k)"
    "\<And>i. objs s' (IpcObj i) = objs s (IpcObj i)" "\<And>p. objs s' (MemPoolObj p) = objs s (MemPoolObj p)"
    "ktimer.more s' = ktimer.more s" "tick s' = tick s" "irq_nest s' = irq_nest s" "cur s' \<noteq> None"
    "0 < sint time \<Longrightarrow> ThreadTimer t \<in> set (timer_list s') \<and> due (tick s') s' (ThreadTimer t) = unat time"
    "\<And>u. lock_nest s = 0 \<Longrightarrow> u \<noteq> t \<Longrightarrow> tstat s u = RT_THREAD_READY \<Longrightarrow> cur s' \<noteq> Some t"
    by (rule ipc_block_upd[OF inv t h fl tm, of ?f]) (auto simp: attr_ok_def)
  have ready: "\<nexists>p. h = Ready p" using waiting_not_ready[OF h] by auto
  then have m: "t \<in> set (tl s' h)" using s'(5) by (simp add: set_queued)
  have "cur s' = Some t" if "lock_nest s \<noteq> 0"
    using ipc_block_locked[OF clear_error_kinv[OF inv] _ _ h fl tm _ s'(1)] t that by simp
  moreover have "ipc_block h t fl' time' (upd_thr t (\<lambda>th. th\<lparr>error := e\<rparr>) s') = None" for e fl' time'
    by (rule ipc_block_twice) (use s'(4) m in simp_all)
  ultimately show thesis using s' m by (intro that[of s']) (auto simp: set_stat_def)
qed

text \<open>
  The shape of the loops of the mailbox, the message queue and the memory pool: as long as
  \<open>blocked\<close> holds, a turn with time left waits in \<open>h\<close>. The scheduler locked, the second turn
  links the thread a second time.
\<close>

definition waits_in :: "lhead \<Rightarrow> tid \<Rightarrow> u8 \<Rightarrow> u32 \<Rightarrow> 'a kernel_scheme \<Rightarrow> 'a kernel_scheme \<Rightarrow> bool" where
  "waits_in h t flag time s s' \<longleftrightarrow>
     tl s' h = queued flag (\<lambda>u. current_priority (thr s u)) t (tl s h) \<and>
     (\<forall>k. (\<forall>p. k \<noteq> Ready p) \<and> k \<noteq> h \<longrightarrow> tl s' k = tl s k) \<and>
     (0 < sint time \<longrightarrow> ThreadTimer t \<in> set (timer_list s') \<and> due (tick s') s' (ThreadTimer t) = unat time) \<and>
     ktimer.more s' = ktimer.more s \<and> tick s' = tick s \<and>
     (\<forall>i. objs s' (IpcObj i) = objs s (IpcObj i)) \<and> (\<forall>p. objs s' (MemPoolObj p) = objs s (MemPoolObj p))"

lemmas in_thread = rt_debug_in_thread_context_def rt_debug_not_in_interrupt_def rt_thread_self_def rt_tick_get_def

locale wait_loop =
  fixes L :: "u32 \<Rightarrow> 'a kernel_scheme \<Rightarrow> ('a kernel_scheme \<times> 'r call) option"
    and h :: lhead and flag :: "'a kernel_scheme \<Rightarrow> u8" and t :: tid and fail :: "rt_err \<Rightarrow> 'r"
    and blocked :: "'a kernel_scheme \<Rightarrow> bool" and again :: "u32 \<Rightarrow> u32 \<Rightarrow> u32 \<Rightarrow> u32"
  assumes waits: "waiting_list h"
    and blocked_more: "ktimer.more s' = ktimer.more s \<Longrightarrow> blocked s' = blocked s"
    and turn: "blocked s \<Longrightarrow> time \<noteq> 0 \<Longrightarrow> cur s = Some t \<Longrightarrow> irq_nest s = 0 \<Longrightarrow>
      L time s = do {
        s2 \<leftarrow> ipc_block h t (flag s) time (upd_thr t (\<lambda>th. th\<lparr>error := RT_EOK\<rparr>) s);
        if cur s2 \<noteq> Some t then Some (s2, Blocks)
        else if error (thr s2 t) \<noteq> RT_EOK then Some (s2, Returns (fail (error (thr s2 t))))
        else L (again time (tick s) (tick s2)) s2 }"
    and again_same: "again time n n = time"
begin

lemma outcomes:
  assumes inv: "kinv {} b s" and t: "cur s = Some t" "tstat s t = RT_THREAD_READY" and irq: "irq_nest s = 0"
    and tm: "time_ok time" and bl: "blocked s"
    and fl: "flag s = RT_IPC_FLAG_FIFO \<or> flag s = RT_IPC_FLAG_PRIO"
  shows "lock_nest s \<noteq> 0 \<Longrightarrow> L time s = None"
    "lock_nest s = 0 \<Longrightarrow> u \<noteq> t \<Longrightarrow> tstat s u = RT_THREAD_READY \<Longrightarrow>
       \<exists>s'. L time s = Some (s', Blocks) \<and> kinv {} b s' \<and> waits_in h t (flag s) time s s'"
proof -
  let ?fl = "flag s"
  obtain s' where s': "ipc_block h t ?fl time (upd_thr t (\<lambda>th. th\<lparr>error := RT_EOK\<rparr>) s) = Some s'" "kinv {} b s'" "tick s' = tick s"
    "\<And>k. (\<nexists>p. k = Ready p) \<Longrightarrow> tl s' k =
       (if k = h then queued ?fl (\<lambda>u. current_priority (thr s u)) t (tl s h) else tl s k)"
    "\<And>i. objs s' (IpcObj i) = objs s (IpcObj i)" "\<And>p. objs s' (MemPoolObj p) = objs s (MemPoolObj p)"
    "ktimer.more s' = ktimer.more s" "irq_nest s' = irq_nest s" "error (thr s' t) = RT_EOK"
    "0 < sint time \<Longrightarrow> ThreadTimer t \<in> set (timer_list s') \<and> due (tick s') s' (ThreadTimer t) = unat time"
    "\<And>u. lock_nest s = 0 \<Longrightarrow> u \<noteq> t \<Longrightarrow> tstat s u = RT_THREAD_READY \<Longrightarrow> cur s' \<noteq> Some t"
    "lock_nest s \<noteq> 0 \<Longrightarrow> cur s' = Some t"
    "\<And>e fl' time'. ipc_block h t fl' time' (upd_thr t (\<lambda>th. th\<lparr>error := e\<rparr>) s') = None"
    by (rule ipc_wait_outcomes[OF inv t waits fl tm]) (auto simp del: upd_thr_sel)
  have t0: "time \<noteq> 0" using tm by (simp add: time_ok_def)
  have loop: "L time s = (if cur s' \<noteq> Some t then Some (s', Blocks) else L time s')"
    using turn[OF bl t0 t(1) irq] s'(1,3,9) by (simp add: again_same)
  have "L time s' = None" if "cur s' = Some t"
    using turn[of s' time] blocked_more[OF s'(7)] bl t0 that irq s'(8,13) by simp
  then show "lock_nest s \<noteq> 0 \<Longrightarrow> L time s = None" using loop s'(12) by simp
  assume "lock_nest s = 0" "u \<noteq> t" "tstat s u = RT_THREAD_READY"
  then have "cur s' \<noteq> Some t" by (rule s'(11))
  moreover have "\<nexists>p. h = Ready p" using waiting_not_ready[OF waits] by auto
  ultimately show "\<exists>s'. L time s = Some (s', Blocks) \<and> kinv {} b s' \<and> waits_in h t ?fl time s s'"
    using s' loop by (intro exI[of _ s']) (auto simp: waits_in_def)
qed

end

section \<open>Waking\<close>

lemma rt_ipc_list_resume_ok:
  assumes inv: "kinv {} b s" and h: "waiting_list h" and l: "tl s h = t # ts"
  shows "rt_ipc_list_resume h s = Some (resume_state t s, RT_EOK)" "kinv {} b (resume_state t s)"
    "(\<nexists>p. k = Ready p) \<Longrightarrow> tl (resume_state t s) k = (if k = h then ts else tl s k)"
proof -
  have t: "tstat s t = RT_THREAD_SUSPEND" using waiting_member[OF inv h] l by simp
  note res = rt_thread_resume_ok[OF inv t]
  show "rt_ipc_list_resume h s = Some (resume_state t s, RT_EOK)"
    using res(1) l by (simp add: rt_ipc_list_resume_def)
  show "kinv {} b (resume_state t s)" using res(2) .
  have lo: "lists_ok (tl s)" using sched_invD(1)[OF kinvD(1)[OF inv]] .
  then have "t \<notin> set ts" using l unfolding lists_ok_def by (metis distinct.simps(2))
  moreover have "k \<noteq> h \<Longrightarrow> removeAll t (tl s k) = tl s k"
    using lists_ok_other[OF lo, of t h k] l by simp
  ultimately show "tl (resume_state t s) k = (if k = h then ts else tl s k)" if "\<nexists>p. k = Ready p"
    using that l by (auto simp: ls_insert_before_def)
qed

lemma resume_state_heap [simp]:
  "heap (resume_state t s) = heap s" "olists (resume_state t s) = olists s"
  by (simp_all add: resume_state_def)

text \<open>
  Waking one thread and scheduling, as the releasing calls do: the woken thread is ready, and
  when it has the highest priority it runs at once.
\<close>

lemma wake_schedule_ok:
  assumes inv: "kinv {} b s" and h: "waiting_list h" and l: "tl s h = t # ts" and c: "cur s = Some c"
  obtains s' where "rt_schedule (resume_state t s) = Some s'" "kinv {} b s'"
    "thr s' = (thr s)(t := set_stat RT_THREAD_READY (thr s t))"
    "\<And>u. tstat s' u = (if u = t then RT_THREAD_READY else tstat s u)"
    "\<And>k. (\<nexists>p. k = Ready p) \<Longrightarrow> tl s' k = (if k = h then ts else tl s k)"
    "\<And>i. objs s' (IpcObj i) = objs s (IpcObj i)" "\<And>p. objs s' (MemPoolObj p) = objs s (MemPoolObj p)"
    "ktimer.more s' = ktimer.more s" "tick s' = tick s" "lock_nest s' = lock_nest s"
    "irq_nest s' = irq_nest s" "heap s' = heap s" "prio_max s' = prio_max s"
    "timer_list s' = removeAll (ThreadTimer t) (timer_list s)" "cur s' \<noteq> None"
    "lock_nest s = 0 \<Longrightarrow> (\<And>u. tstat s u = RT_THREAD_READY \<Longrightarrow> prio_of s t < prio_of s u) \<Longrightarrow> cur s' = Some t"
proof -
  let ?s1 = "resume_state t s"
  note res = rt_ipc_list_resume_ok[OF inv h l]
  have t: "tstat s t = RT_THREAD_SUSPEND" using waiting_member[OF inv h] l by simp
  have c1: "cur ?s1 = Some c" using c by simp
  obtain s' where s': "rt_schedule ?s1 = Some s'" "kinv {} b s'" "thr s' = thr ?s1" "cur s' \<noteq> None"
    "objs s' = objs ?s1" "olists s' = olists ?s1" "heap s' = heap ?s1" "kbase.more s' = kbase.more ?s1"
    "lock_nest s' = lock_nest ?s1" "irq_nest s' = irq_nest ?s1" "prio_max s' = prio_max ?s1"
    "\<And>h. (\<nexists>p. h = Ready p) \<Longrightarrow> tl s' h = tl ?s1 h"
    by (rule rt_schedule_kinv[OF res(2) c1], rule that)
  note more = ktimer_more_eq[OF s'(8)]
  have ts: "tstat s' u = (if u = t then RT_THREAD_READY else tstat s u)" for u
    using s'(3) by (simp add: tstat_def)
  have "cur s' = Some t" if l: "lock_nest s = 0" and hi: "\<And>u. tstat s u = RT_THREAD_READY \<Longrightarrow> prio_of s t < prio_of s u"
  proof -
    obtain c' where c': "cur s' = Some c'" "tstat ?s1 c' = RT_THREAD_READY" "prio_of ?s1 c' \<le> prio_of ?s1 t"
      using rt_schedule_picks[OF kinvD(1)[OF res(2)] c1 _ _ s'(1), of t] l by auto
    show ?thesis
    proof (cases "c' = t")
      case False
      then show ?thesis using hi[of c'] c' by simp
    qed (use c' in simp)
  qed
  moreover have "tl s' k = (if k = h then ts else tl s k)" if "\<nexists>p. k = Ready p" for k
    using s'(12)[OF that] res(3)[OF that] by simp
  ultimately show thesis
    using s' ts more rt_thread_resume_ok(3)[OF inv t] by (intro that) auto
qed

text \<open>Waking the first thread of a list, if there is one, as both calls do at their end.\<close>

lemma wake_first_ok:
  fixes s :: "'a kernel_scheme"
  assumes inv: "kinv {} b s" and h: "waiting_list h" and c: "cur s = Some c"
  obtains s' where "(if tl s h \<noteq> [] then do { (s2, _) \<leftarrow> rt_ipc_list_resume h s; rt_schedule s2 } else Some s) = Some s'"
    "kinv {} b s'" "\<And>k. (\<nexists>p. k = Ready p) \<Longrightarrow> tl s' k = (if k = h then List.tl (tl s h) else tl s k)"
    "\<And>u. error (thr s' u) = error (thr s u)" "\<And>i. objs s' (IpcObj i) = objs s (IpcObj i)"
    "ktimer.more s' = ktimer.more s" "cur s' \<noteq> None" "tick s' = tick s"
    "\<And>w ws. tl s h = w # ws \<Longrightarrow> tstat s' w = RT_THREAD_READY"
proof (cases "tl s h")
  case Nil
  then show thesis using inv c by (intro that[of s]) auto
next
  case (Cons w ws)
  obtain s' where s': "rt_schedule (resume_state w s) = Some s'" "kinv {} b s'"
    "thr s' = (thr s)(w := set_stat RT_THREAD_READY (thr s w))"
    "\<And>u. tstat s' u = (if u = w then RT_THREAD_READY else tstat s u)"
    "\<And>k. (\<nexists>p. k = Ready p) \<Longrightarrow> tl s' k = (if k = h then ws else tl s k)"
    "\<And>i. objs s' (IpcObj i) = objs s (IpcObj i)" "ktimer.more s' = ktimer.more s" "cur s' \<noteq> None" "tick s' = tick s"
    by (rule wake_schedule_ok[OF inv h Cons c]) blast
  have r: "rt_ipc_list_resume h s = Some (resume_state w s, RT_EOK)"
    by (rule rt_ipc_list_resume_ok(1)[OF inv h Cons])
  show thesis by (rule that[of s']) (use Cons r s' in auto)
qed

definition all_resumed :: "lhead \<Rightarrow> 'a ktimer_scheme \<Rightarrow> 'a ktimer_scheme \<Rightarrow> bool" where
  "all_resumed h s s' \<longleftrightarrow>
     tl s' h = [] \<and> (\<forall>k. (\<nexists>p. k = Ready p) \<longrightarrow> k \<noteq> h \<longrightarrow> tl s' k = tl s k) \<and>
     (\<forall>u. if u \<in> set (tl s h)
          then tstat s' u = RT_THREAD_READY \<and> error (thr s' u) = - RT_ERROR \<and> prio_of s' u = prio_of s u
          else thr s' u = thr s u) \<and>
     cur s' = cur s \<and> tick s' = tick s \<and> lock_nest s' = lock_nest s \<and> irq_nest s' = irq_nest s \<and>
     heap s' = heap s \<and> olists s' = olists s \<and> prio_max s' = prio_max s \<and> ktimer.more s' = ktimer.more s \<and>
     (\<forall>i. objs s' (IpcObj i) = objs s (IpcObj i)) \<and> (\<forall>p. objs s' (MemPoolObj p) = objs s (MemPoolObj p))"

lemma rt_ipc_list_resume_all_ok:
  assumes "kinv {} b s" "waiting_list h"
  shows "\<exists>s'. rt_ipc_list_resume_all h s = Some (s', RT_EOK) \<and> kinv {} b s' \<and> all_resumed h s s'"
  using assms
proof (induction "tl s h" arbitrary: s)
  case Nil
  then show ?case
    by (subst rt_ipc_list_resume_all.simps) (auto simp: all_resumed_def split: list.split)
next
  case (Cons t ts)
  let ?s1 = "upd_thr t (\<lambda>th. th\<lparr>error := - RT_ERROR\<rparr>) s"
  have l: "tl ?s1 h = t # ts" using Cons.hyps(2) by simp
  have k1: "kinv {} b ?s1" by (rule kinv_upd_same[OF Cons.prems(1)]) (simp_all add: attr_ok_def)
  note res = rt_ipc_list_resume_ok[OF k1 Cons.prems(2) l]
  have t: "tstat ?s1 t = RT_THREAD_SUSPEND" using waiting_member[OF k1 Cons.prems(2)] l by simp
  let ?s2 = "resume_state t ?s1"
  have l2: "ts = tl ?s2 h" using res(3)[OF waiting_not_ready[OF Cons.prems(2)]] by (simp del: resume_state_sel)
  obtain s' where s': "rt_ipc_list_resume_all h ?s2 = Some (s', RT_EOK)" "kinv {} b s'" "all_resumed h ?s2 s'"
    using Cons.hyps(1)[OF l2 res(2) Cons.prems(2)] by blast
  have d: "t \<notin> set ts"
    using sched_invD(1)[OF kinvD(1)[OF k1]] l unfolding lists_ok_def by (metis distinct.simps(2))
  have "rt_ipc_list_resume_all h s = Some (s', RT_EOK)"
    using s'(1) rt_thread_resume_ok(1)[OF k1 t] Cons.hyps(2)[symmetric]
    by (simp add: rt_ipc_list_resume_all.simps[of h s])
  moreover have "all_resumed h s s'"
  proof -
    note r = s'(3)[unfolded all_resumed_def l2[symmetric]]
    have more: "ktimer.more ?s1 = ktimer.more s" by (simp add: upd_thr_def)
    have th: "thr ?s2 = (thr s)(t := set_stat RT_THREAD_READY ((thr s t)\<lparr>error := - RT_ERROR\<rparr>))" by simp
    have tl2: "tl ?s2 k = tl s k" if "\<nexists>p. k = Ready p" "k \<noteq> h" for k using res(3)[OF that(1)] that(2) by simp
    have ne: "\<And>u. u \<in> set ts \<Longrightarrow> prio_of ?s2 u = prio_of s u" using d by (auto simp: prio_of_def)
    have "if u \<in> set (t # ts)
          then tstat s' u = RT_THREAD_READY \<and> error (thr s' u) = - RT_ERROR \<and> prio_of s' u = prio_of s u
          else thr s' u = thr s u" for u
    proof (cases "u = t")
      case True
      then have "thr s' u = thr ?s2 t" using r d by auto
      then show ?thesis using True by (simp add: th tstat_def prio_of_def)
    next
      case False
      then show ?thesis using r ne[of u] by (cases "u \<in> set ts") (auto simp: th)
    qed
    then show ?thesis
      using r tl2 more unfolding all_resumed_def Cons.hyps(2)[symmetric]
      by (simp del: resume_state_sel(1,2,10,11))
  qed
  ultimately show ?case using s'(2) by blast
qed

lemma resume_all_kinv:
  assumes "kinv {} b s" "waiting_list h" "rt_ipc_list_resume_all h s = Some (s', r)"
  shows "kinv {} b s'" "all_resumed h s s'"
  using rt_ipc_list_resume_all_ok[OF assms(1,2)] assms(3) by auto

section \<open>Changes of the IPC objects\<close>

text \<open>The kernel invariant reads the objects of threads and timers only.\<close>

lemma kinv_cong_objs:
  fixes s s' :: "'a ktimer_scheme"
  assumes "thr s' = thr s" "tl s' = tl s" "ready_group s' = ready_group s" "ready_table s' = ready_table s"
    "cur s' = cur s" "prio_max s' = prio_max s" "tick s' = tick s" "timers s' = timers s"
    "timer_list s' = timer_list s"
    and ob: "\<And>t. objs s' (ThreadObj t) = objs s (ThreadObj t)" "\<And>u. objs s' (TimerObj u) = objs s (TimerObj u)"
  shows "kinv X b s' = kinv X b s"
proof -
  have ty: "tstat s' = tstat s" "rt_object_get_type (ThreadObj t) s' = rt_object_get_type (ThreadObj t) s"
    "rt_object_get_type (TimerObj u) s' = rt_object_get_type (TimerObj u) s"
    "rt_object_is_systemobject (TimerObj u) s' = rt_object_is_systemobject (TimerObj u) s"
    "periodic s' = periodic s" "active s' = active s" for t u
    using assms by (auto simp: tstat_def rt_object_get_type_def rt_object_is_systemobject_def periodic_def
        active_def timer_flag_def fun_eq_iff)
  then have "threads_ok s' = threads_ok s" "timers_wf s' = timers_wf s"
    using assms(1-9) by (simp_all add: threads_ok_def live_def thread_obj_ok_def timers_wf_def timer_ok_def)
  then show ?thesis
    using assms(1-9) sched_inv_cong[of s' s] timer_inv_cong[of s' s] by (simp add: kinv_def thread_inv_def)
qed

lemma kinv_cong:
  fixes s s' :: "'a ktimer_scheme"
  assumes "thr s' = thr s" "tl s' = tl s" "ready_group s' = ready_group s" "ready_table s' = ready_table s"
    "cur s' = cur s" "prio_max s' = prio_max s" "objs s' = objs s" "tick s' = tick s" "timers s' = timers s"
    "timer_list s' = timer_list s"
  shows "kinv X b s' = kinv X b s"
  by (rule kinv_cong_objs) (simp_all add: assms)

lemma kinv_ipc_object [simp]:
  "kinv X b (set_oflag (IpcObj i) flag s) = kinv X b s"
  "kinv X b (rt_object_detach (IpcObj i) s) = kinv X b s"
  "kinv X b (set_oflag (MemPoolObj p) flag s) = kinv X b s"
  "kinv X b (rt_object_detach (MemPoolObj p) s) = kinv X b s"
  by (rule kinv_cong_objs; simp add: set_oflag_def rt_object_detach_def)+

lemma kinv_object_init:
  "rt_object_init (IpcObj i) ty nm s = Some s' \<Longrightarrow> kinv X b s' = kinv X b s"
  "rt_object_init (MemPoolObj p) ty nm s = Some s' \<Longrightarrow> kinv X b s' = kinv X b s"
  by (rule kinv_cong_objs; auto simp: rt_object_init_def Option.bind_eq_Some_conv)+

lemma kinv_object_delete:
  "rt_object_delete (IpcObj i) s = Some s' \<Longrightarrow> kinv X b s' = kinv X b s"
  "rt_object_delete (MemPoolObj p) s = Some s' \<Longrightarrow> kinv X b s' = kinv X b s"
  by (rule kinv_cong_objs; auto simp: rt_object_delete_def kernel_free_def rt_debug_not_in_interrupt_def Option.bind_eq_Some_conv)+

lemma kinv_heap: "kinv X b (s\<lparr>heap := H\<rparr>) = kinv X b s"
  by (rule kinv_cong) simp_all

text \<open>Emptying a list of suspended threads forgets them, but breaks nothing else.\<close>

lemma kinv_list_init:
  assumes inv: "kinv X b s" and h: "waiting_list h"
  shows "kinv X b (rt_ipc_object_init h s)"
proof -
  have R: "h \<noteq> Ready p" for p using waiting_not_ready[OF h] by blast
  let ?s = "rt_ipc_object_init h s"
  have tr: "tstat ?s = tstat s" "prio_of ?s = prio_of s" "tl ?s = (tl s)(h := [])" "cur ?s = cur s"
    "prio_max ?s = prio_max s" "thr ?s = thr s" "ready_group ?s = ready_group s" "ready_table ?s = ready_table s"
    by (simp_all add: rt_ipc_object_init_def tstat_def prio_of_def fun_eq_iff)
  have "lists_ok ((tl s)(h := []))"
    using sched_invD(1)[OF kinvD(1)[OF inv]] by (auto simp: lists_ok_def)
  then have "queue_ok X ?s"
    using sched_invD(4)[OF kinvD(1)[OF inv]] R unfolding queue_ok_def tr by (auto simp: unlinked_def)
  moreover have "bitmap_ok ?s"
    using sched_invD(3)[OF kinvD(1)[OF inv]] R by (simp add: bitmap_ok_def tr) metis
  ultimately have "sched_inv X ?s" using sched_invD(2)[OF kinvD(1)[OF inv]] by (simp add: sched_inv_def tr)
  then show ?thesis
    by (rule kinv_schedI[OF inv]) (simp_all add: rt_ipc_object_init_def tstat_def)
qed

lemma kinv_objects [simp]:
  "kinv X b (sems_update f1 s) = kinv X b s"
  "kinv X b (mutexes_update f2 s) = kinv X b s"
  "kinv X b (events_update f3 s) = kinv X b s"
  "kinv X b (mailboxes_update f4 s) = kinv X b s"
  "kinv X b (mqueues_update f5 s) = kinv X b s"
  "kinv X b (mempools_update f6 s) = kinv X b s"
  by (rule kinv_cong; simp)+

lemma tstat_objects [simp]:
  "tstat (sems_update f1 s) t = tstat s t"
  "tstat (mutexes_update f2 s) t = tstat s t"
  "tstat (events_update f3 s) t = tstat s t"
  "tstat (mailboxes_update f4 s) t = tstat s t"
  "tstat (mqueues_update f5 s) t = tstat s t"
  "tstat (mempools_update f6 s) t = tstat s t"
  by (simp_all add: tstat_def)

lemma prio_of_objects [simp]:
  "prio_of (sems_update f1 s) t = prio_of s t"
  "prio_of (mutexes_update f2 s) t = prio_of s t"
  "prio_of (events_update f3 s) t = prio_of s t"
  "prio_of (mailboxes_update f4 s) t = prio_of s t"
  "prio_of (mqueues_update f5 s) t = prio_of s t"
  "prio_of (mempools_update f6 s) t = prio_of s t"
  by (simp_all add: prio_of_def)

lemma type_objects [simp]:
  "rt_object_get_type x (sems_update f1 s) = rt_object_get_type x s"
  "rt_object_is_systemobject x (sems_update f1 s) = rt_object_is_systemobject x s"
  "rt_object_get_type x (mutexes_update f2 s) = rt_object_get_type x s"
  "rt_object_is_systemobject x (mutexes_update f2 s) = rt_object_is_systemobject x s"
  "rt_object_get_type x (events_update f3 s) = rt_object_get_type x s"
  "rt_object_is_systemobject x (events_update f3 s) = rt_object_is_systemobject x s"
  "rt_object_get_type x (mailboxes_update f4 s) = rt_object_get_type x s"
  "rt_object_is_systemobject x (mailboxes_update f4 s) = rt_object_is_systemobject x s"
  "rt_object_get_type x (mqueues_update f5 s) = rt_object_get_type x s"
  "rt_object_is_systemobject x (mqueues_update f5 s) = rt_object_is_systemobject x s"
  "rt_object_get_type x (mempools_update f6 s) = rt_object_get_type x s"
  "rt_object_is_systemobject x (mempools_update f6 s) = rt_object_is_systemobject x s"
  by (simp_all add: rt_object_get_type_def rt_object_is_systemobject_def)

text \<open>Two states that agree on the extension of the kernel agree on every IPC object.\<close>

lemma kernel_more_eq:
  assumes "ktimer.more s' = ktimer.more (s :: 'a kernel_scheme)"
  shows "sems s' = sems s" "mutexes s' = mutexes s" "events s' = events s" "mailboxes s' = mailboxes s" "mqueues s' = mqueues s" "mempools s' = mempools s"
  using assms by (cases s; cases s'; simp)+

lemma upd_thr_objects [simp]:
  "sems (upd_thr t f s) = sems s"
  "mutexes (upd_thr t f s) = mutexes s"
  "events (upd_thr t f s) = events s"
  "mailboxes (upd_thr t f s) = mailboxes s"
  "mqueues (upd_thr t f s) = mqueues s"
  "mempools (upd_thr t f s) = mempools s"
  by (simp_all add: upd_thr_def)

lemma upd_thr_error_type [simp]:
  "rt_object_get_type x (upd_thr t f s) = rt_object_get_type x s"
  "rt_object_is_systemobject x (upd_thr t f s) = rt_object_is_systemobject x s"
  by (simp_all add: rt_object_get_type_def rt_object_is_systemobject_def)

lemma live_error [simp]: "live (upd_thr t (\<lambda>th. th\<lparr>error := e\<rparr>) s) u = live s u"
  by (simp add: live_def)

section \<open>A sample kernel\<close>

text \<open>
  The kernel of \<open>demo_kernel\<close> with IPC objects: semaphores at 0, mutex 0 owned by thread 4, the
  other mutexes free, no events, empty mailboxes of two words, empty message queues of two
  blocks of four bytes, and memory pools of two free blocks.
\<close>

definition demo_ipc :: kernel where
  "demo_ipc = demo_kernel (kernel.fields
     (\<lambda>_. \<lparr>sem_value = 0\<rparr>)
     (\<lambda>n. if n = 0 then \<lparr>mutex_value = 0, original_priority = 9, hold = 1, owner = Some 4\<rparr>
          else \<lparr>mutex_value = 1, original_priority = 0xff, hold = 0, owner = None\<rparr>)
     (\<lambda>_. \<lparr>ev_set = 0\<rparr>)
     (\<lambda>_. \<lparr>mb_msg_pool = [0, 0], mb_size = 2, mb_entry = 0, mb_in_offset = 0, mb_out_offset = 0\<rparr>)
     (\<lambda>_. \<lparr>mq_pool_null = False, msg_size = 4, max_msgs = 2, mq_entry = 0, msg_queue_head = None,
           msg_queue_tail = None, msg_queue_free = Some 1, mq_next = (\<lambda>i. if i = 1 then Some 0 else None),
           mq_data = (\<lambda>_. [0, 0, 0, 0])\<rparr>)
     (\<lambda>_. \<lparr>mp_size = 16, block_size = 4, block_list = Some 0, block_total_count = 2, block_free_count = 2,
           suspend_thread_count = 0, mp_words = (\<lambda>i. NextFree (if i = 0 then Some 1 else None))\<rparr>))"

lemma demo_ipc_inv: "kinv {} 100 demo_ipc"
  unfolding demo_ipc_def by (rule demo_kernel_inv)

lemma demo_ipc_sel [simp]:
  "sems demo_ipc n = \<lparr>sem_value = 0\<rparr>"
  "mutexes demo_ipc n = (if n = 0 then \<lparr>mutex_value = 0, original_priority = 9, hold = 1, owner = Some 4\<rparr>
     else \<lparr>mutex_value = 1, original_priority = 0xff, hold = 0, owner = None\<rparr>)"
  "events demo_ipc n = \<lparr>ev_set = 0\<rparr>"
  "mailboxes demo_ipc n =
     \<lparr>mb_msg_pool = [0, 0], mb_size = 2, mb_entry = 0, mb_in_offset = 0, mb_out_offset = 0\<rparr>"
  "mqueues demo_ipc n =
     \<lparr>mq_pool_null = False, msg_size = 4, max_msgs = 2, mq_entry = 0, msg_queue_head = None,
      msg_queue_tail = None, msg_queue_free = Some 1, mq_next = (\<lambda>i. if i = 1 then Some 0 else None),
      mq_data = (\<lambda>_. [0, 0, 0, 0])\<rparr>"
  "mempools demo_ipc n =
     \<lparr>mp_size = 16, block_size = 4, block_list = Some 0, block_total_count = 2, block_free_count = 2,
      suspend_thread_count = 0, mp_words = (\<lambda>i. NextFree (if i = 0 then Some 1 else None))\<rparr>"
  by (simp_all add: demo_ipc_def demo_kernel_def kernel.defs)

lemma demo_ipc_kernel [simp]:
  "tstat demo_ipc t = (if t = 1 \<or> t = 2 \<or> t = 4 then RT_THREAD_READY
     else if t = 3 then RT_THREAD_SUSPEND else RT_THREAD_INIT)"
  "prio_of demo_ipc t = (if t = 1 \<or> t = 2 then 5 else if t = 3 then 3 else if t = 4 then 9 else 0)"
  "cur demo_ipc = Some 1" "lock_nest demo_ipc = 0" "irq_nest demo_ipc = 0" "tick demo_ipc = 100"
  by (simp_all add: demo_ipc_def demo_kernel_stat)

lemma demo_ipc_lists [simp]:
  "tl demo_ipc (Suspended i) = (if i = SemId 0 then [3] else [])" "tl demo_ipc (SuspendedSender n) = []"
  "tl demo_ipc (SuspendedPool n) = []" "prio_max demo_ipc = 32"
  "current_priority (thr demo_ipc t) = (if t = 1 \<or> t = 2 then 5 else if t = 3 then 3 else if t = 4 then 9 else 0)"
  "error (thr demo_ipc t) = RT_EOK"
  by (simp_all add: demo_ipc_def demo_kernel_def idle_thread_def)

lemma demo_ipc_types [simp]:
  "rt_object_get_type (ThreadObj t) demo_ipc = RT_Object_Class_Thread"
  "rt_object_get_type (IpcObj (SemId n)) demo_ipc = RT_Object_Class_Semaphore"
  "rt_object_get_type (IpcObj (MutexId n)) demo_ipc = RT_Object_Class_Mutex"
  "rt_object_get_type (IpcObj (EventId n)) demo_ipc = RT_Object_Class_Event"
  "rt_object_get_type (IpcObj (MailBoxId n)) demo_ipc = RT_Object_Class_MailBox"
  "rt_object_get_type (IpcObj (MessageQueueId n)) demo_ipc = RT_Object_Class_MessageQueue"
  "rt_object_get_type (MemPoolObj n) demo_ipc = RT_Object_Class_MemPool"
  "oflag (objs demo_ipc (IpcObj i)) = RT_IPC_FLAG_FIFO"
  by (simp_all add: demo_ipc_def demo_kernel_def rt_object_get_type_def split: ipc_id.splits)

text \<open>The same kernel with thread 3 waiting in another list.\<close>

definition relink :: "lhead \<Rightarrow> tid \<Rightarrow> 'a kbase_scheme \<Rightarrow> 'a kbase_scheme" where
  "relink h t s = s\<lparr>tl := ls_insert_before h t (ls_remove t (tl s))\<rparr>"

lemma kinv_relink:
  assumes inv: "kinv {} b s" and t: "tstat s t = RT_THREAD_SUSPEND" and h: "waiting_list h"
  shows "kinv {} b (relink h t s)"
proof -
  let ?s1 = "s\<lparr>tl := ls_remove t (tl s)\<rparr>"
  have "kinv {t} b ?s1" using kinv_unlink[OF inv, of t] t by simp
  then have s1: "sched_inv {t} ?s1" by (rule kinvD(1))
  have "lists_ok (ls_insert_before h t (ls_remove t (tl s)))"
    using lists_ok_insert_before[OF sched_invD(1)[OF s1]] by simp
  then have "sched_inv ({t} - {t}) (?s1\<lparr>tl := ls_insert_before h t (ls_remove t (tl s))\<rparr>)"
    by (intro sched_inv_link[OF s1, where h = h]) (use t h waiting_not_ready[OF h] in \<open>auto simp: tstat_def ls_insert_before_def\<close>)
  then have "sched_inv {} (relink h t s)" by (simp add: relink_def)
  then show ?thesis by (rule kinv_schedI[OF inv]) (simp_all add: relink_def tstat_def)
qed

definition demo_wait :: "lhead \<Rightarrow> kernel" where
  "demo_wait h = relink h 3 demo_ipc"

lemma demo_wait_inv: "waiting_list h \<Longrightarrow> kinv {} 100 (demo_wait h)"
  unfolding demo_wait_def by (rule kinv_relink[OF demo_ipc_inv]) simp_all

lemma demo_wait_sel [simp]:
  "thr (demo_wait h) = thr demo_ipc" "cur (demo_wait h) = Some 1" "lock_nest (demo_wait h) = 0"
  "irq_nest (demo_wait h) = 0" "tick (demo_wait h) = 100" "objs (demo_wait h) = objs demo_ipc"
  "prio_max (demo_wait h) = 32" "tstat (demo_wait h) t = tstat demo_ipc t" "prio_of (demo_wait h) t = prio_of demo_ipc t"
  "rt_object_get_type x (demo_wait h) = rt_object_get_type x demo_ipc"
  "sems (demo_wait h) = sems demo_ipc" "mutexes (demo_wait h) = mutexes demo_ipc" "events (demo_wait h) = events demo_ipc"
  "mailboxes (demo_wait h) = mailboxes demo_ipc" "mqueues (demo_wait h) = mqueues demo_ipc"
  "mempools (demo_wait h) = mempools demo_ipc"
  by (simp_all add: demo_wait_def relink_def tstat_def prio_of_def rt_object_get_type_def del: demo_ipc_kernel(1,2) demo_ipc_lists(5))

lemma demo_wait_lists [simp]:
  "tl (demo_wait h) (Suspended i) = (if h = Suspended i then [3] else [])"
  "tl (demo_wait h) (SuspendedSender n) = (if h = SuspendedSender n then [3] else [])"
  "tl (demo_wait h) (SuspendedPool n) = (if h = SuspendedPool n then [3] else [])"
  by (simp_all add: demo_wait_def relink_def ls_insert_before_def)

text \<open>And with further fields.\<close>

definition demo_dev :: "lhead \<Rightarrow> 'x \<Rightarrow> 'x kernel_scheme" where
  "demo_dev h x = relink h 3 (kernel.extend demo_ipc x)"

lemma demo_dev_inv: "waiting_list h \<Longrightarrow> kinv {} 100 (demo_dev h x)"
proof -
  assume h: "waiting_list h"
  have e: "kernel.extend demo_ipc x = demo_kernel (ktimer.more (kernel.extend demo_ipc x))"
    by (simp add: demo_ipc_def demo_kernel_def kernel.defs)
  have "tstat (kernel.extend demo_ipc x) 3 = RT_THREAD_SUSPEND" by (subst e) (simp add: demo_kernel_stat)
  moreover have "kinv {} 100 (kernel.extend demo_ipc x)" by (subst e) (rule demo_kernel_inv)
  ultimately show ?thesis unfolding demo_dev_def by (intro kinv_relink h)
qed

lemma demo_dev_sel [simp]:
  "thr (demo_dev h x) = thr demo_ipc" "cur (demo_dev h x) = Some 1" "lock_nest (demo_dev h x) = 0"
  "irq_nest (demo_dev h x) = 0" "tick (demo_dev h x) = 100" "tstat (demo_dev h x) t = tstat demo_ipc t"
  "prio_of (demo_dev h x) t = prio_of demo_ipc t" "kernel.more (demo_dev h x) = x"
  "tl (demo_dev h x) (SuspendedDev d) = (if h = SuspendedDev d then [3] else [])"
  by (simp_all add: demo_dev_def relink_def tstat_def prio_of_def ls_insert_before_def demo_ipc_def demo_kernel_def kernel.defs)

end
