(* ===== verification/Semaphore.thy ===== *)
theory Semaphore
  imports Ipc
begin

unbundle bit_operations_syntax

text \<open>
  The semaphores of \<^verbatim>\<open>src/ipc.c\<close>. \<open>sem_quiet\<close> is what keeps a wake-up from being lost: as
  long as threads wait the value is 0. A call that blocks continues, once the thread is
  scheduled again, with \<open>rt_sem_take_end\<close>.
\<close>

section \<open>Definitions\<close>

abbreviation sem_list :: "nat \<Rightarrow> lhead" where "sem_list n \<equiv> Suspended (SemId n)"
abbreviation sem_obj :: "nat \<Rightarrow> oid" where "sem_obj n \<equiv> IpcObj (SemId n)"

definition set_sem :: "nat \<Rightarrow> u16 \<Rightarrow> 'a kernel_scheme \<Rightarrow> 'a kernel_scheme" where
  "set_sem n v s = s\<lparr>sems := (sems s)(n := \<lparr>sem_value = v\<rparr>)\<rparr>"

definition rt_sem_init ::
  "nat \<Rightarrow> u8 list \<Rightarrow> u32 \<Rightarrow> u8 \<Rightarrow> 'a kernel_scheme \<Rightarrow> ('a kernel_scheme \<times> rt_err) option" where
  "rt_sem_init n nm value flag s = do {
     s1 \<leftarrow> rt_object_init (sem_obj n) RT_Object_Class_Semaphore nm s;
     let s2 = rt_ipc_object_init (sem_list n) s1;
     let s3 = set_sem n (ucast value) s2;
     Some (set_oflag (sem_obj n) flag s3, RT_EOK)
   }"

definition rt_sem_detach :: "nat \<Rightarrow> 'a kernel_scheme \<Rightarrow> ('a kernel_scheme \<times> rt_err) option" where
  "rt_sem_detach n s = do {
     rt_assert (rt_object_get_type (sem_obj n) s = RT_Object_Class_Semaphore);
     rt_assert (rt_object_is_systemobject (sem_obj n) s);
     (s1, _) \<leftarrow> rt_ipc_list_resume_all (sem_list n) s;
     Some (rt_object_detach (sem_obj n) s1, RT_EOK)
   }"

text \<open>\<open>mem\<close> is the memory the heap has for the object.\<close>

definition rt_sem_create ::
  "u8 list \<Rightarrow> u32 \<Rightarrow> u8 \<Rightarrow> nat option \<Rightarrow> 'a kernel_scheme \<Rightarrow> ('a kernel_scheme \<times> nat option) option" where
  "rt_sem_create nm value flag mem s = do {
     rt_debug_not_in_interrupt s;
     (s1, r) \<leftarrow> rt_object_allocate RT_Object_Class_Semaphore nm (map_option sem_obj mem) s;
     (case r of
        Some (IpcObj (SemId n)) \<Rightarrow>
          let s2 = rt_ipc_object_init (sem_list n) s1;
              s3 = set_sem n (ucast value) s2
          in Some (set_oflag (sem_obj n) flag s3, Some n)
      | _ \<Rightarrow> Some (s1, None))
   }"

definition rt_sem_delete :: "nat \<Rightarrow> 'a kernel_scheme \<Rightarrow> ('a kernel_scheme \<times> rt_err) option" where
  "rt_sem_delete n s = do {
     rt_debug_not_in_interrupt s;
     rt_assert (rt_object_get_type (sem_obj n) s = RT_Object_Class_Semaphore);
     rt_assert (\<not> rt_object_is_systemobject (sem_obj n) s);
     (s1, _) \<leftarrow> rt_ipc_list_resume_all (sem_list n) s;
     s2 \<leftarrow> rt_object_delete (sem_obj n) s1;
     Some (s2, RT_EOK)
   }"

text \<open>The end of \<^verbatim>\<open>rt_sem_take\<close>, after \<^verbatim>\<open>rt_schedule\<close> has returned to the thread.\<close>

definition rt_sem_take_end :: "tid \<Rightarrow> 'a kernel_scheme \<Rightarrow> rt_err" where
  "rt_sem_take_end thread s = (if error (thr s thread) \<noteq> RT_EOK then error (thr s thread) else RT_EOK)"

definition rt_sem_take :: "nat \<Rightarrow> u32 \<Rightarrow> 'a kernel_scheme \<Rightarrow> ('a kernel_scheme \<times> rt_err call) option" where
  "rt_sem_take n time s = do {
     rt_assert (rt_object_get_type (sem_obj n) s = RT_Object_Class_Semaphore);
     if sem_value (sems s n) > 0 then
       Some (set_sem n (sem_value (sems s n) - 1) s, Returns RT_EOK)
     else if time = 0 then Some (s, Returns (- RT_ETIMEOUT))
     else do {
       rt_debug_in_thread_context s;
       thread \<leftarrow> rt_thread_self s;
       let s1 = upd_thr thread (\<lambda>th. th\<lparr>error := RT_EOK\<rparr>) s;
       s2 \<leftarrow> ipc_block (sem_list n) thread (oflag (objs s1 (sem_obj n))) time s1;
       Some (s2, if cur s2 = Some thread then Returns (rt_sem_take_end thread s2) else Blocks)
     }
   }"

definition rt_sem_trytake :: "nat \<Rightarrow> 'a kernel_scheme \<Rightarrow> ('a kernel_scheme \<times> rt_err call) option" where
  "rt_sem_trytake n s = rt_sem_take n 0 s"

definition rt_sem_release :: "nat \<Rightarrow> 'a kernel_scheme \<Rightarrow> ('a kernel_scheme \<times> rt_err) option" where
  "rt_sem_release n s = do {
     rt_assert (rt_object_get_type (sem_obj n) s = RT_Object_Class_Semaphore);
     (s1, need_schedule) \<leftarrow>
       (if tl s (sem_list n) \<noteq> [] then do {
          (s', _) \<leftarrow> rt_ipc_list_resume (sem_list n) s;
          Some (s', True)
        }
        else Some (set_sem n (sem_value (sems s n) + 1) s, False));
     s2 \<leftarrow> (if need_schedule then rt_schedule s1 else Some s1);
     Some (s2, RT_EOK)
   }"

definition rt_sem_control ::
  "nat \<Rightarrow> ipc_cmd \<Rightarrow> 'a kernel_scheme \<Rightarrow> ('a kernel_scheme \<times> rt_err) option" where
  "rt_sem_control n cmd s = do {
     rt_assert (rt_object_get_type (sem_obj n) s = RT_Object_Class_Semaphore);
     (case cmd of
        RT_IPC_CMD_RESET arg \<Rightarrow> do {
          (s1, _) \<leftarrow> rt_ipc_list_resume_all (sem_list n) s;
          let s2 = set_sem n (ucast arg) s1;
          s3 \<leftarrow> rt_schedule s2;
          Some (s3, RT_EOK)
        }
      | IPC_CMD_OTHER \<Rightarrow> Some (s, - RT_ERROR))
   }"

section \<open>Taking and releasing\<close>

definition sem_ok :: "nat \<Rightarrow> 'a kernel_scheme \<Rightarrow> bool" where
  "sem_ok n s \<longleftrightarrow> rt_object_get_type (sem_obj n) s = RT_Object_Class_Semaphore \<and>
     (oflag (objs s (sem_obj n)) = RT_IPC_FLAG_FIFO \<or> oflag (objs s (sem_obj n)) = RT_IPC_FLAG_PRIO) \<and>
     (sem_value (sems s n) > 0 \<longrightarrow> tl s (sem_list n) = [])"

lemma set_sem_sel [simp]:
  "sems (set_sem n v s) = (sems s)(n := \<lparr>sem_value = v\<rparr>)" "thr (set_sem n v s) = thr s"
  "tl (set_sem n v s) = tl s" "cur (set_sem n v s) = cur s" "objs (set_sem n v s) = objs s"
  "lock_nest (set_sem n v s) = lock_nest s" "irq_nest (set_sem n v s) = irq_nest s"
  "tick (set_sem n v s) = tick s" "timer_list (set_sem n v s) = timer_list s"
  "kinv X b (set_sem n v s) = kinv X b s" "tstat (set_sem n v s) t = tstat s t"
  "prio_of (set_sem n v s) t = prio_of s t"
  "rt_object_get_type x (set_sem n v s) = rt_object_get_type x s"
  "rt_object_is_systemobject x (set_sem n v s) = rt_object_is_systemobject x s"
  by (simp_all add: set_sem_def)

lemma sem_ok_cong:
  "objs s' (sem_obj n) = objs s (sem_obj n) \<Longrightarrow> tl s' (sem_list n) = tl s (sem_list n) \<Longrightarrow>
   sems s' n = sems s n \<Longrightarrow> sem_ok n s' = sem_ok n s"
  by (simp add: sem_ok_def rt_object_get_type_def)

text \<open>
  C14. \<^verbatim>\<open>rt_sem_take\<close>. A positive value is decremented and the call returns at once. With the
  value at 0 a call without waiting time returns \<^verbatim>\<open>-RT_ETIMEOUT\<close> and changes nothing; any other
  one suspends the caller in the queue of the semaphore, at the end or at the place of its
  priority as the flag says, with its timer armed if the waiting time is positive, and hands
  the processor over when another thread is ready. The kernel invariant and the invariant of
  the semaphore are kept.
\<close>

theorem rt_sem_take_waits:
  assumes inv: "kinv {} b s" and ok: "sem_ok n s" and t: "cur s = Some t" "tstat s t = RT_THREAD_READY"
    and irq: "irq_nest s = 0"
  shows "(sem_value (sems s n) > 0 \<longrightarrow>
            (\<exists>s'. rt_sem_take n time s = Some (s', Returns RT_EOK) \<and> kinv {} b s' \<and> sem_ok n s' \<and>
               s' = set_sem n (sem_value (sems s n) - 1) s)) \<and>
         (sem_value (sems s n) = 0 \<and> time = 0 \<longrightarrow> rt_sem_take n time s = Some (s, Returns (- RT_ETIMEOUT))) \<and>
         (sem_value (sems s n) = 0 \<and> time_ok time \<longrightarrow>
            (\<exists>s' r. rt_sem_take n time s = Some (s', r) \<and> kinv {} b s' \<and> sem_ok n s' \<and>
               sem_value (sems s' n) = 0 \<and> tstat s' t = RT_THREAD_SUSPEND \<and> error (thr s' t) = RT_EOK \<and>
               tl s' (sem_list n) = queued (oflag (objs s (sem_obj n)))
                 (\<lambda>u. current_priority (thr s u)) t (tl s (sem_list n)) \<and>
               (sint time > 0 \<longrightarrow> ThreadTimer t \<in> set (timer_list s') \<and>
                  due (tick s') s' (ThreadTimer t) = unat time) \<and>
               r = (if cur s' = Some t then Returns RT_EOK else Blocks) \<and>
               (lock_nest s = 0 \<and> (\<exists>u. u \<noteq> t \<and> tstat s u = RT_THREAD_READY) \<longrightarrow> r = Blocks)))"
proof (intro conjI impI)
  assume v: "sem_value (sems s n) > 0"
  then show "\<exists>s'. rt_sem_take n time s = Some (s', Returns RT_EOK) \<and> kinv {} b s' \<and> sem_ok n s' \<and>
      s' = set_sem n (sem_value (sems s n) - 1) s"
    using ok inv by (auto simp: rt_sem_take_def sem_ok_def)
next
  assume v: "sem_value (sems s n) = 0 \<and> time_ok time"
  have fl: "oflag (objs s (sem_obj n)) = RT_IPC_FLAG_FIFO \<or> oflag (objs s (sem_obj n)) = RT_IPC_FLAG_PRIO"
    using ok by (simp add: sem_ok_def)
  obtain s' where s': "ipc_block (sem_list n) t (oflag (objs s (sem_obj n))) time
      (upd_thr t (\<lambda>th. th\<lparr>error := RT_EOK\<rparr>) s) = Some s'" "kinv {} b s'"
    "thr s' = (thr s)(t := set_stat RT_THREAD_SUSPEND ((thr s t)\<lparr>error := RT_EOK\<rparr>))"
    "\<And>u. tstat s' u = (if u = t then RT_THREAD_SUSPEND else tstat s u)"
    "\<And>k. (\<nexists>p. k = Ready p) \<Longrightarrow> tl s' k = (if k = sem_list n then queued (oflag (objs s (sem_obj n)))
       (\<lambda>u. current_priority (thr s u)) t (tl s (sem_list n)) else tl s k)"
    "\<And>i. objs s' (IpcObj i) = objs s (IpcObj i)" "ktimer.more s' = ktimer.more s"
    "0 < sint time \<Longrightarrow> ThreadTimer t \<in> set (timer_list s') \<and> due (tick s') s' (ThreadTimer t) = unat time"
    "\<And>u. lock_nest s = 0 \<Longrightarrow> u \<noteq> t \<Longrightarrow> tstat s u = RT_THREAD_READY \<Longrightarrow> cur s' \<noteq> Some t"
    by (rule ipc_block_upd[OF inv t, of "sem_list n" _ time "\<lambda>th. th\<lparr>error := RT_EOK\<rparr>", OF _ fl])
      (use v in \<open>auto simp: attr_ok_def\<close>)
  have sv: "sems s' n = sems s n" using kernel_more_eq(1)[of s' s] s'(7) by simp
  have take: "rt_sem_take n time s = Some (s', if cur s' = Some t then Returns RT_EOK else Blocks)"
    using v ok irq t s'(1,3)
    by (simp add: rt_sem_take_def sem_ok_def rt_debug_in_thread_context_def rt_debug_not_in_interrupt_def
        rt_thread_self_def rt_sem_take_end_def time_ok_def)
  have "sem_ok n s'" using ok s'(6)[of "SemId n"] sv v by (simp add: sem_ok_def rt_object_get_type_def)
  then show "\<exists>s' r. rt_sem_take n time s = Some (s', r) \<and> kinv {} b s' \<and> sem_ok n s' \<and>
      sem_value (sems s' n) = 0 \<and> tstat s' t = RT_THREAD_SUSPEND \<and> error (thr s' t) = RT_EOK \<and>
      tl s' (sem_list n) = queued (oflag (objs s (sem_obj n)))
        (\<lambda>u. current_priority (thr s u)) t (tl s (sem_list n)) \<and>
      (sint time > 0 \<longrightarrow> ThreadTimer t \<in> set (timer_list s') \<and>
         due (tick s') s' (ThreadTimer t) = unat time) \<and>
      r = (if cur s' = Some t then Returns RT_EOK else Blocks) \<and>
      (lock_nest s = 0 \<and> (\<exists>u. u \<noteq> t \<and> tstat s u = RT_THREAD_READY) \<longrightarrow> r = Blocks)"
    using take s' sv v by (intro exI[of _ s'] exI conjI) auto
qed (use ok in \<open>auto simp: rt_sem_take_def sem_ok_def\<close>)

lemma demo_sem_ok: "sem_ok n demo_ipc"
  by (simp add: sem_ok_def)

theorem rt_sem_take_waits_witness:
  "\<exists>s'. rt_sem_take 0 20 demo_ipc = Some (s', Blocks) \<and> kinv {} 100 s' \<and> tl s' (sem_list 0) = [3, 1] \<and>
     due (tick s') s' (ThreadTimer 1) = 20"
proof -
  have "time_ok 20" "0 < sint (20 :: u32)" "2 \<noteq> (1 :: nat) \<and> tstat demo_ipc 2 = RT_THREAD_READY"
    by (simp_all add: time_ok_def)
  then show ?thesis
    using rt_sem_take_waits[OF demo_ipc_inv demo_sem_ok, of 1 0 20] by (auto simp: queued_def)
qed

text \<open>
  C15. \<^verbatim>\<open>rt_sem_release\<close> never loses a unit. When threads wait the first of them gets it: it is
  taken off the queue, its timer is stopped, it is ready, its \<^verbatim>\<open>rt_sem_take\<close> will return
  \<^verbatim>\<open>RT_EOK\<close>, and it runs at once when it has the highest priority and the scheduler is not
  locked. Otherwise the value is incremented, modulo \<open>2\<^sup>1\<^sup>6\<close>. The kernel invariant and that of the
  semaphore are kept.
\<close>

theorem rt_sem_release_hands_over:
  assumes inv: "kinv {} b s" and ok: "sem_ok n s" and c: "cur s = Some c"
  shows "(tl s (sem_list n) = [] \<longrightarrow>
            rt_sem_release n s = Some (set_sem n (sem_value (sems s n) + 1) s, RT_EOK)) \<and>
         (\<forall>t ts. tl s (sem_list n) = t # ts \<longrightarrow>
            (\<exists>s'. rt_sem_release n s = Some (s', RT_EOK) \<and> kinv {} b s' \<and> sem_ok n s' \<and>
               sem_value (sems s' n) = 0 \<and> tl s' (sem_list n) = ts \<and> tstat s' t = RT_THREAD_READY \<and>
               ThreadTimer t \<notin> set (timer_list s') \<and>
               (error (thr s t) = RT_EOK \<longrightarrow> rt_sem_take_end t s' = RT_EOK) \<and>
               (lock_nest s = 0 \<and> (\<forall>u. tstat s u = RT_THREAD_READY \<longrightarrow> prio_of s t < prio_of s u) \<longrightarrow>
                  cur s' = Some t)))"
proof (intro conjI allI impI)
  assume "tl s (sem_list n) = []"
  then show "rt_sem_release n s = Some (set_sem n (sem_value (sems s n) + 1) s, RT_EOK)"
    using ok by (simp add: rt_sem_release_def sem_ok_def)
next
  fix t ts
  assume l: "tl s (sem_list n) = t # ts"
  obtain s' where s': "rt_schedule (resume_state t s) = Some s'" "kinv {} b s'"
    "thr s' = (thr s)(t := set_stat RT_THREAD_READY (thr s t))"
    "\<And>u. tstat s' u = (if u = t then RT_THREAD_READY else tstat s u)"
    "\<And>k. (\<nexists>p. k = Ready p) \<Longrightarrow> tl s' k = (if k = sem_list n then ts else tl s k)"
    "\<And>i. objs s' (IpcObj i) = objs s (IpcObj i)" "ktimer.more s' = ktimer.more s"
    "timer_list s' = removeAll (ThreadTimer t) (timer_list s)"
    "lock_nest s = 0 \<Longrightarrow> (\<And>u. tstat s u = RT_THREAD_READY \<Longrightarrow> prio_of s t < prio_of s u) \<Longrightarrow> cur s' = Some t"
    by (rule wake_schedule_ok[OF inv _ l c]) auto
  have sv: "sems s' n = sems s n" using kernel_more_eq(1)[OF s'(7)] by simp
  have v: "sem_value (sems s n) = 0" using ok l by (auto simp: sem_ok_def word_gt_0)
  have "rt_sem_release n s = Some (s', RT_EOK)"
    using ok l rt_ipc_list_resume_ok(1)[OF inv _ l] s'(1) by (simp add: rt_sem_release_def sem_ok_def)
  moreover have "sem_ok n s'" using ok s'(6)[of "SemId n"] sv v by (simp add: sem_ok_def rt_object_get_type_def)
  ultimately show "\<exists>s'. rt_sem_release n s = Some (s', RT_EOK) \<and> kinv {} b s' \<and> sem_ok n s' \<and>
      sem_value (sems s' n) = 0 \<and> tl s' (sem_list n) = ts \<and> tstat s' t = RT_THREAD_READY \<and>
      ThreadTimer t \<notin> set (timer_list s') \<and>
      (error (thr s t) = RT_EOK \<longrightarrow> rt_sem_take_end t s' = RT_EOK) \<and>
      (lock_nest s = 0 \<and> (\<forall>u. tstat s u = RT_THREAD_READY \<longrightarrow> prio_of s t < prio_of s u) \<longrightarrow>
         cur s' = Some t)"
    using s' sv v by (intro exI[of _ s']) (auto simp: rt_sem_take_end_def)
qed

theorem rt_sem_release_hands_over_witness:
  "\<exists>s'. rt_sem_release 0 demo_ipc = Some (s', RT_EOK) \<and> kinv {} 100 s' \<and> cur s' = Some 3 \<and>
     rt_sem_take_end 3 s' = RT_EOK \<and> tl s' (sem_list 0) = []"
  using rt_sem_release_hands_over[OF demo_ipc_inv demo_sem_ok, of 1 0] by (auto split: if_splits)

text \<open>
  C16. A blocking \<^verbatim>\<open>rt_sem_take\<close> while the scheduler is locked returns \<^verbatim>\<open>RT_EOK\<close> although the
  caller got no unit: \<^verbatim>\<open>rt_schedule\<close> does nothing, so the call goes on as if it had been woken.
  The caller runs on while it is suspended and queued at the semaphore.
\<close>

theorem rt_sem_take_locked_fails_open:
  assumes inv: "kinv {} b s" and ok: "sem_ok n s" and t: "cur s = Some t" "tstat s t = RT_THREAD_READY"
    and irq: "irq_nest s = 0" and v: "sem_value (sems s n) = 0" "time_ok time" and l: "lock_nest s \<noteq> 0"
  shows "\<exists>s'. rt_sem_take n time s = Some (s', Returns RT_EOK) \<and> cur s' = Some t \<and>
           tstat s' t = RT_THREAD_SUSPEND \<and> t \<in> set (tl s' (sem_list n)) \<and> sem_value (sems s' n) = 0"
proof -
  let ?s1 = "upd_thr t (\<lambda>th. th\<lparr>error := RT_EOK\<rparr>) s" and ?fl = "oflag (objs s (sem_obj n))"
  have fl: "?fl = RT_IPC_FLAG_FIFO \<or> ?fl = RT_IPC_FLAG_PRIO" using ok by (simp add: sem_ok_def)
  obtain s' where s': "ipc_block (sem_list n) t ?fl time ?s1 = Some s'" "tstat s' t = RT_THREAD_SUSPEND"
    "ktimer.more s' = ktimer.more s" "error (thr s' t) = RT_EOK" "lock_nest s \<noteq> 0 \<Longrightarrow> cur s' = Some t"
    "t \<in> set (tl s' (sem_list n))"
    by (rule ipc_wait_outcomes[OF inv t _ fl v(2), of "sem_list n"]) auto
  have "sems s' n = sems s n" using kernel_more_eq(1)[OF s'(3)] by simp
  then show ?thesis
    using v ok irq t s' l
    by (auto simp: rt_sem_take_def sem_ok_def in_thread rt_sem_take_end_def time_ok_def)
qed

theorem rt_sem_take_locked_fails_open_witness:
  "\<exists>s'. rt_sem_take 1 20 (rt_enter_critical demo_ipc) = Some (s', Returns RT_EOK) \<and> sem_value (sems s' 1) = 0"
proof -
  let ?s = "rt_enter_critical demo_ipc"
  have "kinv {} 100 ?s" using demo_ipc_inv kinv_cong[of ?s demo_ipc] by (simp add: rt_enter_critical_def)
  moreover have "tstat ?s 1 = tstat demo_ipc 1" by (simp add: rt_enter_critical_def tstat_def del: demo_ipc_kernel)
  moreover have "sem_ok 1 ?s" "cur ?s = Some 1" "irq_nest ?s = 0" "sem_value (sems ?s 1) = 0" "lock_nest ?s \<noteq> 0"
    using sem_ok_cong[of ?s 1 demo_ipc] demo_sem_ok[of 1] by (simp_all add: rt_enter_critical_def)
  moreover have "time_ok 20" by (simp add: time_ok_def)
  ultimately show ?thesis using rt_sem_take_locked_fails_open[of 100 ?s 1 1 20] by auto
qed

end
