(* ===== verification/Mutex.thy ===== *)
theory Mutex
  imports Ipc
begin

unbundle bit_operations_syntax

text \<open>
  The mutexes of \<^verbatim>\<open>src/ipc.c\<close>: recursive, owned by a thread, with inheritance of the priority
  of the threads that wait. \<open>mutex_take_again\<close> is the part of \<^verbatim>\<open>rt_mutex_take\<close> from the label
  \<^verbatim>\<open>__again\<close> on, which the call comes back to when it was interrupted by a signal.
\<close>

section \<open>Definitions\<close>

abbreviation mutex_list :: "nat \<Rightarrow> lhead" where "mutex_list n \<equiv> Suspended (MutexId n)"
abbreviation mutex_obj :: "nat \<Rightarrow> oid" where "mutex_obj n \<equiv> IpcObj (MutexId n)"

definition set_mutex :: "nat \<Rightarrow> rt_mutex \<Rightarrow> 'a kernel_scheme \<Rightarrow> 'a kernel_scheme" where
  "set_mutex n m s = s\<lparr>mutexes := (mutexes s)(n := m)\<rparr>"

definition free_mutex :: rt_mutex where
  "free_mutex = \<lparr>mutex_value = 1, original_priority = 0xff, hold = 0, owner = None\<rparr>"

definition rt_mutex_init ::
  "nat \<Rightarrow> u8 list \<Rightarrow> u8 \<Rightarrow> 'a kernel_scheme \<Rightarrow> ('a kernel_scheme \<times> rt_err) option" where
  "rt_mutex_init n nm flag s = do {
     s1 \<leftarrow> rt_object_init (mutex_obj n) RT_Object_Class_Mutex nm s;
     let s2 = rt_ipc_object_init (mutex_list n) s1;
     let s3 = set_mutex n free_mutex s2;
     Some (set_oflag (mutex_obj n) flag s3, RT_EOK)
   }"

definition rt_mutex_detach :: "nat \<Rightarrow> 'a kernel_scheme \<Rightarrow> ('a kernel_scheme \<times> rt_err) option" where
  "rt_mutex_detach n s = do {
     rt_assert (rt_object_get_type (mutex_obj n) s = RT_Object_Class_Mutex);
     rt_assert (rt_object_is_systemobject (mutex_obj n) s);
     (s1, _) \<leftarrow> rt_ipc_list_resume_all (mutex_list n) s;
     Some (rt_object_detach (mutex_obj n) s1, RT_EOK)
   }"

definition rt_mutex_create ::
  "u8 list \<Rightarrow> u8 \<Rightarrow> nat option \<Rightarrow> 'a kernel_scheme \<Rightarrow> ('a kernel_scheme \<times> nat option) option" where
  "rt_mutex_create nm flag mem s = do {
     rt_debug_not_in_interrupt s;
     (s1, r) \<leftarrow> rt_object_allocate RT_Object_Class_Mutex nm (map_option mutex_obj mem) s;
     (case r of
        Some (IpcObj (MutexId n)) \<Rightarrow>
          let s2 = rt_ipc_object_init (mutex_list n) s1;
              s3 = set_mutex n free_mutex s2
          in Some (set_oflag (mutex_obj n) flag s3, Some n)
      | _ \<Rightarrow> Some (s1, None))
   }"

definition rt_mutex_delete :: "nat \<Rightarrow> 'a kernel_scheme \<Rightarrow> ('a kernel_scheme \<times> rt_err) option" where
  "rt_mutex_delete n s = do {
     rt_debug_not_in_interrupt s;
     rt_assert (rt_object_get_type (mutex_obj n) s = RT_Object_Class_Mutex);
     rt_assert (\<not> rt_object_is_systemobject (mutex_obj n) s);
     (s1, _) \<leftarrow> rt_ipc_list_resume_all (mutex_list n) s;
     s2 \<leftarrow> rt_object_delete (mutex_obj n) s1;
     Some (s2, RT_EOK)
   }"

partial_function (option) mutex_take_again ::
  "nat \<Rightarrow> u32 \<Rightarrow> tid \<Rightarrow> 'a kernel_scheme \<Rightarrow> ('a kernel_scheme \<times> rt_err call) option" where
  "mutex_take_again n time thread s =
     (let m = mutexes s n in
      if mutex_value m > 0 then
        Some (set_mutex n \<lparr>mutex_value = mutex_value m - 1,
                original_priority = current_priority (thr s thread), hold = hold m + 1,
                owner = Some thread\<rparr> s, Returns RT_EOK)
      else if time = 0 then
        Some (upd_thr thread (\<lambda>th. th\<lparr>error := - RT_ETIMEOUT\<rparr>) s, Returns (- RT_ETIMEOUT))
      else do {
        ow \<leftarrow> owner m;
        s1 \<leftarrow> (if current_priority (thr s thread) < current_priority (thr s ow)
               then map_option fst
                 (rt_thread_control ow (RT_THREAD_CTRL_CHANGE_PRIORITY (current_priority (thr s thread))) s)
               else Some s);
        s2 \<leftarrow> ipc_block (mutex_list n) thread (oflag (objs s1 (mutex_obj n))) time s1;
        if cur s2 \<noteq> Some thread then Some (s2, Blocks)
        else if error (thr s2 thread) \<noteq> RT_EOK then
          if error (thr s2 thread) = - RT_EINTR then mutex_take_again n time thread s2
          else Some (s2, Returns (error (thr s2 thread)))
        else Some (s2, Returns RT_EOK)
      })"

text \<open>The end of a call that had blocked.\<close>

definition rt_mutex_take_end ::
  "nat \<Rightarrow> u32 \<Rightarrow> tid \<Rightarrow> 'a kernel_scheme \<Rightarrow> ('a kernel_scheme \<times> rt_err call) option" where
  "rt_mutex_take_end n time thread s =
     (if error (thr s thread) \<noteq> RT_EOK then
        if error (thr s thread) = - RT_EINTR then mutex_take_again n time thread s
        else Some (s, Returns (error (thr s thread)))
      else Some (s, Returns RT_EOK))"

definition rt_mutex_take :: "nat \<Rightarrow> u32 \<Rightarrow> 'a kernel_scheme \<Rightarrow> ('a kernel_scheme \<times> rt_err call) option" where
  "rt_mutex_take n time s = do {
     rt_debug_in_thread_context s;
     rt_assert (rt_object_get_type (mutex_obj n) s = RT_Object_Class_Mutex);
     thread \<leftarrow> rt_thread_self s;
     let s1 = upd_thr thread (\<lambda>th. th\<lparr>error := RT_EOK\<rparr>) s;
     let m = mutexes s1 n;
     if owner m = Some thread then Some (set_mutex n (m\<lparr>hold := hold m + 1\<rparr>) s1, Returns RT_EOK)
     else mutex_take_again n time thread s1
   }"

definition rt_mutex_release :: "nat \<Rightarrow> 'a kernel_scheme \<Rightarrow> ('a kernel_scheme \<times> rt_err) option" where
  "rt_mutex_release n s = do {
     rt_assert (rt_object_get_type (mutex_obj n) s = RT_Object_Class_Mutex);
     rt_debug_in_thread_context s;
     thread \<leftarrow> rt_thread_self s;
     let m = mutexes s n;
     if owner m \<noteq> Some thread then
       Some (upd_thr thread (\<lambda>th. th\<lparr>error := - RT_ERROR\<rparr>) s, - RT_ERROR)
     else do {
       let m1 = m\<lparr>hold := hold m - 1\<rparr>;
       let s1 = set_mutex n m1 s;
       if hold m1 \<noteq> 0 then Some (s1, RT_EOK)
       else do {
         s2 \<leftarrow> (if original_priority m1 \<noteq> current_priority (thr s1 thread)
                then map_option fst
                  (rt_thread_control thread (RT_THREAD_CTRL_CHANGE_PRIORITY (original_priority m1)) s1)
                else Some s1);
         (case tl s2 (mutex_list n) of
            next # _ \<Rightarrow> do {
              let s3 = set_mutex n (m1\<lparr>owner := Some next, original_priority := current_priority (thr s2 next),
                         hold := hold m1 + 1\<rparr>) s2;
              (s4, _) \<leftarrow> rt_ipc_list_resume (mutex_list n) s3;
              s5 \<leftarrow> rt_schedule s4;
              Some (s5, RT_EOK)
            }
          | [] \<Rightarrow> Some (set_mutex n (m1\<lparr>mutex_value := mutex_value m1 + 1, owner := None,
                     original_priority := 0xff\<rparr>) s2, RT_EOK))
       }
     }
   }"

definition rt_mutex_control ::
  "nat \<Rightarrow> ipc_cmd \<Rightarrow> 'a kernel_scheme \<Rightarrow> ('a kernel_scheme \<times> rt_err) option" where
  "rt_mutex_control n cmd s = do {
     rt_assert (rt_object_get_type (mutex_obj n) s = RT_Object_Class_Mutex);
     Some (s, - RT_ERROR)
   }"

section \<open>Ownership\<close>

definition mutex_ok :: "nat \<Rightarrow> 'a kernel_scheme \<Rightarrow> bool" where
  "mutex_ok n s \<longleftrightarrow> rt_object_get_type (mutex_obj n) s = RT_Object_Class_Mutex \<and>
     (oflag (objs s (mutex_obj n)) = RT_IPC_FLAG_FIFO \<or> oflag (objs s (mutex_obj n)) = RT_IPC_FLAG_PRIO) \<and>
     (case owner (mutexes s n) of
        None \<Rightarrow> mutexes s n = free_mutex \<and> tl s (mutex_list n) = []
      | Some ow \<Rightarrow> mutex_value (mutexes s n) = 0 \<and> hold (mutexes s n) \<noteq> 0 \<and> live s ow \<and>
          unat (original_priority (mutexes s n)) < prio_max s \<and> ow \<notin> set (tl s (mutex_list n)))"

lemma set_mutex_sel [simp]:
  "mutexes (set_mutex n m s) = (mutexes s)(n := m)" "thr (set_mutex n m s) = thr s"
  "tl (set_mutex n m s) = tl s" "cur (set_mutex n m s) = cur s" "objs (set_mutex n m s) = objs s"
  "lock_nest (set_mutex n m s) = lock_nest s" "irq_nest (set_mutex n m s) = irq_nest s"
  "prio_max (set_mutex n m s) = prio_max s" "tick (set_mutex n m s) = tick s"
  "kinv X b (set_mutex n m s) = kinv X b s" "tstat (set_mutex n m s) t = tstat s t"
  "live (set_mutex n m s) t = live s t" "prio_of (set_mutex n m s) t = prio_of s t"
  "rt_object_get_type x (set_mutex n m s) = rt_object_get_type x s"
  by (simp_all add: set_mutex_def live_def)

lemma freed_mutex: "m\<lparr>hold := 0, mutex_value := 1, owner := None, original_priority := 0xff\<rparr> = free_mutex"
  by (simp add: free_mutex_def)

lemma mutex_okD:
  assumes "mutex_ok n s"
  shows "rt_object_get_type (mutex_obj n) s = RT_Object_Class_Mutex"
    "oflag (objs s (mutex_obj n)) = RT_IPC_FLAG_FIFO \<or> oflag (objs s (mutex_obj n)) = RT_IPC_FLAG_PRIO"
    "owner (mutexes s n) = None \<Longrightarrow> mutexes s n = free_mutex"
    "owner (mutexes s n) = Some ow \<Longrightarrow> mutex_value (mutexes s n) = 0"
    "owner (mutexes s n) = Some ow \<Longrightarrow> live s ow"
    "owner (mutexes s n) = Some ow \<Longrightarrow> ow \<notin> set (tl s (mutex_list n))"
    "owner (mutexes s n) = Some ow \<Longrightarrow> unat (original_priority (mutexes s n)) < prio_max s"
  using assms by (auto simp: mutex_ok_def split: option.splits)

lemma live_prio: "kinv X b s \<Longrightarrow> live s t \<Longrightarrow> unat (current_priority (thr s t)) < prio_max s"
  using kinv_attr by (fastforce simp: attr_ok_def)

lemma live_type: "kinv X b s \<Longrightarrow> live s t \<Longrightarrow> rt_object_get_type (ThreadObj t) s = RT_Object_Class_Thread"
  using kinvD(5) by (fastforce simp: thread_obj_ok_def)

text \<open>
  C23. \<^verbatim>\<open>rt_mutex_take\<close> without blocking. A free mutex becomes the caller's; the owner may take
  it again, which counts in \<open>hold\<close>; when another thread owns it and no waiting time is given,
  the call returns \<^verbatim>\<open>-RT_ETIMEOUT\<close> and the mutex does not change. The kernel invariant and the
  mutex invariant are kept (as long as \<open>hold\<close>, a byte, does not wrap around).
\<close>

theorem rt_mutex_take_acquires:
  assumes inv: "kinv {} b s" and ok: "mutex_ok n s" and t: "cur s = Some t" "tstat s t = RT_THREAD_READY"
    and irq: "irq_nest s = 0"
  shows "(owner (mutexes s n) = None \<longrightarrow>
            (\<exists>s'. rt_mutex_take n time s = Some (s', Returns RT_EOK) \<and> kinv {} b s' \<and> mutex_ok n s' \<and>
               owner (mutexes s' n) = Some t \<and> hold (mutexes s' n) = 1 \<and>
               original_priority (mutexes s' n) = current_priority (thr s t))) \<and>
         (owner (mutexes s n) = Some t \<and> hold (mutexes s n) \<noteq> 0xff \<longrightarrow>
            (\<exists>s'. rt_mutex_take n time s = Some (s', Returns RT_EOK) \<and> kinv {} b s' \<and> mutex_ok n s' \<and>
               mutexes s' n = (mutexes s n)\<lparr>hold := hold (mutexes s n) + 1\<rparr>)) \<and>
         (\<forall>ow. owner (mutexes s n) = Some ow \<and> ow \<noteq> t \<and> time = 0 \<longrightarrow>
            (\<exists>s'. rt_mutex_take n time s = Some (s', Returns (- RT_ETIMEOUT)) \<and> kinv {} b s' \<and>
               mutexes s' = mutexes s \<and> tl s' = tl s \<and> cur s' = Some t))"
proof -
  let ?s1 = "upd_thr t (\<lambda>th. th\<lparr>error := RT_EOK\<rparr>) s"
  have lv: "live s t" using t by (simp add: live_def)
  have k1: "kinv {} b ?s1" by (rule clear_error_kinv[OF inv])
  have take: "rt_mutex_take n time s =
      (if owner (mutexes s n) = Some t
       then Some (set_mutex n ((mutexes s n)\<lparr>hold := hold (mutexes s n) + 1\<rparr>) ?s1, Returns RT_EOK)
       else mutex_take_again n time t ?s1)"
    using t irq mutex_okD(1)[OF ok]
    by (simp add: rt_mutex_take_def rt_debug_in_thread_context_def rt_debug_not_in_interrupt_def
        rt_thread_self_def Let_def)
  show ?thesis
  proof (intro conjI impI allI)
    assume o: "owner (mutexes s n) = None"
    then have "mutexes s n = free_mutex" "tl s (mutex_list n) = []" using ok by (auto simp: mutex_ok_def)
    then show "\<exists>s'. rt_mutex_take n time s = Some (s', Returns RT_EOK) \<and> kinv {} b s' \<and> mutex_ok n s' \<and>
        owner (mutexes s' n) = Some t \<and> hold (mutexes s' n) = 1 \<and>
        original_priority (mutexes s' n) = current_priority (thr s t)"
      using take o k1 ok lv live_prio[OF inv lv]
      by (subst take, subst mutex_take_again.simps) (simp add: free_mutex_def mutex_ok_def)
  next
    assume o: "owner (mutexes s n) = Some t \<and> hold (mutexes s n) \<noteq> 0xff"
    moreover have "(- 1 :: u8) = 0xff" by simp
    ultimately have "hold (mutexes s n) + 1 \<noteq> 0" using eq_neg_iff_add_eq_0[of "hold (mutexes s n)" 1] by metis
    then show "\<exists>s'. rt_mutex_take n time s = Some (s', Returns RT_EOK) \<and> kinv {} b s' \<and> mutex_ok n s' \<and>
        mutexes s' n = (mutexes s n)\<lparr>hold := hold (mutexes s n) + 1\<rparr>"
      using take o k1 ok by (auto simp: mutex_ok_def)
  next
    fix ow
    assume o: "owner (mutexes s n) = Some ow \<and> ow \<noteq> t \<and> time = 0"
    then have "mutex_value (mutexes s n) = 0" using mutex_okD(4)[OF ok] by blast
    then show "\<exists>s'. rt_mutex_take n time s = Some (s', Returns (- RT_ETIMEOUT)) \<and> kinv {} b s' \<and>
        mutexes s' = mutexes s \<and> tl s' = tl s \<and> cur s' = Some t"
      using take o clear_error_kinv[OF k1, of t "- RT_ETIMEOUT"] t
      by (subst take, subst mutex_take_again.simps) simp
  qed
qed

text \<open>
  Raising the priority of the owner, as \<^verbatim>\<open>rt_mutex_take\<close> does before it blocks, and setting it
  back, as \<^verbatim>\<open>rt_mutex_release\<close> does.
\<close>

lemma owner_priority_ok:
  assumes inv: "kinv {} b s" and lv: "live s ow" and p: "unat p < prio_max s"
  obtains s' where
    "(if c then map_option fst (rt_thread_control ow (RT_THREAD_CTRL_CHANGE_PRIORITY p) s) else Some s) = Some s'"
    "kinv {} b s'" "current_priority (thr s' ow) = (if c then p else current_priority (thr s ow))"
    "\<And>u. u \<noteq> ow \<Longrightarrow> thr s' u = thr s u" "\<And>u. error (thr s' u) = error (thr s u)"
    "\<And>u. tstat s' u = tstat s u" "cur s' = cur s" "objs s' = objs s" "ktimer.more s' = ktimer.more s"
    "tick s' = tick s" "lock_nest s' = lock_nest s" "irq_nest s' = irq_nest s" "prio_max s' = prio_max s"
    "\<And>k. (\<nexists>p. k = Ready p) \<Longrightarrow> tl s' k = tl s k"
proof (cases c)
  case True
  obtain s' where s': "rt_thread_control ow (RT_THREAD_CTRL_CHANGE_PRIORITY p) s = Some (s', RT_EOK)"
    "kinv {} b s'" "current_priority (thr s' ow) = p" "\<And>u. u \<noteq> ow \<Longrightarrow> thr s' u = thr s u"
    "error (thr s' ow) = error (thr s ow)" "\<And>u. tstat s' u = tstat s u" "cur s' = cur s" "objs s' = objs s"
    "kbase.more s' = kbase.more s" "lock_nest s' = lock_nest s" "irq_nest s' = irq_nest s"
    "prio_max s' = prio_max s" "\<And>k. (\<nexists>p. k = Ready p) \<Longrightarrow> tl s' k = tl s k"
    by (rule change_priority_ok[OF inv live_type[OF inv lv] p]) blast
  have "error (thr s' u) = error (thr s u)" for u using s'(4,5) by (cases "u = ow") simp_all
  then show thesis using True s' ktimer_more_eq[OF s'(9)] by (intro that[of s']) simp_all
next
  case False
  then show thesis using inv by (intro that[of s]) simp_all
qed

text \<open>
  C16. \<^verbatim>\<open>rt_mutex_take\<close> of a mutex that another thread owns, with a waiting time, suspends the
  caller in the queue of the mutex and makes the owner inherit its priority: the owner then
  runs at the higher priority of the two. The mutex keeps its owner, and the kernel invariant
  and the mutex invariant are kept.
\<close>

theorem rt_mutex_take_inherits:
  assumes inv: "kinv {} b s" and ok: "mutex_ok n s" and t: "cur s = Some t" "tstat s t = RT_THREAD_READY"
    and irq: "irq_nest s = 0" and ow: "owner (mutexes s n) = Some ow" "ow \<noteq> t" and tm: "time_ok time"
  shows "\<exists>s' r. rt_mutex_take n time s = Some (s', r) \<and> kinv {} b s' \<and> mutex_ok n s' \<and>
           mutexes s' = mutexes s \<and> tstat s' t = RT_THREAD_SUSPEND \<and> error (thr s' t) = RT_EOK \<and>
           prio_of s' ow = min (prio_of s ow) (prio_of s t) \<and> tstat s' ow = tstat s ow \<and>
           tl s' (mutex_list n) = queued (oflag (objs s (mutex_obj n)))
             (\<lambda>u. current_priority (thr s u)) t (tl s (mutex_list n)) \<and>
           r = (if cur s' = Some t then Returns RT_EOK else Blocks) \<and>
           (lock_nest s = 0 \<and> (\<exists>u. u \<noteq> t \<and> tstat s u = RT_THREAD_READY) \<longrightarrow> r = Blocks)"
proof -
  let ?s1 = "upd_thr t (\<lambda>th. th\<lparr>error := RT_EOK\<rparr>) s" and ?fl = "oflag (objs s (mutex_obj n))"
  let ?p = "current_priority (thr s t)" and ?l = "mutex_list n"
  let ?c = "?p < current_priority (thr s ow)"
  have lv: "live s t" using t by (simp add: live_def)
  have k1: "kinv {} b ?s1" by (rule clear_error_kinv[OF inv])
  have lo: "live ?s1 ow" using mutex_okD(5)[OF ok ow(1)] by simp
  have p: "unat ?p < prio_max ?s1" using live_prio[OF inv lv] by simp
  obtain s2 where s2: "(if ?c then map_option fst (rt_thread_control ow (RT_THREAD_CTRL_CHANGE_PRIORITY ?p) ?s1)
      else Some ?s1) = Some s2" "kinv {} b s2"
    "current_priority (thr s2 ow) = (if ?c then ?p else current_priority (thr ?s1 ow))"
    "\<And>u. u \<noteq> ow \<Longrightarrow> thr s2 u = thr ?s1 u" "\<And>u. error (thr s2 u) = error (thr ?s1 u)"
    "\<And>u. tstat s2 u = tstat ?s1 u" "cur s2 = cur ?s1" "objs s2 = objs ?s1" "ktimer.more s2 = ktimer.more ?s1"
    "lock_nest s2 = lock_nest ?s1" "prio_max s2 = prio_max ?s1"
    "\<And>k. (\<nexists>p. k = Ready p) \<Longrightarrow> tl s2 k = tl ?s1 k"
    by (rule owner_priority_ok[OF k1 lo p, of ?c]) blast
  have t2: "cur s2 = Some t" "tstat s2 t = RT_THREAD_READY" using t s2(6,7) by simp_all
  obtain s' where s': "ipc_block ?l t ?fl time s2 = Some s'" "kinv {} b s'"
    "thr s' = (thr s2)(t := set_stat RT_THREAD_SUSPEND (thr s2 t))"
    "\<And>u. tstat s' u = (if u = t then RT_THREAD_SUSPEND else tstat s2 u)"
    "\<And>k. (\<nexists>p. k = Ready p) \<Longrightarrow> tl s' k =
       (if k = ?l then queued ?fl (\<lambda>u. current_priority (thr s2 u)) t (tl s2 ?l) else tl s2 k)"
    "\<And>i. objs s' (IpcObj i) = objs s2 (IpcObj i)" "ktimer.more s' = ktimer.more s2"
    "\<And>u. lock_nest s2 = 0 \<Longrightarrow> u \<noteq> t \<Longrightarrow> tstat s2 u = RT_THREAD_READY \<Longrightarrow> cur s' \<noteq> Some t" "prio_max s' = prio_max s2"
    by (rule ipc_block_ok[OF s2(2) t2 _ mutex_okD(2)[OF ok] tm, of ?l]) auto
  have mx: "mutexes s' = mutexes s" using kernel_more_eq(2)[of s' s] s'(7) s2(9) by simp
  have ts: "tstat s' u = (if u = t then RT_THREAD_SUSPEND else tstat s u)" for u using s'(4) s2(6) by simp
  have pr: "current_priority (thr s2 u) = current_priority (thr s u)" if "u \<noteq> ow" for u
    using s2(4)[OF that] by simp
  have "queued ?fl (\<lambda>u. current_priority (thr s2 u)) t (tl s ?l) = queued ?fl (\<lambda>u. current_priority (thr s u)) t (tl s ?l)"
    by (rule queued_cong, rule pr) (use mutex_okD(6)[OF ok ow(1)] ow(2) in auto)
  then have tl': "tl s' ?l = queued ?fl (\<lambda>u. current_priority (thr s u)) t (tl s ?l)"
    using s'(5)[of ?l] s2(12)[of ?l] by simp
  have take: "rt_mutex_take n time s = Some (s', if cur s' = Some t then Returns RT_EOK else Blocks)"
    using t irq ow mutex_okD(1,4)[OF ok] s2(1,5,8) s'(1,3) tm
    by (simp add: rt_mutex_take_def rt_debug_in_thread_context_def rt_debug_not_in_interrupt_def
        rt_thread_self_def Let_def mutex_take_again.simps[of n time t ?s1] time_ok_def
        cong: if_cong split del: if_split) simp
  have "mutex_ok n s'"
    using ok ow mx ts tl' s'(6,9) s2(8,11) lo by (simp add: mutex_ok_def rt_object_get_type_def live_def)
  moreover have "prio_of s' ow = min (prio_of s ow) (prio_of s t)"
    using s'(3) s2(3) ow(2) by (simp add: prio_of_def min_def word_less_nat_alt)
  ultimately show ?thesis
    using take s'(2,3,8) s2(5,6,10) ts mx tl' ow(2)
    by (intro exI[of _ s'] exI conjI) auto
qed

lemma demo_mutex_ok: "mutex_ok n demo_ipc"
  by (simp add: mutex_ok_def free_mutex_def live_def)

theorem rt_mutex_take_acquires_witness:
  "\<exists>s'. rt_mutex_take 1 0 demo_ipc = Some (s', Returns RT_EOK) \<and> kinv {} 100 s' \<and> owner (mutexes s' 1) = Some 1"
  using rt_mutex_take_acquires[OF demo_ipc_inv demo_mutex_ok, of 1 1 0] by auto

theorem rt_mutex_take_inherits_witness:
  "prio_of demo_ipc 4 = 9 \<and> (\<exists>s'. rt_mutex_take 0 (- 1) demo_ipc = Some (s', Blocks) \<and> kinv {} 100 s' \<and>
     owner (mutexes s' 0) = Some 4 \<and> prio_of s' 4 = 5 \<and> tl s' (mutex_list 0) = [1])"
proof -
  have "time_ok (- 1)" "2 \<noteq> (1 :: nat) \<and> tstat demo_ipc 2 = RT_THREAD_READY" by (simp_all add: time_ok_def)
  then show ?thesis
    using rt_mutex_take_inherits[OF demo_ipc_inv demo_mutex_ok, of 1 0 4 "- 1"] by (auto simp: queued_def)
qed

text \<open>
  C17. \<^verbatim>\<open>rt_mutex_release\<close>. A thread that does not own the mutex is refused with
  \<^verbatim>\<open>-RT_ERROR\<close> and the mutex does not change. While the owner holds it more than once only
  \<open>hold\<close> is decremented. The last release sets the priority of the caller back to what it was
  when it got the mutex, and then either frees the mutex, when no thread waits, or makes the
  first waiting thread its owner, whose \<^verbatim>\<open>rt_mutex_take\<close> will return \<^verbatim>\<open>RT_EOK\<close>. There is never
  more than one owner. The kernel invariant and the mutex invariant are kept.
\<close>

theorem rt_mutex_release_hands_over:
  assumes inv: "kinv {} b s" and ok: "mutex_ok n s" and t: "cur s = Some t" and irq: "irq_nest s = 0"
  shows "(owner (mutexes s n) \<noteq> Some t \<longrightarrow>
            (\<exists>s'. rt_mutex_release n s = Some (s', - RT_ERROR) \<and> kinv {} b s' \<and> mutexes s' = mutexes s)) \<and>
         (owner (mutexes s n) = Some t \<and> hold (mutexes s n) \<noteq> 1 \<longrightarrow>
            (\<exists>s'. rt_mutex_release n s = Some (s', RT_EOK) \<and> kinv {} b s' \<and> mutex_ok n s' \<and>
               mutexes s' n = (mutexes s n)\<lparr>hold := hold (mutexes s n) - 1\<rparr>)) \<and>
         (owner (mutexes s n) = Some t \<and> hold (mutexes s n) = 1 \<longrightarrow>
            (\<exists>s'. rt_mutex_release n s = Some (s', RT_EOK) \<and> kinv {} b s' \<and> mutex_ok n s' \<and>
               current_priority (thr s' t) = original_priority (mutexes s n) \<and>
               (case tl s (mutex_list n) of
                  [] \<Rightarrow> mutexes s' n = free_mutex
                | w # ws \<Rightarrow> owner (mutexes s' n) = Some w \<and> hold (mutexes s' n) = 1 \<and>
                    tl s' (mutex_list n) = ws \<and> tstat s' w = RT_THREAD_READY \<and>
                    (error (thr s w) = RT_EOK \<longrightarrow> rt_mutex_take_end n time w s' = Some (s', Returns RT_EOK)))))"
proof (intro conjI impI)
  assume "owner (mutexes s n) \<noteq> Some t"
  then show "\<exists>s'. rt_mutex_release n s = Some (s', - RT_ERROR) \<and> kinv {} b s' \<and> mutexes s' = mutexes s"
    using t irq mutex_okD(1)[OF ok] clear_error_kinv[OF inv]
    by (simp add: rt_mutex_release_def rt_debug_in_thread_context_def rt_debug_not_in_interrupt_def rt_thread_self_def)
next
  assume "owner (mutexes s n) = Some t \<and> hold (mutexes s n) \<noteq> 1"
  then show "\<exists>s'. rt_mutex_release n s = Some (s', RT_EOK) \<and> kinv {} b s' \<and> mutex_ok n s' \<and>
      mutexes s' n = (mutexes s n)\<lparr>hold := hold (mutexes s n) - 1\<rparr>"
    using t irq ok inv
    by (auto simp: rt_mutex_release_def rt_debug_in_thread_context_def rt_debug_not_in_interrupt_def
        rt_thread_self_def mutex_ok_def Let_def)
next
  assume o: "owner (mutexes s n) = Some t \<and> hold (mutexes s n) = 1"
  let ?m1 = "(mutexes s n)\<lparr>hold := 0\<rparr>" and ?l = "mutex_list n"
  let ?s1 = "set_mutex n ?m1 s" and ?p = "original_priority (mutexes s n)"
  let ?c = "?p \<noteq> current_priority (thr s t)"
  have k1: "kinv {} b ?s1" using inv by simp
  have lv: "live ?s1 t" "unat ?p < prio_max ?s1" "t \<notin> set (tl s ?l)" "mutex_value (mutexes s n) = 0"
    using mutex_okD[OF ok] o by auto
  obtain s2 where s2: "(if ?c then map_option fst (rt_thread_control t (RT_THREAD_CTRL_CHANGE_PRIORITY ?p) ?s1)
      else Some ?s1) = Some s2" "kinv {} b s2"
    "current_priority (thr s2 t) = (if ?c then ?p else current_priority (thr ?s1 t))"
    "\<And>u. u \<noteq> t \<Longrightarrow> thr s2 u = thr ?s1 u" "\<And>u. error (thr s2 u) = error (thr ?s1 u)"
    "\<And>u. tstat s2 u = tstat ?s1 u" "cur s2 = cur ?s1" "objs s2 = objs ?s1" "ktimer.more s2 = ktimer.more ?s1"
    "prio_max s2 = prio_max ?s1" "\<And>k. (\<nexists>p. k = Ready p) \<Longrightarrow> tl s2 k = tl ?s1 k"
    by (rule owner_priority_ok[OF k1 lv(1,2), of ?c]) blast
  have m2: "mutexes s2 = (mutexes s)(n := ?m1)" using kernel_more_eq(2)[of s2 ?s1] s2(9) by simp
  have l2: "tl s2 ?l = tl s ?l" using s2(11)[of ?l] by simp
  have p2: "current_priority (thr s2 t) = ?p" using s2(3) by (auto split: if_splits)
  have rel: "rt_mutex_release n s =
    (case tl s ?l of
       next # _ \<Rightarrow> do {
         (s4, _) \<leftarrow> rt_ipc_list_resume ?l (set_mutex n (?m1\<lparr>owner := Some next,
            original_priority := current_priority (thr s2 next), hold := 1\<rparr>) s2);
         s5 \<leftarrow> rt_schedule s4; Some (s5, RT_EOK) }
     | [] \<Rightarrow> Some (set_mutex n free_mutex s2, RT_EOK))"
    using t irq o s2(1) mutex_okD(1)[OF ok] lv(4) l2
    by (simp add: rt_mutex_release_def rt_debug_in_thread_context_def rt_debug_not_in_interrupt_def
        rt_thread_self_def Let_def freed_mutex cong: if_cong split: list.split split del: if_split)
  show "\<exists>s'. rt_mutex_release n s = Some (s', RT_EOK) \<and> kinv {} b s' \<and> mutex_ok n s' \<and>
      current_priority (thr s' t) = ?p \<and>
      (case tl s ?l of [] \<Rightarrow> mutexes s' n = free_mutex
       | w # ws \<Rightarrow> owner (mutexes s' n) = Some w \<and> hold (mutexes s' n) = 1 \<and>
           tl s' ?l = ws \<and> tstat s' w = RT_THREAD_READY \<and>
           (error (thr s w) = RT_EOK \<longrightarrow> rt_mutex_take_end n time w s' = Some (s', Returns RT_EOK)))"
  proof (cases "tl s ?l")
    case Nil
    then show ?thesis
      using rel s2(2,8) p2 l2 ok by (simp add: mutex_ok_def free_mutex_def rt_object_get_type_def)
  next
    case (Cons w ws)
    let ?s3 = "set_mutex n (?m1\<lparr>owner := Some w, original_priority := current_priority (thr s2 w), hold := 1\<rparr>) s2"
    have k3: "kinv {} b ?s3" and l3: "tl ?s3 ?l = w # ws" and c3: "cur ?s3 = Some t"
      using s2(2,7) l2 Cons t by simp_all
    have w: "w \<noteq> t" "w \<notin> set ws"
      using lv(3) Cons sched_invD(1)[OF kinvD(1)[OF inv]] unfolding lists_ok_def by (auto, metis distinct.simps(2))
    have lw: "live s2 w" using waiting_member[OF s2(2), of ?l w] l2 Cons by (simp add: live_def)
    obtain s' where s': "rt_schedule (resume_state w ?s3) = Some s'" "kinv {} b s'"
      "thr s' = (thr ?s3)(w := set_stat RT_THREAD_READY (thr ?s3 w))"
      "\<And>u. tstat s' u = (if u = w then RT_THREAD_READY else tstat ?s3 u)"
      "\<And>k. (\<nexists>p. k = Ready p) \<Longrightarrow> tl s' k = (if k = ?l then ws else tl ?s3 k)"
      "\<And>i. objs s' (IpcObj i) = objs ?s3 (IpcObj i)" "ktimer.more s' = ktimer.more ?s3" "prio_max s' = prio_max ?s3"
      by (rule wake_schedule_ok[OF k3 _ l3 c3]) auto
    have m': "mutexes s' = mutexes ?s3" using kernel_more_eq(2)[OF s'(7)] .
    have "rt_mutex_release n s = Some (s', RT_EOK)"
      using rel Cons rt_ipc_list_resume_ok(1)[OF k3 _ l3] s'(1) by simp
    moreover have "mutex_ok n s'"
      using ok o m' s'(4-6,8) s2(8,10) live_prio[OF s2(2) lw] w(2) lv(4)
      by (simp add: mutex_ok_def rt_object_get_type_def live_def)
    moreover have "error (thr s' w) = error (thr s w)" using s'(3) s2(5)[of w] by simp
    ultimately show ?thesis
      using s' m' p2 w Cons by (intro exI[of _ s']) (auto simp: rt_mutex_take_end_def)
  qed
qed

theorem rt_mutex_release_hands_over_witness:
  "\<exists>s'. rt_mutex_release 5 (set_mutex 5 \<lparr>mutex_value = 0, original_priority = 7, hold = 1, owner = Some 1\<rparr> demo_ipc) =
     Some (s', RT_EOK) \<and> kinv {} 100 s' \<and> mutexes s' 5 = free_mutex \<and> current_priority (thr s' 1) = 7"
proof -
  let ?s = "set_mutex 5 \<lparr>mutex_value = 0, original_priority = 7, hold = 1, owner = Some 1\<rparr> demo_ipc"
  have "kinv {} 100 ?s" "mutex_ok 5 ?s" "cur ?s = Some 1" "irq_nest ?s = 0"
    using demo_ipc_inv by (simp_all add: mutex_ok_def live_def)
  then show ?thesis using rt_mutex_release_hands_over[of 100 ?s 5 1] by auto
qed

text \<open>
  The retry after a signal does not clear the error number, and it does not look at the owner. A
  thread that was interrupted, waited again and was then made the owner by
  \<^verbatim>\<open>rt_mutex_release\<close> still finds \<^verbatim>\<open>-RT_EINTR\<close>, jumps to \<^verbatim>\<open>__again\<close> and waits for the mutex it
  owns itself.
\<close>

lemma mutex_interrupted_owner_waits:
  assumes inv: "kinv {} b s" and t: "cur s = Some t" "tstat s t = RT_THREAD_READY"
    and m: "owner (mutexes s n) = Some t" "mutex_value (mutexes s n) = 0" and e: "error (thr s t) = - RT_EINTR"
    and fl: "oflag (objs s (mutex_obj n)) = RT_IPC_FLAG_FIFO \<or> oflag (objs s (mutex_obj n)) = RT_IPC_FLAG_PRIO"
    and tm: "time_ok time" and u: "lock_nest s = 0" "u \<noteq> t" "tstat s u = RT_THREAD_READY"
  shows "\<exists>s'. rt_mutex_take_end n time t s = Some (s', Blocks) \<and> owner (mutexes s' n) = Some t \<and>
           t \<in> set (tl s' (mutex_list n))"
proof -
  obtain s' where s': "ipc_block (mutex_list n) t (oflag (objs s (mutex_obj n))) time s = Some s'"
    "\<And>k. (\<nexists>p. k = Ready p) \<Longrightarrow> tl s' k = (if k = mutex_list n then
       queued (oflag (objs s (mutex_obj n))) (\<lambda>u. current_priority (thr s u)) t (tl s (mutex_list n)) else tl s k)"
    "ktimer.more s' = ktimer.more s" "cur s' \<noteq> Some t"
    by (rule ipc_block_ok[OF inv t _ fl tm, of "mutex_list n"]) (use u in auto)
  then show ?thesis
    using m e tm kernel_more_eq(2)[OF s'(3)]
    by (simp add: rt_mutex_take_end_def mutex_take_again.simps[of n time t s] Let_def time_ok_def)
qed

end
