(* ===== verification/Event.thy ===== *)
theory Event
  imports Ipc
begin

unbundle bit_operations_syntax

text \<open>
  The event objects of \<^verbatim>\<open>src/ipc.c\<close>: sets of 32 event bits. A thread waits for all (\<^verbatim>\<open>AND\<close>)
  or any (\<^verbatim>\<open>OR\<close>) of some bits and may have them cleared when it gets them. The specification
  \<open>deliver\<close> says which waiting threads a send wakes, in the order of the queue, what each of
  them receives and what is left of the set.
\<close>

section \<open>Definitions\<close>

abbreviation RT_EVENT_FLAG_AND :: u8 where "RT_EVENT_FLAG_AND \<equiv> 0x01"
abbreviation RT_EVENT_FLAG_OR :: u8 where "RT_EVENT_FLAG_OR \<equiv> 0x02"
abbreviation RT_EVENT_FLAG_CLEAR :: u8 where "RT_EVENT_FLAG_CLEAR \<equiv> 0x04"

abbreviation event_list :: "nat \<Rightarrow> lhead" where "event_list n \<equiv> Suspended (EventId n)"
abbreviation event_obj :: "nat \<Rightarrow> oid" where "event_obj n \<equiv> IpcObj (EventId n)"

definition set_event :: "nat \<Rightarrow> u32 \<Rightarrow> 'a kernel_scheme \<Rightarrow> 'a kernel_scheme" where
  "set_event n v s = s\<lparr>events := (events s)(n := \<lparr>ev_set = v\<rparr>)\<rparr>"

definition rt_event_init ::
  "nat \<Rightarrow> u8 list \<Rightarrow> u8 \<Rightarrow> 'a kernel_scheme \<Rightarrow> ('a kernel_scheme \<times> rt_err) option" where
  "rt_event_init n nm flag s = do {
     s1 \<leftarrow> rt_object_init (event_obj n) RT_Object_Class_Event nm s;
     let s2 = set_oflag (event_obj n) flag s1;
     let s3 = rt_ipc_object_init (event_list n) s2;
     Some (set_event n 0 s3, RT_EOK)
   }"

definition rt_event_detach :: "nat \<Rightarrow> 'a kernel_scheme \<Rightarrow> ('a kernel_scheme \<times> rt_err) option" where
  "rt_event_detach n s = do {
     rt_assert (rt_object_get_type (event_obj n) s = RT_Object_Class_Event);
     rt_assert (rt_object_is_systemobject (event_obj n) s);
     (s1, _) \<leftarrow> rt_ipc_list_resume_all (event_list n) s;
     Some (rt_object_detach (event_obj n) s1, RT_EOK)
   }"

definition rt_event_create ::
  "u8 list \<Rightarrow> u8 \<Rightarrow> nat option \<Rightarrow> 'a kernel_scheme \<Rightarrow> ('a kernel_scheme \<times> nat option) option" where
  "rt_event_create nm flag mem s = do {
     rt_debug_not_in_interrupt s;
     (s1, r) \<leftarrow> rt_object_allocate RT_Object_Class_Event nm (map_option event_obj mem) s;
     (case r of
        Some (IpcObj (EventId n)) \<Rightarrow>
          let s2 = set_oflag (event_obj n) flag s1;
              s3 = rt_ipc_object_init (event_list n) s2
          in Some (set_event n 0 s3, Some n)
      | _ \<Rightarrow> Some (s1, None))
   }"

definition rt_event_delete :: "nat \<Rightarrow> 'a kernel_scheme \<Rightarrow> ('a kernel_scheme \<times> rt_err) option" where
  "rt_event_delete n s = do {
     rt_assert (rt_object_get_type (event_obj n) s = RT_Object_Class_Event);
     rt_assert (\<not> rt_object_is_systemobject (event_obj n) s);
     rt_debug_not_in_interrupt s;
     (s1, _) \<leftarrow> rt_ipc_list_resume_all (event_list n) s;
     s2 \<leftarrow> rt_object_delete (event_obj n) s1;
     Some (s2, RT_EOK)
   }"

text \<open>
  The walk of \<^verbatim>\<open>rt_event_send\<close> along the waiting threads. The next node is read before the
  thread is resumed, so that the walk visits the nodes the list had at its start.
\<close>

fun event_walk ::
  "nat \<Rightarrow> tid list \<Rightarrow> bool \<Rightarrow> 'a kernel_scheme \<Rightarrow> ('a kernel_scheme \<times> bool) option" where
  "event_walk n [] need_schedule s = Some (s, need_schedule)"
| "event_walk n (thread # ns) need_schedule s =
     (let th = thr s thread;
          (status, s1) =
            (if event_info th AND RT_EVENT_FLAG_AND \<noteq> 0 then
               (if event_set th AND ev_set (events s n) = event_set th then (RT_EOK, s) else (- RT_ERROR, s))
             else if event_info th AND RT_EVENT_FLAG_OR \<noteq> 0 then
               (if event_set th AND ev_set (events s n) \<noteq> 0
                then (RT_EOK, upd_thr thread (\<lambda>th. th\<lparr>event_set := event_set th AND ev_set (events s n)\<rparr>) s)
                else (- RT_ERROR, s))
             else (- RT_ERROR, s))
      in if status = RT_EOK then do {
           let s2 = (if event_info (thr s1 thread) AND RT_EVENT_FLAG_CLEAR \<noteq> 0
                     then set_event n (ev_set (events s1 n) AND NOT (event_set (thr s1 thread))) s1 else s1);
           (s3, _) \<leftarrow> rt_thread_resume thread s2;
           event_walk n ns True s3
         }
         else event_walk n ns need_schedule s1)"

definition rt_event_send :: "nat \<Rightarrow> u32 \<Rightarrow> 'a kernel_scheme \<Rightarrow> ('a kernel_scheme \<times> rt_err) option" where
  "rt_event_send n evs s = do {
     rt_assert (rt_object_get_type (event_obj n) s = RT_Object_Class_Event);
     if evs = 0 then Some (s, - RT_ERROR)
     else do {
       let s1 = set_event n (ev_set (events s n) OR evs) s;
       (s2, need_schedule) \<leftarrow> event_walk n (tl s1 (event_list n)) False s1;
       s3 \<leftarrow> (if need_schedule then rt_schedule s2 else Some s2);
       Some (s3, RT_EOK)
     }
   }"

text \<open>The result is the error code and what is stored at \<open>recved\<close>.\<close>

definition rt_event_recv_end :: "tid \<Rightarrow> 'a kernel_scheme \<Rightarrow> rt_err \<times> u32 option" where
  "rt_event_recv_end thread s =
     (if error (thr s thread) \<noteq> RT_EOK then (error (thr s thread), None)
      else (error (thr s thread), Some (event_set (thr s thread))))"

definition rt_event_recv ::
  "nat \<Rightarrow> u32 \<Rightarrow> u8 \<Rightarrow> u32 \<Rightarrow> 'a kernel_scheme \<Rightarrow> ('a kernel_scheme \<times> (rt_err \<times> u32 option) call) option" where
  "rt_event_recv n evs opt timeout s = do {
     rt_debug_in_thread_context s;
     rt_assert (rt_object_get_type (event_obj n) s = RT_Object_Class_Event);
     if evs = 0 then Some (s, Returns (- RT_ERROR, None))
     else do {
       thread \<leftarrow> rt_thread_self s;
       let s1 = upd_thr thread (\<lambda>th. th\<lparr>error := RT_EOK\<rparr>) s;
       let v = ev_set (events s1 n);
       status \<leftarrow> (if opt AND RT_EVENT_FLAG_AND \<noteq> 0 then Some (if v AND evs = evs then RT_EOK else - RT_ERROR)
                  else if opt AND RT_EVENT_FLAG_OR \<noteq> 0 then Some (if v AND evs \<noteq> 0 then RT_EOK else - RT_ERROR)
                  else None);
       if status = RT_EOK then
         let s2 = (if opt AND RT_EVENT_FLAG_CLEAR \<noteq> 0 then set_event n (v AND NOT evs) s1 else s1)
         in Some (s2, Returns (error (thr s2 thread), Some (v AND evs)))
       else if timeout = 0 then
         let s2 = upd_thr thread (\<lambda>th. th\<lparr>error := - RT_ETIMEOUT\<rparr>) s1
         in Some (s2, Returns (error (thr s2 thread), None))
       else do {
         let s2 = upd_thr thread (\<lambda>th. th\<lparr>event_set := evs, event_info := opt\<rparr>) s1;
         s3 \<leftarrow> ipc_block (event_list n) thread (oflag (objs s2 (event_obj n))) timeout s2;
         Some (s3, if cur s3 = Some thread then Returns (rt_event_recv_end thread s3) else Blocks)
       }
     }
   }"

definition rt_event_control ::
  "nat \<Rightarrow> ipc_cmd \<Rightarrow> 'a kernel_scheme \<Rightarrow> ('a kernel_scheme \<times> rt_err) option" where
  "rt_event_control n cmd s = do {
     rt_assert (rt_object_get_type (event_obj n) s = RT_Object_Class_Event);
     (case cmd of
        RT_IPC_CMD_RESET arg \<Rightarrow> do {
          (s1, _) \<leftarrow> rt_ipc_list_resume_all (event_list n) s;
          let s2 = set_event n 0 s1;
          s3 \<leftarrow> rt_schedule s2;
          Some (s3, RT_EOK)
        }
      | IPC_CMD_OTHER \<Rightarrow> Some (s, - RT_ERROR))
   }"

section \<open>Specification\<close>

text \<open>What a thread with the given event flags receives from a set, if its condition holds.\<close>

definition received :: "u8 \<Rightarrow> u32 \<Rightarrow> u32 \<Rightarrow> u32 option" where
  "received info want v =
     (if info AND RT_EVENT_FLAG_AND \<noteq> 0 then if want AND v = want then Some want else None
      else if info AND RT_EVENT_FLAG_OR \<noteq> 0 then if want AND v \<noteq> 0 then Some (want AND v) else None
      else None)"

fun deliver :: "(tid \<Rightarrow> rt_thread) \<Rightarrow> u32 \<Rightarrow> tid list \<Rightarrow> u32 \<times> (tid \<times> u32) list" where
  "deliver th v [] = (v, [])"
| "deliver th v (t # ts) =
     (case received (event_info (th t)) (event_set (th t)) v of
        None \<Rightarrow> deliver th v ts
      | Some e \<Rightarrow>
          let v' = (if event_info (th t) AND RT_EVENT_FLAG_CLEAR \<noteq> 0 then v AND NOT e else v);
              (v'', ws) = deliver th v' ts
          in (v'', (t, e) # ws))"

text \<open>A set with fewer bits satisfies fewer threads.\<close>

lemma received_mono:
  assumes "v' AND v = v'" "received info want v = None"
  shows "received info want v' = None"
proof -
  have "want AND v' = (want AND v') AND v" using assms(1) by (simp add: and.assoc)
  then have all: "want AND v' = want \<Longrightarrow> want AND v = want" by simp
  have "want AND v' = (want AND v) AND v'" using assms(1) by (metis and.assoc and.commute)
  then have any: "want AND v = 0 \<Longrightarrow> want AND v' = 0" by simp
  show ?thesis
  proof (cases "info AND RT_EVENT_FLAG_AND \<noteq> 0")
    case True
    then have "want AND v \<noteq> want" using assms(2) by (simp add: received_def split: if_splits)
    then have "want AND v' \<noteq> want" using all by blast
    then show ?thesis using True by (simp add: received_def)
  next
    case False
    then have "info AND RT_EVENT_FLAG_OR \<noteq> 0 \<Longrightarrow> want AND v = 0"
      using assms(2) by (simp add: received_def split: if_splits)
    then have "info AND RT_EVENT_FLAG_OR \<noteq> 0 \<Longrightarrow> want AND v' = 0" using any by blast
    then show ?thesis using False by (simp add: received_def)
  qed
qed

lemma deliver_cong:
  "(\<And>u. u \<in> set ts \<Longrightarrow> event_set (th u) = event_set (th' u) \<and> event_info (th u) = event_info (th' u)) \<Longrightarrow>
   deliver th v ts = deliver th' v ts"
  by (induction ts arbitrary: v) (auto split: option.split)

lemma and_sub_trans: "a AND b = a \<Longrightarrow> b AND c = b \<Longrightarrow> a AND c = a" for a b c :: u32
  by (metis and.assoc)

lemma deliver_shrinks: "fst (deliver th v ts) AND v = fst (deliver th v ts)"
proof (induction ts arbitrary: v)
  case (Cons t ts)
  show ?case
  proof (cases "received (event_info (th t)) (event_set (th t)) v")
    case (Some e)
    define v' where "v' = (if event_info (th t) AND RT_EVENT_FLAG_CLEAR \<noteq> 0 then v AND NOT e else v)"
    have "v' AND v = v'" by (simp add: v'_def ac_simps)
    then have "fst (deliver th v' ts) AND v = fst (deliver th v' ts)" by (rule and_sub_trans[OF Cons.IH])
    moreover have "fst (deliver th v (t # ts)) = fst (deliver th v' ts)"
      using Some by (simp add: v'_def split_def Let_def)
    ultimately show ?thesis by simp
  qed (simp add: Cons.IH)
qed simp

lemma deliver_members: "w \<in> set (snd (deliver th v ts)) \<Longrightarrow> fst w \<in> set ts"
  by (induction ts arbitrary: v) (auto split: option.splits simp: split_def Let_def)

text \<open>After the delivery no thread is left whose condition holds.\<close>

lemma deliver_complete:
  assumes "t \<in> set ts" "t \<notin> fst ` set (snd (deliver th v ts))"
  shows "received (event_info (th t)) (event_set (th t)) (fst (deliver th v ts)) = None"
  using assms
proof (induction ts arbitrary: v)
  case (Cons u ts)
  show ?case
  proof (cases "received (event_info (th u)) (event_set (th u)) v")
    case None
    then show ?thesis
      using Cons received_mono[OF deliver_shrinks, of "event_info (th u)" "event_set (th u)" v th ts] by auto
  next
    case (Some e)
    then show ?thesis using Cons by (auto simp: split_def Let_def)
  qed
qed simp

section \<open>The walk implements the specification\<close>

lemma set_event_sel [simp]:
  "events (set_event n v s) = (events s)(n := \<lparr>ev_set = v\<rparr>)" "thr (set_event n v s) = thr s"
  "tl (set_event n v s) = tl s" "cur (set_event n v s) = cur s" "objs (set_event n v s) = objs s"
  "lock_nest (set_event n v s) = lock_nest s" "irq_nest (set_event n v s) = irq_nest s"
  "kinv X b (set_event n v s) = kinv X b s" "tstat (set_event n v s) t = tstat s t"
  "prio_of (set_event n v s) t = prio_of s t" "tick (set_event n v s) = tick s"
  "rt_object_get_type x (set_event n v s) = rt_object_get_type x s"
  by (simp_all add: set_event_def)

definition delivered :: "nat \<Rightarrow> tid \<Rightarrow> u32 \<Rightarrow> 'a kernel_scheme \<Rightarrow> 'a kernel_scheme" where
  "delivered n t e s =
     (let s1 = upd_thr t (\<lambda>th. th\<lparr>event_set := e\<rparr>) s in
      if event_info (thr s t) AND RT_EVENT_FLAG_CLEAR \<noteq> 0
      then set_event n (ev_set (events s n) AND NOT e) s1 else s1)"

lemma upd_thr_same: "f (thr s t) = thr s t \<Longrightarrow> upd_thr t f s = s"
  by (simp add: upd_thr_def)

lemma event_walk_wakes:
  assumes "received (event_info (thr s t)) (event_set (thr s t)) (ev_set (events s n)) = Some e"
  shows "event_walk n (t # ts) need s =
           do { (s3, _) \<leftarrow> rt_thread_resume t (delivered n t e s); event_walk n ts True s3 }"
proof (cases "event_info (thr s t) AND RT_EVENT_FLAG_AND \<noteq> 0")
  case True
  then have e: "event_set (thr s t) AND ev_set (events s n) = event_set (thr s t)" "event_set (thr s t) = e"
    using assms by (simp_all add: received_def split: if_splits)
  have "upd_thr t (\<lambda>th. th\<lparr>event_set := e\<rparr>) s = s" by (rule upd_thr_same) (simp flip: e(2))
  then show ?thesis using True e by (simp add: delivered_def)
next
  case False
  then have e: "event_info (thr s t) AND RT_EVENT_FLAG_OR \<noteq> 0" "event_set (thr s t) AND ev_set (events s n) \<noteq> 0"
    "event_set (thr s t) AND ev_set (events s n) = e"
    using assms by (simp_all add: received_def split: if_splits)
  have "upd_thr t (\<lambda>th. th\<lparr>event_set := event_set th AND ev_set (events s n)\<rparr>) s = upd_thr t (\<lambda>th. th\<lparr>event_set := e\<rparr>) s"
    using e(3) by (simp add: upd_thr_def)
  then show ?thesis using False e by (simp add: delivered_def)
qed

lemma event_walk_skips:
  "received (event_info (thr s t)) (event_set (thr s t)) (ev_set (events s n)) = None \<Longrightarrow>
   event_walk n (t # ts) need s = event_walk n ts need s"
  by (simp add: received_def split: if_splits)

declare event_walk.simps(2) [simp del]

lemma delivered_sel [simp]:
  "thr (delivered n t e s) = (thr s)(t := (thr s t)\<lparr>event_set := e\<rparr>)" "tl (delivered n t e s) = tl s"
  "cur (delivered n t e s) = cur s" "objs (delivered n t e s) = objs s"
  "lock_nest (delivered n t e s) = lock_nest s" "irq_nest (delivered n t e s) = irq_nest s"
  "ev_set (events (delivered n t e s) n) =
     (if event_info (thr s t) AND RT_EVENT_FLAG_CLEAR \<noteq> 0 then ev_set (events s n) AND NOT e else ev_set (events s n))"
  "tstat (delivered n t e s) u = tstat s u"
  by (simp_all add: delivered_def Let_def tstat_def)

lemma delivered_kinv: "kinv X b s \<Longrightarrow> kinv X b (delivered n t e s)"
  using kinv_upd_same[of X b s "\<lambda>th. th\<lparr>event_set := e\<rparr>" t] by (simp add: delivered_def Let_def attr_ok_def)

text \<open>The state after the walk, in terms of the specification.\<close>

definition sent :: "u32 \<Rightarrow> (tid \<times> u32) list \<Rightarrow> nat \<Rightarrow> 'a kernel_scheme \<Rightarrow> 'a kernel_scheme \<Rightarrow> bool" where
  "sent v ws n s s' \<longleftrightarrow>
     ev_set (events s' n) = v \<and>
     (\<forall>k. (\<nexists>p. k = Ready p) \<longrightarrow> tl s' k = filter (\<lambda>t. t \<notin> fst ` set ws) (tl s k)) \<and>
     (\<forall>t. t \<notin> fst ` set ws \<longrightarrow> thr s' t = thr s t) \<and>
     (\<forall>t e. (t, e) \<in> set ws \<longrightarrow> thr s' t = set_stat RT_THREAD_READY ((thr s t)\<lparr>event_set := e\<rparr>)) \<and>
     cur s' = cur s \<and> lock_nest s' = lock_nest s \<and> irq_nest s' = irq_nest s \<and>
     (\<forall>i. objs s' (IpcObj i) = objs s (IpcObj i))"

lemma sent_step:
  assumes s: "sent v ws n (resume_state t (delivered n t e s)) s'" and t: "t \<notin> fst ` set ws"
  shows "sent v ((t, e) # ws) n s s'"
proof -
  let ?s2 = "resume_state t (delivered n t e s)"
  have th: "thr ?s2 = (thr s)(t := set_stat RT_THREAD_READY ((thr s t)\<lparr>event_set := e\<rparr>))" by simp
  have tl2: "tl ?s2 k = removeAll t (tl s k)" if "\<nexists>p. k = Ready p" for k
    using that by (auto simp: ls_insert_before_def)
  have fl: "filter P (removeAll t xs) = filter (\<lambda>u. u \<noteq> t \<and> P u) xs" for P and xs :: "tid list"
    by (induction xs) auto
  have w: "u \<noteq> t" if "(u, e') \<in> set ws" for u e' using t that by force
  have "thr s' u = set_stat RT_THREAD_READY ((thr s u)\<lparr>event_set := e'\<rparr>)" if "(u, e') \<in> set ((t, e) # ws)" for u e'
  proof (cases "u = t")
    case True
    then have "e' = e" using that w by auto
    moreover have "thr s' t = thr ?s2 t" using s t unfolding sent_def by blast
    ultimately show ?thesis using True by (simp add: th)
  next
    case False
    then have "(u, e') \<in> set ws" using that by simp
    then have "thr s' u = set_stat RT_THREAD_READY ((thr ?s2 u)\<lparr>event_set := e'\<rparr>)" using s unfolding sent_def by blast
    then show ?thesis using False by (simp add: th)
  qed
  moreover have "thr s' u = thr s u" if "u \<notin> fst ` set ((t, e) # ws)" for u
  proof -
    have "thr s' u = thr ?s2 u" "u \<noteq> t" using s that unfolding sent_def by auto
    then show ?thesis by (simp add: th)
  qed
  moreover have "tl s' k = filter (\<lambda>u. u \<notin> fst ` set ((t, e) # ws)) (tl s k)" if "\<nexists>p. k = Ready p" for k
  proof -
    have "tl s' k = filter (\<lambda>u. u \<notin> fst ` set ws) (tl ?s2 k)" using s that unfolding sent_def by blast
    then show ?thesis unfolding tl2[OF that] fl by simp
  qed
  moreover have "ev_set (events s' n) = v" "cur s' = cur s" "lock_nest s' = lock_nest s" "irq_nest s' = irq_nest s"
    "\<And>i. objs s' (IpcObj i) = objs s (IpcObj i)"
    using s by (simp_all add: sent_def)
  ultimately show ?thesis unfolding sent_def by blast
qed

lemma event_walk_ok:
  assumes "kinv {} b s" "distinct ts" "set ts \<subseteq> set (tl s (event_list n))"
    and "deliver (thr s) (ev_set (events s n)) ts = (v, ws)"
  shows "\<exists>s'. event_walk n ts need s = Some (s', need \<or> ws \<noteq> []) \<and> kinv {} b s' \<and> sent v ws n s s'"
  using assms
proof (induction ts arbitrary: s need v ws)
  case Nil
  then show ?case by (simp add: sent_def)
next
  case (Cons t ts)
  let ?l = "event_list n"
  show ?case
  proof (cases "received (event_info (thr s t)) (event_set (thr s t)) (ev_set (events s n))")
    case None
    then show ?thesis using Cons.IH[OF Cons.prems(1), of v ws need] Cons.prems(2-4) by (simp add: event_walk_skips)
  next
    case (Some e)
    let ?s1 = "delivered n t e s"
    let ?s2 = "resume_state t ?s1"
    have k1: "kinv {} b ?s1" by (rule delivered_kinv[OF Cons.prems(1)])
    have t1: "tstat ?s1 t = RT_THREAD_SUSPEND"
      using waiting_member[OF Cons.prems(1), of ?l t] Cons.prems(3) by simp
    note res = rt_thread_resume_ok[OF k1 t1]
    have ev: "events ?s2 = events ?s1" by (rule kernel_more_eq(3)) simp
    have sub: "set ts \<subseteq> set (tl ?s2 ?l)" using Cons.prems(2,3) by (auto simp: ls_insert_before_def)
    define v1 where "v1 = ev_set (events ?s2 n)"
    obtain ws' where ws': "deliver (thr s) v1 ts = (v, ws')" "ws = (t, e) # ws'"
      using Some Cons.prems(4) by (auto simp: v1_def ev Let_def split: prod.splits if_splits)
    have dc: "deliver (thr ?s2) v1 ts = (v, ws')"
      unfolding ws'(1)[symmetric] by (rule deliver_cong) (use Cons.prems(2) in auto)
    obtain s' where s': "event_walk n ts True ?s2 = Some (s', True)" "kinv {} b s'" "sent v ws' n ?s2 s'"
      using Cons.IH[OF res(2) _ sub dc[unfolded v1_def], of True] Cons.prems(2) by auto
    have "t \<notin> fst ` set ws'" using deliver_members[of _ "thr s" v1 ts] Cons.prems(2) ws'(1) by fastforce
    then have "sent v ws n s s'" unfolding ws'(2) using sent_step[OF s'(3)] by blast
    then show ?thesis using event_walk_wakes[OF Some] res(1) s'(1,2) ws'(2) by simp
  qed
qed

section \<open>Sending and receiving\<close>

definition event_ok :: "nat \<Rightarrow> 'a kernel_scheme \<Rightarrow> bool" where
  "event_ok n s \<longleftrightarrow> rt_object_get_type (event_obj n) s = RT_Object_Class_Event \<and>
     (oflag (objs s (event_obj n)) = RT_IPC_FLAG_FIFO \<or> oflag (objs s (event_obj n)) = RT_IPC_FLAG_PRIO) \<and>
     (\<forall>t \<in> set (tl s (event_list n)).
        received (event_info (thr s t)) (event_set (thr s t)) (ev_set (events s n)) = None)"

text \<open>
  C18. \<^verbatim>\<open>rt_event_send\<close> delivers the events: the waiting threads are looked at in the order of
  the queue, each one whose condition holds for what is left of the set is woken with what it
  receives, which its \<^verbatim>\<open>rt_event_recv\<close> will return with \<^verbatim>\<open>RT_EOK\<close>, and the bits it asked to have
  cleared are cleared before the next one is looked at. Afterwards no thread waits whose
  condition holds. The kernel invariant is kept.
\<close>

theorem rt_event_send_delivers:
  assumes inv: "kinv {} b s" and ok: "event_ok n s" and c: "cur s = Some c" and e: "evs \<noteq> 0"
    and d: "deliver (thr s) (ev_set (events s n) OR evs) (tl s (event_list n)) = (v, ws)"
  shows "\<exists>s'. rt_event_send n evs s = Some (s', RT_EOK) \<and> kinv {} b s' \<and> event_ok n s' \<and>
           ev_set (events s' n) = v \<and>
           tl s' (event_list n) = filter (\<lambda>t. t \<notin> fst ` set ws) (tl s (event_list n)) \<and>
           (\<forall>t e. (t, e) \<in> set ws \<longrightarrow> tstat s' t = RT_THREAD_READY \<and>
              (error (thr s t) = RT_EOK \<longrightarrow> rt_event_recv_end t s' = (RT_EOK, Some e)))"
proof -
  let ?s1 = "set_event n (ev_set (events s n) OR evs) s" and ?l = "event_list n"
  have dist: "distinct (tl s ?l)" using sched_invD(1)[OF kinvD(1)[OF inv]] by (simp add: lists_ok_def)
  obtain s2 where s2: "event_walk n (tl s ?l) False ?s1 = Some (s2, ws \<noteq> [])" "kinv {} b s2" "sent v ws n ?s1 s2"
    using event_walk_ok[of b ?s1 "tl s ?l" n v ws False] inv dist d by auto
  have c2: "cur s2 = Some c" using s2(3) c by (simp add: sent_def)
  obtain s3 where s3: "rt_schedule s2 = Some s3" "kinv {} b s3" "thr s3 = thr s2" "objs s3 = objs s2"
    "kbase.more s3 = kbase.more s2" "\<And>h. (\<nexists>p. h = Ready p) \<Longrightarrow> tl s3 h = tl s2 h"
    by (rule rt_schedule_kinv[OF s2(2) c2]) blast
  define s' where "s' = (if ws \<noteq> [] then s3 else s2)"
  have ev: "events s3 = events s2" using kernel_more_eq(3)[OF ktimer_more_eq(5)[OF s3(5)]] .
  have s': "kinv {} b s'" "thr s' = thr s2" "objs s' = objs s2" "events s' = events s2" "tl s' ?l = tl s2 ?l"
    using s2(2) s3 ev by (simp_all add: s'_def)
  have tl': "tl s' ?l = filter (\<lambda>t. t \<notin> fst ` set ws) (tl s ?l)" using s'(5) s2(3) by (simp add: sent_def)
  have th: "t \<notin> fst ` set ws \<Longrightarrow> thr s' t = thr s t"
    "(t, e) \<in> set ws \<Longrightarrow> thr s' t = set_stat RT_THREAD_READY ((thr s t)\<lparr>event_set := e\<rparr>)" for t e
    using s'(2) s2(3) by (simp_all add: sent_def)
  have "received (event_info (thr s t)) (event_set (thr s t)) v = None" if "t \<in> set (tl s' ?l)" for t
    using deliver_complete[of t "tl s ?l" "thr s" "ev_set (events s n) OR evs"] that d tl' by simp
  then have "event_ok n s'"
    using ok th(1) tl' s'(3,4) s2(3) by (auto simp: event_ok_def rt_object_get_type_def sent_def)
  moreover have "rt_event_send n evs s = Some (s', RT_EOK)"
    using ok e s2(1) s3(1) by (simp add: rt_event_send_def event_ok_def s'_def)
  moreover have "tstat s' t = RT_THREAD_READY \<and> (error (thr s t) = RT_EOK \<longrightarrow> rt_event_recv_end t s' = (RT_EOK, Some e))"
    if "(t, e) \<in> set ws" for t e
    using th(2)[OF that] by (simp add: tstat_def rt_event_recv_end_def)
  ultimately show ?thesis using s'(1,4) s2(3) tl' by (auto simp: sent_def)
qed

text \<open>
  C19. \<^verbatim>\<open>rt_event_recv\<close>: when the condition holds the caller receives the bits at once, and they
  are cleared if it asked for that. Otherwise it gets \<^verbatim>\<open>-RT_ETIMEOUT\<close> without a waiting time,
  and is suspended with one, its condition stored for the sender. An empty set is refused and a
  call with neither \<^verbatim>\<open>AND\<close> nor \<^verbatim>\<open>OR\<close> fails an assertion. The invariants are kept.
\<close>

theorem rt_event_recv_waits:
  assumes inv: "kinv {} b s" and ok: "event_ok n s" and t: "cur s = Some t" "tstat s t = RT_THREAD_READY"
    and irq: "irq_nest s = 0"
  shows "(evs = 0 \<longrightarrow> rt_event_recv n evs opt time s = Some (s, Returns (- RT_ERROR, None))) \<and>
         (evs \<noteq> 0 \<and> opt AND RT_EVENT_FLAG_AND = 0 \<and> opt AND RT_EVENT_FLAG_OR = 0 \<longrightarrow>
            rt_event_recv n evs opt time s = None) \<and>
         (\<forall>e. evs \<noteq> 0 \<and> received opt evs (ev_set (events s n)) = Some e \<longrightarrow>
            (\<exists>s'. rt_event_recv n evs opt time s = Some (s', Returns (RT_EOK, Some e)) \<and> kinv {} b s' \<and> event_ok n s' \<and>
               ev_set (events s' n) = (if opt AND RT_EVENT_FLAG_CLEAR \<noteq> 0 then ev_set (events s n) AND NOT e
                                       else ev_set (events s n)))) \<and>
         (evs \<noteq> 0 \<and> (opt AND RT_EVENT_FLAG_AND \<noteq> 0 \<or> opt AND RT_EVENT_FLAG_OR \<noteq> 0) \<and>
          received opt evs (ev_set (events s n)) = None \<and> time = 0 \<longrightarrow>
            (\<exists>s'. rt_event_recv n evs opt time s = Some (s', Returns (- RT_ETIMEOUT, None)) \<and> kinv {} b s' \<and>
               events s' = events s)) \<and>
         (evs \<noteq> 0 \<and> (opt AND RT_EVENT_FLAG_AND \<noteq> 0 \<or> opt AND RT_EVENT_FLAG_OR \<noteq> 0) \<and>
          received opt evs (ev_set (events s n)) = None \<and> time_ok time \<longrightarrow>
            (\<exists>s' r. rt_event_recv n evs opt time s = Some (s', r) \<and> kinv {} b s' \<and> event_ok n s' \<and>
               events s' = events s \<and> t \<in> set (tl s' (event_list n)) \<and>
               event_set (thr s' t) = evs \<and> event_info (thr s' t) = opt \<and>
               (cur s' \<noteq> Some t \<longrightarrow> r = Blocks) \<and>
               (lock_nest s = 0 \<and> (\<exists>u. u \<noteq> t \<and> tstat s u = RT_THREAD_READY) \<longrightarrow> r = Blocks)))"
proof -
  let ?s1 = "upd_thr t (\<lambda>th. th\<lparr>error := RT_EOK\<rparr>) s" and ?l = "event_list n"
  let ?v = "ev_set (events s n)" and ?fl = "oflag (objs s (event_obj n))"
  note start = rt_event_recv_def rt_debug_in_thread_context_def rt_debug_not_in_interrupt_def rt_thread_self_def
  have k1: "kinv {} b ?s1" by (rule clear_error_kinv[OF inv])
  have ty: "rt_object_get_type (event_obj n) s = RT_Object_Class_Event" using ok by (simp add: event_ok_def)
  note st = start irq t ty
  show ?thesis
  proof (intro conjI allI impI)
    assume "evs = 0"
    then show "rt_event_recv n evs opt time s = Some (s, Returns (- RT_ERROR, None))" by (simp add: st)
  next
    assume "evs \<noteq> 0 \<and> opt AND RT_EVENT_FLAG_AND = 0 \<and> opt AND RT_EVENT_FLAG_OR = 0"
    then show "rt_event_recv n evs opt time s = None" by (simp add: st)
  next
    fix e
    assume r: "evs \<noteq> 0 \<and> received opt evs ?v = Some e"
    let ?s' = "if opt AND RT_EVENT_FLAG_CLEAR \<noteq> 0 then set_event n (?v AND NOT evs) ?s1 else ?s1"
    have e: "e = ?v AND evs" using r by (auto simp: received_def and.commute split: if_splits)
    have vn: "?v AND NOT e = ?v AND NOT evs" unfolding e by (rule bit_eqI) (auto simp: bit_simps)
    have "(?v AND NOT evs) AND ?v = ?v AND NOT evs" by (simp add: ac_simps)
    then have "event_ok n ?s'"
      using ok received_mono[of "?v AND NOT evs" ?v] by (auto simp: event_ok_def)
    moreover have "rt_event_recv n evs opt time s = Some (?s', Returns (RT_EOK, Some e))"
      using r e by (auto simp: st received_def Let_def and.commute split: if_splits)
    ultimately show "\<exists>s'. rt_event_recv n evs opt time s = Some (s', Returns (RT_EOK, Some e)) \<and> kinv {} b s' \<and> event_ok n s' \<and>
        ev_set (events s' n) = (if opt AND RT_EVENT_FLAG_CLEAR \<noteq> 0 then ?v AND NOT e else ?v)"
      using k1 vn by (intro exI[of _ ?s']) simp
  next
    assume r: "evs \<noteq> 0 \<and> (opt AND RT_EVENT_FLAG_AND \<noteq> 0 \<or> opt AND RT_EVENT_FLAG_OR \<noteq> 0) \<and>
      received opt evs ?v = None \<and> time = 0"
    then have "rt_event_recv n evs opt time s =
        Some (upd_thr t (\<lambda>th. th\<lparr>error := - RT_ETIMEOUT\<rparr>) ?s1, Returns (- RT_ETIMEOUT, None))"
      by (auto simp: st received_def Let_def and.commute split: if_splits)
    then show "\<exists>s'. rt_event_recv n evs opt time s = Some (s', Returns (- RT_ETIMEOUT, None)) \<and> kinv {} b s' \<and>
        events s' = events s"
      using clear_error_kinv[OF k1] by simp
  next
    assume r: "evs \<noteq> 0 \<and> (opt AND RT_EVENT_FLAG_AND \<noteq> 0 \<or> opt AND RT_EVENT_FLAG_OR \<noteq> 0) \<and>
      received opt evs ?v = None \<and> time_ok time"
    let ?f = "\<lambda>th. th\<lparr>error := RT_EOK, event_set := evs, event_info := opt\<rparr>"
    have fl: "?fl = RT_IPC_FLAG_FIFO \<or> ?fl = RT_IPC_FLAG_PRIO" using ok by (simp add: event_ok_def)
    obtain s' where s': "ipc_block ?l t ?fl time (upd_thr t ?f s) = Some s'" "kinv {} b s'"
      "thr s' = (thr s)(t := set_stat RT_THREAD_SUSPEND (?f (thr s t)))"
      "\<And>k. (\<nexists>p. k = Ready p) \<Longrightarrow> tl s' k =
         (if k = ?l then queued ?fl (\<lambda>u. current_priority (thr s u)) t (tl s ?l) else tl s k)"
      "\<And>i. objs s' (IpcObj i) = objs s (IpcObj i)" "ktimer.more s' = ktimer.more s"
      "\<And>u. lock_nest s = 0 \<Longrightarrow> u \<noteq> t \<Longrightarrow> tstat s u = RT_THREAD_READY \<Longrightarrow> cur s' \<noteq> Some t"
      by (rule ipc_block_upd[OF inv t, of ?l _ time ?f, OF _ fl]) (use r in \<open>auto simp: attr_ok_def\<close>)
    have ev: "events s' = events s" using kernel_more_eq(3)[OF s'(6)] .
    have "upd_thr t (\<lambda>th. th\<lparr>event_set := evs, event_info := opt\<rparr>) ?s1 = upd_thr t ?f s" by (simp add: upd_thr_def)
    then have recv: "rt_event_recv n evs opt time s =
        Some (s', if cur s' = Some t then Returns (rt_event_recv_end t s') else Blocks)"
      using r s'(1) by (auto simp: st received_def Let_def and.commute time_ok_def split: if_splits)
    have un: "t \<notin> set (tl s ?l)"
      using running_unlinked[OF kinvD(1)[OF inv] t] by (simp add: unlinked_def)
    have "event_ok n s'"
      using ok r ev s'(3,5) s'(4)[of ?l] un by (auto simp: event_ok_def rt_object_get_type_def)
    then show "\<exists>s' r. rt_event_recv n evs opt time s = Some (s', r) \<and> kinv {} b s' \<and> event_ok n s' \<and>
        events s' = events s \<and> t \<in> set (tl s' ?l) \<and> event_set (thr s' t) = evs \<and> event_info (thr s' t) = opt \<and>
        (cur s' \<noteq> Some t \<longrightarrow> r = Blocks) \<and>
        (lock_nest s = 0 \<and> (\<exists>u. u \<noteq> t \<and> tstat s u = RT_THREAD_READY) \<longrightarrow> r = Blocks)"
      using recv s' ev by auto
  qed
qed

text \<open>Thread 3 waits for any of the bits 0 and 1 and will have what it gets cleared.\<close>

definition demo_event :: kernel where
  "demo_event = upd_thr 3 (\<lambda>th. th\<lparr>event_set := 3, event_info := 6\<rparr>) (demo_wait (event_list 0))"

lemma demo_event_inv: "kinv {} 100 demo_event"
  unfolding demo_event_def by (rule kinv_upd_same[OF demo_wait_inv]) (simp_all add: attr_ok_def)

lemma demo_event_ok: "event_ok 0 demo_event"
  by (simp add: event_ok_def demo_event_def received_def)

theorem rt_event_send_delivers_witness:
  "\<exists>s'. rt_event_send 0 5 demo_event = Some (s', RT_EOK) \<and> kinv {} 100 s' \<and> ev_set (events s' 0) = 4 \<and>
     tl s' (event_list 0) = [] \<and> rt_event_recv_end 3 s' = (RT_EOK, Some 1)"
proof -
  have "deliver (thr demo_event) (ev_set (events demo_event 0) OR 5) (tl demo_event (event_list 0)) = (4, [(3, 1)])"
    by (simp add: demo_event_def received_def)
  moreover have "cur demo_event = Some 1" "tl demo_event (event_list 0) = [3]" "error (thr demo_event 3) = RT_EOK"
    by (simp_all add: demo_event_def)
  ultimately show ?thesis
    using rt_event_send_delivers[OF demo_event_inv demo_event_ok, of 1 5 4 "[(3, 1)]"] by auto
qed

theorem rt_event_recv_waits_witness:
  "\<exists>s'. rt_event_recv 1 3 1 20 demo_ipc = Some (s', Blocks) \<and> kinv {} 100 s' \<and> event_set (thr s' 1) = 3"
proof -
  have "event_ok 1 demo_ipc" by (simp add: event_ok_def)
  moreover have "received 1 3 (ev_set (events demo_ipc 1)) = None" "time_ok 20"
    "2 \<noteq> (1 :: nat) \<and> tstat demo_ipc 2 = RT_THREAD_READY"
    by (simp_all add: received_def time_ok_def)
  ultimately show ?thesis
    using rt_event_recv_waits[OF demo_ipc_inv, of 1 1 3 1 20] by auto
qed

end
