(* ===== verification/Fifo.thy ===== *)
theory Fifo
  imports Prelude
begin

text \<open>
  The interface of a bounded queue, which mailboxes, message queues, ring buffers and data
  queues implement, and the lemmas on circular arrays that most of them share.
\<close>

section \<open>Sequences of operations\<close>

datatype 'a fifo_op = Put 'a | Get

text \<open>
  Runs a sequence of operations and collects what was accepted and what was handed out. An
  operation that the queue refuses changes nothing.
\<close>

fun fifo_run ::
  "('a \<Rightarrow> 'q \<Rightarrow> 'q option) \<Rightarrow> ('q \<Rightarrow> ('a \<times> 'q) option) \<Rightarrow> 'a fifo_op list \<Rightarrow> 'q \<Rightarrow> 'a list \<times> 'a list \<times> 'q" where
  "fifo_run put get [] q = ([], [], q)"
| "fifo_run put get (Put x # ops) q =
     (case put x q of
        None \<Rightarrow> fifo_run put get ops q
      | Some q' \<Rightarrow> let (ins, outs, q'') = fifo_run put get ops q' in (x # ins, outs, q''))"
| "fifo_run put get (Get # ops) q =
     (case get q of
        None \<Rightarrow> fifo_run put get ops q
      | Some (x, q') \<Rightarrow> let (ins, outs, q'') = fifo_run put get ops q' in (ins, x # outs, q''))"

section \<open>Bounded queues\<close>

locale bounded_fifo =
  fixes inv :: "'q \<Rightarrow> bool" and items :: "'q \<Rightarrow> 'a list" and cap :: "'q \<Rightarrow> nat"
    and put :: "'a \<Rightarrow> 'q \<Rightarrow> 'q option" and get :: "'q \<Rightarrow> ('a \<times> 'q) option"
  assumes bounded: "inv q \<Longrightarrow> length (items q) \<le> cap q"
    and put_room: "inv q \<Longrightarrow> length (items q) < cap q \<Longrightarrow>
      \<exists>q'. put x q = Some q' \<and> inv q' \<and> items q' = items q @ [x] \<and> cap q' = cap q"
    and put_full: "inv q \<Longrightarrow> length (items q) = cap q \<Longrightarrow> put x q = None"
    and get_some: "inv q \<Longrightarrow> items q = x # xs \<Longrightarrow>
      \<exists>q'. get q = Some (x, q') \<and> inv q' \<and> items q' = xs \<and> cap q' = cap q"
    and get_empty: "inv q \<Longrightarrow> items q = [] \<Longrightarrow> get q = None"
begin

lemma put_cases:
  assumes "inv q"
  obtains (full) "length (items q) = cap q" "put x q = None"
  | (room) q' where "length (items q) < cap q" "put x q = Some q'" "inv q'" "items q' = items q @ [x]" "cap q' = cap q"
  using bounded[OF assms] put_full[OF assms] put_room[OF assms] by (meson le_neq_implies_less)

lemma get_cases:
  assumes "inv q"
  obtains (none) "items q = []" "get q = None"
  | (some) x xs q' where "items q = x # xs" "get q = Some (x, q')" "inv q'" "items q' = xs" "cap q' = cap q"
  using get_empty[OF assms] get_some[OF assms] by (metis list.exhaust)

text \<open>Nothing is lost, duplicated or reordered, and the queue never holds more than its capacity.\<close>

theorem run_in_order:
  assumes "inv q" "fifo_run put get ops q = (ins, outs, q')"
  shows "inv q' \<and> items q @ ins = outs @ items q' \<and> cap q' = cap q \<and> length (items q') \<le> cap q"
  using assms
proof (induction ops arbitrary: q ins outs q')
  case Nil
  then show ?case using bounded by simp
next
  case (Cons op ops)
  show ?case
  proof (cases op)
    case (Put x)
    show ?thesis
      using Cons.prems(1)
    proof (cases rule: put_cases[where x = x])
      case full
      then show ?thesis using Cons Put by simp
    next
      case (room q1)
      obtain ins1 outs1 q2 where r: "fifo_run put get ops q1 = (ins1, outs1, q2)" by (metis prod_cases3)
      then show ?thesis using Cons.IH[OF room(3) r] Cons.prems(2) Put room by auto
    qed
  next
    case Get
    show ?thesis
      using Cons.prems(1)
    proof (cases rule: get_cases)
      case none
      then show ?thesis using Cons.IH[OF Cons.prems(1), of ins outs q'] Cons.prems(2) Get by simp
    next
      case (some x xs q1)
      obtain ins1 outs1 q2 where r: "fifo_run put get ops q1 = (ins1, outs1, q2)" by (metis prod_cases3)
      then show ?thesis using Cons.IH[OF some(3) r] Cons.prems(2) Get some by auto
    qed
  qed
qed

text \<open>What was put into an empty queue comes out first in, first out.\<close>

lemma put_get:
  assumes "inv q" "items q = []" "0 < cap q"
  shows "\<exists>q1 q2. put x q = Some q1 \<and> get q1 = Some (x, q2) \<and> inv q2 \<and> items q2 = []"
proof -
  obtain q1 where q1: "put x q = Some q1" "inv q1" "items q1 = [x]" using put_room[of q x] assms by auto
  then show ?thesis using get_some[OF q1(2,3)] by auto
qed

end

section \<open>Circular arrays\<close>

text \<open>The \<open>n\<close> entries of an array from index \<open>out\<close> on, around its end.\<close>

definition ring_items :: "'a list \<Rightarrow> nat \<Rightarrow> nat \<Rightarrow> 'a list" where
  "ring_items pool out n = map (\<lambda>i. pool ! ((out + i) mod length pool)) [0..<n]"

lemma length_ring_items [simp]: "length (ring_items pool out n) = n"
  by (simp add: ring_items_def)

lemma ring_items_0 [simp]: "ring_items pool out 0 = []"
  by (simp add: ring_items_def)

lemma ring_items_put:
  assumes "n < length pool"
  shows "ring_items (pool[(out + n) mod length pool := x]) out (Suc n) = ring_items pool out n @ [x]"
proof -
  have "(out + n) mod length pool \<noteq> (out + i) mod length pool" if "i < n" for i
  proof
    assume "(out + n) mod length pool = (out + i) mod length pool"
    then have "length pool dvd n - i" using that mod_eq_dvd_iff_nat[of "out + i" "out + n" "length pool"] by simp
    then show False using that assms by (auto dest: dvd_imp_le)
  qed
  moreover have "(out + i) mod length pool < length pool" for i using assms by (intro mod_less_divisor) linarith
  ultimately show ?thesis by (auto simp: ring_items_def nth_list_update)
qed

lemma ring_items_get:
  "ring_items pool out (Suc n) = pool ! (out mod length pool) # ring_items pool (Suc out mod length pool) n"
proof -
  have "[0..<Suc n] = 0 # map Suc [0..<n]" by (simp add: map_Suc_upt upt_conv_Cons)
  then show ?thesis by (simp add: ring_items_def mod_simps comp_def)
qed

lemma ring_items_take: "k \<le> n \<Longrightarrow> ring_items pool out k = take k (ring_items pool out n)"
  by (auto simp: ring_items_def take_map min_def)

lemma ring_items_drop: "ring_items pool ((out + k) mod length pool) (n - k) = drop k (ring_items pool out n)"
proof -
  have "map (\<lambda>i. pool ! ((out + k + i) mod length pool)) [0..<n - k] = map (\<lambda>i. pool ! ((out + i) mod length pool)) [k..<n]"
    by (rule nth_equalityI) (auto simp: add.assoc)
  then show ?thesis by (simp add: ring_items_def drop_map mod_simps)
qed

end
