(* ===== verification/MailBox.thy ===== *)
theory MailBox
  imports Ipc Fifo
begin

unbundle bit_operations_syntax

text \<open>
  The mailboxes of \<^verbatim>\<open>src/ipc.c\<close>: a circular array of words with a queue of waiting receivers
  and one of waiting senders. A call that has to wait is suspended and tries again with what is
  left of its waiting time when it is woken. The loops are \<open>partial_function\<close>s; the calls that
  continue after \<^verbatim>\<open>rt_schedule\<close> has come back to a thread that was switched away are
  \<open>rt_mb_send_wait_end\<close> and \<open>rt_mb_recv_end\<close>. A write beyond the pool is undefined (\<open>None\<close>).
\<close>

section \<open>Definitions\<close>

abbreviation mb_list :: "nat \<Rightarrow> lhead" where "mb_list n \<equiv> Suspended (MailBoxId n)"
abbreviation mb_obj :: "nat \<Rightarrow> oid" where "mb_obj n \<equiv> IpcObj (MailBoxId n)"

definition set_mb :: "nat \<Rightarrow> rt_mailbox \<Rightarrow> 'a kernel_scheme \<Rightarrow> 'a kernel_scheme" where
  "set_mb n mb s = s\<lparr>mailboxes := (mailboxes s)(n := mb)\<rparr>"

text \<open>\<open>msgpool\<close> is the memory behind the pointer that is passed.\<close>

definition rt_mb_init ::
  "nat \<Rightarrow> u8 list \<Rightarrow> u32 list \<Rightarrow> u32 \<Rightarrow> u8 \<Rightarrow> 'a kernel_scheme \<Rightarrow> ('a kernel_scheme \<times> rt_err) option" where
  "rt_mb_init n nm msgpool sz flag s = do {
     s1 \<leftarrow> rt_object_init (mb_obj n) RT_Object_Class_MailBox nm s;
     let s2 = set_oflag (mb_obj n) flag s1;
     let s3 = rt_ipc_object_init (mb_list n) s2;
     let s4 = set_mb n \<lparr>mb_msg_pool = msgpool, mb_size = ucast sz, mb_entry = 0, mb_in_offset = 0,
                mb_out_offset = 0\<rparr> s3;
     Some (rt_ipc_object_init (SuspendedSender n) s4, RT_EOK)
   }"

definition rt_mb_detach :: "nat \<Rightarrow> 'a kernel_scheme \<Rightarrow> ('a kernel_scheme \<times> rt_err) option" where
  "rt_mb_detach n s = do {
     rt_assert (rt_object_get_type (mb_obj n) s = RT_Object_Class_MailBox);
     rt_assert (rt_object_is_systemobject (mb_obj n) s);
     (s1, _) \<leftarrow> rt_ipc_list_resume_all (mb_list n) s;
     (s2, _) \<leftarrow> rt_ipc_list_resume_all (SuspendedSender n) s1;
     Some (rt_object_detach (mb_obj n) s2, RT_EOK)
   }"

text \<open>
  \<open>mem\<close> is the memory for the object, \<open>pool\<close> what \<^verbatim>\<open>RT_KERNEL_MALLOC\<close> returns for a pool of the
  given number of words.
\<close>

definition rt_mb_create ::
  "u8 list \<Rightarrow> u32 \<Rightarrow> u8 \<Rightarrow> nat option \<Rightarrow> (nat \<Rightarrow> u32 list option) \<Rightarrow> 'a kernel_scheme \<Rightarrow>
   ('a kernel_scheme \<times> nat option) option" where
  "rt_mb_create nm sz flag mem pool s = do {
     rt_debug_not_in_interrupt s;
     (s1, r) \<leftarrow> rt_object_allocate RT_Object_Class_MailBox nm (map_option mb_obj mem) s;
     (case r of
        Some (IpcObj (MailBoxId n)) \<Rightarrow> do {
          let s2 = set_oflag (mb_obj n) flag s1;
          let s3 = rt_ipc_object_init (mb_list n) s2;
          (case pool (unat (ucast sz :: u16)) of
             None \<Rightarrow> do { s4 \<leftarrow> rt_object_delete (mb_obj n) s3; Some (s4, None) }
           | Some msgpool \<Rightarrow>
               let s4 = set_mb n \<lparr>mb_msg_pool = msgpool, mb_size = ucast sz, mb_entry = 0, mb_in_offset = 0,
                          mb_out_offset = 0\<rparr> (s3\<lparr>heap := insert (BufBlk (mb_obj n)) (heap s3)\<rparr>)
               in Some (rt_ipc_object_init (SuspendedSender n) s4, Some n))
        }
      | _ \<Rightarrow> Some (s1, None))
   }"

definition rt_mb_delete :: "nat \<Rightarrow> 'a kernel_scheme \<Rightarrow> ('a kernel_scheme \<times> rt_err) option" where
  "rt_mb_delete n s = do {
     rt_debug_not_in_interrupt s;
     rt_assert (rt_object_get_type (mb_obj n) s = RT_Object_Class_MailBox);
     rt_assert (\<not> rt_object_is_systemobject (mb_obj n) s);
     (s1, _) \<leftarrow> rt_ipc_list_resume_all (mb_list n) s;
     (s2, _) \<leftarrow> rt_ipc_list_resume_all (SuspendedSender n) s1;
     s3 \<leftarrow> kernel_free (BufBlk (mb_obj n)) s2;
     s4 \<leftarrow> rt_object_delete (mb_obj n) s3;
     Some (s4, RT_EOK)
   }"

text \<open>Writing a mail into the pool, and reading one.\<close>

definition mb_store :: "u32 \<Rightarrow> rt_mailbox \<Rightarrow> rt_mailbox option" where
  "mb_store value mb =
     (if unat (mb_in_offset mb) < length (mb_msg_pool mb) then
        let ofs = mb_in_offset mb + 1 in
        Some (mb\<lparr>mb_msg_pool := (mb_msg_pool mb)[unat (mb_in_offset mb) := value],
                 mb_in_offset := (if ofs \<ge> mb_size mb then 0 else ofs), mb_entry := mb_entry mb + 1\<rparr>)
      else None)"

definition mb_fetch :: "rt_mailbox \<Rightarrow> (u32 \<times> rt_mailbox) option" where
  "mb_fetch mb =
     (if unat (mb_out_offset mb) < length (mb_msg_pool mb) then
        let ofs = mb_out_offset mb + 1 in
        Some (mb_msg_pool mb ! unat (mb_out_offset mb),
              mb\<lparr>mb_out_offset := (if ofs \<ge> mb_size mb then 0 else ofs), mb_entry := mb_entry mb - 1\<rparr>)
      else None)"

text \<open>The end of the calls, once there is room or a mail: the transfer, and waking the other side.\<close>

definition mb_send_now :: "nat \<Rightarrow> u32 \<Rightarrow> 'a kernel_scheme \<Rightarrow> ('a kernel_scheme \<times> rt_err) option" where
  "mb_send_now n value s = do {
     mb \<leftarrow> mb_store value (mailboxes s n);
     let s1 = set_mb n mb s;
     if tl s1 (mb_list n) \<noteq> [] then do {
       (s2, _) \<leftarrow> rt_ipc_list_resume (mb_list n) s1;
       s3 \<leftarrow> rt_schedule s2;
       Some (s3, RT_EOK)
     }
     else Some (s1, RT_EOK)
   }"

definition mb_recv_now :: "nat \<Rightarrow> 'a kernel_scheme \<Rightarrow> ('a kernel_scheme \<times> rt_err \<times> u32 option) option" where
  "mb_recv_now n s = do {
     (value, mb) \<leftarrow> mb_fetch (mailboxes s n);
     let s1 = set_mb n mb s;
     if tl s1 (SuspendedSender n) \<noteq> [] then do {
       (s2, _) \<leftarrow> rt_ipc_list_resume (SuspendedSender n) s1;
       s3 \<leftarrow> rt_schedule s2;
       Some (s3, RT_EOK, Some value)
     }
     else Some (s1, RT_EOK, Some value)
   }"

partial_function (option) mb_send_loop ::
  "nat \<Rightarrow> u32 \<Rightarrow> u32 \<Rightarrow> tid option \<Rightarrow> 'a kernel_scheme \<Rightarrow> ('a kernel_scheme \<times> rt_err call) option" where
  "mb_send_loop n value timeout self s =
     (if mb_entry (mailboxes s n) = mb_size (mailboxes s n) then do {
        thread \<leftarrow> self;
        let s1 = upd_thr thread (\<lambda>th. th\<lparr>error := RT_EOK\<rparr>) s;
        if timeout = 0 then Some (s1, Returns (- RT_EFULL))
        else do {
          rt_debug_in_thread_context s1;
          s2 \<leftarrow> ipc_block (SuspendedSender n) thread (oflag (objs s1 (mb_obj n))) timeout s1;
          if cur s2 \<noteq> Some thread then Some (s2, Blocks)
          else if error (thr s2 thread) \<noteq> RT_EOK then Some (s2, Returns (error (thr s2 thread)))
          else mb_send_loop n value (remaining timeout (rt_tick_get s1) (rt_tick_get s2)) self s2
        }
      }
      else do { (s', r) \<leftarrow> mb_send_now n value s; Some (s', Returns r) })"

definition rt_mb_send_wait ::
  "nat \<Rightarrow> u32 \<Rightarrow> u32 \<Rightarrow> 'a kernel_scheme \<Rightarrow> ('a kernel_scheme \<times> rt_err call) option" where
  "rt_mb_send_wait n value timeout s = do {
     rt_assert (rt_object_get_type (mb_obj n) s = RT_Object_Class_MailBox);
     if mb_entry (mailboxes s n) = mb_size (mailboxes s n) \<and> timeout = 0 then Some (s, Returns (- RT_EFULL))
     else mb_send_loop n value timeout (rt_thread_self s) s
   }"

text \<open>\<open>t0\<close> is the tick at which the call was suspended.\<close>

definition rt_mb_send_wait_end ::
  "nat \<Rightarrow> u32 \<Rightarrow> u32 \<Rightarrow> u32 \<Rightarrow> tid \<Rightarrow> 'a kernel_scheme \<Rightarrow> ('a kernel_scheme \<times> rt_err call) option" where
  "rt_mb_send_wait_end n value timeout t0 thread s =
     (if error (thr s thread) \<noteq> RT_EOK then Some (s, Returns (error (thr s thread)))
      else mb_send_loop n value (remaining timeout t0 (rt_tick_get s)) (Some thread) s)"

definition rt_mb_send :: "nat \<Rightarrow> u32 \<Rightarrow> 'a kernel_scheme \<Rightarrow> ('a kernel_scheme \<times> rt_err call) option" where
  "rt_mb_send n value s = rt_mb_send_wait n value 0 s"

partial_function (option) mb_recv_loop ::
  "nat \<Rightarrow> u32 \<Rightarrow> tid option \<Rightarrow> 'a kernel_scheme \<Rightarrow>
   ('a kernel_scheme \<times> (rt_err \<times> u32 option) call) option" where
  "mb_recv_loop n timeout self s =
     (if mb_entry (mailboxes s n) = 0 then do {
        thread \<leftarrow> self;
        let s1 = upd_thr thread (\<lambda>th. th\<lparr>error := RT_EOK\<rparr>) s;
        if timeout = 0 then
          Some (upd_thr thread (\<lambda>th. th\<lparr>error := - RT_ETIMEOUT\<rparr>) s1, Returns (- RT_ETIMEOUT, None))
        else do {
          rt_debug_in_thread_context s1;
          s2 \<leftarrow> ipc_block (mb_list n) thread (oflag (objs s1 (mb_obj n))) timeout s1;
          if cur s2 \<noteq> Some thread then Some (s2, Blocks)
          else if error (thr s2 thread) \<noteq> RT_EOK then Some (s2, Returns (error (thr s2 thread), None))
          else mb_recv_loop n (remaining timeout (rt_tick_get s1) (rt_tick_get s2)) self s2
        }
      }
      else do { (s', r) \<leftarrow> mb_recv_now n s; Some (s', Returns r) })"

definition rt_mb_recv ::
  "nat \<Rightarrow> u32 \<Rightarrow> 'a kernel_scheme \<Rightarrow> ('a kernel_scheme \<times> (rt_err \<times> u32 option) call) option" where
  "rt_mb_recv n timeout s = do {
     rt_assert (rt_object_get_type (mb_obj n) s = RT_Object_Class_MailBox);
     if mb_entry (mailboxes s n) = 0 \<and> timeout = 0 then Some (s, Returns (- RT_ETIMEOUT, None))
     else mb_recv_loop n timeout (rt_thread_self s) s
   }"

definition rt_mb_recv_end ::
  "nat \<Rightarrow> u32 \<Rightarrow> u32 \<Rightarrow> tid \<Rightarrow> 'a kernel_scheme \<Rightarrow>
   ('a kernel_scheme \<times> (rt_err \<times> u32 option) call) option" where
  "rt_mb_recv_end n timeout t0 thread s =
     (if error (thr s thread) \<noteq> RT_EOK then Some (s, Returns (error (thr s thread), None))
      else mb_recv_loop n (remaining timeout t0 (rt_tick_get s)) (Some thread) s)"

definition rt_mb_control ::
  "nat \<Rightarrow> ipc_cmd \<Rightarrow> 'a kernel_scheme \<Rightarrow> ('a kernel_scheme \<times> rt_err) option" where
  "rt_mb_control n cmd s = do {
     rt_assert (rt_object_get_type (mb_obj n) s = RT_Object_Class_MailBox);
     (case cmd of
        RT_IPC_CMD_RESET arg \<Rightarrow> do {
          (s1, _) \<leftarrow> rt_ipc_list_resume_all (mb_list n) s;
          (s2, _) \<leftarrow> rt_ipc_list_resume_all (SuspendedSender n) s1;
          let s3 = set_mb n ((mailboxes s2 n)\<lparr>mb_entry := 0, mb_in_offset := 0, mb_out_offset := 0\<rparr>) s2;
          s4 \<leftarrow> rt_schedule s3;
          Some (s4, RT_EOK)
        }
      | IPC_CMD_OTHER \<Rightarrow> Some (s, - RT_ERROR))
   }"

section \<open>The pool is a bounded queue\<close>

definition mb_inv :: "rt_mailbox \<Rightarrow> bool" where
  "mb_inv mb \<longleftrightarrow> length (mb_msg_pool mb) = unat (mb_size mb) \<and> mb_entry mb \<le> mb_size mb \<and>
     (mb_size mb \<noteq> 0 \<longrightarrow> mb_out_offset mb < mb_size mb \<and>
        unat (mb_in_offset mb) = (unat (mb_out_offset mb) + unat (mb_entry mb)) mod unat (mb_size mb))"

definition mb_items :: "rt_mailbox \<Rightarrow> u32 list" where
  "mb_items mb = ring_items (mb_msg_pool mb) (unat (mb_out_offset mb)) (unat (mb_entry mb))"

text \<open>Sending and receiving without waiting, as far as the pool goes.\<close>

definition mb_put :: "u32 \<Rightarrow> rt_mailbox \<Rightarrow> rt_mailbox option" where
  "mb_put value mb = (if mb_entry mb = mb_size mb then None else mb_store value mb)"

definition mb_get :: "rt_mailbox \<Rightarrow> (u32 \<times> rt_mailbox) option" where
  "mb_get mb = (if mb_entry mb = 0 then None else mb_fetch mb)"

lemma unat_u16_inc: "i < sz \<Longrightarrow> unat (i + 1) = Suc (unat i)" for i sz :: u16
proof -
  assume "i < sz"
  then have "Suc (unat i) < 65536" using unsigned_less[of sz, where ?'a = nat] by (simp add: word_less_nat_alt)
  then show ?thesis by (simp add: unat_word_ariths)
qed

lemma next_offset:
  "i < sz \<Longrightarrow> unat (if i + 1 \<ge> sz then 0 else i + 1) = Suc (unat i) mod unat sz" for i sz :: u16
proof -
  assume i: "i < sz"
  note u = unat_u16_inc[OF i]
  show ?thesis
  proof (cases "i + 1 \<ge> sz")
    case True
    then have "Suc (unat i) = unat sz" using i u by (simp add: word_le_nat_alt word_less_nat_alt)
    then show ?thesis using True by simp
  next
    case False
    then show ?thesis using u by (simp add: word_le_nat_alt)
  qed
qed

lemma unat_u16_dec: "i \<noteq> 0 \<Longrightarrow> unat (i - 1) = unat i - 1" for i :: u16
  by (metis unat_1 unat_minus_one)

lemma mb_store_ok:
  assumes inv: "mb_inv mb" and room: "mb_entry mb \<noteq> mb_size mb"
  shows "\<exists>mb'. mb_store v mb = Some mb' \<and> mb_inv mb' \<and> mb_items mb' = mb_items mb @ [v] \<and> mb_size mb' = mb_size mb"
proof -
  let ?sz = "mb_size mb" and ?n = "unat (mb_entry mb)" and ?o = "unat (mb_out_offset mb)"
  have lt: "mb_entry mb < ?sz" "?sz \<noteq> 0" using inv room by (auto simp: mb_inv_def order_less_le)
  have len: "length (mb_msg_pool mb) = unat ?sz" and o: "mb_out_offset mb < ?sz"
    and ino: "unat (mb_in_offset mb) = (?o + ?n) mod unat ?sz"
    using inv lt by (simp_all add: mb_inv_def)
  have pos: "0 < unat ?sz" using lt(2) by (simp add: unat_gt_0)
  have il: "mb_in_offset mb < ?sz" using ino pos by (simp add: word_less_nat_alt)
  have en: "unat (mb_entry mb + 1) = Suc ?n" by (rule unat_u16_inc[OF lt(1)])
  have nx: "unat (if mb_in_offset mb + 1 \<ge> ?sz then 0 else mb_in_offset mb + 1) = (?o + Suc ?n) mod unat ?sz"
    unfolding next_offset[OF il] ino by (simp add: mod_Suc_eq)
  let ?mb = "mb\<lparr>mb_msg_pool := (mb_msg_pool mb)[unat (mb_in_offset mb) := v],
    mb_in_offset := (if mb_in_offset mb + 1 \<ge> ?sz then 0 else mb_in_offset mb + 1), mb_entry := mb_entry mb + 1\<rparr>"
  have "mb_store v mb = Some ?mb" using il len by (simp add: mb_store_def Let_def word_less_nat_alt)
  moreover have "mb_inv ?mb"
    using len o nx en lt(1) by (simp add: mb_inv_def word_le_nat_alt word_less_nat_alt)
  moreover have "mb_items ?mb = mb_items mb @ [v]"
    using ring_items_put[of ?n "mb_msg_pool mb" ?o v] lt(1) len ino en
    by (simp add: mb_items_def word_less_nat_alt)
  ultimately show ?thesis by (intro exI[of _ ?mb]) simp
qed

lemma mb_fetch_ok:
  assumes inv: "mb_inv mb" and ne: "mb_entry mb \<noteq> 0"
  shows "\<exists>mb' x xs. mb_items mb = x # xs \<and> mb_fetch mb = Some (x, mb') \<and> mb_inv mb' \<and> mb_items mb' = xs \<and>
           mb_size mb' = mb_size mb"
proof -
  let ?sz = "mb_size mb" and ?n = "unat (mb_entry mb)" and ?o = "unat (mb_out_offset mb)"
  have sz: "?sz \<noteq> 0" using inv ne by (auto simp: mb_inv_def)
  have len: "length (mb_msg_pool mb) = unat ?sz" and o: "mb_out_offset mb < ?sz" and le: "?n \<le> unat ?sz"
    and ino: "unat (mb_in_offset mb) = (?o + ?n) mod unat ?sz"
    using inv sz by (simp_all add: mb_inv_def word_le_nat_alt)
  obtain m where m: "?n = Suc m" using ne by (metis not0_implies_Suc unat_eq_zero)
  have en: "unat (mb_entry mb - 1) = m" using unat_u16_dec[OF ne] m by simp
  have nx: "unat (if mb_out_offset mb + 1 \<ge> ?sz then 0 else mb_out_offset mb + 1) = Suc ?o mod unat ?sz"
    by (rule next_offset[OF o])
  let ?mb = "mb\<lparr>mb_out_offset := (if mb_out_offset mb + 1 \<ge> ?sz then 0 else mb_out_offset mb + 1), mb_entry := mb_entry mb - 1\<rparr>"
  have ol: "?o < unat ?sz" using o by (simp add: word_less_nat_alt)
  have "mb_items mb = mb_msg_pool mb ! ?o # mb_items ?mb"
    using ring_items_get[of "mb_msg_pool mb" ?o m] nx en m len ol by (simp add: mb_items_def)
  moreover have "mb_fetch mb = Some (mb_msg_pool mb ! ?o, ?mb)" using ol len by (simp add: mb_fetch_def Let_def)
  moreover have "(Suc ?o mod unat ?sz + m) mod unat ?sz = (?o + ?n) mod unat ?sz" using m by (simp add: mod_simps)
  then have "mb_inv ?mb"
    using len nx en le m ino ol by (simp add: mb_inv_def word_le_nat_alt word_less_nat_alt)
  ultimately show ?thesis by (intro exI[of _ ?mb]) simp
qed

lemma mb_items_length [simp]: "length (mb_items mb) = unat (mb_entry mb)"
  by (simp add: mb_items_def)

lemma mb_items_empty: "mb_items mb = [] \<longleftrightarrow> mb_entry mb = 0"
  by (metis length_0_conv mb_items_length unat_eq_zero)

interpretation mbq: bounded_fifo mb_inv mb_items "\<lambda>mb. unat (mb_size mb)" mb_put mb_get
proof (unfold_locales, goal_cases)
  case (1 q)
  then show ?case by (simp add: mb_inv_def word_le_nat_alt)
next
  case (2 q x)
  then have "mb_entry q \<noteq> mb_size q" by auto
  then show ?case using mb_store_ok[OF 2(1), of x] by (auto simp: mb_put_def)
next
  case (3 q x)
  then show ?case by (simp add: mb_put_def word_unat_eq_iff)
next
  case (4 q x xs)
  then have "mb_entry q \<noteq> 0" using mb_items_empty[of q] by auto
  then show ?case using mb_fetch_ok[OF 4(1)] 4(2) by (auto simp: mb_get_def)
next
  case (5 q)
  then show ?case by (simp add: mb_get_def mb_items_empty)
qed

text \<open>
  C20. Mails are delivered in the order they were sent: in any sequence of sends and receives
  that do not wait, nothing is lost, duplicated or reordered, a send is refused exactly when the
  mailbox is full and a receive exactly when it is empty.
\<close>

theorem mailbox_fifo:
  assumes "mb_inv mb" "fifo_run mb_put mb_get ops mb = (sent, got, mb')"
  shows "mb_inv mb' \<and> mb_items mb @ sent = got @ mb_items mb' \<and> length (mb_items mb') \<le> unat (mb_size mb)"
  using mbq.run_in_order[OF assms] by blast

theorem mailbox_fifo_witness:
  "fifo_run mb_put mb_get [Put 7, Put 8, Put 9, Get, Put 10] (mailboxes demo_ipc 0) =
     ([7, 8, 10], [7], \<lparr>mb_msg_pool = [10, 8], mb_size = 2, mb_entry = 2, mb_in_offset = 1, mb_out_offset = 1\<rparr>) \<and>
   mb_items \<lparr>mb_msg_pool = [10, 8], mb_size = 2, mb_entry = 2, mb_in_offset = 1, mb_out_offset = 1\<rparr> = [8, 10]"
proof -
  let ?mb = "\<lparr>mb_msg_pool = [10, 8], mb_size = 2, mb_entry = 2, mb_in_offset = 1, mb_out_offset = 1\<rparr>"
  have r: "fifo_run mb_put mb_get [Put 7, Put 8, Put 9, Get, Put 10] (mailboxes demo_ipc 0) = ([7, 8, 10], [7], ?mb)"
    by (simp add: mb_put_def mb_get_def mb_store_def mb_fetch_def Let_def word_le_nat_alt)
  have "mb_inv (mailboxes demo_ipc 0)" "mb_items (mailboxes demo_ipc 0) = []"
    by (simp_all add: mb_inv_def mb_items_empty)
  then show ?thesis using mailbox_fifo[OF _ r] r by simp
qed

section \<open>Sending and receiving\<close>

definition mb_ok :: "nat \<Rightarrow> 'a kernel_scheme \<Rightarrow> bool" where
  "mb_ok n s \<longleftrightarrow> rt_object_get_type (mb_obj n) s = RT_Object_Class_MailBox \<and>
     (oflag (objs s (mb_obj n)) = RT_IPC_FLAG_FIFO \<or> oflag (objs s (mb_obj n)) = RT_IPC_FLAG_PRIO) \<and>
     mb_inv (mailboxes s n)"

lemma set_mb_sel [simp]:
  "mailboxes (set_mb n mb s) = (mailboxes s)(n := mb)" "thr (set_mb n mb s) = thr s"
  "tl (set_mb n mb s) = tl s" "cur (set_mb n mb s) = cur s" "objs (set_mb n mb s) = objs s"
  "lock_nest (set_mb n mb s) = lock_nest s" "irq_nest (set_mb n mb s) = irq_nest s"
  "kinv X b (set_mb n mb s) = kinv X b s" "tstat (set_mb n mb s) t = tstat s t"
  "prio_of (set_mb n mb s) t = prio_of s t" "tick (set_mb n mb s) = tick s"
  "rt_object_get_type x (set_mb n mb s) = rt_object_get_type x s"
  by (simp_all add: set_mb_def)

lemma mb_ok_cong:
  "objs s' (mb_obj n) = objs s (mb_obj n) \<Longrightarrow> mailboxes s' n = mailboxes s n \<Longrightarrow> mb_ok n s' = mb_ok n s"
  by (simp add: mb_ok_def rt_object_get_type_def)

lemma mb_send_now_ok:
  assumes inv: "kinv {} b s" and ok: "mb_ok n s" and c: "cur s = Some c"
    and room: "mb_entry (mailboxes s n) \<noteq> mb_size (mailboxes s n)"
  obtains s' where "mb_send_now n v s = Some (s', RT_EOK)" "kinv {} b s'" "mb_ok n s'"
    "mb_items (mailboxes s' n) = mb_items (mailboxes s n) @ [v]" "tl s' (mb_list n) = List.tl (tl s (mb_list n))"
    "tl s' (SuspendedSender n) = tl s (SuspendedSender n)" "\<And>u. error (thr s' u) = error (thr s u)"
    "cur s' \<noteq> None" "tick s' = tick s" "\<And>w ws. tl s (mb_list n) = w # ws \<Longrightarrow> tstat s' w = RT_THREAD_READY"
proof -
  obtain mb where mb: "mb_store v (mailboxes s n) = Some mb" "mb_inv mb" "mb_items mb = mb_items (mailboxes s n) @ [v]"
    using mb_store_ok[of "mailboxes s n" v] ok room by (auto simp: mb_ok_def)
  let ?s1 = "set_mb n mb s" and ?l = "mb_list n"
  have k1: "kinv {} b ?s1" "cur ?s1 = Some c" using inv c by simp_all
  obtain s' where s': "(if tl ?s1 ?l \<noteq> [] then do { (s2, _) \<leftarrow> rt_ipc_list_resume ?l ?s1; rt_schedule s2 } else Some ?s1) = Some s'"
    "kinv {} b s'" "\<And>k. (\<nexists>p. k = Ready p) \<Longrightarrow> tl s' k = (if k = ?l then List.tl (tl ?s1 ?l) else tl ?s1 k)"
    "\<And>u. error (thr s' u) = error (thr ?s1 u)" "\<And>i. objs s' (IpcObj i) = objs ?s1 (IpcObj i)"
    "ktimer.more s' = ktimer.more ?s1" "cur s' \<noteq> None" "tick s' = tick ?s1"
    "\<And>w ws. tl ?s1 ?l = w # ws \<Longrightarrow> tstat s' w = RT_THREAD_READY"
    by (rule wake_first_ok[OF k1(1) _ k1(2), of ?l]) auto
  have m': "mailboxes s' = mailboxes ?s1" using kernel_more_eq(4)[OF s'(6)] .
  have "mb_send_now n v s = Some (s', RT_EOK)"
    using mb(1) s'(1) by (auto simp: mb_send_now_def Let_def split_def Option.bind_eq_Some_conv split: if_splits)
  moreover have "mb_ok n s'"
    using ok m' mb(2) s'(5)[of "MailBoxId n"] by (simp add: mb_ok_def rt_object_get_type_def)
  ultimately show thesis using s' m' mb(3) by (intro that) auto
qed

lemma mb_recv_now_ok:
  assumes inv: "kinv {} b s" and ok: "mb_ok n s" and c: "cur s = Some c" and ne: "mb_entry (mailboxes s n) \<noteq> 0"
  obtains s' x xs where "mb_items (mailboxes s n) = x # xs" "mb_recv_now n s = Some (s', RT_EOK, Some x)"
    "kinv {} b s'" "mb_ok n s'" "mb_items (mailboxes s' n) = xs" "tl s' (mb_list n) = tl s (mb_list n)"
    "tl s' (SuspendedSender n) = List.tl (tl s (SuspendedSender n))" "\<And>u. error (thr s' u) = error (thr s u)"
    "cur s' \<noteq> None" "tick s' = tick s" "\<And>w ws. tl s (SuspendedSender n) = w # ws \<Longrightarrow> tstat s' w = RT_THREAD_READY"
proof -
  obtain mb x xs where mb: "mb_items (mailboxes s n) = x # xs" "mb_fetch (mailboxes s n) = Some (x, mb)" "mb_inv mb"
    "mb_items mb = xs"
    using mb_fetch_ok[of "mailboxes s n"] ok ne by (auto simp: mb_ok_def)
  let ?s1 = "set_mb n mb s" and ?l = "SuspendedSender n"
  have k1: "kinv {} b ?s1" "cur ?s1 = Some c" using inv c by simp_all
  obtain s' where s': "(if tl ?s1 ?l \<noteq> [] then do { (s2, _) \<leftarrow> rt_ipc_list_resume ?l ?s1; rt_schedule s2 } else Some ?s1) = Some s'"
    "kinv {} b s'" "\<And>k. (\<nexists>p. k = Ready p) \<Longrightarrow> tl s' k = (if k = ?l then List.tl (tl ?s1 ?l) else tl ?s1 k)"
    "\<And>u. error (thr s' u) = error (thr ?s1 u)" "\<And>i. objs s' (IpcObj i) = objs ?s1 (IpcObj i)"
    "ktimer.more s' = ktimer.more ?s1" "cur s' \<noteq> None" "tick s' = tick ?s1"
    "\<And>w ws. tl ?s1 ?l = w # ws \<Longrightarrow> tstat s' w = RT_THREAD_READY"
    by (rule wake_first_ok[OF k1(1) _ k1(2), of ?l]) auto
  have m': "mailboxes s' = mailboxes ?s1" using kernel_more_eq(4)[OF s'(6)] .
  have "mb_recv_now n s = Some (s', RT_EOK, Some x)"
    using mb(2) s'(1) by (auto simp: mb_recv_now_def Let_def split_def Option.bind_eq_Some_conv split: if_splits)
  moreover have "mb_ok n s'"
    using ok m' mb(3) s'(5)[of "MailBoxId n"] by (simp add: mb_ok_def rt_object_get_type_def)
  ultimately show thesis using s' m' mb(1,4) by (intro that) auto
qed

interpretation mbr: wait_loop "\<lambda>time. mb_recv_loop n time (Some t)" "mb_list n" "\<lambda>s. oflag (objs s (mb_obj n))" t "\<lambda>e. (e, None)"
    "\<lambda>s. mb_entry (mailboxes s n) = 0" remaining for n t
proof (unfold_locales, goal_cases)
  case (3 s time)
  then show ?case by (subst mb_recv_loop.simps) (simp add: in_thread Let_def cong: if_cong)
next
  case (2 s' s)
  then show ?case using kernel_more_eq(4)[of s' s] by simp
qed (simp_all add: remaining_def)

interpretation mbs: wait_loop "\<lambda>time. mb_send_loop n v time (Some t)" "SuspendedSender n" "\<lambda>s. oflag (objs s (mb_obj n))" t "\<lambda>e. e"
    "\<lambda>s. mb_entry (mailboxes s n) = mb_size (mailboxes s n)" remaining for n v t
proof (unfold_locales, goal_cases)
  case (3 s time)
  then show ?case by (subst mb_send_loop.simps) (simp add: in_thread Let_def cong: if_cong)
next
  case (2 s' s)
  then show ?case using kernel_more_eq(4)[of s' s] by simp
qed (simp_all add: remaining_def)

text \<open>
  C21. Sending a mail without waiting. A full mailbox refuses it with \<^verbatim>\<open>-RT_EFULL\<close> and
  nothing changes. Otherwise the mail is queued behind the others, the first waiting receiver
  becomes ready, the invariants are kept, and when the mailbox had been empty that receiver,
  once it runs, returns with exactly this mail.
\<close>

theorem rt_mb_send_delivers:
  fixes s :: "'a kernel_scheme"
  assumes inv: "kinv {} b s" and ok: "mb_ok n s" and c: "cur s = Some c"
  shows "(mb_entry (mailboxes s n) = mb_size (mailboxes s n) \<longrightarrow> rt_mb_send n v s = Some (s, Returns (- RT_EFULL))) \<and>
         (mb_entry (mailboxes s n) \<noteq> mb_size (mailboxes s n) \<longrightarrow>
            (\<exists>s'. rt_mb_send n v s = Some (s', Returns RT_EOK) \<and> kinv {} b s' \<and> mb_ok n s' \<and>
               mb_items (mailboxes s' n) = mb_items (mailboxes s n) @ [v] \<and>
               (\<forall>w ws. tl s (mb_list n) = w # ws \<longrightarrow>
                  tl s' (mb_list n) = ws \<and> tstat s' w = RT_THREAD_READY \<and>
                  (error (thr s w) = RT_EOK \<and> mb_entry (mailboxes s n) = 0 \<longrightarrow>
                     (\<exists>s''. rt_mb_recv_end n timeout t0 w s' = Some (s'', Returns (RT_EOK, Some v)) \<and>
                        kinv {} b s'' \<and> mb_ok n s'' \<and> mb_entry (mailboxes s'' n) = 0)))))"
proof (intro conjI impI)
  have ty: "rt_object_get_type (mb_obj n) s = RT_Object_Class_MailBox" using ok by (simp add: mb_ok_def)
  show "rt_mb_send n v s = Some (s, Returns (- RT_EFULL))" if "mb_entry (mailboxes s n) = mb_size (mailboxes s n)"
    using that ty by (simp add: rt_mb_send_def rt_mb_send_wait_def)
  assume room: "mb_entry (mailboxes s n) \<noteq> mb_size (mailboxes s n)"
  obtain s' where s': "mb_send_now n v s = Some (s', RT_EOK)" "kinv {} b s'" "mb_ok n s'"
    "mb_items (mailboxes s' n) = mb_items (mailboxes s n) @ [v]" "tl s' (mb_list n) = List.tl (tl s (mb_list n))"
    "\<And>u. error (thr s' u) = error (thr s u)" "cur s' \<noteq> None"
    "\<And>w ws. tl s (mb_list n) = w # ws \<Longrightarrow> tstat s' w = RT_THREAD_READY"
    by (rule mb_send_now_ok[OF inv ok c room, of v]) auto
  have send: "rt_mb_send n v s = Some (s', Returns RT_EOK)"
    using room ty s'(1) mb_send_loop.simps[of n v 0 "Some c" s] c
    by (simp add: rt_mb_send_def rt_mb_send_wait_def rt_thread_self_def)
  have ne: "mb_entry (mailboxes s' n) \<noteq> 0" using s'(3,4) mb_items_empty[of "mailboxes s' n"] by auto
  obtain c' where c': "cur s' = Some c'" using s'(7) by auto
  obtain s'' x xs where s'': "mb_items (mailboxes s' n) = x # xs" "mb_recv_now n s' = Some (s'', RT_EOK, Some x)"
    "kinv {} b s''" "mb_ok n s''" "mb_items (mailboxes s'' n) = xs"
    by (rule mb_recv_now_ok[OF s'(2,3) c' ne]) auto
  have "\<exists>s''. rt_mb_recv_end n timeout t0 w s' = Some (s'', Returns (RT_EOK, Some v)) \<and>
      kinv {} b s'' \<and> mb_ok n s'' \<and> mb_entry (mailboxes s'' n) = 0"
    if "error (thr s w) = RT_EOK" "mb_entry (mailboxes s n) = 0" for w
  proof (intro exI conjI)
    have e: "mb_items (mailboxes s n) = []" using that(2) mb_items_empty by simp
    then have x: "x = v" "xs = []" using s'(4) s''(1) by auto
    show "rt_mb_recv_end n timeout t0 w s' = Some (s'', Returns (RT_EOK, Some v))"
      using that(1) s'(6) s''(2) ne x mb_recv_loop.simps[of n _ "Some w" s'] by (simp add: rt_mb_recv_end_def)
    show "mb_entry (mailboxes s'' n) = 0" using x s''(5) mb_items_empty[of "mailboxes s'' n"] by simp
  qed (rule s''(3,4))+
  then show "\<exists>s'. rt_mb_send n v s = Some (s', Returns RT_EOK) \<and> kinv {} b s' \<and> mb_ok n s' \<and>
      mb_items (mailboxes s' n) = mb_items (mailboxes s n) @ [v] \<and>
      (\<forall>w ws. tl s (mb_list n) = w # ws \<longrightarrow> tl s' (mb_list n) = ws \<and> tstat s' w = RT_THREAD_READY \<and>
         (error (thr s w) = RT_EOK \<and> mb_entry (mailboxes s n) = 0 \<longrightarrow>
            (\<exists>s''. rt_mb_recv_end n timeout t0 w s' = Some (s'', Returns (RT_EOK, Some v)) \<and>
               kinv {} b s'' \<and> mb_ok n s'' \<and> mb_entry (mailboxes s'' n) = 0)))"
    using send s' by (intro exI[of _ s']) auto
qed

theorem rt_mb_send_delivers_witness:
  "\<exists>s' s''. rt_mb_send 0 77 (demo_wait (mb_list 0)) = Some (s', Returns RT_EOK) \<and> tstat s' 3 = RT_THREAD_READY \<and>
     rt_mb_recv_end 0 50 0 3 s' = Some (s'', Returns (RT_EOK, Some 77))"
proof -
  let ?s = "demo_wait (mb_list 0)"
  have k: "kinv {} 100 ?s" by (rule demo_wait_inv) simp
  have "mb_ok 0 ?s" "cur ?s = Some 1" "tl ?s (mb_list 0) = [3]" "error (thr ?s 3) = RT_EOK"
    "mb_entry (mailboxes ?s 0) = 0" "mb_size (mailboxes ?s 0) = 2"
    by (simp_all add: mb_ok_def mb_inv_def)
  then show ?thesis using rt_mb_send_delivers[OF k, of 0 1 77 50 0] by auto
qed

text \<open>
  C22. Receiving a mail. A mail that is there is returned at once, the oldest first, and a
  waiting sender becomes ready. Of an empty mailbox a call without waiting time returns
  \<^verbatim>\<open>-RT_ETIMEOUT\<close>; one that may wait is queued in the order the flag of the mailbox asks
  for, with its timer running when the waiting time is finite, and the mailbox unchanged. With
  the scheduler locked the waiting call has no defined outcome: its loop suspends the thread a
  second time while it is already linked into the list.
\<close>

theorem rt_mb_recv_takes_or_waits:
  fixes s :: "'a kernel_scheme"
  assumes inv: "kinv {} b s" and ok: "mb_ok n s" and t: "cur s = Some t" "tstat s t = RT_THREAD_READY"
    and irq: "irq_nest s = 0"
  shows "(\<forall>x xs. mb_items (mailboxes s n) = x # xs \<longrightarrow>
            (\<exists>s'. rt_mb_recv n timeout s = Some (s', Returns (RT_EOK, Some x)) \<and> kinv {} b s' \<and> mb_ok n s' \<and>
               mb_items (mailboxes s' n) = xs \<and>
               (\<forall>w ws. tl s (SuspendedSender n) = w # ws \<longrightarrow>
                  tl s' (SuspendedSender n) = ws \<and> tstat s' w = RT_THREAD_READY))) \<and>
         (mb_items (mailboxes s n) = [] \<and> timeout = 0 \<longrightarrow>
            rt_mb_recv n timeout s = Some (s, Returns (- RT_ETIMEOUT, None))) \<and>
         (mb_items (mailboxes s n) = [] \<and> time_ok timeout \<and> lock_nest s = 0 \<and>
          (\<exists>u. u \<noteq> t \<and> tstat s u = RT_THREAD_READY) \<longrightarrow>
            (\<exists>s'. rt_mb_recv n timeout s = Some (s', Blocks) \<and> kinv {} b s' \<and>
               waits_in (mb_list n) t (oflag (objs s (mb_obj n))) timeout s s')) \<and>
         (mb_items (mailboxes s n) = [] \<and> time_ok timeout \<and> lock_nest s \<noteq> 0 \<longrightarrow> rt_mb_recv n timeout s = None)"
proof (intro conjI allI impI)
  have ty: "rt_object_get_type (mb_obj n) s = RT_Object_Class_MailBox"
    and fl: "oflag (objs s (mb_obj n)) = RT_IPC_FLAG_FIFO \<or> oflag (objs s (mb_obj n)) = RT_IPC_FLAG_PRIO"
    using ok by (simp_all add: mb_ok_def)
  have recv: "rt_mb_recv n timeout s =
      (if mb_entry (mailboxes s n) = 0 \<and> timeout = 0 then Some (s, Returns (- RT_ETIMEOUT, None))
       else mb_recv_loop n timeout (Some t) s)"
    using ty t by (simp add: rt_mb_recv_def rt_thread_self_def)
  show "\<exists>s'. rt_mb_recv n timeout s = Some (s', Returns (RT_EOK, Some x)) \<and> kinv {} b s' \<and> mb_ok n s' \<and>
      mb_items (mailboxes s' n) = xs \<and>
      (\<forall>w ws. tl s (SuspendedSender n) = w # ws \<longrightarrow> tl s' (SuspendedSender n) = ws \<and> tstat s' w = RT_THREAD_READY)"
    if x: "mb_items (mailboxes s n) = x # xs" for x xs
  proof -
    have ne: "mb_entry (mailboxes s n) \<noteq> 0" using x mb_items_empty[of "mailboxes s n"] by auto
    obtain s' y ys where s': "mb_items (mailboxes s n) = y # ys" "mb_recv_now n s = Some (s', RT_EOK, Some y)"
      "kinv {} b s'" "mb_ok n s'" "mb_items (mailboxes s' n) = ys"
      "tl s' (SuspendedSender n) = List.tl (tl s (SuspendedSender n))"
      "\<And>w ws. tl s (SuspendedSender n) = w # ws \<Longrightarrow> tstat s' w = RT_THREAD_READY"
      by (rule mb_recv_now_ok[OF inv ok t(1) ne]) auto
    show ?thesis
      using x s' ne recv mb_recv_loop.simps[of n timeout "Some t" s] by (intro exI[of _ s']) auto
  qed
  show "rt_mb_recv n timeout s = Some (s, Returns (- RT_ETIMEOUT, None))"
    if "mb_items (mailboxes s n) = [] \<and> timeout = 0"
    using that recv mb_items_empty[of "mailboxes s n"] by simp
  show "\<exists>s'. rt_mb_recv n timeout s = Some (s', Blocks) \<and> kinv {} b s' \<and>
      waits_in (mb_list n) t (oflag (objs s (mb_obj n))) timeout s s'"
    if "mb_items (mailboxes s n) = [] \<and> time_ok timeout \<and> lock_nest s = 0 \<and> (\<exists>u. u \<noteq> t \<and> tstat s u = RT_THREAD_READY)"
    using that recv mbr.outcomes(2)[OF inv t irq, of timeout n] fl mb_items_empty[of "mailboxes s n"]
    by (auto simp: time_ok_def)
  show "rt_mb_recv n timeout s = None" if "mb_items (mailboxes s n) = [] \<and> time_ok timeout \<and> lock_nest s \<noteq> 0"
    using that recv mbr.outcomes(1)[OF inv t irq, of timeout n] fl mb_items_empty[of "mailboxes s n"]
    by (auto simp: time_ok_def)
qed

theorem rt_mb_recv_takes_or_waits_witness:
  "\<exists>s'. rt_mb_recv 0 50 demo_ipc = Some (s', Blocks) \<and> kinv {} 100 s' \<and>
     tl s' (mb_list 0) = [1] \<and> ThreadTimer 1 \<in> set (timer_list s')"
proof -
  have "mb_ok 0 demo_ipc" by (simp add: mb_ok_def mb_inv_def)
  moreover have "mb_items (mailboxes demo_ipc 0) = []" "time_ok 50" "(2 :: nat) \<noteq> 1 \<and> tstat demo_ipc 2 = RT_THREAD_READY"
    by (simp_all add: mb_items_empty time_ok_def)
  ultimately obtain s' where "rt_mb_recv 0 50 demo_ipc = Some (s', Blocks)" "kinv {} 100 s'"
    "waits_in (mb_list 0) 1 (oflag (objs demo_ipc (mb_obj 0))) 50 demo_ipc s'"
    using rt_mb_recv_takes_or_waits[OF demo_ipc_inv, of 0 1 50] by auto
  then show ?thesis by (intro exI[of _ s']) (simp add: waits_in_def queued_def)
qed

end
