(* ===== verification/Chain.thy ===== *)
theory Chain
  imports Prelude
begin

unbundle bit_operations_syntax

text \<open>
  Blocks of memory, as the message queue and the memory pool keep them: rounding sizes to the
  alignment of the machine, and chains of blocks linked by a word in each block. A pointer is the
  index of a block or null (\<open>None\<close>), \<open>nx\<close> is what the link words hold.
\<close>

section \<open>Alignment\<close>

abbreviation RT_ALIGN_SIZE :: u32 where "RT_ALIGN_SIZE \<equiv> 4"

definition RT_ALIGN :: "u32 \<Rightarrow> u32 \<Rightarrow> u32" where
  "RT_ALIGN sz align = (sz + align - 1) AND NOT (align - 1)"

definition RT_ALIGN_DOWN :: "u32 \<Rightarrow> u32 \<Rightarrow> u32" where
  "RT_ALIGN_DOWN sz align = sz AND NOT (align - 1)"

lemma unat_ALIGN_DOWN: "unat (RT_ALIGN_DOWN x 4) = 4 * (unat x div 4)"
proof -
  have m: "NOT ((4 :: u32) - 1) = NOT (mask 2)" by (simp add: mask_eq_exp_minus_1)
  have "RT_ALIGN_DOWN x 4 = push_bit 2 (drop_bit 2 x)"
  proof (rule bit_word_eqI)
    fix n assume "n < LENGTH(32)"
    moreover have "2 + (n - 2) = n" if "2 \<le> n" using that by simp
    ultimately show "bit (RT_ALIGN_DOWN x 4) n = bit (push_bit 2 (drop_bit 2 x)) n"
      unfolding RT_ALIGN_DOWN_def m by (auto simp: bit_and_iff bit_not_iff bit_mask_iff bit_push_bit_iff bit_drop_bit_eq simp del: add_2_eq_Suc)
  qed
  then have "unat (RT_ALIGN_DOWN x 4) = take_bit 32 (push_bit 2 (drop_bit 2 (unat x)))"
    using unsigned_less[of x, where ?'a = nat]
    by (simp only: unsigned_push_bit_eq unsigned_drop_bit_eq) (simp add: take_bit_nat_eq_self)
  also have "\<dots> = 4 * (unat x div 4)"
    using unsigned_less[of x, where ?'a = nat] by (simp add: push_bit_eq_mult drop_bit_eq_div take_bit_nat_eq_self)
  finally show ?thesis .
qed

lemma RT_ALIGN_DOWN_eq: "RT_ALIGN sz 4 = RT_ALIGN_DOWN (sz + 3) 4"
  by (simp add: RT_ALIGN_def RT_ALIGN_DOWN_def add.commute)

lemma unat_ALIGN: "unat sz + 3 < 2 ^ 32 \<Longrightarrow> unat (RT_ALIGN sz 4) = 4 * ((unat sz + 3) div 4)"
  unfolding RT_ALIGN_DOWN_eq unat_ALIGN_DOWN by (simp add: unat_word_ariths)

text \<open>Sizes within three bytes of the maximum wrap to 0.\<close>

lemma ALIGN_wraps: "2 ^ 32 \<le> unat sz + 3 \<Longrightarrow> RT_ALIGN sz 4 = 0"
proof -
  assume a: "2 ^ 32 \<le> unat sz + 3"
  have l: "unat sz < 2 ^ 32" using unsigned_less[of sz, where ?'a = nat] by simp
  then have "unat (sz + 3) = unat sz + 3 - 2 ^ 32" using a by (simp add: unat_word_ariths le_mod_geq)
  then have "unat (RT_ALIGN sz 4) = 0" using l unfolding RT_ALIGN_DOWN_eq unat_ALIGN_DOWN by simp
  then show ?thesis by (simp add: unat_eq_zero)
qed
section \<open>Chains\<close>

fun chain :: "(nat \<Rightarrow> nat option) \<Rightarrow> nat option \<Rightarrow> nat list \<Rightarrow> bool" where
  "chain nx p [] \<longleftrightarrow> p = None"
| "chain nx p (x # xs) \<longleftrightarrow> p = Some x \<and> chain nx (nx x) xs"

text \<open>The first \<open>k\<close> blocks reached from a pointer.\<close>

fun walk :: "(nat \<Rightarrow> nat option) \<Rightarrow> nat \<Rightarrow> nat option \<Rightarrow> nat list" where
  "walk nx (Suc k) (Some x) = x # walk nx k (nx x)"
| "walk nx _ _ = []"

lemma chain_walk: "chain nx p xs \<Longrightarrow> walk nx k p = take k xs"
  by (induction nx k p arbitrary: xs rule: walk.induct) (auto elim: chain.elims)

lemma chain_unique: "chain nx p xs \<Longrightarrow> chain nx p ys \<Longrightarrow> xs = ys"
proof (induction xs arbitrary: p ys)
  case Nil
  then show ?case by (cases ys) auto
next
  case (Cons x xs)
  then show ?case by (cases ys) auto
qed

lemma chain_None [simp]: "chain nx None xs \<longleftrightarrow> xs = []"
  by (cases xs) auto

lemma chain_Some: "chain nx (Some x) ys \<longleftrightarrow> (\<exists>xs. ys = x # xs \<and> chain nx (nx x) xs)"
  by (cases ys) auto

lemma chain_cong: "(\<And>x. x \<in> set xs \<Longrightarrow> nx' x = nx x) \<Longrightarrow> chain nx' p xs = chain nx p xs"
  by (induction xs arbitrary: p) auto

lemma chain_upd [simp]: "x \<notin> set xs \<Longrightarrow> chain (nx(x := v)) p xs = chain nx p xs"
  by (rule chain_cong) auto

text \<open>Linking a block behind the last one.\<close>

lemma chain_snoc:
  assumes "chain nx p xs" "xs \<noteq> []" "distinct xs" "m \<notin> set xs" "nx m = None"
  shows "chain (nx(last xs := Some m)) p (xs @ [m])"
  using assms
proof (induction xs arbitrary: p)
  case (Cons x xs)
  show ?case
  proof (cases "xs = []")
    case True
    then show ?thesis using Cons.prems by auto
  next
    case False
    then have "chain (nx(last xs := Some m)) (nx x) (xs @ [m])"
      using Cons.prems by (intro Cons.IH) auto
    moreover have "last xs \<noteq> x" using False Cons.prems(3) by auto
    ultimately show ?thesis using False Cons.prems(1) by (simp add: fun_upd_def)
  qed
qed simp

text \<open>A chain of distinct blocks of an array is no longer than the array.\<close>

lemma chain_bound: "set xs \<subseteq> {..<n} \<Longrightarrow> distinct xs \<Longrightarrow> length xs \<le> n"
  using card_mono[of "{..<n}" "set xs"] distinct_card[of xs] by simp

text \<open>
  The chain that a loop makes when it links blocks \<open>0, 1, ..., n - 1\<close> in this order, each in
  front of what is there.
\<close>

lemma chain_downwards:
  "(\<And>i. i < n \<Longrightarrow> nx i = (if i = 0 then None else Some (i - 1))) \<Longrightarrow>
   chain nx (if n = 0 then None else Some (n - 1)) (rev [0..<n])"
proof (induction n)
  case (Suc n)
  then have "chain nx (if n = 0 then None else Some (n - 1)) (rev [0..<n])" by simp
  then show ?case using Suc.prems[of n] by simp
qed simp

end
