(* ===== verification/MessageQueue.thy ===== *)
theory MessageQueue
  imports Ipc Chain
begin

unbundle bit_operations_syntax

text \<open>
  The message queues of \<^verbatim>\<open>src/ipc.c\<close>. The blocks of the pool are on the queue or on the free
  list, except those that a call has taken off one list and not yet put on the other: sending
  reserves a free block, fills it with interrupts enabled, and links it; receiving takes the
  first block, copies it with interrupts enabled, and gives it back. Each of these phases is a
  definition; the calls compose them, and a step relation interleaves the phases of any number
  of calls.
\<close>

section \<open>Definitions\<close>

abbreviation mq_list :: "nat \<Rightarrow> lhead" where "mq_list n \<equiv> Suspended (MessageQueueId n)"
abbreviation mq_obj :: "nat \<Rightarrow> oid" where "mq_obj n \<equiv> IpcObj (MessageQueueId n)"

definition set_mq :: "nat \<Rightarrow> rt_messagequeue \<Rightarrow> 'a kernel_scheme \<Rightarrow> 'a kernel_scheme" where
  "set_mq n q s = s\<lparr>mqueues := (mqueues s)(n := q)\<rparr>"

text \<open>The loop that links the blocks of the pool into the free list.\<close>

definition mq_link_block :: "nat \<Rightarrow> rt_messagequeue \<Rightarrow> rt_messagequeue" where
  "mq_link_block temp q = q\<lparr>mq_next := (mq_next q)(temp := msg_queue_free q), msg_queue_free := Some temp\<rparr>"

definition mq_link_free :: "rt_messagequeue \<Rightarrow> rt_messagequeue" where
  "mq_link_free q = fold mq_link_block [0..<unat (max_msgs q)] (q\<lparr>msg_queue_free := None\<rparr>)"

text \<open>\<open>cells\<close> is the memory of the pool, block by block; a link word is 4 bytes.\<close>

definition mq_setup :: "u16 \<Rightarrow> u16 \<Rightarrow> (nat \<Rightarrow> nat option) \<Rightarrow> (nat \<Rightarrow> u8 list) \<Rightarrow> rt_messagequeue" where
  "mq_setup msz mx links cells =
     mq_link_free \<lparr>mq_pool_null = False, msg_size = msz, max_msgs = mx, mq_entry = 0, msg_queue_head = None,
        msg_queue_tail = None, msg_queue_free = None, mq_next = links, mq_data = cells\<rparr>"

definition rt_mq_init ::
  "nat \<Rightarrow> u8 list \<Rightarrow> (nat \<Rightarrow> nat option) \<Rightarrow> (nat \<Rightarrow> u8 list) \<Rightarrow> u32 \<Rightarrow> u32 \<Rightarrow> u8 \<Rightarrow> 'a kernel_scheme \<Rightarrow>
   ('a kernel_scheme \<times> rt_err) option" where
  "rt_mq_init n nm links cells msz pool_size flag s = do {
     s1 \<leftarrow> rt_object_init (mq_obj n) RT_Object_Class_MessageQueue nm s;
     let s2 = set_oflag (mq_obj n) flag s1;
     let s3 = rt_ipc_object_init (mq_list n) s2;
     let size16 = (ucast (RT_ALIGN msz RT_ALIGN_SIZE) :: u16);
     let max16 = (ucast (pool_size div (ucast size16 + 4)) :: u16);
     Some (set_mq n (mq_setup size16 max16 links cells) s3, RT_EOK)
   }"

definition rt_mq_detach :: "nat \<Rightarrow> 'a kernel_scheme \<Rightarrow> ('a kernel_scheme \<times> rt_err) option" where
  "rt_mq_detach n s = do {
     rt_assert (rt_object_get_type (mq_obj n) s = RT_Object_Class_MessageQueue);
     rt_assert (rt_object_is_systemobject (mq_obj n) s);
     (s1, _) \<leftarrow> rt_ipc_list_resume_all (mq_list n) s;
     Some (rt_object_detach (mq_obj n) s1, RT_EOK)
   }"

text \<open>\<^verbatim>\<open>rt_free\<close> of a null pointer returns at once.\<close>

definition rt_mq_delete :: "nat \<Rightarrow> 'a kernel_scheme \<Rightarrow> ('a kernel_scheme \<times> rt_err) option" where
  "rt_mq_delete n s = do {
     rt_debug_not_in_interrupt s;
     rt_assert (rt_object_get_type (mq_obj n) s = RT_Object_Class_MessageQueue);
     rt_assert (\<not> rt_object_is_systemobject (mq_obj n) s);
     (s1, _) \<leftarrow> rt_ipc_list_resume_all (mq_list n) s;
     s2 \<leftarrow> (if mq_pool_null (mqueues s1 n) then Some s1 else kernel_free (BufBlk (mq_obj n)) s1);
     s3 \<leftarrow> rt_object_delete (mq_obj n) s2;
     Some (s3, RT_EOK)
   }"

text \<open>
  \<open>mem\<close> is the memory for the object, \<open>pool\<close> what \<^verbatim>\<open>RT_KERNEL_MALLOC\<close> returns for the given
  number of bytes: the link words and the bytes of the blocks.
\<close>

definition rt_mq_create ::
  "u8 list \<Rightarrow> u32 \<Rightarrow> u32 \<Rightarrow> u8 \<Rightarrow> nat option \<Rightarrow> (u32 \<Rightarrow> ((nat \<Rightarrow> nat option) \<times> (nat \<Rightarrow> u8 list)) option) \<Rightarrow>
   'a kernel_scheme \<Rightarrow> ('a kernel_scheme \<times> nat option) option" where
  "rt_mq_create nm msz mx flag mem pool s = do {
     rt_debug_not_in_interrupt s;
     (s1, r) \<leftarrow> rt_object_allocate RT_Object_Class_MessageQueue nm (map_option mq_obj mem) s;
     (case r of
        Some (IpcObj (MessageQueueId n)) \<Rightarrow> do {
          let s2 = set_oflag (mq_obj n) flag s1;
          let s3 = rt_ipc_object_init (mq_list n) s2;
          let size16 = (ucast (RT_ALIGN msz RT_ALIGN_SIZE) :: u16);
          let max16 = (ucast mx :: u16);
          (case pool ((ucast size16 + 4) * ucast max16) of
             None \<Rightarrow> do {
               let s4 = set_mq n ((mqueues s3 n)\<lparr>msg_size := size16, max_msgs := max16, mq_pool_null := True\<rparr>) s3;
               (s5, _) \<leftarrow> rt_mq_delete n s4;
               Some (s5, None)
             }
           | Some (links, cells) \<Rightarrow>
               Some (set_mq n (mq_setup size16 max16 links cells)
                       (s3\<lparr>heap := insert (BufBlk (mq_obj n)) (heap s3)\<rparr>), Some n))
        }
      | _ \<Rightarrow> Some (s1, None))
   }"

text \<open>The phases of sending.\<close>

definition mq_reserve :: "rt_messagequeue \<Rightarrow> (nat \<times> rt_messagequeue) option" where
  "mq_reserve q =
     (case msg_queue_free q of
        None \<Rightarrow> None
      | Some msg \<Rightarrow> Some (msg, q\<lparr>msg_queue_free := mq_next q msg\<rparr>))"

definition mq_clear_next :: "nat \<Rightarrow> rt_messagequeue \<Rightarrow> rt_messagequeue" where
  "mq_clear_next msg q = q\<lparr>mq_next := (mq_next q)(msg := None)\<rparr>"

definition mq_copy_in :: "nat \<Rightarrow> u8 list \<Rightarrow> u32 \<Rightarrow> rt_messagequeue \<Rightarrow> rt_messagequeue option" where
  "mq_copy_in msg buffer sz q =
     (if unat sz \<le> length buffer \<and> unat sz \<le> length (mq_data q msg)
      then Some (q\<lparr>mq_data := (mq_data q)(msg := take (unat sz) buffer @ drop (unat sz) (mq_data q msg))\<rparr>)
      else None)"

definition mq_append :: "nat \<Rightarrow> rt_messagequeue \<Rightarrow> rt_messagequeue" where
  "mq_append msg q =
     (let q1 = (case msg_queue_tail q of
                  None \<Rightarrow> q
                | Some t \<Rightarrow> q\<lparr>mq_next := (mq_next q)(t := Some msg)\<rparr>);
          q2 = q1\<lparr>msg_queue_tail := Some msg\<rparr>;
          q3 = (if msg_queue_head q2 = None then q2\<lparr>msg_queue_head := Some msg\<rparr> else q2)
      in q3\<lparr>mq_entry := mq_entry q3 + 1\<rparr>)"

definition mq_prepend :: "nat \<Rightarrow> rt_messagequeue \<Rightarrow> rt_messagequeue" where
  "mq_prepend msg q =
     (let q1 = q\<lparr>mq_next := (mq_next q)(msg := msg_queue_head q), msg_queue_head := Some msg\<rparr>;
          q2 = (if msg_queue_tail q1 = None then q1\<lparr>msg_queue_tail := Some msg\<rparr> else q1)
      in q2\<lparr>mq_entry := mq_entry q2 + 1\<rparr>)"

text \<open>Waking a receiver once the message is linked.\<close>

definition mq_wake :: "nat \<Rightarrow> 'a kernel_scheme \<Rightarrow> ('a kernel_scheme \<times> rt_err) option" where
  "mq_wake n s =
     (if tl s (mq_list n) \<noteq> [] then do {
        (s1, _) \<leftarrow> rt_ipc_list_resume (mq_list n) s;
        s2 \<leftarrow> rt_schedule s1;
        Some (s2, RT_EOK)
      }
      else Some (s, RT_EOK))"

definition rt_mq_send :: "nat \<Rightarrow> u8 list \<Rightarrow> u32 \<Rightarrow> 'a kernel_scheme \<Rightarrow> ('a kernel_scheme \<times> rt_err) option" where
  "rt_mq_send n buffer sz s = do {
     rt_assert (rt_object_get_type (mq_obj n) s = RT_Object_Class_MessageQueue);
     rt_assert (sz \<noteq> 0);
     if unat sz > unat (msg_size (mqueues s n)) then Some (s, - RT_ERROR)
     else (case mq_reserve (mqueues s n) of
        None \<Rightarrow> Some (s, - RT_EFULL)
      | Some (msg, q1) \<Rightarrow> do {
          q2 \<leftarrow> mq_copy_in msg buffer sz (mq_clear_next msg q1);
          mq_wake n (set_mq n (mq_append msg q2) s)
        })
   }"

definition rt_mq_urgent :: "nat \<Rightarrow> u8 list \<Rightarrow> u32 \<Rightarrow> 'a kernel_scheme \<Rightarrow> ('a kernel_scheme \<times> rt_err) option" where
  "rt_mq_urgent n buffer sz s = do {
     rt_assert (rt_object_get_type (mq_obj n) s = RT_Object_Class_MessageQueue);
     rt_assert (sz \<noteq> 0);
     if unat sz > unat (msg_size (mqueues s n)) then Some (s, - RT_ERROR)
     else (case mq_reserve (mqueues s n) of
        None \<Rightarrow> Some (s, - RT_EFULL)
      | Some (msg, q1) \<Rightarrow> do {
          q2 \<leftarrow> mq_copy_in msg buffer sz q1;
          mq_wake n (set_mq n (mq_prepend msg q2) s)
        })
   }"

text \<open>The phases of receiving.\<close>

definition mq_unlink :: "rt_messagequeue \<Rightarrow> (nat \<times> rt_messagequeue) option" where
  "mq_unlink q =
     (case msg_queue_head q of
        None \<Rightarrow> None
      | Some msg \<Rightarrow>
          let q1 = q\<lparr>msg_queue_head := mq_next q msg\<rparr>;
              q2 = (if msg_queue_tail q1 = Some msg then q1\<lparr>msg_queue_tail := None\<rparr> else q1)
          in Some (msg, q2))"

definition mq_take :: "rt_messagequeue \<Rightarrow> (nat \<times> rt_messagequeue) option" where
  "mq_take q = do { (msg, q1) \<leftarrow> mq_unlink q; Some (msg, q1\<lparr>mq_entry := mq_entry q1 - 1\<rparr>) }"

definition mq_copy_out :: "nat \<Rightarrow> u32 \<Rightarrow> rt_messagequeue \<Rightarrow> u8 list" where
  "mq_copy_out msg sz q =
     take (if unat sz > unat (msg_size q) then unat (msg_size q) else unat sz) (mq_data q msg)"

definition mq_put_free :: "nat \<Rightarrow> rt_messagequeue \<Rightarrow> rt_messagequeue" where
  "mq_put_free msg q = q\<lparr>mq_next := (mq_next q)(msg := msg_queue_free q), msg_queue_free := Some msg\<rparr>"

definition mq_recv_now :: "nat \<Rightarrow> u32 \<Rightarrow> 'a kernel_scheme \<Rightarrow> ('a kernel_scheme \<times> rt_err \<times> u8 list option) option" where
  "mq_recv_now n sz s = do {
     (msg, q1) \<leftarrow> mq_take (mqueues s n);
     Some (set_mq n (mq_put_free msg q1) s, RT_EOK, Some (mq_copy_out msg sz q1))
   }"

partial_function (option) mq_recv_loop ::
  "nat \<Rightarrow> u32 \<Rightarrow> u32 \<Rightarrow> tid option \<Rightarrow> 'a kernel_scheme \<Rightarrow>
   ('a kernel_scheme \<times> (rt_err \<times> u8 list option) call) option" where
  "mq_recv_loop n sz timeout self s =
     (if mq_entry (mqueues s n) = 0 then do {
        rt_debug_in_thread_context s;
        thread \<leftarrow> self;
        let s1 = upd_thr thread (\<lambda>th. th\<lparr>error := RT_EOK\<rparr>) s;
        if timeout = 0 then
          Some (upd_thr thread (\<lambda>th. th\<lparr>error := - RT_ETIMEOUT\<rparr>) s1, Returns (- RT_ETIMEOUT, None))
        else do {
          s2 \<leftarrow> ipc_block (mq_list n) thread (oflag (objs s1 (mq_obj n))) timeout s1;
          if cur s2 \<noteq> Some thread then Some (s2, Blocks)
          else if error (thr s2 thread) \<noteq> RT_EOK then Some (s2, Returns (error (thr s2 thread), None))
          else mq_recv_loop n sz (remaining timeout (rt_tick_get s1) (rt_tick_get s2)) self s2
        }
      }
      else do { (s', r) \<leftarrow> mq_recv_now n sz s; Some (s', Returns r) })"

definition rt_mq_recv ::
  "nat \<Rightarrow> u32 \<Rightarrow> u32 \<Rightarrow> 'a kernel_scheme \<Rightarrow> ('a kernel_scheme \<times> (rt_err \<times> u8 list option) call) option" where
  "rt_mq_recv n sz timeout s = do {
     rt_assert (rt_object_get_type (mq_obj n) s = RT_Object_Class_MessageQueue);
     rt_assert (sz \<noteq> 0);
     if mq_entry (mqueues s n) = 0 \<and> timeout = 0 then Some (s, Returns (- RT_ETIMEOUT, None))
     else mq_recv_loop n sz timeout (rt_thread_self s) s
   }"

definition rt_mq_recv_end ::
  "nat \<Rightarrow> u32 \<Rightarrow> u32 \<Rightarrow> u32 \<Rightarrow> tid \<Rightarrow> 'a kernel_scheme \<Rightarrow>
   ('a kernel_scheme \<times> (rt_err \<times> u8 list option) call) option" where
  "rt_mq_recv_end n sz timeout t0 thread s =
     (if error (thr s thread) \<noteq> RT_EOK then Some (s, Returns (error (thr s thread), None))
      else mq_recv_loop n sz (remaining timeout t0 (rt_tick_get s)) (Some thread) s)"

text \<open>The loop of \<^verbatim>\<open>RT_IPC_CMD_RESET\<close> that empties the queue.\<close>

partial_function (option) mq_flush :: "rt_messagequeue \<Rightarrow> rt_messagequeue option" where
  "mq_flush q =
     (case mq_unlink q of
        None \<Rightarrow> Some q
      | Some (msg, q1) \<Rightarrow> mq_flush (mq_put_free msg q1))"

definition rt_mq_control ::
  "nat \<Rightarrow> ipc_cmd \<Rightarrow> 'a kernel_scheme \<Rightarrow> ('a kernel_scheme \<times> rt_err) option" where
  "rt_mq_control n cmd s = do {
     rt_assert (rt_object_get_type (mq_obj n) s = RT_Object_Class_MessageQueue);
     (case cmd of
        RT_IPC_CMD_RESET arg \<Rightarrow> do {
          (s1, _) \<leftarrow> rt_ipc_list_resume_all (mq_list n) s;
          q \<leftarrow> mq_flush (mqueues s1 n);
          let s2 = set_mq n (q\<lparr>mq_entry := 0\<rparr>) s1;
          s3 \<leftarrow> rt_schedule s2;
          Some (s3, RT_EOK)
        }
      | IPC_CMD_OTHER \<Rightarrow> Some (s, - RT_ERROR))
   }"

section \<open>Where the blocks are\<close>

text \<open>
  \<open>qs\<close> are the blocks of the queue, \<open>fs\<close> those of the free list, \<open>R\<close> those held by calls that are
  between two phases: together they are the blocks of the pool, and no block is in two places.
\<close>

definition mq_rep :: "nat set \<Rightarrow> rt_messagequeue \<Rightarrow> nat list \<Rightarrow> nat list \<Rightarrow> bool" where
  "mq_rep R q qs fs \<longleftrightarrow> chain (mq_next q) (msg_queue_head q) qs \<and> chain (mq_next q) (msg_queue_free q) fs \<and>
     distinct (qs @ fs) \<and> set qs \<union> set fs \<union> R = {..<unat (max_msgs q)} \<and> (set qs \<union> set fs) \<inter> R = {} \<and>
     msg_queue_tail q = (if qs = [] then None else Some (last qs)) \<and> unat (mq_entry q) = length qs \<and>
     (\<forall>m < unat (max_msgs q). length (mq_data q m) = unat (msg_size q))"

definition mq_items :: "rt_messagequeue \<Rightarrow> u8 list list" where
  "mq_items q = map (mq_data q) (walk (mq_next q) (unat (mq_entry q)) (msg_queue_head q))"

lemma mq_items_rep: "mq_rep R q qs fs \<Longrightarrow> mq_items q = map (mq_data q) qs"
  using chain_walk[of "mq_next q" "msg_queue_head q" qs "length qs"] by (simp add: mq_rep_def mq_items_def)

lemma mq_rep_count:
  assumes "mq_rep R q qs fs"
  shows "length qs + length fs + card R = unat (max_msgs q)" "finite R"
proof -
  have fin: "finite R" using assms finite_subset[of R "{..<unat (max_msgs q)}"] by (auto simp: mq_rep_def)
  then show "finite R" .
  have "card (set (qs @ fs) \<union> R) = card (set (qs @ fs)) + card R"
    using assms fin by (intro card_Un_disjoint) (auto simp: mq_rep_def)
  moreover have "set (qs @ fs) \<union> R = {..<unat (max_msgs q)}" "distinct (qs @ fs)" using assms by (auto simp: mq_rep_def)
  ultimately show "length qs + length fs + card R = unat (max_msgs q)" using distinct_card[of "qs @ fs"] by simp
qed

lemma mq_rep_data:
  "mq_rep R q qs fs \<Longrightarrow> m \<in> R \<Longrightarrow> length (mq_data q m) = unat (msg_size q)"
  "mq_rep R q qs fs \<Longrightarrow> m \<in> set qs \<Longrightarrow> length (mq_data q m) = unat (msg_size q)"
  by (auto simp: mq_rep_def)

lemma mq_reserve_rep:
  assumes "mq_rep R q qs fs"
  shows "fs = [] \<Longrightarrow> mq_reserve q = None"
    "fs = m # fs' \<Longrightarrow> mq_reserve q = Some (m, q\<lparr>msg_queue_free := mq_next q m\<rparr>) \<and>
       mq_rep (insert m R) (q\<lparr>msg_queue_free := mq_next q m\<rparr>) qs fs' \<and> m \<notin> R"
  using assms by (auto simp: mq_rep_def mq_reserve_def)

lemma mq_rep_held: "mq_rep R q qs fs \<Longrightarrow> m \<in> R \<Longrightarrow> m \<notin> set qs \<and> m \<notin> set fs"
  by (auto simp: mq_rep_def)

lemma mq_clear_next_rep:
  "mq_rep R q qs fs \<Longrightarrow> m \<in> R \<Longrightarrow> mq_rep R (mq_clear_next m q) qs fs"
  using mq_rep_held[of R q qs fs m] by (simp add: mq_rep_def mq_clear_next_def)

lemma mq_copy_in_rep:
  assumes "mq_rep R q qs fs" "m \<in> R" "unat sz \<le> unat (msg_size q)" "unat sz \<le> length buf"
  obtains q' where "mq_copy_in m buf sz q = Some q'" "mq_rep R q' qs fs" "mq_next q' = mq_next q"
    "mq_data q' = (mq_data q)(m := mq_data q' m)" "take (unat sz) (mq_data q' m) = take (unat sz) buf"
    "length (mq_data q' m) = unat (msg_size q)" "msg_size q' = msg_size q" "max_msgs q' = max_msgs q"
proof -
  have l: "length (mq_data q m) = unat (msg_size q)" using mq_rep_data(1)[OF assms(1,2)] .
  let ?d = "take (unat sz) buf @ drop (unat sz) (mq_data q m)"
  have "mq_copy_in m buf sz q = Some (q\<lparr>mq_data := (mq_data q)(m := ?d)\<rparr>)" using assms(3,4) l by (simp add: mq_copy_in_def)
  moreover have "mq_rep R (q\<lparr>mq_data := (mq_data q)(m := ?d)\<rparr>) qs fs" using assms l by (auto simp: mq_rep_def)
  ultimately show thesis
    using assms(3,4) l by (intro that[of "q\<lparr>mq_data := (mq_data q)(m := ?d)\<rparr>"]) auto
qed

lemma mq_entry_room:
  assumes "mq_rep R q qs fs" "m \<in> R"
  shows "unat (mq_entry q + 1) = Suc (length qs)"
proof -
  have "0 < card R" using mq_rep_count(2)[OF assms(1)] assms(2) by (auto simp: card_gt_0_iff)
  moreover have "unat (max_msgs q) < 2 ^ 16" using unsigned_less[of "max_msgs q", where ?'a = nat] by simp
  ultimately have "unat (mq_entry q) + 1 < 2 ^ 16" using mq_rep_count(1)[OF assms(1)] assms(1) by (simp add: mq_rep_def)
  then show ?thesis using assms(1) by (simp add: mq_rep_def unat_word_ariths)
qed

lemma mq_append_rep:
  assumes rep: "mq_rep R q qs fs" and m: "m \<in> R" "mq_next q m = None"
  shows "mq_rep (R - {m}) (mq_append m q) (qs @ [m]) fs" "mq_data (mq_append m q) = mq_data q"
proof -
  have mn: "m \<notin> set qs" "m \<notin> set fs" using mq_rep_held[OF rep m(1)] by simp_all
  have ch: "chain (mq_next q) (msg_queue_head q) qs" "chain (mq_next q) (msg_queue_free q) fs" "distinct (qs @ fs)"
    using rep by (auto simp: mq_rep_def)
  have "chain (mq_next (mq_append m q)) (msg_queue_head (mq_append m q)) (qs @ [m]) \<and>
      chain (mq_next (mq_append m q)) (msg_queue_free (mq_append m q)) fs"
  proof (cases "qs = []")
    case True
    then show ?thesis using rep ch m(2) by (simp add: mq_append_def Let_def mq_rep_def)
  next
    case False
    then have t: "msg_queue_tail q = Some (last qs)" using rep by (simp add: mq_rep_def)
    have h: "msg_queue_head q \<noteq> None" using False ch(1) by (cases qs) auto
    have "last qs \<notin> set fs" using False ch(3) by (auto simp: disjoint_iff)
    then show ?thesis
      using chain_snoc[OF ch(1) False _ mn(1) m(2)] ch t h by (auto simp: mq_append_def Let_def)
  qed
  moreover have "unat (mq_entry (mq_append m q)) = Suc (length qs)"
    using mq_entry_room[OF rep m(1)] by (simp add: mq_append_def Let_def split: option.split)
  moreover have "max_msgs (mq_append m q) = max_msgs q" "msg_size (mq_append m q) = msg_size q"
    "msg_queue_tail (mq_append m q) = Some m" and d: "mq_data (mq_append m q) = mq_data q"
    by (simp_all add: mq_append_def Let_def split: option.split)
  ultimately show "mq_rep (R - {m}) (mq_append m q) (qs @ [m]) fs"
    using rep mn m(1) by (auto simp: mq_rep_def)
  show "mq_data (mq_append m q) = mq_data q" by (rule d)
qed

lemma mq_prepend_rep:
  assumes rep: "mq_rep R q qs fs" and m: "m \<in> R"
  shows "mq_rep (R - {m}) (mq_prepend m q) (m # qs) fs" "mq_data (mq_prepend m q) = mq_data q"
proof -
  have mn: "m \<notin> set qs" "m \<notin> set fs" using mq_rep_held[OF rep m(1)] by simp_all
  have "unat (mq_entry (mq_prepend m q)) = Suc (length qs)"
    using mq_entry_room[OF rep m(1)] by (simp add: mq_prepend_def Let_def)
  moreover have "max_msgs (mq_prepend m q) = max_msgs q" "msg_size (mq_prepend m q) = msg_size q"
    "msg_queue_tail (mq_prepend m q) = Some (last (m # qs))" "msg_queue_free (mq_prepend m q) = msg_queue_free q"
    "mq_next (mq_prepend m q) = (mq_next q)(m := msg_queue_head q)" "msg_queue_head (mq_prepend m q) = Some m"
    and d: "mq_data (mq_prepend m q) = mq_data q"
    using rep by (auto simp: mq_prepend_def Let_def mq_rep_def)
  ultimately show "mq_rep (R - {m}) (mq_prepend m q) (m # qs) fs"
    using rep mn m(1) by (auto simp: mq_rep_def)
  show "mq_data (mq_prepend m q) = mq_data q" by (rule d)
qed

lemma mq_take_rep:
  assumes rep: "mq_rep R q (m # qs) fs"
  obtains q' where "mq_take q = Some (m, q')" "mq_rep (insert m R) q' qs fs" "mq_data q' = mq_data q" "m \<notin> R"
    "msg_size q' = msg_size q" "max_msgs q' = max_msgs q"
proof -
  let ?q = "q\<lparr>msg_queue_head := mq_next q m,
    msg_queue_tail := (if qs = [] then None else msg_queue_tail q), mq_entry := mq_entry q - 1\<rparr>"
  have "msg_queue_tail q = Some m \<longleftrightarrow> qs = []" using rep by (auto simp: mq_rep_def)
  then have "mq_take q = Some (m, ?q)" using rep by (auto simp: mq_take_def mq_unlink_def mq_rep_def Let_def)
  moreover have "mq_entry q \<noteq> 0" using rep by (auto simp: mq_rep_def)
  then have "unat (mq_entry q - 1) = length qs" using rep by (simp add: mq_rep_def unat_minus_one)
  then have "mq_rep (insert m R) ?q qs fs" using rep by (auto simp: mq_rep_def)
  ultimately show thesis using rep by (intro that[of ?q]) (auto simp: mq_rep_def)
qed

lemma mq_put_free_rep:
  "mq_rep R q qs fs \<Longrightarrow> m \<in> R \<Longrightarrow> mq_rep (R - {m}) (mq_put_free m q) qs (m # fs)"
  using mq_rep_held[of R q qs fs m] by (auto simp: mq_rep_def mq_put_free_def)

lemma mq_put_free_sel [simp]:
  "mq_data (mq_put_free m q) = mq_data q" "msg_size (mq_put_free m q) = msg_size q"
  "max_msgs (mq_put_free m q) = max_msgs q"
  by (simp_all add: mq_put_free_def)

text \<open>Emptying the queue ends and gives every block back.\<close>

lemma mq_flush_rep:
  assumes "mq_rep R (q\<lparr>mq_entry := of_nat (length qs)\<rparr>) qs fs"
  obtains q' where "mq_flush q = Some q'" "mq_rep R (q'\<lparr>mq_entry := 0\<rparr>) [] (rev qs @ fs)" "mq_data q' = mq_data q"
    "msg_size q' = msg_size q" "max_msgs q' = max_msgs q" "\<And>k. k \<notin> set qs \<Longrightarrow> mq_next q' k = mq_next q k"
  using assms
proof (induction qs arbitrary: q fs thesis)
  case Nil
  then have "mq_unlink q = None" by (auto simp: mq_rep_def mq_unlink_def)
  then show ?case using Nil by (intro Nil.prems(1)[of q]) (simp_all add: mq_flush.simps)
next
  case (Cons m qs)
  let ?q1 = "q\<lparr>msg_queue_head := mq_next q m, msg_queue_tail := (if qs = [] then None else msg_queue_tail q)\<rparr>"
  have "msg_queue_tail q = Some m \<longleftrightarrow> qs = []" using Cons.prems(2) by (auto simp: mq_rep_def)
  then have u: "mq_unlink q = Some (m, ?q1)" using Cons.prems(2) by (auto simp: mq_unlink_def mq_rep_def Let_def)
  have "length (m # qs) \<le> unat (max_msgs q)" using mq_rep_count(1)[OF Cons.prems(2)] by simp
  moreover have "unat (max_msgs q) < 2 ^ 16" using unsigned_less[of "max_msgs q", where ?'a = nat] by simp
  ultimately have "unat (of_nat (length qs) :: u16) = length qs" by (simp add: unat_of_nat)
  then have r: "mq_rep (insert m R) (?q1\<lparr>mq_entry := of_nat (length qs)\<rparr>) qs fs" and mR: "m \<notin> R"
    using Cons.prems(2) by (auto simp: mq_rep_def)
  from r have "mq_rep (insert m R - {m}) (mq_put_free m (?q1\<lparr>mq_entry := of_nat (length qs)\<rparr>)) qs (m # fs)"
    by (rule mq_put_free_rep) simp
  moreover have "mq_put_free m (?q1\<lparr>mq_entry := of_nat (length qs)\<rparr>) = (mq_put_free m ?q1)\<lparr>mq_entry := of_nat (length qs)\<rparr>"
    by (simp add: mq_put_free_def)
  ultimately have "mq_rep R ((mq_put_free m ?q1)\<lparr>mq_entry := of_nat (length qs)\<rparr>) qs (m # fs)" using mR by simp
  then obtain q' where q': "mq_flush (mq_put_free m ?q1) = Some q'"
    "mq_rep R (q'\<lparr>mq_entry := 0\<rparr>) [] (rev qs @ m # fs)" "mq_data q' = mq_data q" "msg_size q' = msg_size q"
    "max_msgs q' = max_msgs q" "\<And>k. k \<notin> set qs \<Longrightarrow> mq_next q' k = mq_next (mq_put_free m ?q1) k"
    using Cons.IH[of "mq_put_free m ?q1" "m # fs"] by auto
  moreover have "mq_next q' k = mq_next q k" if "k \<notin> set (m # qs)" for k
    using q'(6)[of k] that by (simp add: mq_put_free_def)
  ultimately show ?case using u by (intro Cons.prems(1)[of q']) (simp_all add: mq_flush.simps)
qed

lemma mq_flush_ok:
  assumes rep: "mq_rep R q qs fs"
  obtains q' where "mq_flush q = Some q'" "mq_rep R (q'\<lparr>mq_entry := 0\<rparr>) [] (rev qs @ fs)" "mq_data q' = mq_data q"
    "msg_size q' = msg_size q" "max_msgs q' = max_msgs q" "\<And>k. k \<notin> set qs \<Longrightarrow> mq_next q' k = mq_next q k"
proof -
  have "of_nat (unat (mq_entry q)) = mq_entry q" by simp
  moreover have "unat (mq_entry q) = length qs" using rep by (simp add: mq_rep_def)
  ultimately have "q\<lparr>mq_entry := of_nat (length qs)\<rparr> = q" by simp
  then have "mq_rep R (q\<lparr>mq_entry := of_nat (length qs)\<rparr>) qs fs" using rep by simp
  then show thesis by (rule mq_flush_rep) (rule that)
qed

section \<open>Interleaved calls\<close>

text \<open>
  Where an activity (a thread or an interrupt handler) is in a call: outside; after reserving a
  block to send (urgent or not); after filling it; after taking a block to receive; after copying
  it. Interrupts are disabled inside each phase and enabled between them.
\<close>

datatype mq_pc = Outside | Reserved bool nat | Filled bool nat | Taken nat | Copied nat "u8 list"

fun held :: "mq_pc \<Rightarrow> nat option" where
  "held Outside = None"
| "held (Reserved u m) = Some m"
| "held (Filled u m) = Some m"
| "held (Taken m) = Some m"
| "held (Copied m d) = Some m"

type_synonym mq_conc = "rt_messagequeue \<times> (nat \<Rightarrow> mq_pc)"

inductive mq_step :: "mq_conc \<Rightarrow> mq_conc \<Rightarrow> bool" where
  reserve: "f t = Outside \<Longrightarrow> mq_reserve q = Some (m, q') \<Longrightarrow> mq_step (q, f) (q', f(t := Reserved urgent m))"
| fill: "f t = Reserved False m \<Longrightarrow> unat sz \<le> unat (msg_size q) \<Longrightarrow> mq_copy_in m buf sz (mq_clear_next m q) = Some q' \<Longrightarrow>
    mq_step (q, f) (q', f(t := Filled False m))"
| fill_urgent: "f t = Reserved True m \<Longrightarrow> unat sz \<le> unat (msg_size q) \<Longrightarrow> mq_copy_in m buf sz q = Some q' \<Longrightarrow>
    mq_step (q, f) (q', f(t := Filled True m))"
| link: "f t = Filled False m \<Longrightarrow> mq_step (q, f) (mq_append m q, f(t := Outside))"
| link_urgent: "f t = Filled True m \<Longrightarrow> mq_step (q, f) (mq_prepend m q, f(t := Outside))"
| takes: "f t = Outside \<Longrightarrow> mq_entry q \<noteq> 0 \<Longrightarrow> mq_take q = Some (m, q') \<Longrightarrow> mq_step (q, f) (q', f(t := Taken m))"
| copy: "f t = Taken m \<Longrightarrow> mq_step (q, f) (q, f(t := Copied m (mq_copy_out m sz q)))"
| give_back: "f t = Copied m d \<Longrightarrow> mq_step (q, f) (mq_put_free m q, f(t := Outside))"
| reset: "mq_flush q = Some q' \<Longrightarrow> mq_step (q, f) (q'\<lparr>mq_entry := 0\<rparr>, f)"

text \<open>
  What callers may rely on: a double-ended queue of messages, of which at most \<open>cap\<close> exist,
  counting those in the hands of an activity; \<open>sz\<close> is the size of a block.
\<close>

datatype mq_apc = AOutside | AReserved bool | AFilled bool "u8 list" | ATaken "u8 list" | ACopied "u8 list"

type_synonym mq_abs = "u8 list list \<times> (nat \<Rightarrow> mq_apc)"

inductive mq_spec :: "nat \<Rightarrow> nat \<Rightarrow> mq_abs \<Rightarrow> mq_abs \<Rightarrow> bool" for cap bsz where
  reserve: "g t = AOutside \<Longrightarrow> length ms + card {t. g t \<noteq> AOutside} < cap \<Longrightarrow>
    mq_spec cap bsz (ms, g) (ms, g(t := AReserved urgent))"
| fill: "g t = AReserved urgent \<Longrightarrow> sz \<le> length buf \<Longrightarrow> sz \<le> bsz \<Longrightarrow> length msg = bsz \<Longrightarrow> take sz msg = take sz buf \<Longrightarrow>
    mq_spec cap bsz (ms, g) (ms, g(t := AFilled urgent msg))"
| link: "g t = AFilled urgent msg \<Longrightarrow>
    mq_spec cap bsz (ms, g) ((if urgent then msg # ms else ms @ [msg]), g(t := AOutside))"
| takes: "g t = AOutside \<Longrightarrow> mq_spec cap bsz (msg # ms, g) (ms, g(t := ATaken msg))"
| copy: "g t = ATaken msg \<Longrightarrow> mq_spec cap bsz (ms, g) (ms, g(t := ACopied (take sz msg)))"
| give_back: "g t = ACopied d \<Longrightarrow> mq_spec cap bsz (ms, g) (ms, g(t := AOutside))"
| reset: "mq_spec cap bsz (ms, g) ([], g)"

fun apc_of :: "rt_messagequeue \<Rightarrow> mq_pc \<Rightarrow> mq_apc" where
  "apc_of q Outside = AOutside"
| "apc_of q (Reserved u m) = AReserved u"
| "apc_of q (Filled u m) = AFilled u (mq_data q m)"
| "apc_of q (Taken m) = ATaken (mq_data q m)"
| "apc_of q (Copied m d) = ACopied d"

fun mq_abstract :: "mq_conc \<Rightarrow> mq_abs" where
  "mq_abstract (q, f) = (mq_items q, \<lambda>t. apc_of q (f t))"

definition held_blocks :: "(nat \<Rightarrow> mq_pc) \<Rightarrow> nat set" where
  "held_blocks f = {m. \<exists>t. held (f t) = Some m}"

definition own :: "(nat \<Rightarrow> mq_pc) \<Rightarrow> bool" where
  "own f \<longleftrightarrow> (\<forall>t u m. held (f t) = Some m \<and> held (f u) = Some m \<longrightarrow> t = u)"

fun mq_cinv :: "mq_conc \<Rightarrow> bool" where
  "mq_cinv (q, f) \<longleftrightarrow> (\<exists>qs fs. mq_rep (held_blocks f) q qs fs) \<and> own f \<and>
     (\<forall>t m. f t = Filled False m \<longrightarrow> mq_next q m = None)"

lemma held_None [simp]: "held pc = None \<longleftrightarrow> pc = Outside"
  by (cases pc) auto

lemma apc_of_outside [simp]: "apc_of q pc = AOutside \<longleftrightarrow> pc = Outside"
  by (cases pc) auto

lemma held_blocksI: "held (f t) = Some m \<Longrightarrow> m \<in> held_blocks f"
  by (auto simp: held_blocks_def)

text \<open>Entering a call with a block nobody holds, moving on with it, and leaving the call.\<close>

lemma hold_enter:
  assumes "own f" "f t = Outside" "held pc = Some m" "m \<notin> held_blocks f"
  shows "own (f(t := pc))" "held_blocks (f(t := pc)) = insert m (held_blocks f)"
  using assms by (auto simp: own_def held_blocks_def split: if_splits) (metis held.simps(1) option.distinct(1))

lemma hold_move:
  assumes "own f" "held (f t) = Some m" "held pc = Some m"
  shows "own (f(t := pc))" "held_blocks (f(t := pc)) = held_blocks f"
  using assms by (auto simp: own_def held_blocks_def split: if_splits) (metis option.inject)+

lemma hold_leave:
  assumes "own f" "held (f t) = Some m"
  shows "own (f(t := Outside))" "held_blocks (f(t := Outside)) = held_blocks f - {m}"
  using assms by (auto simp: own_def held_blocks_def split: if_splits) (metis option.inject)

text \<open>The activities inside a call are as many as the blocks they hold.\<close>

lemma card_inside:
  assumes "own f"
  shows "card {t. f t \<noteq> Outside} = card (held_blocks f)"
proof -
  have "bij_betw (\<lambda>t. the (held (f t))) {t. f t \<noteq> Outside} (held_blocks f)"
    unfolding bij_betw_def inj_on_def
  proof (intro conjI ballI impI)
    fix t u assume "t \<in> {t. f t \<noteq> Outside}" "u \<in> {t. f t \<noteq> Outside}" "the (held (f t)) = the (held (f u))"
    then show "t = u" using assms by (auto simp: own_def simp flip: held_None)
  qed (auto simp: held_blocks_def simp flip: held_None intro!: image_eqI[rotated] split: option.splits)
  then show ?thesis by (rule bij_betw_same_card)
qed

lemma mq_spec_eq:
  "mq_spec cap bsz a b \<Longrightarrow> a = a' \<Longrightarrow> b = b' \<Longrightarrow> mq_spec cap bsz a' b'" by simp

text \<open>What another activity holds does not change when only block \<open>m\<close> is written.\<close>

lemma apc_of_cong: "(\<And>m. held pc = Some m \<Longrightarrow> mq_data q' m = mq_data q m) \<Longrightarrow> apc_of q' pc = apc_of q pc"
  by (cases pc) auto

lemma apcs_upd:
  assumes "\<And>u m. u \<noteq> t \<Longrightarrow> held (f u) = Some m \<Longrightarrow> mq_data q' m = mq_data q m" "apc_of q' pc = apc"
  shows "(\<lambda>u. apc_of q' ((f(t := pc)) u)) = (\<lambda>u. apc_of q (f u))(t := apc)"
proof
  fix u show "apc_of q' ((f(t := pc)) u) = ((\<lambda>u. apc_of q (f u))(t := apc)) u"
    using assms(2) apc_of_cong[of "f u" q' q] assms(1)[of u] by auto
qed

lemma items_keep:
  assumes "mq_rep R q qs fs" "mq_rep R' q' qs fs'" "\<And>m. m \<in> set qs \<Longrightarrow> mq_data q' m = mq_data q m"
  shows "mq_items q' = mq_items q"
  using mq_items_rep[OF assms(1)] mq_items_rep[OF assms(2)] assms(3) by simp

text \<open>Each phase is a step of the specification and keeps the invariant.\<close>

lemma step_reserve:
  assumes inv: "mq_cinv (q, f)" and t: "f t = Outside" and r: "mq_reserve q = Some (m, q')"
  shows "mq_cinv (q', f(t := Reserved u m)) \<and>
    mq_spec (unat (max_msgs q)) (unat (msg_size q)) (mq_abstract (q, f)) (mq_abstract (q', f(t := Reserved u m))) \<and>
    max_msgs q' = max_msgs q \<and> msg_size q' = msg_size q"
proof -
  obtain qs fs where rep: "mq_rep (held_blocks f) q qs fs" and own: "own f"
    and nx: "\<And>t m. f t = Filled False m \<Longrightarrow> mq_next q m = None" using inv by auto
  obtain fs' where fs: "fs = m # fs'" "q' = q\<lparr>msg_queue_free := mq_next q m\<rparr>" "m \<notin> held_blocks f"
    "mq_rep (insert m (held_blocks f)) q' qs fs'"
    using mq_reserve_rep[OF rep] r by (cases fs) auto
  note h = hold_enter[OF own t, of "Reserved u m" m]
  have ci: "mq_cinv (q', f(t := Reserved u m))" using h fs nx by auto
  have "length (mq_items q) + card {t. apc_of q (f t) \<noteq> AOutside} < unat (max_msgs q)"
    using mq_rep_count(1)[OF rep] card_inside[OF own] mq_items_rep[OF rep] fs(1) by simp
  then have "mq_spec (unat (max_msgs q)) (unat (msg_size q)) (mq_abstract (q, f))
      (mq_items q, (\<lambda>u. apc_of q (f u))(t := AReserved u))"
    using t by (simp add: mq_spec.reserve)
  moreover have "mq_items q' = mq_items q" by (rule items_keep[OF rep fs(4)]) (simp add: fs(2))
  moreover have "(\<lambda>v. apc_of q' ((f(t := Reserved u m)) v)) = (\<lambda>u. apc_of q (f u))(t := AReserved u)"
    by (rule apcs_upd) (simp_all add: fs(2))
  ultimately show ?thesis using ci fs(2) by simp
qed

lemma step_fill:
  assumes inv: "mq_cinv (q, f)" and t: "f t = Reserved u m" and sz: "unat sz \<le> unat (msg_size q)"
    and r: "mq_copy_in m buf sz (if u then q else mq_clear_next m q) = Some q'"
  shows "mq_cinv (q', f(t := Filled u m)) \<and>
    mq_spec (unat (max_msgs q)) (unat (msg_size q)) (mq_abstract (q, f)) (mq_abstract (q', f(t := Filled u m))) \<and>
    max_msgs q' = max_msgs q \<and> msg_size q' = msg_size q"
proof -
  let ?q1 = "if u then q else mq_clear_next m q" and ?R = "held_blocks f"
  obtain qs fs where rep: "mq_rep ?R q qs fs" and own: "own f"
    and nx: "\<And>t m. f t = Filled False m \<Longrightarrow> mq_next q m = None" using inv by auto
  have m: "m \<in> ?R" "held (f t) = Some m" using t held_blocksI[of f t m] by simp_all
  have rep1: "mq_rep ?R ?q1 qs fs" using rep mq_clear_next_rep[OF rep m(1)] by simp
  have s1: "msg_size ?q1 = msg_size q" "max_msgs ?q1 = max_msgs q" "mq_data ?q1 = mq_data q"
    "mq_next ?q1 = (if u then mq_next q else (mq_next q)(m := None))"
    by (simp_all add: mq_clear_next_def)
  have b: "unat sz \<le> length buf" using r by (simp add: mq_copy_in_def split: if_splits)
  have q': "mq_rep ?R q' qs fs" "mq_next q' = mq_next ?q1" "mq_data q' = (mq_data ?q1)(m := mq_data q' m)"
    "take (unat sz) (mq_data q' m) = take (unat sz) buf" "length (mq_data q' m) = unat (msg_size ?q1)"
    "msg_size q' = msg_size ?q1" "max_msgs q' = max_msgs ?q1"
    by (rule mq_copy_in_rep[OF rep1 m(1), of sz buf]; use sz b s1 r in simp)+
  have dat: "k \<noteq> m \<Longrightarrow> mq_data q' k = mq_data q k" for k using q'(3) s1(3) by (metis fun_upd_other)
  note h = hold_move[OF own m(2), of "Filled u m"]
  have ci: "mq_cinv (q', f(t := Filled u m))" using h q'(1,2) s1(4) nx by auto
  have "mq_spec (unat (max_msgs q)) (unat (msg_size q)) (mq_abstract (q, f))
      (mq_items q, (\<lambda>u. apc_of q (f u))(t := AFilled u (mq_data q' m)))"
    using t b sz q'(4,5) s1(1) by (simp add: mq_spec.fill)
  moreover have "mq_items q' = mq_items q"
    by (rule items_keep[OF rep q'(1)]) (rule dat, use mq_rep_held[OF rep m(1)] in auto)
  moreover have "(\<lambda>v. apc_of q' ((f(t := Filled u m)) v)) = (\<lambda>u. apc_of q (f u))(t := AFilled u (mq_data q' m))"
    by (rule apcs_upd) (rule dat, use own m(2) in \<open>auto simp: own_def\<close>)
  ultimately show ?thesis using ci q'(6,7) s1(1,2) by simp
qed

lemma step_link:
  assumes inv: "mq_cinv (q, f)" and t: "f t = Filled u m"
  shows "mq_cinv (if u then mq_prepend m q else mq_append m q, f(t := Outside)) \<and>
    mq_spec (unat (max_msgs q)) (unat (msg_size q)) (mq_abstract (q, f))
      (mq_abstract (if u then mq_prepend m q else mq_append m q, f(t := Outside))) \<and>
    max_msgs (if u then mq_prepend m q else mq_append m q) = max_msgs q \<and>
    msg_size (if u then mq_prepend m q else mq_append m q) = msg_size q"
proof -
  let ?q' = "if u then mq_prepend m q else mq_append m q" and ?R = "held_blocks f"
  obtain qs fs where rep: "mq_rep ?R q qs fs" and own: "own f"
    and nx: "\<And>t m. f t = Filled False m \<Longrightarrow> mq_next q m = None" using inv by auto
  have m: "m \<in> ?R" "held (f t) = Some m" using t held_blocksI[of f t m] by simp_all
  have rep': "mq_rep (?R - {m}) ?q' (if u then m # qs else qs @ [m]) fs" and d: "mq_data ?q' = mq_data q"
    using mq_prepend_rep[OF rep m(1)] mq_append_rep[OF rep m(1)] nx t by auto
  have sel: "max_msgs ?q' = max_msgs q" "msg_size ?q' = msg_size q"
    by (simp_all add: mq_prepend_def mq_append_def Let_def split: option.split)
  note h = hold_leave[OF own m(2)]
  have "mq_next ?q' k = None" if "f v = Filled False k" "v \<noteq> t" for v k
  proof -
    have "k \<in> ?R" "k \<noteq> m" using that held_blocksI[of f v k] own m(2) by (auto simp: own_def)
    moreover have "msg_queue_tail q \<noteq> Some k" using mq_rep_held[OF rep \<open>k \<in> ?R\<close>] rep by (auto simp: mq_rep_def)
    ultimately show ?thesis using nx[OF that(1)]
      by (auto simp: mq_prepend_def mq_append_def Let_def split: option.split)
  qed
  then have ci: "mq_cinv (?q', f(t := Outside))" using h rep' by auto
  have "mq_items ?q' = (if u then mq_data q m # mq_items q else mq_items q @ [mq_data q m])"
    using mq_items_rep[OF rep'] mq_items_rep[OF rep] d by simp
  moreover have "(\<lambda>v. apc_of ?q' ((f(t := Outside)) v)) = (\<lambda>u. apc_of q (f u))(t := AOutside)"
    by (rule apcs_upd) (use d in simp_all)
  moreover have "mq_spec (unat (max_msgs q)) (unat (msg_size q)) (mq_abstract (q, f))
      ((if u then mq_data q m # mq_items q else mq_items q @ [mq_data q m]), (\<lambda>u. apc_of q (f u))(t := AOutside))"
    using mq_spec.link[of "\<lambda>u. apc_of q (f u)" t u "mq_data q m"] t by simp
  ultimately show ?thesis using ci sel by simp
qed

lemma step_take:
  assumes inv: "mq_cinv (q, f)" and t: "f t = Outside" and e: "mq_entry q \<noteq> 0" and r: "mq_take q = Some (m, q')"
  shows "mq_cinv (q', f(t := Taken m)) \<and>
    mq_spec (unat (max_msgs q)) (unat (msg_size q)) (mq_abstract (q, f)) (mq_abstract (q', f(t := Taken m))) \<and>
    max_msgs q' = max_msgs q \<and> msg_size q' = msg_size q"
proof -
  let ?R = "held_blocks f"
  obtain qs fs where rep: "mq_rep ?R q qs fs" and own: "own f"
    and nx: "\<And>t m. f t = Filled False m \<Longrightarrow> mq_next q m = None" using inv by auto
  have "qs \<noteq> []" using rep e by (auto simp: mq_rep_def unat_eq_0)
  then obtain k ks where qs: "qs = k # ks" by (cases qs) auto
  have q': "k = m" "mq_rep (insert m ?R) q' ks fs" "mq_data q' = mq_data q" "m \<notin> ?R"
    "msg_size q' = msg_size q" "max_msgs q' = max_msgs q"
    by (rule mq_take_rep[OF rep[unfolded qs]]; use r in simp)+
  have n: "mq_next q' = mq_next q" using r
    by (auto simp: mq_take_def mq_unlink_def Let_def split: option.splits if_splits)
  note h = hold_enter[OF own t, of "Taken m" m]
  have ci: "mq_cinv (q', f(t := Taken m))" using h q' n nx by auto
  have "mq_items q = mq_data q m # mq_items q'" using mq_items_rep[OF rep] mq_items_rep[OF q'(2)] q' qs by simp
  moreover have "(\<lambda>v. apc_of q' ((f(t := Taken m)) v)) = (\<lambda>u. apc_of q (f u))(t := ATaken (mq_data q m))"
    by (rule apcs_upd) (use q' in simp_all)
  ultimately show ?thesis
    using ci q' t mq_spec.takes[of "\<lambda>u. apc_of q (f u)" t _ _ "mq_data q m" "mq_items q'"] by simp
qed

lemma step_copy:
  assumes inv: "mq_cinv (q, f)" and t: "f t = Taken m"
  shows "mq_cinv (q, f(t := Copied m (mq_copy_out m sz q))) \<and>
    mq_spec (unat (max_msgs q)) (unat (msg_size q)) (mq_abstract (q, f))
      (mq_abstract (q, f(t := Copied m (mq_copy_out m sz q))))"
proof -
  let ?d = "mq_copy_out m sz q"
  have own: "own f" "held (f t) = Some m" using inv t by auto
  note h = hold_move[OF own, of "Copied m ?d"]
  have ci: "mq_cinv (q, f(t := Copied m ?d))" using h inv by auto
  obtain k where k: "?d = take k (mq_data q m)" by (simp add: mq_copy_out_def)
  have "(\<lambda>v. apc_of q ((f(t := Copied m ?d)) v)) = (\<lambda>u. apc_of q (f u))(t := ACopied ?d)"
    by (rule apcs_upd) simp_all
  then show ?thesis
    using ci t k mq_spec.copy[of "\<lambda>u. apc_of q (f u)" t "mq_data q m" _ _ "mq_items q" k] by simp
qed

lemma step_give_back:
  assumes inv: "mq_cinv (q, f)" and t: "f t = Copied m d"
  shows "mq_cinv (mq_put_free m q, f(t := Outside)) \<and>
    mq_spec (unat (max_msgs q)) (unat (msg_size q)) (mq_abstract (q, f)) (mq_abstract (mq_put_free m q, f(t := Outside)))"
proof -
  let ?R = "held_blocks f" and ?q' = "mq_put_free m q"
  obtain qs fs where rep: "mq_rep ?R q qs fs" and own: "own f"
    and nx: "\<And>t m. f t = Filled False m \<Longrightarrow> mq_next q m = None" using inv by auto
  have m: "m \<in> ?R" "held (f t) = Some m" using t held_blocksI[of f t m] by simp_all
  note h = hold_leave[OF own m(2)] and rep' = mq_put_free_rep[OF rep m(1)]
  have "mq_next ?q' k = None" if "f v = Filled False k" "v \<noteq> t" for v k
    using that nx[OF that(1)] own m(2) by (auto simp: own_def mq_put_free_def)
  then have ci: "mq_cinv (?q', f(t := Outside))" using h rep' by auto
  have "mq_items ?q' = mq_items q" by (rule items_keep[OF rep rep']) simp
  moreover have "(\<lambda>v. apc_of ?q' ((f(t := Outside)) v)) = (\<lambda>u. apc_of q (f u))(t := AOutside)"
    by (rule apcs_upd) simp_all
  ultimately show ?thesis
    using ci t mq_spec.give_back[of "\<lambda>u. apc_of q (f u)" t d] by simp
qed

lemma step_reset:
  assumes inv: "mq_cinv (q, f)" and r: "mq_flush q = Some q'"
  shows "mq_cinv (q'\<lparr>mq_entry := 0\<rparr>, f) \<and>
    mq_spec (unat (max_msgs q)) (unat (msg_size q)) (mq_abstract (q, f)) (mq_abstract (q'\<lparr>mq_entry := 0\<rparr>, f)) \<and>
    max_msgs q' = max_msgs q \<and> msg_size q' = msg_size q"
proof -
  let ?R = "held_blocks f" and ?q' = "q'\<lparr>mq_entry := 0\<rparr>"
  obtain qs fs where rep: "mq_rep ?R q qs fs" and own: "own f"
    and nx: "\<And>t m. f t = Filled False m \<Longrightarrow> mq_next q m = None" using inv by auto
  obtain q1 where "mq_flush q = Some q1" "mq_rep ?R (q1\<lparr>mq_entry := 0\<rparr>) [] (rev qs @ fs)" "mq_data q1 = mq_data q"
    "msg_size q1 = msg_size q" "max_msgs q1 = max_msgs q" "\<And>k. k \<notin> set qs \<Longrightarrow> mq_next q1 k = mq_next q k"
    by (rule mq_flush_ok[OF rep], rule that)
  then have q': "mq_rep ?R ?q' [] (rev qs @ fs)" "mq_data q' = mq_data q" "msg_size q' = msg_size q"
    "max_msgs q' = max_msgs q" "\<And>k. k \<notin> set qs \<Longrightarrow> mq_next q' k = mq_next q k" using r by simp_all
  have "mq_next q' k = None" if "f v = Filled False k" for v k
    using q'(5)[of k] nx[OF that] mq_rep_held[OF rep held_blocksI[of f v k]] that by simp
  then have ci: "mq_cinv (?q', f)" using own q'(1) by auto
  have "mq_items ?q' = []" using mq_items_rep[OF q'(1)] by simp
  moreover have "(\<lambda>v. apc_of ?q' (f v)) = (\<lambda>v. apc_of q (f v))"
    using apc_of_cong[of _ ?q' q] q'(2) by (auto intro!: ext)
  ultimately show ?thesis
    using ci q' mq_spec.reset by simp
qed

lemma mq_step_refines:
  assumes inv: "mq_cinv (q, f)" and st: "mq_step (q, f) (q', f')"
  shows "mq_cinv (q', f') \<and> mq_spec (unat (max_msgs q)) (unat (msg_size q)) (mq_abstract (q, f)) (mq_abstract (q', f')) \<and>
    max_msgs q' = max_msgs q \<and> msg_size q' = msg_size q"
  using st
proof (cases rule: mq_step.cases)
  case (reserve t m urgent)
  then show ?thesis using step_reserve[OF inv] by simp
next
  case (fill t m sz buf)
  then show ?thesis using step_fill[OF inv, of t False m sz buf] by simp
next
  case (fill_urgent t m sz buf)
  then show ?thesis using step_fill[OF inv, of t True m sz buf] by simp
next
  case (link t m)
  then show ?thesis using step_link[OF inv, of t False m] by simp
next
  case (link_urgent t m)
  then show ?thesis using step_link[OF inv, of t True m] by simp
next
  case (takes t m)
  then show ?thesis using step_take[OF inv] by simp
next
  case (copy t m sz)
  then show ?thesis using step_copy[OF inv, of t m sz] by simp
next
  case (give_back t m d)
  then show ?thesis using step_give_back[OF inv] by simp
next
  case (reset q1)
  then show ?thesis using step_reset[OF inv] by simp
qed

text \<open>
  C23. However the phases of any number of senders, urgent senders, receivers and resets
  interleave, the queue behaves like a double-ended queue of whole messages: no message is lost,
  duplicated, torn or overwritten while it is copied, an ordinary message goes to the end and an
  urgent one to the front, and a block can be reserved exactly while the messages queued and the
  blocks held together are fewer than the blocks of the pool.
\<close>

theorem mq_interleavings_refine:
  assumes "mq_cinv (q, f)" "mq_step\<^sup>*\<^sup>* (q, f) (q', f')"
  shows "mq_cinv (q', f') \<and>
         (mq_spec (unat (max_msgs q)) (unat (msg_size q)))\<^sup>*\<^sup>* (mq_abstract (q, f)) (mq_abstract (q', f')) \<and>
         (mq_reserve q' = None \<longleftrightarrow> length (mq_items q') + card {t. f' t \<noteq> Outside} = unat (max_msgs q))"
proof -
  have "mq_cinv (q', f') \<and> max_msgs q' = max_msgs q \<and> msg_size q' = msg_size q \<and>
      (mq_spec (unat (max_msgs q)) (unat (msg_size q)))\<^sup>*\<^sup>* (mq_abstract (q, f)) (mq_abstract (q', f'))"
    using assms(2)
  proof (induction q' f' rule: rtranclp_induct2)
    case refl
    then show ?case using assms(1) by simp
  next
    case (step q1 f1 q2 f2)
    then have inv: "mq_cinv (q1, f1)" and eq: "max_msgs q1 = max_msgs q" "msg_size q1 = msg_size q" by simp_all
    have "mq_cinv (q2, f2) \<and> mq_spec (unat (max_msgs q1)) (unat (msg_size q1)) (mq_abstract (q1, f1)) (mq_abstract (q2, f2)) \<and>
        max_msgs q2 = max_msgs q1 \<and> msg_size q2 = msg_size q1"
      using step(2) by (rule mq_step_refines[OF inv])
    then show ?case using step.IH eq by auto
  qed
  moreover obtain qs fs where rep: "mq_rep (held_blocks f') q' qs fs" and own: "own f'" using calculation by auto
  have "mq_reserve q' = None \<longleftrightarrow> fs = []" using mq_reserve_rep[OF rep] by (cases fs) auto
  then have "mq_reserve q' = None \<longleftrightarrow> length (mq_items q') + card {t. f' t \<noteq> Outside} = unat (max_msgs q')"
    using mq_rep_count(1)[OF rep] mq_items_rep[OF rep] card_inside[OF own] by (cases fs) auto
  ultimately show ?thesis by simp
qed

text \<open>
  Activity 1 sends \<open>[1]\<close> and activity 2 sends \<open>[2]\<close> as urgent; both hold a block at the same time,
  activity 1 links first, and activity 3 receives the urgent message.
\<close>

definition demo_mq :: rt_messagequeue where
  "demo_mq = mqueues demo_ipc 0"

definition demo_mq' :: rt_messagequeue where
  "demo_mq' = \<lparr>mq_pool_null = False, msg_size = 4, max_msgs = 2, mq_entry = 1, msg_queue_head = Some 1,
     msg_queue_tail = Some 1, msg_queue_free = None, mq_next = (\<lambda>_. None)(0 := Some 1),
     mq_data = (\<lambda>_. [0, 0, 0, 0])(1 := [1, 0, 0, 0], 0 := [2, 0, 0, 0])\<rparr>"

lemmas mq_phases = mq_reserve_def mq_clear_next_def mq_copy_in_def mq_append_def mq_prepend_def mq_take_def
  mq_unlink_def mq_copy_out_def mq_put_free_def Let_def

lemma demo_mq_run: "mq_step\<^sup>*\<^sup>* (demo_mq, \<lambda>_. Outside) (demo_mq', (\<lambda>_. Outside)(3 := Taken 0))"
proof -
  let ?o = "\<lambda>_ :: nat. Outside"
  define q1 where "q1 = demo_mq\<lparr>msg_queue_free := Some 0\<rparr>"
  define q2 where "q2 = q1\<lparr>msg_queue_free := None\<rparr>"
  define q3 where "q3 = q2\<lparr>mq_next := (mq_next q2)(1 := None), mq_data := (mq_data q2)(1 := [1, 0, 0, 0])\<rparr>"
  define q4 where "q4 = q3\<lparr>mq_data := (mq_data q3)(0 := [2, 0, 0, 0])\<rparr>"
  define q5 where "q5 = q4\<lparr>msg_queue_tail := Some 1, msg_queue_head := Some 1, mq_entry := 1\<rparr>"
  define q6 where "q6 = q5\<lparr>mq_next := (mq_next q5)(0 := Some 1), msg_queue_head := Some 0, mq_entry := 2\<rparr>"
  note d = q1_def q2_def q3_def q4_def q5_def q6_def demo_mq_def
  have s1: "mq_step (demo_mq, ?o) (q1, ?o(1 := Reserved False 1))"
    by (rule mq_step.reserve) (simp_all add: d mq_phases)
  have s2: "mq_step (q1, ?o(1 := Reserved False 1)) (q2, ?o(1 := Reserved False 1, 2 := Reserved True 0))"
    by (rule mq_step.reserve) (simp_all add: d mq_phases)
  have s3: "mq_step (q2, ?o(1 := Reserved False 1, 2 := Reserved True 0)) (q3, ?o(1 := Reserved False 1, 2 := Reserved True 0, 1 := Filled False 1))"
    by (rule mq_step.fill[where sz = 1 and buf = "[1]"]) (simp_all add: d mq_phases)
  have s4: "mq_step (q3, ?o(1 := Reserved False 1, 2 := Reserved True 0, 1 := Filled False 1)) (q4, ?o(1 := Filled False 1, 2 := Filled True 0))"
    using mq_step.fill_urgent[where sz = 1 and buf = "[2]" and t = 2 and m = 0 and q = q3 and q' = q4
      and f = "?o(1 := Reserved False 1, 2 := Reserved True 0, 1 := Filled False 1)"]
    by (simp add: d mq_phases fun_upd_twist)
  have s5: "mq_step (q4, ?o(1 := Filled False 1, 2 := Filled True 0)) (q5, ?o(2 := Filled True 0))"
    using mq_step.link[of "?o(1 := Filled False 1, 2 := Filled True 0)" 1 1 q4]
    by (simp add: d mq_phases fun_upd_twist fun_upd_idem)
  have s6: "mq_step (q5, ?o(2 := Filled True 0)) (q6, ?o)"
    using mq_step.link_urgent[of "?o(2 := Filled True 0)" 2 0 q5] by (simp add: d mq_phases fun_upd_idem)
  have s7: "mq_step (q6, ?o) (demo_mq', ?o(3 := Taken 0))"
    by (rule mq_step.takes) (auto simp: d mq_phases demo_mq'_def fun_eq_iff)
  show ?thesis
    by (rule converse_rtranclp_into_rtranclp, rule s1,
        rule converse_rtranclp_into_rtranclp, rule s2,
        rule converse_rtranclp_into_rtranclp, rule s3,
        rule converse_rtranclp_into_rtranclp, rule s4,
        rule converse_rtranclp_into_rtranclp, rule s5,
        rule converse_rtranclp_into_rtranclp, rule s6,
        rule converse_rtranclp_into_rtranclp, rule s7,
        rule rtranclp.rtrancl_refl)
qed

theorem mq_interleavings_refine_witness:
  "mq_items demo_mq' = [[1, 0, 0, 0]] \<and> mq_reserve demo_mq' = None \<and>
   (mq_spec 2 4)\<^sup>*\<^sup>* ([], \<lambda>_. AOutside) ([[1, 0, 0, 0]], (\<lambda>_. AOutside)(3 := ATaken [2, 0, 0, 0]))"
proof -
  have "mq_rep {} demo_mq [] [1, 0]" by (auto simp: mq_rep_def demo_mq_def)
  then have "mq_cinv (demo_mq, \<lambda>_. Outside)" by (auto simp: held_blocks_def own_def)
  note run = mq_interleavings_refine[OF this demo_mq_run]
  have "mq_abstract (demo_mq, \<lambda>_. Outside) = ([], \<lambda>_. AOutside)" by (simp add: mq_items_def demo_mq_def)
  moreover have "mq_items demo_mq' = [[1, 0, 0, 0]]" by (simp add: mq_items_def demo_mq'_def)
  moreover have "(\<lambda>t :: nat. apc_of demo_mq' (if t = 3 then Taken 0 else Outside)) = (\<lambda>_. AOutside)(3 := ATaken [2, 0, 0, 0])"
    by (auto simp: demo_mq'_def)
  moreover have "{t :: nat. (if t = 3 then Taken 0 else Outside) \<noteq> Outside} = {3}" by auto
  ultimately show ?thesis using run by (simp add: demo_mq_def)
qed

section \<open>Initialisation\<close>

text \<open>A queue that has been set up holds no message, and every block is free.\<close>

lemma mq_link_free_loop:
  assumes "msg_queue_free q = None"
  shows "msg_queue_free (fold mq_link_block [0..<k] q) = (if k = 0 then None else Some (k - 1)) \<and>
    (\<forall>i < k. mq_next (fold mq_link_block [0..<k] q) i = (if i = 0 then None else Some (i - 1)))"
proof (induction k)
  case (Suc k)
  then show ?case by (auto simp: mq_link_block_def less_Suc_eq)
qed (use assms in simp)

lemma mq_link_free_sel:
  "mq_entry (fold mq_link_block ks q) = mq_entry q" "msg_queue_head (fold mq_link_block ks q) = msg_queue_head q"
  "msg_queue_tail (fold mq_link_block ks q) = msg_queue_tail q" "max_msgs (fold mq_link_block ks q) = max_msgs q"
  "mq_data (fold mq_link_block ks q) = mq_data q" "msg_size (fold mq_link_block ks q) = msg_size q"
  by (induction ks arbitrary: q) (simp_all add: mq_link_block_def)

lemma mq_setup_rep:
  assumes "\<And>i. i < unat mx \<Longrightarrow> length (cells i) = unat msz"
  shows "mq_rep {} (mq_setup msz mx links cells) [] (rev [0..<unat mx])"
proof -
  let ?q = "\<lparr>mq_pool_null = False, msg_size = msz, max_msgs = mx, mq_entry = 0, msg_queue_head = None,
    msg_queue_tail = None, msg_queue_free = None, mq_next = links, mq_data = cells\<rparr>"
  let ?q' = "fold mq_link_block [0..<unat mx] ?q"
  have "chain (mq_next ?q') (msg_queue_free ?q') (rev [0..<unat mx])"
    using mq_link_free_loop[of ?q "unat mx"] chain_downwards[of "unat mx" "mq_next ?q'"] by simp
  moreover have "mq_setup msz mx links cells = ?q'" by (simp add: mq_setup_def mq_link_free_def)
  ultimately show ?thesis using assms by (auto simp: mq_rep_def mq_link_free_sel)
qed

section \<open>Sending and receiving\<close>

lemma set_mq_sel [simp]:
  "mqueues (set_mq n q s) = (mqueues s)(n := q)" "thr (set_mq n q s) = thr s"
  "tl (set_mq n q s) = tl s" "cur (set_mq n q s) = cur s" "objs (set_mq n q s) = objs s"
  "lock_nest (set_mq n q s) = lock_nest s" "irq_nest (set_mq n q s) = irq_nest s"
  "kinv X b (set_mq n q s) = kinv X b s" "tstat (set_mq n q s) t = tstat s t"
  "rt_object_get_type x (set_mq n q s) = rt_object_get_type x s" "tick (set_mq n q s) = tick s"
  by (simp_all add: set_mq_def)

text \<open>A message queue of which other activities hold the blocks \<open>R\<close>.\<close>

definition mq_ok :: "nat set \<Rightarrow> nat \<Rightarrow> 'a kernel_scheme \<Rightarrow> bool" where
  "mq_ok R n s \<longleftrightarrow> rt_object_get_type (mq_obj n) s = RT_Object_Class_MessageQueue \<and>
     (oflag (objs s (mq_obj n)) = RT_IPC_FLAG_FIFO \<or> oflag (objs s (mq_obj n)) = RT_IPC_FLAG_PRIO) \<and>
     (\<exists>qs fs. mq_rep R (mqueues s n) qs fs)"

lemma mq_ok_items:
  assumes "mq_ok R n s" "msg \<in> set (mq_items (mqueues s n))"
  shows "length msg = unat (msg_size (mqueues s n))"
proof -
  obtain qs fs where rep: "mq_rep R (mqueues s n) qs fs" using assms(1) by (auto simp: mq_ok_def)
  show ?thesis using assms(2) mq_items_rep[OF rep] mq_rep_data(2)[OF rep] by auto
qed

lemma mq_entry_items:
  assumes "mq_ok R n s"
  shows "mq_entry (mqueues s n) = 0 \<longleftrightarrow> mq_items (mqueues s n) = []"
proof -
  obtain qs fs where rep: "mq_rep R (mqueues s n) qs fs" using assms(1) by (auto simp: mq_ok_def)
  then have "unat (mq_entry (mqueues s n)) = length qs" by (simp add: mq_rep_def)
  then show ?thesis using mq_items_rep[OF rep] by (auto simp: unat_eq_0)
qed

lemma mq_wake_ok:
  fixes s :: "'a kernel_scheme"
  assumes inv: "kinv {} b s" and ok: "mq_ok R n s" and c: "cur s = Some c"
  obtains s' where "mq_wake n s = Some (s', RT_EOK)" "kinv {} b s'" "mq_ok R n s'" "mqueues s' = mqueues s"
    "tl s' (mq_list n) = List.tl (tl s (mq_list n))" "\<And>u. error (thr s' u) = error (thr s u)" "cur s' \<noteq> None"
    "\<And>w ws. tl s (mq_list n) = w # ws \<Longrightarrow> tstat s' w = RT_THREAD_READY"
proof -
  let ?l = "mq_list n"
  obtain s' where s': "(if tl s ?l \<noteq> [] then do { (s2, _) \<leftarrow> rt_ipc_list_resume ?l s; rt_schedule s2 } else Some s) = Some s'"
    "kinv {} b s'" "\<And>k. (\<nexists>p. k = Ready p) \<Longrightarrow> tl s' k = (if k = ?l then List.tl (tl s ?l) else tl s k)"
    "\<And>u. error (thr s' u) = error (thr s u)" "\<And>i. objs s' (IpcObj i) = objs s (IpcObj i)"
    "ktimer.more s' = ktimer.more s" "cur s' \<noteq> None"
    "\<And>w ws. tl s ?l = w # ws \<Longrightarrow> tstat s' w = RT_THREAD_READY"
    by (rule wake_first_ok[OF inv _ c, of ?l]) auto
  have m': "mqueues s' = mqueues s" using kernel_more_eq(5)[OF s'(6)] .
  have "mq_wake n s = Some (s', RT_EOK)"
    using s'(1) by (auto simp: mq_wake_def split_def Option.bind_eq_Some_conv split: if_splits)
  moreover have "mq_ok R n s'" using ok m' s'(5)[of "MessageQueueId n"] by (simp add: mq_ok_def rt_object_get_type_def)
  ultimately show thesis using s' m' by (intro that) auto
qed

lemma mq_recv_now_ok:
  assumes inv: "kinv {} b s" and ok: "mq_ok R n s" and it: "mq_items (mqueues s n) = msg # msgs"
  obtains s' where "mq_recv_now n sz s = Some (s', RT_EOK, Some (take (unat sz) msg))" "kinv {} b s'" "mq_ok R n s'"
    "mq_items (mqueues s' n) = msgs" "tl s' = tl s" "cur s' = cur s" "thr s' = thr s"
proof -
  let ?q = "mqueues s n"
  obtain qs fs where rep: "mq_rep R ?q qs fs" using ok by (auto simp: mq_ok_def)
  obtain m ms where qs: "qs = m # ms" "mq_data ?q m = msg" "map (mq_data ?q) ms = msgs"
    using mq_items_rep[OF rep] it by (cases qs) auto
  obtain q1 where q1: "mq_take ?q = Some (m, q1)" "mq_rep (insert m R) q1 ms fs" "mq_data q1 = mq_data ?q" "m \<notin> R"
    "msg_size q1 = msg_size ?q"
    using mq_take_rep[OF rep[unfolded qs(1)]] by blast
  have rep': "mq_rep R (mq_put_free m q1) ms (m # fs)" using mq_put_free_rep[OF q1(2), of m] q1(4) by simp
  have "length msg = unat (msg_size ?q)" using mq_ok_items[OF ok, of msg] it by simp
  then have "mq_copy_out m sz q1 = take (unat sz) msg" using q1(3,5) qs(2) by (auto simp: mq_copy_out_def)
  then have "mq_recv_now n sz s = Some (set_mq n (mq_put_free m q1) s, RT_EOK, Some (take (unat sz) msg))"
    using q1(1) by (simp add: mq_recv_now_def)
  moreover have "mq_ok R n (set_mq n (mq_put_free m q1) s)" using ok rep' by (auto simp: mq_ok_def)
  moreover have "mq_items (mq_put_free m q1) = msgs" using mq_items_rep[OF rep'] q1(3) qs(3) by simp
  ultimately show thesis using inv by (intro that[of "set_mq n (mq_put_free m q1) s"]) simp_all
qed

text \<open>
  Both ways of sending, as far as the queue itself goes: \<open>u\<close> tells an urgent message.
\<close>

definition mq_enqueue :: "bool \<Rightarrow> u8 list \<Rightarrow> u32 \<Rightarrow> rt_messagequeue \<Rightarrow> rt_messagequeue option" where
  "mq_enqueue u buffer sz q = do {
     (msg, q1) \<leftarrow> mq_reserve q;
     q2 \<leftarrow> mq_copy_in msg buffer sz (if u then q1 else mq_clear_next msg q1);
     Some (if u then mq_prepend msg q2 else mq_append msg q2)
   }"

lemma send_enqueue:
  assumes "rt_object_get_type (mq_obj n) s = RT_Object_Class_MessageQueue" "sz \<noteq> 0"
    "unat sz \<le> unat (msg_size (mqueues s n))" "unat sz \<le> length buffer" "mq_enqueue u buffer sz (mqueues s n) = Some q"
  shows "(if u then rt_mq_urgent n buffer sz s else rt_mq_send n buffer sz s) = mq_wake n (set_mq n q s)"
  using assms
  by (cases u) (auto simp: rt_mq_urgent_def rt_mq_send_def mq_enqueue_def Option.bind_eq_Some_conv)

lemma mq_enqueue_rep:
  assumes rep: "mq_rep R q qs (m # fs)" and sz: "unat sz \<le> unat (msg_size q)" "unat sz \<le> length buffer"
  obtains q' msg where "mq_enqueue u buffer sz q = Some q'" "mq_rep R q' (if u then m # qs else qs @ [m]) fs"
    "mq_items q' = (if u then msg # mq_items q else mq_items q @ [msg])" "take (unat sz) msg = take (unat sz) buffer"
    "length msg = unat (msg_size q)" "msg_size q' = msg_size q" "max_msgs q' = max_msgs q"
proof -
  let ?q1 = "q\<lparr>msg_queue_free := mq_next q m\<rparr>" and ?R = "insert m R"
  have r: "mq_reserve q = Some (m, ?q1)" "mq_rep ?R ?q1 qs fs" "m \<notin> R" using mq_reserve_rep(2)[OF rep refl] by auto
  let ?q2 = "if u then ?q1 else mq_clear_next m ?q1"
  have rep2: "mq_rep ?R ?q2 qs fs" using r(2) mq_clear_next_rep[OF r(2), of m] by simp
  have sel: "msg_size ?q2 = msg_size q" "mq_data ?q2 = mq_data q" "max_msgs ?q2 = max_msgs q"
    by (simp_all add: mq_clear_next_def)
  obtain q3 where q3: "mq_copy_in m buffer sz ?q2 = Some q3" "mq_rep ?R q3 qs fs" "mq_next q3 = mq_next ?q2"
    "mq_data q3 = (mq_data q)(m := mq_data q3 m)" "take (unat sz) (mq_data q3 m) = take (unat sz) buffer"
    "length (mq_data q3 m) = unat (msg_size q)" "msg_size q3 = msg_size q" "max_msgs q3 = max_msgs q"
    using mq_copy_in_rep[OF rep2, of m sz buffer] sz unfolding sel by auto
  have nx: "\<not> u \<Longrightarrow> mq_next q3 m = None" using q3(3) by (simp add: mq_clear_next_def)
  let ?q' = "if u then mq_prepend m q3 else mq_append m q3"
  have q': "mq_rep R ?q' (if u then m # qs else qs @ [m]) fs" "mq_data ?q' = mq_data q3"
    using mq_prepend_rep[OF q3(2), of m] mq_append_rep[OF q3(2), of m] nx r(3) by simp_all
  have "mq_items q = map (mq_data q) qs" by (rule mq_items_rep[OF rep])
  moreover have "map (mq_data q3) qs = map (mq_data q) qs"
    using mq_rep_held[OF q3(2), of m] q3(4) by (metis fun_upd_other insertI1 map_cong)
  ultimately have it: "mq_items ?q' = (if u then mq_data q3 m # mq_items q else mq_items q @ [mq_data q3 m])"
    using mq_items_rep[OF q'(1)] q'(2) by simp
  have "msg_size ?q' = msg_size q3" "max_msgs ?q' = max_msgs q3"
    by (simp_all add: mq_prepend_def mq_append_def Let_def split: option.split)
  then show thesis
    using that[of ?q' "mq_data q3 m"] r(1) q3 q' it by (simp add: mq_enqueue_def)
qed

text \<open>
  C24. Sending a message. A message longer than the blocks is refused with \<^verbatim>\<open>-RT_ERROR\<close> and
  one for which no block is free with \<^verbatim>\<open>-RT_EFULL\<close>, and nothing changes. Otherwise the bytes
  are queued, at the end or, for \<^verbatim>\<open>rt_mq_urgent\<close>, at the front; the first waiting receiver
  becomes ready, and if the queue had been empty it returns with these bytes once it runs. The
  invariants are kept.
\<close>

theorem rt_mq_send_delivers:
  fixes s :: "'a kernel_scheme"
  assumes inv: "kinv {} b s" and ok: "mq_ok R n s" and c: "cur s = Some c"
    and sz: "sz \<noteq> 0" "unat sz \<le> length buffer"
  defines "q \<equiv> mqueues s n" and "send \<equiv> \<lambda>u. if u then rt_mq_urgent n buffer sz s else rt_mq_send n buffer sz s"
  shows "(unat sz > unat (msg_size q) \<longrightarrow> send u = Some (s, - RT_ERROR)) \<and>
         (unat sz \<le> unat (msg_size q) \<and> length (mq_items q) + card R = unat (max_msgs q) \<longrightarrow>
            send u = Some (s, - RT_EFULL)) \<and>
         (unat sz \<le> unat (msg_size q) \<and> length (mq_items q) + card R \<noteq> unat (max_msgs q) \<longrightarrow>
            (\<exists>s' msg. send u = Some (s', RT_EOK) \<and> kinv {} b s' \<and> mq_ok R n s' \<and>
               mq_items (mqueues s' n) = (if u then msg # mq_items q else mq_items q @ [msg]) \<and>
               length msg = unat (msg_size q) \<and> take (unat sz) msg = take (unat sz) buffer \<and>
               (\<forall>w ws. tl s (mq_list n) = w # ws \<longrightarrow> tl s' (mq_list n) = ws \<and> tstat s' w = RT_THREAD_READY \<and>
                  (error (thr s w) = RT_EOK \<and> mq_items q = [] \<longrightarrow>
                     (\<exists>s''. rt_mq_recv_end n rsz timeout t0 w s' = Some (s'', Returns (RT_EOK, Some (take (unat rsz) msg))) \<and>
                        kinv {} b s'' \<and> mq_ok R n s'' \<and> mq_items (mqueues s'' n) = [])))))"
proof (intro conjI impI)
  have ty: "rt_object_get_type (mq_obj n) s = RT_Object_Class_MessageQueue" using ok by (simp add: mq_ok_def)
  show "unat sz > unat (msg_size q) \<Longrightarrow> send u = Some (s, - RT_ERROR)"
    using ty sz by (simp add: send_def q_def rt_mq_urgent_def rt_mq_send_def)
  obtain qs fs where rep: "mq_rep R q qs fs" using ok by (auto simp: mq_ok_def q_def)
  have full: "length (mq_items q) + card R = unat (max_msgs q) \<longleftrightarrow> fs = []"
    using mq_rep_count(1)[OF rep] mq_items_rep[OF rep] by (cases fs) auto
  show "send u = Some (s, - RT_EFULL)"
    if "unat sz \<le> unat (msg_size q) \<and> length (mq_items q) + card R = unat (max_msgs q)"
    using that full mq_reserve_rep(1)[OF rep] ty sz by (simp add: send_def q_def rt_mq_urgent_def rt_mq_send_def)
  assume h: "unat sz \<le> unat (msg_size q) \<and> length (mq_items q) + card R \<noteq> unat (max_msgs q)"
  then obtain m fs' where fs: "fs = m # fs'" using full by (cases fs) auto
  obtain q' msg where q': "mq_enqueue u buffer sz q = Some q'" "mq_rep R q' (if u then m # qs else qs @ [m]) fs'"
    "mq_items q' = (if u then msg # mq_items q else mq_items q @ [msg])" "take (unat sz) msg = take (unat sz) buffer"
    "length msg = unat (msg_size q)" "msg_size q' = msg_size q"
    using mq_enqueue_rep[OF rep[unfolded fs], of sz buffer u] h sz(2) by blast
  let ?s1 = "set_mq n q' s"
  have k1: "kinv {} b ?s1" "mq_ok R n ?s1" "cur ?s1 = Some c" using inv ok c q'(2) by (auto simp: mq_ok_def)
  obtain s' where s': "mq_wake n ?s1 = Some (s', RT_EOK)" "kinv {} b s'" "mq_ok R n s'" "mqueues s' = mqueues ?s1"
    "tl s' (mq_list n) = List.tl (tl ?s1 (mq_list n))" "\<And>u. error (thr s' u) = error (thr ?s1 u)" "cur s' \<noteq> None"
    "\<And>w ws. tl ?s1 (mq_list n) = w # ws \<Longrightarrow> tstat s' w = RT_THREAD_READY"
    by (rule mq_wake_ok[OF k1], rule that)
  have sd: "send u = Some (s', RT_EOK)"
    unfolding send_def using send_enqueue[OF ty sz(1) _ sz(2), of u q'] h q'(1) s'(1) by (simp add: q_def)
  have it: "mq_items (mqueues s' n) = (if u then msg # mq_items q else mq_items q @ [msg])" using s'(4) q'(3) by simp
  have recv: "\<exists>s''. rt_mq_recv_end n rsz timeout t0 w s' = Some (s'', Returns (RT_EOK, Some (take (unat rsz) msg))) \<and>
      kinv {} b s'' \<and> mq_ok R n s'' \<and> mq_items (mqueues s'' n) = []" if "error (thr s w) = RT_EOK" "mq_items q = []" for w
  proof -
    have i1: "mq_items (mqueues s' n) = [msg]" using it that(2) by simp
    obtain s'' where s'': "mq_recv_now n rsz s' = Some (s'', RT_EOK, Some (take (unat rsz) msg))" "kinv {} b s''"
      "mq_ok R n s''" "mq_items (mqueues s'' n) = []"
      by (rule mq_recv_now_ok[OF s'(2,3) i1]) auto
    have "mq_entry (mqueues s' n) \<noteq> 0" using mq_entry_items[OF s'(3)] i1 by simp
    then show ?thesis
      using that(1) s'(6) s'' mq_recv_loop.simps[of n rsz _ "Some w" s'] by (simp add: rt_mq_recv_end_def)
  qed
  show "\<exists>s' msg. send u = Some (s', RT_EOK) \<and> kinv {} b s' \<and> mq_ok R n s' \<and>
      mq_items (mqueues s' n) = (if u then msg # mq_items q else mq_items q @ [msg]) \<and>
      length msg = unat (msg_size q) \<and> take (unat sz) msg = take (unat sz) buffer \<and>
      (\<forall>w ws. tl s (mq_list n) = w # ws \<longrightarrow> tl s' (mq_list n) = ws \<and> tstat s' w = RT_THREAD_READY \<and>
         (error (thr s w) = RT_EOK \<and> mq_items q = [] \<longrightarrow>
            (\<exists>s''. rt_mq_recv_end n rsz timeout t0 w s' = Some (s'', Returns (RT_EOK, Some (take (unat rsz) msg))) \<and>
               kinv {} b s'' \<and> mq_ok R n s'' \<and> mq_items (mqueues s'' n) = [])))"
    by (rule exI[of _ s'], rule exI[of _ msg]) (use sd it s'(2,3,5,8) q'(4,5) recv in auto)
qed

theorem rt_mq_send_delivers_witness:
  "\<exists>s' s''. rt_mq_urgent 0 [7, 8] 2 (demo_wait (mq_list 0)) = Some (s', RT_EOK) \<and> tstat s' 3 = RT_THREAD_READY \<and>
     rt_mq_recv_end 0 2 50 0 3 s' = Some (s'', Returns (RT_EOK, Some [7, 8]))"
proof -
  let ?s = "demo_wait (mq_list 0)"
  have k: "kinv {} 100 ?s" by (rule demo_wait_inv) simp
  have "mq_rep {} (mqueues ?s 0) [] [1, 0]" by (auto simp: mq_rep_def)
  then have ok: "mq_ok {} 0 ?s" by (auto simp: mq_ok_def)
  have "mq_items (mqueues ?s 0) = []" "cur ?s = Some 1" "tl ?s (mq_list 0) = [3]" "error (thr ?s 3) = RT_EOK"
    by (simp_all add: mq_items_def)
  then obtain s' s'' msg where "rt_mq_urgent 0 [7, 8] 2 ?s = Some (s', RT_EOK)" "tstat s' 3 = RT_THREAD_READY"
    "rt_mq_recv_end 0 2 50 0 3 s' = Some (s'', Returns (RT_EOK, Some (take 2 msg)))" "take 2 msg = [7, 8]"
    using rt_mq_send_delivers[OF k ok, of 1 2 "[7, 8]" True 2 50 0] by auto
  then show ?thesis by metis
qed

interpretation mqr: wait_loop "\<lambda>time. mq_recv_loop n sz time (Some t)" "mq_list n" "\<lambda>s. oflag (objs s (mq_obj n))" t "\<lambda>e. (e, None)"
    "\<lambda>s. mq_entry (mqueues s n) = 0" remaining for n sz t
proof (unfold_locales, goal_cases)
  case (3 s time)
  then show ?case by (subst mq_recv_loop.simps) (simp add: in_thread Let_def cong: if_cong)
next
  case (2 s' s)
  then show ?case using kernel_more_eq(5)[of s' s] by simp
qed (simp_all add: remaining_def)

lemma mq_reset_ok:
  fixes s :: "'a kernel_scheme"
  assumes inv: "kinv {} b s" and ok: "mq_ok R n s" and c: "cur s = Some c"
  obtains s' where "rt_mq_control n (RT_IPC_CMD_RESET arg) s = Some (s', RT_EOK)" "kinv {} b s'" "mq_ok R n s'"
    "mq_items (mqueues s' n) = []" "tl s' (mq_list n) = []"
    "\<forall>w \<in> set (tl s (mq_list n)). tstat s' w = RT_THREAD_READY \<and> error (thr s' w) = - RT_ERROR"
proof -
  obtain s1 where s1: "rt_ipc_list_resume_all (mq_list n) s = Some (s1, RT_EOK)" "kinv {} b s1" "all_resumed (mq_list n) s s1"
    using rt_ipc_list_resume_all_ok[OF inv, of "mq_list n"] by auto
  note ar = s1(3)[unfolded all_resumed_def]
  have m1: "mqueues s1 = mqueues s" using kernel_more_eq(5)[of s1 s] ar by simp
  obtain qs fs where rep: "mq_rep R (mqueues s n) qs fs" using ok by (auto simp: mq_ok_def)
  obtain q where q: "mq_flush (mqueues s1 n) = Some q" "mq_rep R (q\<lparr>mq_entry := 0\<rparr>) [] (rev qs @ fs)"
    using mq_flush_ok[OF rep] unfolding m1 by blast
  let ?s2 = "set_mq n (q\<lparr>mq_entry := 0\<rparr>) s1"
  have k2: "kinv {} b ?s2" "cur ?s2 = Some c" using s1(2) ar c by simp_all
  obtain s' where s': "rt_schedule ?s2 = Some s'" "kinv {} b s'" "thr s' = thr ?s2" "objs s' = objs ?s2"
    "kbase.more s' = kbase.more ?s2" "\<And>h. (\<nexists>p. h = Ready p) \<Longrightarrow> tl s' h = tl ?s2 h"
    by (rule rt_schedule_kinv[OF k2], rule that)
  have m': "mqueues s' = mqueues ?s2" using kernel_more_eq(5)[of s' ?s2] ktimer_more_eq[OF s'(5)] by simp
  have "mq_ok R n s'" using ok q(2) m' s'(4) ar by (auto simp: mq_ok_def rt_object_get_type_def)
  moreover have "mq_items (mqueues s' n) = []" using mq_items_rep[OF q(2)] m' by simp
  moreover have "rt_mq_control n (RT_IPC_CMD_RESET arg) s = Some (s', RT_EOK)"
    using ok s1(1) q(1) s'(1) by (simp add: rt_mq_control_def mq_ok_def)
  moreover have "tl s' (mq_list n) = []" using s'(6) ar by simp
  moreover have "\<forall>w \<in> set (tl s (mq_list n)). tstat s' w = RT_THREAD_READY \<and> error (thr s' w) = - RT_ERROR"
  proof
    have "tstat s' w = tstat s1 w" for w using s'(3) by (simp add: tstat_def)
    then show "w \<in> set (tl s (mq_list n)) \<Longrightarrow> tstat s' w = RT_THREAD_READY \<and> error (thr s' w) = - RT_ERROR" for w
      using ar s'(3) by simp
  qed
  ultimately show thesis using s'(2) by (intro that)
qed

text \<open>
  C25. Receiving a message. The first message is returned at once, cut to the size of the buffer,
  and its block is free again. Of an empty queue a call without waiting time returns
  \<^verbatim>\<open>-RT_ETIMEOUT\<close>; one that may wait is queued in the order the flag of the queue asks for, with
  its timer running when the waiting time is finite. With the scheduler locked the waiting call
  has no defined outcome: its loop suspends the thread a second time. \<^verbatim>\<open>RT_IPC_CMD_RESET\<close>
  drops every message, frees the blocks and releases every waiting thread with an error.
\<close>

theorem rt_mq_recv_and_reset:
  fixes s :: "'a kernel_scheme"
  assumes inv: "kinv {} b s" and ok: "mq_ok R n s" and t: "cur s = Some t" "tstat s t = RT_THREAD_READY"
    and irq: "irq_nest s = 0" and sz: "sz \<noteq> 0"
  shows "(\<forall>msg msgs. mq_items (mqueues s n) = msg # msgs \<longrightarrow>
            (\<exists>s'. rt_mq_recv n sz timeout s = Some (s', Returns (RT_EOK, Some (take (unat sz) msg))) \<and>
               kinv {} b s' \<and> mq_ok R n s' \<and> mq_items (mqueues s' n) = msgs)) \<and>
         (mq_items (mqueues s n) = [] \<and> timeout = 0 \<longrightarrow>
            rt_mq_recv n sz timeout s = Some (s, Returns (- RT_ETIMEOUT, None))) \<and>
         (mq_items (mqueues s n) = [] \<and> time_ok timeout \<and> lock_nest s = 0 \<and>
          (\<exists>u. u \<noteq> t \<and> tstat s u = RT_THREAD_READY) \<longrightarrow>
            (\<exists>s'. rt_mq_recv n sz timeout s = Some (s', Blocks) \<and> kinv {} b s' \<and>
               waits_in (mq_list n) t (oflag (objs s (mq_obj n))) timeout s s')) \<and>
         (mq_items (mqueues s n) = [] \<and> time_ok timeout \<and> lock_nest s \<noteq> 0 \<longrightarrow> rt_mq_recv n sz timeout s = None) \<and>
         (\<exists>s'. rt_mq_control n (RT_IPC_CMD_RESET arg) s = Some (s', RT_EOK) \<and> kinv {} b s' \<and> mq_ok R n s' \<and>
            mq_items (mqueues s' n) = [] \<and> tl s' (mq_list n) = [] \<and>
            (\<forall>w \<in> set (tl s (mq_list n)). tstat s' w = RT_THREAD_READY \<and> error (thr s' w) = - RT_ERROR))"
proof (intro conjI allI impI)
  have ty: "rt_object_get_type (mq_obj n) s = RT_Object_Class_MessageQueue"
    and fl: "oflag (objs s (mq_obj n)) = RT_IPC_FLAG_FIFO \<or> oflag (objs s (mq_obj n)) = RT_IPC_FLAG_PRIO"
    using ok by (simp_all add: mq_ok_def)
  note e = mq_entry_items[OF ok]
  have recv: "rt_mq_recv n sz timeout s =
      (if mq_entry (mqueues s n) = 0 \<and> timeout = 0 then Some (s, Returns (- RT_ETIMEOUT, None))
       else mq_recv_loop n sz timeout (Some t) s)"
    using ty t sz by (simp add: rt_mq_recv_def rt_thread_self_def)
  show "\<exists>s'. rt_mq_recv n sz timeout s = Some (s', Returns (RT_EOK, Some (take (unat sz) msg))) \<and>
      kinv {} b s' \<and> mq_ok R n s' \<and> mq_items (mqueues s' n) = msgs"
    if it: "mq_items (mqueues s n) = msg # msgs" for msg msgs
  proof -
    obtain s' where "mq_recv_now n sz s = Some (s', RT_EOK, Some (take (unat sz) msg))" "kinv {} b s'"
      "mq_ok R n s'" "mq_items (mqueues s' n) = msgs"
      by (rule mq_recv_now_ok[OF inv ok it]) auto
    then show ?thesis using e it recv mq_recv_loop.simps[of n sz timeout "Some t" s] by simp
  qed
  show "rt_mq_recv n sz timeout s = Some (s, Returns (- RT_ETIMEOUT, None))"
    if "mq_items (mqueues s n) = [] \<and> timeout = 0" using that recv e by simp
  show "\<exists>s'. rt_mq_recv n sz timeout s = Some (s', Blocks) \<and> kinv {} b s' \<and>
      waits_in (mq_list n) t (oflag (objs s (mq_obj n))) timeout s s'"
    if "mq_items (mqueues s n) = [] \<and> time_ok timeout \<and> lock_nest s = 0 \<and> (\<exists>u. u \<noteq> t \<and> tstat s u = RT_THREAD_READY)"
    using that recv e mqr.outcomes(2)[OF inv t irq, of timeout n _ sz] fl by (auto simp: time_ok_def)
  show "rt_mq_recv n sz timeout s = None" if "mq_items (mqueues s n) = [] \<and> time_ok timeout \<and> lock_nest s \<noteq> 0"
    using that recv e mqr.outcomes(1)[OF inv t irq, of timeout n sz] fl by (auto simp: time_ok_def)
  show "\<exists>s'. rt_mq_control n (RT_IPC_CMD_RESET arg) s = Some (s', RT_EOK) \<and> kinv {} b s' \<and> mq_ok R n s' \<and>
      mq_items (mqueues s' n) = [] \<and> tl s' (mq_list n) = [] \<and>
      (\<forall>w \<in> set (tl s (mq_list n)). tstat s' w = RT_THREAD_READY \<and> error (thr s' w) = - RT_ERROR)"
    by (rule mq_reset_ok[OF inv ok t(1)]) blast
qed

theorem rt_mq_recv_and_reset_witness:
  "\<exists>s' s''. rt_mq_recv 0 2 50 demo_ipc = Some (s', Blocks) \<and> kinv {} 100 s' \<and> tl s' (mq_list 0) = [1] \<and>
     rt_mq_control 0 (RT_IPC_CMD_RESET 0) (demo_wait (mq_list 0)) = Some (s'', RT_EOK) \<and> tstat s'' 3 = RT_THREAD_READY"
proof -
  let ?s = "demo_wait (mq_list 0)"
  have k: "kinv {} 100 ?s" by (rule demo_wait_inv) simp
  have "mq_rep {} (mqueues ?s 0) [] [1, 0]" "mq_rep {} (mqueues demo_ipc 0) [] [1, 0]" by (auto simp: mq_rep_def)
  then have ok: "mq_ok {} 0 ?s" "mq_ok {} 0 demo_ipc" by (auto simp: mq_ok_def)
  have "mq_items (mqueues demo_ipc 0) = []" "time_ok 50" "(2 :: nat) \<noteq> 1 \<and> tstat demo_ipc 2 = RT_THREAD_READY"
    by (simp_all add: mq_items_def time_ok_def)
  then obtain s' where "rt_mq_recv 0 2 50 demo_ipc = Some (s', Blocks)" "kinv {} 100 s'"
    "waits_in (mq_list 0) 1 (oflag (objs demo_ipc (mq_obj 0))) 50 demo_ipc s'"
    using rt_mq_recv_and_reset[OF demo_ipc_inv ok(2), of 1 2 50 0] by auto
  moreover obtain s'' where "rt_mq_control 0 (RT_IPC_CMD_RESET 0) ?s = Some (s'', RT_EOK)" "tstat s'' 3 = RT_THREAD_READY"
    using rt_mq_recv_and_reset[OF k ok(1), of 1 2 50 0] by auto
  ultimately show ?thesis by (intro exI[of _ s'] exI[of _ s'']) (simp add: waits_in_def queued_def)
qed

end
