(* ===== verification/MemPool.thy ===== *)
theory MemPool
  imports Ipc Chain
begin

unbundle bit_operations_syntax

text \<open>
  The memory pools of \<^verbatim>\<open>src/mempool.c\<close>. A block is named by its index in the memory of its
  pool; the word in front of it is the link of the free list or, while the block is allocated,
  the pointer to its pool. A call of \<^verbatim>\<open>rt_mp_alloc\<close> that waits is split at \<^verbatim>\<open>rt_schedule\<close>, as
  in the other theories. Reading a word that holds the other kind of pointer is undefined
  (\<open>None\<close>), and so is a write outside the memory of the pool.
\<close>

section \<open>Definitions\<close>

abbreviation mp_list :: "nat \<Rightarrow> lhead" where "mp_list n \<equiv> SuspendedPool n"

definition set_mp :: "nat \<Rightarrow> rt_mempool \<Rightarrow> 'a kernel_scheme \<Rightarrow> 'a kernel_scheme" where
  "set_mp n mp s = s\<lparr>mempools := (mempools s)(n := mp)\<rparr>"

text \<open>The error number outside threads, \<^verbatim>\<open>__rt_errno\<close>, is not part of the state.\<close>

definition rt_set_errno :: "rt_err \<Rightarrow> 'a ktimer_scheme \<Rightarrow> 'a ktimer_scheme" where
  "rt_set_errno e s =
     (if irq_nest s \<noteq> 0 then s
      else case rt_thread_self s of
        None \<Rightarrow> s
      | Some tid \<Rightarrow> upd_thr tid (\<lambda>th. th\<lparr>error := e\<rparr>) s)"

text \<open>
  Linking the blocks: the loop, and the write that ends the list, which for a pool without blocks
  goes below the memory of the pool. \<open>avail\<close> is the number of blocks the memory has room for.
\<close>

definition mp_link_blocks :: "u32 \<Rightarrow> nat \<Rightarrow> (nat \<Rightarrow> mp_word) \<Rightarrow> (nat \<Rightarrow> mp_word) option" where
  "mp_link_blocks cnt avail w = do {
     rt_assert (unat cnt \<le> avail);
     let w1 = fold (\<lambda>offset w. w(offset := NextFree (Some (offset + 1)))) [0..<unat cnt] w;
     rt_assert (cnt \<noteq> 0);
     Some (w1(unat cnt - 1 := NextFree None))
   }"

text \<open>\<open>w\<close> is what the memory holds.\<close>

definition rt_mp_init ::
  "nat \<Rightarrow> u8 list \<Rightarrow> (nat \<Rightarrow> mp_word) \<Rightarrow> u32 \<Rightarrow> u32 \<Rightarrow> 'a kernel_scheme \<Rightarrow> ('a kernel_scheme \<times> rt_err) option" where
  "rt_mp_init n nm w sz bsz s = do {
     s1 \<leftarrow> rt_object_init (MemPoolObj n) RT_Object_Class_MemPool nm s;
     let size' = RT_ALIGN_DOWN sz RT_ALIGN_SIZE;
     let bsz' = RT_ALIGN bsz RT_ALIGN_SIZE;
     let cnt = size' div (bsz' + 4);
     let s2 = rt_ipc_object_init (mp_list n) s1;
     w' \<leftarrow> mp_link_blocks cnt (unat sz div unat (bsz' + 4)) w;
     Some (set_mp n \<lparr>mp_size = size', block_size = bsz', block_list = Some 0, block_total_count = cnt,
             block_free_count = cnt, suspend_thread_count = 0, mp_words = w'\<rparr> s2, RT_EOK)
   }"

text \<open>The loop that detaching and deleting share.\<close>

partial_function (option) mp_resume_all :: "nat \<Rightarrow> 'a kernel_scheme \<Rightarrow> 'a kernel_scheme option" where
  "mp_resume_all n s =
     (case tl s (mp_list n) of
        [] \<Rightarrow> Some s
      | thread # _ \<Rightarrow> do {
          let s1 = upd_thr thread (\<lambda>th. th\<lparr>error := - RT_ERROR\<rparr>) s;
          (s2, _) \<leftarrow> rt_thread_resume thread s1;
          let mp = mempools s2 n;
          mp_resume_all n (set_mp n (mp\<lparr>suspend_thread_count := suspend_thread_count mp - 1\<rparr>) s2)
        })"

definition rt_mp_detach :: "nat \<Rightarrow> 'a kernel_scheme \<Rightarrow> ('a kernel_scheme \<times> rt_err) option" where
  "rt_mp_detach n s = do {
     rt_assert (rt_object_get_type (MemPoolObj n) s = RT_Object_Class_MemPool);
     rt_assert (rt_object_is_systemobject (MemPoolObj n) s);
     s1 \<leftarrow> mp_resume_all n s;
     Some (rt_object_detach (MemPoolObj n) s1, RT_EOK)
   }"

text \<open>
  \<open>mem\<close> is the memory for the object, \<open>pool\<close> what \<^verbatim>\<open>rt_malloc\<close> returns for the given number of
  bytes. The product that gives this number is one of 32 bit words.
\<close>

definition rt_mp_create ::
  "u8 list \<Rightarrow> u32 \<Rightarrow> u32 \<Rightarrow> nat option \<Rightarrow> (u32 \<Rightarrow> (nat \<Rightarrow> mp_word) option) \<Rightarrow> 'a kernel_scheme \<Rightarrow>
   ('a kernel_scheme \<times> nat option) option" where
  "rt_mp_create nm count bsz mem pool s = do {
     rt_debug_not_in_interrupt s;
     (s1, r) \<leftarrow> rt_object_allocate RT_Object_Class_MemPool nm (map_option MemPoolObj mem) s;
     (case r of
        Some (MemPoolObj n) \<Rightarrow> do {
          let bsz' = RT_ALIGN bsz RT_ALIGN_SIZE;
          let bytes = (bsz' + 4) * count;
          let s2 = set_mp n ((mempools s1 n)\<lparr>block_size := bsz', mp_size := bytes\<rparr>) s1;
          (case pool bytes of
             None \<Rightarrow> do { s3 \<leftarrow> rt_object_delete (MemPoolObj n) s2; Some (s3, None) }
           | Some w \<Rightarrow> do {
               let s3 = rt_ipc_object_init (mp_list n) (s2\<lparr>heap := insert (BufBlk (MemPoolObj n)) (heap s2)\<rparr>);
               w' \<leftarrow> mp_link_blocks count (unat bytes div unat (bsz' + 4)) w;
               Some (set_mp n \<lparr>mp_size = bytes, block_size = bsz', block_list = Some 0, block_total_count = count,
                       block_free_count = count, suspend_thread_count = 0, mp_words = w'\<rparr> s3, Some n)
             })
        }
      | _ \<Rightarrow> Some (s1, None))
   }"

definition rt_mp_delete :: "nat \<Rightarrow> 'a kernel_scheme \<Rightarrow> ('a kernel_scheme \<times> rt_err) option" where
  "rt_mp_delete n s = do {
     rt_debug_not_in_interrupt s;
     rt_assert (rt_object_get_type (MemPoolObj n) s = RT_Object_Class_MemPool);
     rt_assert (\<not> rt_object_is_systemobject (MemPoolObj n) s);
     s1 \<leftarrow> mp_resume_all n s;
     s2 \<leftarrow> kernel_free (BufBlk (MemPoolObj n)) s1;
     s3 \<leftarrow> rt_object_delete (MemPoolObj n) s2;
     Some (s3, RT_EOK)
   }"

text \<open>Suspending the caller in front of the other waiting threads.\<close>

definition mp_block :: "nat \<Rightarrow> tid \<Rightarrow> u32 \<Rightarrow> 'a kernel_scheme \<Rightarrow> 'a kernel_scheme option" where
  "mp_block n thread time s = do {
     (s1, _) \<leftarrow> rt_thread_suspend thread s;
     rt_assert (thread \<notin> set (tl s1 (mp_list n)));
     let s2 = s1\<lparr>tl := ls_insert_after (mp_list n) thread (tl s1)\<rparr>;
     let mp = mempools s2 n;
     let s3 = set_mp n (mp\<lparr>suspend_thread_count := suspend_thread_count mp + 1\<rparr>) s2;
     start_wait thread time s3
   }"

definition mp_pop :: "nat \<Rightarrow> rt_mempool \<Rightarrow> (nat \<times> rt_mempool) option" where
  "mp_pop n mp = do {
     let mp1 = mp\<lparr>block_free_count := block_free_count mp - 1\<rparr>;
     block_ptr \<leftarrow> block_list mp1;
     (case mp_words mp1 block_ptr of
        PoolPtr _ \<Rightarrow> None
      | NextFree nx \<Rightarrow>
          Some (block_ptr, mp1\<lparr>block_list := nx, mp_words := (mp_words mp1)(block_ptr := PoolPtr n)\<rparr>))
   }"

partial_function (option) mp_alloc_loop ::
  "nat \<Rightarrow> u32 \<Rightarrow> tid option \<Rightarrow> 'a kernel_scheme \<Rightarrow> ('a kernel_scheme \<times> nat option call) option" where
  "mp_alloc_loop n time self s =
     (if block_free_count (mempools s n) = 0 then
        if time = 0 then Some (rt_set_errno (- RT_ETIMEOUT) s, Returns None)
        else do {
          rt_debug_not_in_interrupt s;
          thread \<leftarrow> self;
          let s1 = upd_thr thread (\<lambda>th. th\<lparr>error := RT_EOK\<rparr>) s;
          s2 \<leftarrow> mp_block n thread time s1;
          if cur s2 \<noteq> Some thread then Some (s2, Blocks)
          else if error (thr s2 thread) \<noteq> RT_EOK then Some (s2, Returns None)
          else mp_alloc_loop n (remaining time (rt_tick_get s1) (rt_tick_get s2)) self s2
        }
      else do {
        (block_ptr, mp) \<leftarrow> mp_pop n (mempools s n);
        Some (set_mp n mp s, Returns (Some block_ptr))
      })"

definition rt_mp_alloc :: "nat \<Rightarrow> u32 \<Rightarrow> 'a kernel_scheme \<Rightarrow> ('a kernel_scheme \<times> nat option call) option" where
  "rt_mp_alloc n time s = mp_alloc_loop n time (rt_thread_self s) s"

text \<open>The rest of a call that waited, \<open>t0\<close> the tick at which it was suspended.\<close>

definition rt_mp_alloc_end ::
  "nat \<Rightarrow> u32 \<Rightarrow> u32 \<Rightarrow> tid \<Rightarrow> 'a kernel_scheme \<Rightarrow> ('a kernel_scheme \<times> nat option call) option" where
  "rt_mp_alloc_end n time t0 thread s =
     (if error (thr s thread) \<noteq> RT_EOK then Some (s, Returns None)
      else mp_alloc_loop n (remaining time t0 (rt_tick_get s)) (Some thread) s)"

definition mp_push :: "nat \<Rightarrow> rt_mempool \<Rightarrow> rt_mempool" where
  "mp_push block_ptr mp =
     (let mp1 = mp\<lparr>block_free_count := block_free_count mp + 1\<rparr>
      in mp1\<lparr>mp_words := (mp_words mp1)(block_ptr := NextFree (block_list mp1)), block_list := Some block_ptr\<rparr>)"

text \<open>
  Freeing block \<open>i\<close> of the memory of pool \<open>n\<close>: the word in front of it must point to this pool. If
  the count of waiting threads is positive and the list is empty, its head is read as a thread.
\<close>

definition rt_mp_free :: "nat \<Rightarrow> nat \<Rightarrow> 'a kernel_scheme \<Rightarrow> 'a kernel_scheme option" where
  "rt_mp_free n i s = do {
     rt_assert (mp_words (mempools s n) i = PoolPtr n);
     let s1 = set_mp n (mp_push i (mempools s n)) s;
     if suspend_thread_count (mempools s1 n) > 0 then
       (case tl s1 (mp_list n) of
          [] \<Rightarrow> None
        | thread # _ \<Rightarrow> do {
            let s2 = upd_thr thread (\<lambda>th. th\<lparr>error := RT_EOK\<rparr>) s1;
            (s3, _) \<leftarrow> rt_thread_resume thread s2;
            let mp = mempools s3 n;
            rt_schedule (set_mp n (mp\<lparr>suspend_thread_count := suspend_thread_count mp - 1\<rparr>) s3)
          })
     else Some s1
   }"

section \<open>Where the blocks are\<close>

definition mp_next :: "rt_mempool \<Rightarrow> nat \<Rightarrow> nat option" where
  "mp_next mp i = (case mp_words mp i of NextFree p \<Rightarrow> p | PoolPtr _ \<Rightarrow> None)"

definition mp_allocated :: "nat \<Rightarrow> rt_mempool \<Rightarrow> nat set" where
  "mp_allocated n mp = {i. i < unat (block_total_count mp) \<and> mp_words mp i = PoolPtr n}"

text \<open>The blocks \<open>fs\<close> are free, in this order, and all others are allocated.\<close>

definition mp_rep :: "nat \<Rightarrow> rt_mempool \<Rightarrow> nat list \<Rightarrow> bool" where
  "mp_rep n mp fs \<longleftrightarrow> chain (mp_next mp) (block_list mp) fs \<and> distinct fs \<and>
     unat (block_free_count mp) = length fs \<and>
     (\<forall>i \<in> set fs. i < unat (block_total_count mp) \<and> (\<exists>p. mp_words mp i = NextFree p)) \<and>
     (\<forall>i < unat (block_total_count mp). i \<notin> set fs \<longrightarrow> mp_words mp i = PoolPtr n)"

lemma mp_rep_allocated: "mp_rep n mp fs \<Longrightarrow> mp_allocated n mp = {..<unat (block_total_count mp)} - set fs"
  by (force simp: mp_rep_def mp_allocated_def)

lemma mp_rep_count: "mp_rep n mp fs \<Longrightarrow> card (mp_allocated n mp) + unat (block_free_count mp) = unat (block_total_count mp)"
proof -
  assume r: "mp_rep n mp fs"
  have "set fs \<subseteq> {..<unat (block_total_count mp)}" "card (set fs) = length fs"
    using r by (auto simp: mp_rep_def distinct_card)
  then show ?thesis
    using r mp_rep_allocated[OF r] card_mono[of "{..<unat (block_total_count mp)}" "set fs"]
    by (simp add: card_Diff_subset mp_rep_def)
qed

lemma mp_pop_rep:
  assumes rep: "mp_rep n mp fs" and f: "block_free_count mp \<noteq> 0"
  obtains i fs' mp' where "fs = i # fs'" "mp_pop n mp = Some (i, mp')" "mp_rep n mp' fs'" "i < unat (block_total_count mp)"
    "i \<notin> mp_allocated n mp" "mp_allocated n mp' = insert i (mp_allocated n mp)"
    "block_total_count mp' = block_total_count mp" "suspend_thread_count mp' = suspend_thread_count mp"
    "block_free_count mp' = block_free_count mp - 1"
proof -
  have "fs \<noteq> []" using rep f by (auto simp: mp_rep_def unat_eq_0)
  then obtain i fs' where fs: "fs = i # fs'" by (cases fs) auto
  obtain p where p: "mp_words mp i = NextFree p" using rep fs by (auto simp: mp_rep_def)
  let ?mp = "mp\<lparr>block_free_count := block_free_count mp - 1, block_list := p, mp_words := (mp_words mp)(i := PoolPtr n)\<rparr>"
  have b: "block_list mp = Some i" "chain (mp_next mp) p fs'" "i \<notin> set fs'" "i < unat (block_total_count mp)"
    using rep fs p by (auto simp: mp_rep_def mp_next_def)
  have "mp_next ?mp = (mp_next mp)(i := None)" by (auto simp: mp_next_def)
  then have "chain (mp_next ?mp) p fs'" using b by simp
  moreover have "unat (block_free_count mp - 1) = length fs'" using rep fs f by (simp add: mp_rep_def unat_minus_one)
  ultimately have rep': "mp_rep n ?mp fs'" using rep fs by (auto simp: mp_rep_def)
  have "mp_allocated n ?mp = insert i (mp_allocated n mp)" "i \<notin> mp_allocated n mp" using p b(4) by (auto simp: mp_allocated_def)
  moreover have "mp_pop n mp = Some (i, ?mp)" using b(1) p by (simp add: mp_pop_def Let_def)
  ultimately show thesis using fs rep' b(4) by (intro that[of i fs' ?mp]) simp_all
qed

lemma mp_push_rep:
  assumes rep: "mp_rep n mp fs" and i: "i \<in> mp_allocated n mp"
  shows "mp_rep n (mp_push i mp) (i # fs)" "mp_allocated n (mp_push i mp) = mp_allocated n mp - {i}"
    "block_free_count (mp_push i mp) = block_free_count mp + 1"
proof -
  have ni: "i \<notin> set fs" "i < unat (block_total_count mp)" using i mp_rep_allocated[OF rep] by auto
  have "mp_next (mp_push i mp) = (mp_next mp)(i := block_list mp)" by (auto simp: mp_next_def mp_push_def Let_def)
  then have c: "chain (mp_next (mp_push i mp)) (block_list (mp_push i mp)) (i # fs)"
    using rep ni by (simp add: mp_rep_def mp_push_def Let_def)
  have "0 < card (mp_allocated n mp)" using i by (auto simp: card_gt_0_iff mp_allocated_def)
  moreover have "unat (block_total_count mp) < 2 ^ 32" using unsigned_less[of "block_total_count mp", where ?'a = nat] by simp
  ultimately have "unat (block_free_count mp) + 1 < 2 ^ 32" using mp_rep_count[OF rep] by linarith
  then have "unat (block_free_count mp + 1) = Suc (length fs)" using rep by (simp add: mp_rep_def unat_word_ariths)
  then show "mp_rep n (mp_push i mp) (i # fs)" using rep c ni by (auto simp: mp_rep_def mp_push_def Let_def)
  show "mp_allocated n (mp_push i mp) = mp_allocated n mp - {i}" by (auto simp: mp_allocated_def mp_push_def Let_def)
  show "block_free_count (mp_push i mp) = block_free_count mp + 1" by (simp add: mp_push_def Let_def)
qed

section \<open>Allocating and freeing\<close>

lemma set_mp_sel [simp]:
  "mempools (set_mp n mp s) = (mempools s)(n := mp)" "thr (set_mp n mp s) = thr s"
  "tl (set_mp n mp s) = tl s" "cur (set_mp n mp s) = cur s" "objs (set_mp n mp s) = objs s"
  "lock_nest (set_mp n mp s) = lock_nest s" "irq_nest (set_mp n mp s) = irq_nest s"
  "kinv X b (set_mp n mp s) = kinv X b s" "tstat (set_mp n mp s) t = tstat s t"
  "rt_object_get_type x (set_mp n mp s) = rt_object_get_type x s" "tick (set_mp n mp s) = tick s"
  "timer_list (set_mp n mp s) = timer_list s"
  by (simp_all add: set_mp_def)

text \<open>The count of waiting threads agrees with the list, which fits in the machine.\<close>

definition mp_ok :: "nat \<Rightarrow> 'a kernel_scheme \<Rightarrow> bool" where
  "mp_ok n s \<longleftrightarrow> rt_object_get_type (MemPoolObj n) s = RT_Object_Class_MemPool \<and> (\<exists>fs. mp_rep n (mempools s n) fs) \<and>
     unat (suspend_thread_count (mempools s n)) = length (tl s (mp_list n))"

lemma mp_next_suspend [simp]: "mp_next (mp\<lparr>suspend_thread_count := c\<rparr>) = mp_next mp"
  by (simp add: mp_next_def fun_eq_iff)

lemma mp_rep_suspend [simp]: "mp_rep n (mp\<lparr>suspend_thread_count := c\<rparr>) fs = mp_rep n mp fs"
  by (simp add: mp_rep_def)

lemma mp_allocated_suspend [simp]: "mp_allocated n (mp\<lparr>suspend_thread_count := c\<rparr>) = mp_allocated n mp"
  by (simp add: mp_allocated_def)

lemma mp_block_ok:
  fixes s :: "'a kernel_scheme"
  assumes inv: "kinv {} b s" and t: "cur s = Some t" "tstat s t = RT_THREAD_READY" and tm: "time_ok time"
  obtains s' where "mp_block n t time (upd_thr t (\<lambda>th. th\<lparr>error := RT_EOK\<rparr>) s) = Some s'" "kinv {} b s'"
    "\<And>k. (\<nexists>p. k = Ready p) \<Longrightarrow> tl s' k = (if k = mp_list n then t # tl s (mp_list n) else tl s k)"
    "mempools s' = (mempools s)(n := (mempools s n)\<lparr>suspend_thread_count := suspend_thread_count (mempools s n) + 1\<rparr>)"
    "\<And>p. objs s' (MemPoolObj p) = objs s (MemPoolObj p)" "tick s' = tick s" "tstat s' t = RT_THREAD_SUSPEND"
    "error (thr s' t) = RT_EOK" "irq_nest s' = irq_nest s" "cur s' \<noteq> None"
    "0 < sint time \<Longrightarrow> ThreadTimer t \<in> set (timer_list s') \<and> due (tick s') s' (ThreadTimer t) = unat time"
    "\<And>u. lock_nest s = 0 \<Longrightarrow> u \<noteq> t \<Longrightarrow> tstat s u = RT_THREAD_READY \<Longrightarrow> cur s' \<noteq> Some t"
proof -
  let ?h = "mp_list n" and ?s0 = "upd_thr t (\<lambda>th. th\<lparr>error := RT_EOK\<rparr>) s"
  let ?mp = "(mempools s n)\<lparr>suspend_thread_count := suspend_thread_count (mempools s n) + 1\<rparr>"
  let ?s2 = "(suspend_state t ?s0)\<lparr>tl := (tl s)(?h := t # tl s ?h)\<rparr>" and ?ts = "t # tl s ?h"
  have k0: "kinv {} b ?s0" "cur ?s0 = Some t" "tstat ?s0 t = RT_THREAD_READY" using clear_error_kinv[OF inv] t by simp_all
  have un: "unlinked t (tl s)" using running_unlinked[OF kinvD(1)[OF inv] t] .
  have "distinct (tl s ?h)" using sched_invD(1)[OF kinvD(1)[OF inv]] by (simp add: lists_ok_def)
  then have k2: "kinv {} b ?s2" using parked_kinv[OF k0, of ?h ?ts] un by (simp add: unlinked_def)
  have m2: "mempools ?s2 = mempools s" using kernel_more_eq(6)[of ?s2 s] by simp
  let ?s3 = "set_mp n ?mp ?s2"
  have tl1: "tl (suspend_state t ?s0) = tl s" using un by simp
  have blk: "mp_block n t time ?s0 = start_wait t time ?s3"
    using rt_thread_suspend_ok(1)[OF k0] un m2 kernel_more_eq(6)[of "suspend_state t ?s0" s]
    by (simp add: mp_block_def tl1 unlinked_def ls_insert_after_def Let_def del: suspend_state_sel(2))
  have k3: "kinv {} b ?s3" "cur ?s3 = Some t" "tstat ?s3 t = RT_THREAD_SUSPEND"
    using k2 t by (simp_all add: tstat_def)
  obtain s' where s': "start_wait t time ?s3 = Some s'" "kinv {} b s'" "thr s' = thr ?s3" "\<And>u. tstat s' u = tstat ?s3 u"
    "\<And>k. (\<nexists>p. k = Ready p) \<Longrightarrow> tl s' k = tl ?s3 k"
    "\<And>p. objs s' (MemPoolObj p) = objs ?s3 (MemPoolObj p)" "ktimer.more s' = ktimer.more ?s3" "tick s' = tick ?s3"
    "irq_nest s' = irq_nest ?s3" "cur s' \<noteq> None"
    "0 < sint time \<Longrightarrow> ThreadTimer t \<in> set (timer_list s') \<and> due (tick s') s' (ThreadTimer t) = unat time"
    "\<And>u. lock_nest ?s3 = 0 \<Longrightarrow> tstat ?s3 u = RT_THREAD_READY \<Longrightarrow> cur s' \<noteq> Some t"
    by (rule start_wait_ok[OF k3 tm]) blast
  have "mempools s' = (mempools s)(n := ?mp)" using kernel_more_eq(6)[OF s'(7)] m2 by simp
  moreover have "cur s' \<noteq> Some t" if "lock_nest s = 0" "u \<noteq> t" "tstat s u = RT_THREAD_READY" for u
    using s'(12)[of u] that by (simp add: tstat_def)
  moreover have "error (thr s' t) = RT_EOK" "tstat s' t = RT_THREAD_SUSPEND" using s'(3,4) k3(3) by (simp_all add: set_stat_def)
  moreover have "objs s' (MemPoolObj p) = objs s (MemPoolObj p)" for p using s'(6)[of p] by simp
  ultimately show thesis using blk s' by (intro that[of s']) simp_all
qed



lemma mp_free_wake:
  fixes s :: "'a kernel_scheme"
  assumes inv: "kinv {} b s" and ok: "mp_ok n s" and c: "cur s = Some c" and i: "i \<in> mp_allocated n (mempools s n)"
    and l: "tl s (mp_list n) = w # ws"
  obtains s' where "rt_mp_free n i s = Some s'" "kinv {} b s'" "mp_ok n s'" "tl s' (mp_list n) = ws"
    "tstat s' w = RT_THREAD_READY" "error (thr s' w) = RT_EOK" "cur s' \<noteq> None"
    "mempools s' n = (mp_push i (mempools s n))\<lparr>suspend_thread_count := suspend_thread_count (mempools s n) - 1\<rparr>"
proof -
  let ?mp = "mempools s n" and ?h = "mp_list n"
  let ?s1 = "set_mp n (mp_push i ?mp) s"
  let ?s2 = "upd_thr w (\<lambda>th. th\<lparr>error := RT_EOK\<rparr>) ?s1"
  let ?s3 = "resume_state w ?s2"
  let ?mp' = "(mp_push i ?mp)\<lparr>suspend_thread_count := suspend_thread_count ?mp - 1\<rparr>"
  let ?s4 = "set_mp n ?mp' ?s3"
  obtain fs where rep: "mp_rep n ?mp fs" using ok by (auto simp: mp_ok_def)
  have cnt: "suspend_thread_count (mp_push i ?mp) = suspend_thread_count ?mp" by (simp add: mp_push_def Let_def)
  have u: "unat (suspend_thread_count ?mp) = Suc (length ws)" using ok l by (simp add: mp_ok_def)
  then have pos: "suspend_thread_count ?mp \<noteq> 0" by auto
  have k2: "kinv {} b ?s2" "tl ?s2 ?h = w # ws" using clear_error_kinv[of _ _ ?s1] inv l by simp_all
  note res = rt_ipc_list_resume_ok[OF k2(1) _ k2(2)]
  have w: "tstat ?s2 w = RT_THREAD_SUSPEND" using waiting_member[OF k2(1), of ?h w] k2(2) by simp
  have m3: "mempools ?s3 = mempools ?s1" using kernel_more_eq(6)[of ?s3 ?s1] by simp
  have k4: "kinv {} b ?s4" "cur ?s4 = Some c" using res(2) c by simp_all
  obtain s' where s': "rt_schedule ?s4 = Some s'" "kinv {} b s'" "thr s' = thr ?s4" "cur s' \<noteq> None"
    "objs s' = objs ?s4" "kbase.more s' = kbase.more ?s4" "\<And>h. (\<nexists>p. h = Ready p) \<Longrightarrow> tl s' h = tl ?s4 h"
    by (rule rt_schedule_kinv[OF k4]) blast
  have m': "mempools s' = mempools ?s4" using kernel_more_eq(6)[of s' ?s4] ktimer_more_eq[OF s'(6)] by simp
  have fr: "rt_mp_free n i s = Some s'"
    using i pos s'(1) l m3 rt_thread_resume_ok(1)[OF k2(1) w] cnt
    by (simp add: rt_mp_free_def mp_allocated_def word_gt_0)
  have l': "tl s' ?h = ws" using s'(7)[of ?h] res(3)[of ?h] by simp
  have "unat (suspend_thread_count ?mp - 1) = length ws" using u pos by (simp add: unat_minus_one)
  moreover have "objs s' (MemPoolObj n) = objs s (MemPoolObj n)" using s'(5) by simp
  ultimately have "mp_ok n s'"
    using ok l' m' mp_push_rep(1)[OF rep i] by (auto simp: mp_ok_def rt_object_get_type_def)
  moreover have "tstat s' w = tstat ?s3 w" using s'(3) by (simp add: tstat_def)
  then have "tstat s' w = RT_THREAD_READY" "error (thr s' w) = RT_EOK" using s'(3) by (simp_all add: set_stat_def)
  ultimately show thesis using fr s'(2,4) l' m' by (intro that) auto
qed

text \<open>
  C27. \<^verbatim>\<open>rt_mp_free\<close> takes a block that is in use back. When no thread waits it is just free.
  Otherwise the first waiting thread becomes ready, without an error, and gets exactly this block
  once it runs, provided the pool had been exhausted. Freeing a block that is not in use is
  undefined.
\<close>

theorem rt_mp_free_hands_over:
  fixes s :: "'a kernel_scheme"
  assumes inv: "kinv {} b s" and ok: "mp_ok n s" and c: "cur s = Some c"
  defines "mp \<equiv> mempools s n"
  shows "(i \<in> mp_allocated n mp \<longrightarrow>
            (\<exists>s'. rt_mp_free n i s = Some s' \<and> kinv {} b s' \<and> mp_ok n s' \<and>
               mp_allocated n (mempools s' n) = mp_allocated n mp - {i} \<and>
               (\<forall>w ws. tl s (mp_list n) = w # ws \<longrightarrow> tl s' (mp_list n) = ws \<and> tstat s' w = RT_THREAD_READY \<and>
                  (block_free_count mp = 0 \<longrightarrow>
                     (\<exists>s''. rt_mp_alloc_end n time t0 w s' = Some (s'', Returns (Some i)) \<and> kinv {} b s'' \<and> mp_ok n s'' \<and>
                        mp_allocated n (mempools s'' n) = mp_allocated n mp))))) \<and>
         (i < unat (block_total_count mp) \<and> i \<notin> mp_allocated n mp \<longrightarrow> rt_mp_free n i s = None)"
proof (intro conjI impI)
  obtain fs where rep: "mp_rep n mp fs" using ok by (auto simp: mp_ok_def mp_def)
  show "i < unat (block_total_count mp) \<and> i \<notin> mp_allocated n mp \<Longrightarrow> rt_mp_free n i s = None"
    by (auto simp: rt_mp_free_def mp_allocated_def mp_def rt_assert_def)
  assume i: "i \<in> mp_allocated n mp"
  note push = mp_push_rep[OF rep i]
  show "\<exists>s'. rt_mp_free n i s = Some s' \<and> kinv {} b s' \<and> mp_ok n s' \<and>
      mp_allocated n (mempools s' n) = mp_allocated n mp - {i} \<and>
      (\<forall>w ws. tl s (mp_list n) = w # ws \<longrightarrow> tl s' (mp_list n) = ws \<and> tstat s' w = RT_THREAD_READY \<and>
         (block_free_count mp = 0 \<longrightarrow>
            (\<exists>s''. rt_mp_alloc_end n time t0 w s' = Some (s'', Returns (Some i)) \<and> kinv {} b s'' \<and> mp_ok n s'' \<and>
               mp_allocated n (mempools s'' n) = mp_allocated n mp)))"
  proof (cases "tl s (mp_list n)")
    case Nil
    then have z: "suspend_thread_count mp = 0" using ok by (simp add: mp_ok_def mp_def unat_eq_0)
    let ?s1 = "set_mp n (mp_push i mp) s"
    have z': "suspend_thread_count (mp_push i mp) = 0" using z by (simp add: mp_push_def Let_def)
    have "rt_mp_free n i s = Some ?s1" using i z' by (simp add: rt_mp_free_def mp_def mp_allocated_def)
    moreover have "mp_ok n ?s1" using ok push(1) z z' Nil by (auto simp: mp_ok_def mp_def)
    ultimately show ?thesis using inv push(2) Nil by (intro exI[of _ ?s1]) simp
  next
    case (Cons w ws)
    obtain s' where s': "rt_mp_free n i s = Some s'" "kinv {} b s'" "mp_ok n s'" "tl s' (mp_list n) = ws"
      "tstat s' w = RT_THREAD_READY" "error (thr s' w) = RT_EOK"
      "mempools s' n = (mp_push i mp)\<lparr>suspend_thread_count := suspend_thread_count mp - 1\<rparr>"
      using mp_free_wake[OF inv ok c i[unfolded mp_def] Cons] unfolding mp_def by blast
    have rep': "mp_rep n (mempools s' n) (i # fs)" using push(1) s'(7) by simp
    have nz: "block_free_count (mempools s' n) \<noteq> 0" using rep' by (auto simp: mp_rep_def)
    obtain j fs' mp' where p: "i # fs = j # fs'" "mp_pop n (mempools s' n) = Some (j, mp')" "mp_rep n mp' fs'"
      "mp_allocated n mp' = insert j (mp_allocated n (mempools s' n))"
      "suspend_thread_count mp' = suspend_thread_count (mempools s' n)"
      by (rule mp_pop_rep[OF rep' nz]) auto
    let ?s'' = "set_mp n mp' s'"
    have al: "rt_mp_alloc_end n time t0 w s' = Some (?s'', Returns (Some i))"
      using s'(6) p(1,2) nz mp_alloc_loop.simps[of n _ "Some w" s'] by (simp add: rt_mp_alloc_end_def)
    have a': "mp_allocated n (mempools s' n) = mp_allocated n mp - {i}" using s'(7) push(2) by simp
    have "mp_ok n ?s''" using s'(3) p(3,5) by (auto simp: mp_ok_def)
    moreover have "mp_allocated n (mempools ?s'' n) = mp_allocated n mp" using p(1,4) a' i by auto
    ultimately show ?thesis using s' al a' Cons by (intro exI[of _ s']) auto
  qed
qed

text \<open>A pool of two blocks in use, for which thread 3 waits.\<close>

definition demo_mp :: kernel where
  "demo_mp = set_mp 0 \<lparr>mp_size = 16, block_size = 4, block_list = None, block_total_count = 2, block_free_count = 0,
     suspend_thread_count = 1, mp_words = (\<lambda>_. PoolPtr 0)\<rparr> (demo_wait (mp_list 0))"

lemma demo_mp_sel [simp]:
  "mempools demo_mp 0 = \<lparr>mp_size = 16, block_size = 4, block_list = None, block_total_count = 2,
     block_free_count = 0, suspend_thread_count = 1, mp_words = (\<lambda>_. PoolPtr 0)\<rparr>"
  "cur demo_mp = Some 1" "tl demo_mp (mp_list 0) = [3]" "tstat demo_mp 3 = RT_THREAD_SUSPEND"
  "rt_object_get_type (ThreadObj t) demo_mp = RT_Object_Class_Thread"
  by (simp_all add: demo_mp_def)

lemma demo_mp_ok: "kinv {} 100 demo_mp" "mp_ok 0 demo_mp" "mp_allocated 0 (mempools demo_mp 0) = {0, 1}"
proof -
  have two: "i < 2 \<longleftrightarrow> i = 0 \<or> i = 1" for i :: nat by auto
  show "kinv {} 100 demo_mp" using demo_wait_inv[of "mp_list 0"] by (simp add: demo_mp_def)
  have "mp_rep 0 (mempools demo_mp 0) []" by (simp add: mp_rep_def)
  then show "mp_ok 0 demo_mp" by (auto simp: mp_ok_def demo_mp_def)
  show "mp_allocated 0 (mempools demo_mp 0) = {0, 1}" by (auto simp: mp_allocated_def two)
qed

theorem rt_mp_free_hands_over_witness:
  "\<exists>s' s''. rt_mp_free 0 1 demo_mp = Some s' \<and> tstat s' 3 = RT_THREAD_READY \<and>
     rt_mp_alloc_end 0 50 0 3 s' = Some (s'', Returns (Some 1))"
  using rt_mp_free_hands_over[OF demo_mp_ok(1,2), of 1 1 50 0] demo_mp_ok(3) by auto

text \<open>
  C29. The count of waiting threads is not lowered when a waiting time runs out. When the only
  waiting thread has timed out the count stays at one although nobody waits, and the next
  \<^verbatim>\<open>rt_mp_free\<close> of any block reads the head of the empty list as if it were a thread.
\<close>

theorem rt_mp_timeout_breaks_free:
  fixes s :: "'a kernel_scheme"
  assumes inv: "kinv {} b s" and ok: "mp_ok n s" and c: "cur s = Some c" and w: "tl s (mp_list n) = [t]"
  shows "\<exists>s'. rt_thread_timeout t s = Some s' \<and> tl s' (mp_list n) = [] \<and>
           suspend_thread_count (mempools s' n) = 1 \<and> \<not> mp_ok n s' \<and> (\<forall>i. rt_mp_free n i s' = None)"
proof -
  have t: "tstat s t = RT_THREAD_SUSPEND" using waiting_member[OF inv, of "mp_list n" t] w by simp
  then have "thread_obj_ok s t" using kinvD(5)[OF inv, of t] by (simp add: live_def)
  then have "rt_object_get_type (ThreadObj t) s = RT_Object_Class_Thread" by (simp add: thread_obj_ok_def)
  note eq = rt_thread_timeout_eq[OF t this]
  have inv1: "sched_inv {} (timeout_state t s)" using sched_inv_timeout_state[OF kinvD(1)[OF inv] t] .
  obtain s' where s': "rt_schedule (timeout_state t s) = Some s'" "kbase.more s' = kbase.more (timeout_state t s)"
    "\<And>h. (\<nexists>p. h = Ready p) \<Longrightarrow> tl s' h = tl (timeout_state t s) h"
    using rt_schedule_total[OF inv1] c timeout_state_sel(2)[of t s] by metis
  have e: "tl s' (mp_list n) = []" using s'(3)[of "mp_list n"] w by (simp add: timeout_state_def ls_insert_before_def)
  have "kbase.more s' = kbase.more s" using s'(2) by simp
  then have m: "mempools s' = mempools s" using kernel_more_eq(6)[of s' s] ktimer_more_eq(5)[of s' s] by simp
  have "unat (suspend_thread_count (mempools s n)) = 1" using ok w by (simp add: mp_ok_def)
  then have cnt: "suspend_thread_count (mempools s' n) = 1" using m by (metis unat_1 word_unat_eq_iff)
  have "rt_mp_free n i s' = None" for i
  proof -
    have "suspend_thread_count (mp_push i (mempools s' n)) = 1" using cnt by (simp add: mp_push_def Let_def)
    then show ?thesis using e by (simp add: rt_mp_free_def rt_assert_def Let_def)
  qed
  then show ?thesis using eq s'(1) e cnt by (simp add: mp_ok_def)
qed

theorem rt_mp_timeout_breaks_free_witness:
  "\<exists>s'. rt_thread_timeout 3 demo_mp = Some s' \<and> rt_mp_free 0 1 s' = None"
  using rt_mp_timeout_breaks_free[OF demo_mp_ok(1,2), of 1 3] by auto

end
