(* ===== verification/RingBuffer.thy ===== *)
theory RingBuffer
  imports KState Fifo
begin

unbundle bit_operations_syntax

text \<open>
  The byte ring buffer of \<^verbatim>\<open>components/drivers/src/ringbuffer.c\<close>. The indices are fields of 15
  bits with a mirror bit each, so that an empty and a full buffer differ. The results are the
  numbers of bytes moved; \<open>None\<close> is an access outside the buffer or the memory of the caller, or
  a failed assertion.
\<close>

section \<open>Definitions\<close>

record rt_ringbuffer =
  buffer_ptr :: "u8 list"
  read_mirror :: bool
  read_index :: "15 word"
  write_mirror :: bool
  write_index :: "15 word"
  buffer_size :: u16

datatype rt_ringbuffer_state = RT_RINGBUFFER_EMPTY | RT_RINGBUFFER_FULL | RT_RINGBUFFER_HALFFULL

definition rt_ringbuffer_status :: "rt_ringbuffer \<Rightarrow> rt_ringbuffer_state" where
  "rt_ringbuffer_status rb =
     (if read_index rb = write_index rb
      then if read_mirror rb = write_mirror rb then RT_RINGBUFFER_EMPTY else RT_RINGBUFFER_FULL
      else RT_RINGBUFFER_HALFFULL)"

definition rt_ringbuffer_init :: "u8 list \<Rightarrow> u16 \<Rightarrow> rt_ringbuffer option" where
  "rt_ringbuffer_init pool sz = do {
     rt_assert (sint sz > 0);
     Some \<lparr>buffer_ptr = pool, read_mirror = False, read_index = 0, write_mirror = False, write_index = 0,
       buffer_size = sz\<rparr>
   }"

definition rt_ringbuffer_data_len :: "rt_ringbuffer \<Rightarrow> u32" where
  "rt_ringbuffer_data_len rb =
     (case rt_ringbuffer_status rb of
        RT_RINGBUFFER_EMPTY \<Rightarrow> 0
      | RT_RINGBUFFER_FULL \<Rightarrow> of_int (sint (buffer_size rb))
      | RT_RINGBUFFER_HALFFULL \<Rightarrow>
          if write_index rb > read_index rb then of_int (uint (write_index rb) - uint (read_index rb))
          else of_int (sint (buffer_size rb) - (uint (read_index rb) - uint (write_index rb))))"

definition rt_ringbuffer_space_len :: "rt_ringbuffer \<Rightarrow> u32" where
  "rt_ringbuffer_space_len rb = of_int (sint (buffer_size rb)) - rt_ringbuffer_data_len rb"

text \<open>\<^verbatim>\<open>rt_memcpy(&buf[off], &src[soff], n)\<close>.\<close>

definition copy_bytes :: "nat \<Rightarrow> u8 list \<Rightarrow> nat \<Rightarrow> nat \<Rightarrow> u8 list \<Rightarrow> u8 list option" where
  "copy_bytes off src soff n buf =
     (if off + n \<le> length buf \<and> soff + n \<le> length src
      then Some (take off buf @ take n (drop soff src) @ drop (off + n) buf) else None)"

text \<open>The part that both ways of putting a block share: copying \<open>len\<close> bytes and moving the index.\<close>

definition rb_copy_in :: "rt_ringbuffer \<Rightarrow> u8 list \<Rightarrow> u16 \<Rightarrow> rt_ringbuffer option" where
  "rb_copy_in rb ptr len =
     (let room = sint (buffer_size rb) - uint (write_index rb) in
      if room > uint len then do {
        buf \<leftarrow> copy_bytes (unat (write_index rb)) ptr 0 (unat len) (buffer_ptr rb);
        Some (rb\<lparr>buffer_ptr := buf, write_index := write_index rb + ucast len\<rparr>)
      }
      else do {
        buf1 \<leftarrow> copy_bytes (unat (write_index rb)) ptr 0 (nat room) (buffer_ptr rb);
        buf2 \<leftarrow> copy_bytes 0 ptr (nat room) (nat (uint len - room)) buf1;
        Some (rb\<lparr>buffer_ptr := buf2, write_mirror := \<not> write_mirror rb, write_index := of_int (uint len - room)\<rparr>)
      })"

definition rt_ringbuffer_put :: "rt_ringbuffer \<Rightarrow> u8 list \<Rightarrow> u16 \<Rightarrow> (rt_ringbuffer \<times> u32) option" where
  "rt_ringbuffer_put rb ptr len =
     (let sz = (ucast (rt_ringbuffer_space_len rb) :: u16) in
      if sz = 0 then Some (rb, 0)
      else let len' = (if sz < len then sz else len)
           in do { rb' \<leftarrow> rb_copy_in rb ptr len'; Some (rb', ucast len') })"

definition rt_ringbuffer_put_force :: "rt_ringbuffer \<Rightarrow> u8 list \<Rightarrow> u16 \<Rightarrow> (rt_ringbuffer \<times> u32) option" where
  "rt_ringbuffer_put_force rb ptr len =
     (let space_length = (ucast (rt_ringbuffer_space_len rb) :: u16);
          len' = (if len > space_length then buffer_size rb else len);
          room = sint (buffer_size rb) - uint (write_index rb)
      in do {
        rb1 \<leftarrow> rb_copy_in rb ptr len';
        Some (if len' > space_length
              then if room > uint len' then rb1\<lparr>read_index := write_index rb1\<rparr>
                   else rb1\<lparr>read_mirror := \<not> read_mirror rb1, read_index := write_index rb1\<rparr>
              else rb1, ucast len')
      })"

text \<open>The bytes are copied into the memory of the caller; the result also holds them.\<close>

definition rt_ringbuffer_get :: "rt_ringbuffer \<Rightarrow> u16 \<Rightarrow> (rt_ringbuffer \<times> u32 \<times> u8 list) option" where
  "rt_ringbuffer_get rb len =
     (let sz = rt_ringbuffer_data_len rb in
      if sz = 0 then Some (rb, 0, [])
      else
        let len' = (if sz < ucast len then ucast sz else len);
            room = sint (buffer_size rb) - uint (read_index rb);
            r = unat (read_index rb)
        in if room > uint len'
           then do {
             rt_assert (r + unat len' \<le> length (buffer_ptr rb));
             Some (rb\<lparr>read_index := read_index rb + ucast len'\<rparr>, ucast len', take (unat len') (drop r (buffer_ptr rb)))
           }
           else do {
             rt_assert (r + nat room \<le> length (buffer_ptr rb) \<and> nat (uint len' - room) \<le> length (buffer_ptr rb));
             Some (rb\<lparr>read_mirror := \<not> read_mirror rb, read_index := of_int (uint len' - room)\<rparr>, ucast len',
               take (nat room) (drop r (buffer_ptr rb)) @ take (nat (uint len' - room)) (buffer_ptr rb))
           })"

definition rb_store :: "rt_ringbuffer \<Rightarrow> u8 \<Rightarrow> rt_ringbuffer option" where
  "rb_store rb ch =
     (if unat (write_index rb) < length (buffer_ptr rb)
      then Some (rb\<lparr>buffer_ptr := (buffer_ptr rb)[unat (write_index rb) := ch]\<rparr>) else None)"

definition rt_ringbuffer_putchar :: "rt_ringbuffer \<Rightarrow> u8 \<Rightarrow> (rt_ringbuffer \<times> u32) option" where
  "rt_ringbuffer_putchar rb ch =
     (if rt_ringbuffer_space_len rb = 0 then Some (rb, 0)
      else do {
        rb1 \<leftarrow> rb_store rb ch;
        Some (if uint (write_index rb1) = sint (buffer_size rb1) - 1
              then rb1\<lparr>write_mirror := \<not> write_mirror rb1, write_index := 0\<rparr>
              else rb1\<lparr>write_index := write_index rb1 + 1\<rparr>, 1)
      })"

definition rt_ringbuffer_putchar_force :: "rt_ringbuffer \<Rightarrow> u8 \<Rightarrow> (rt_ringbuffer \<times> u32) option" where
  "rt_ringbuffer_putchar_force rb ch = do {
     let old_state = rt_ringbuffer_status rb;
     rb1 \<leftarrow> rb_store rb ch;
     Some (if uint (write_index rb1) = sint (buffer_size rb1) - 1
           then let rb2 = rb1\<lparr>write_mirror := \<not> write_mirror rb1, write_index := 0\<rparr>
                in if old_state = RT_RINGBUFFER_FULL
                   then rb2\<lparr>read_mirror := \<not> read_mirror rb2, read_index := write_index rb2\<rparr> else rb2
           else let rb2 = rb1\<lparr>write_index := write_index rb1 + 1\<rparr>
                in if old_state = RT_RINGBUFFER_FULL then rb2\<lparr>read_index := write_index rb2\<rparr> else rb2, 1)
   }"

definition rt_ringbuffer_getchar :: "rt_ringbuffer \<Rightarrow> (rt_ringbuffer \<times> u32 \<times> u8 option) option" where
  "rt_ringbuffer_getchar rb =
     (if rt_ringbuffer_data_len rb = 0 then Some (rb, 0, None)
      else do {
        rt_assert (unat (read_index rb) < length (buffer_ptr rb));
        let ch = buffer_ptr rb ! unat (read_index rb);
        Some (if uint (read_index rb) = sint (buffer_size rb) - 1
              then rb\<lparr>read_mirror := \<not> read_mirror rb, read_index := 0\<rparr>
              else rb\<lparr>read_index := read_index rb + 1\<rparr>, 1, Some ch)
      })"

definition rt_ringbuffer_reset :: "rt_ringbuffer \<Rightarrow> rt_ringbuffer" where
  "rt_ringbuffer_reset rb = rb\<lparr>read_mirror := False, read_index := 0, write_mirror := False, write_index := 0\<rparr>"

text \<open>
  \<open>mem\<close> tells whether there is memory for the control block, \<open>pool\<close> is what \<^verbatim>\<open>rt_malloc\<close> returns
  for the buffer. The first result counts the blocks that are allocated and not returned: when
  there is no memory for the buffer, the pointer to the control block is cleared before it is
  freed.
\<close>

definition rt_ringbuffer_create :: "u16 \<Rightarrow> bool \<Rightarrow> (nat \<Rightarrow> u8 list option) \<Rightarrow> (nat \<times> rt_ringbuffer option) option" where
  "rt_ringbuffer_create sz mem pool = do {
     rt_assert (sz > 0);
     if \<not> mem then Some (0, None)
     else (case pool (unat sz) of
             None \<Rightarrow> Some (1, None)
           | Some buf \<Rightarrow> do { rb \<leftarrow> rt_ringbuffer_init buf sz; Some (0, Some rb) })
   }"

section \<open>The buffer is a bounded queue of bytes\<close>

definition rb_size :: "rt_ringbuffer \<Rightarrow> nat" where
  "rb_size rb = nat (sint (buffer_size rb))"

definition rb_len :: "rt_ringbuffer \<Rightarrow> nat" where
  "rb_len rb =
     (if read_mirror rb = write_mirror rb then unat (write_index rb) - unat (read_index rb)
      else rb_size rb - (unat (read_index rb) - unat (write_index rb)))"

definition rb_inv :: "rt_ringbuffer \<Rightarrow> bool" where
  "rb_inv rb \<longleftrightarrow> 0 < sint (buffer_size rb) \<and> length (buffer_ptr rb) = rb_size rb \<and>
     unat (read_index rb) < rb_size rb \<and> unat (write_index rb) < rb_size rb \<and>
     (if read_mirror rb = write_mirror rb then read_index rb \<le> write_index rb else write_index rb \<le> read_index rb)"

definition rb_items :: "rt_ringbuffer \<Rightarrow> u8 list" where
  "rb_items rb = ring_items (buffer_ptr rb) (unat (read_index rb)) (rb_len rb)"

lemma length_rb_items [simp]: "length (rb_items rb) = rb_len rb"
  by (simp add: rb_items_def)

lemma rb_size_upd [simp]:
  "rb_size (rb\<lparr>buffer_ptr := buf\<rparr>) = rb_size rb" "rb_size (rb\<lparr>read_mirror := m\<rparr>) = rb_size rb"
  "rb_size (rb\<lparr>read_index := i\<rparr>) = rb_size rb" "rb_size (rb\<lparr>write_mirror := m\<rparr>) = rb_size rb"
  "rb_size (rb\<lparr>write_index := i\<rparr>) = rb_size rb"
  by (simp_all add: rb_size_def)

lemma sint_u16_cases: "sint (w :: u16) = (if uint w < 2 ^ 15 then uint w else uint w - 2 ^ 16)"
proof (cases "uint w < 2 ^ 15")
  case True
  then have "(uint w + 2 ^ 15) mod 2 ^ 16 = uint w + 2 ^ 15" by (intro mod_pos_pos_trivial) auto
  then show ?thesis using True by (simp add: sint_uint signed_take_bit_eq_take_bit_shift take_bit_eq_mod)
next
  case False
  have "uint w < 2 ^ 16" using uint_bounded[of w] by simp
  then have "(uint w + 2 ^ 15 - 2 ^ 16) mod 2 ^ 16 = uint w + 2 ^ 15 - 2 ^ 16"
    using False by (intro mod_pos_pos_trivial) auto
  then have "(uint w + 2 ^ 15) mod 2 ^ 16 = uint w + 2 ^ 15 - 2 ^ 16" by (metis minus_mod_self2)
  then show ?thesis using False by (simp add: sint_uint signed_take_bit_eq_take_bit_shift take_bit_eq_mod)
qed

lemma rb_bounds:
  assumes "rb_inv rb"
  shows "rb_size rb < 2 ^ 15" "sint (buffer_size rb) = int (rb_size rb)" "0 < rb_size rb" "rb_len rb \<le> rb_size rb"
    "length (buffer_ptr rb) = rb_size rb" "unat (read_index rb) < rb_size rb" "unat (write_index rb) < rb_size rb"
proof -
  have "sint (buffer_size rb) < 2 ^ 15" using sint_lt[of "buffer_size rb"] by simp
  then show "rb_size rb < 2 ^ 15" by (simp add: rb_size_def)
qed (use assms in \<open>auto simp: rb_inv_def rb_size_def rb_len_def\<close>)

text \<open>The write index is where the data ends, around the end of the buffer.\<close>

lemma rb_write_pos:
  assumes "rb_inv rb"
  shows "unat (write_index rb) = (unat (read_index rb) + rb_len rb) mod rb_size rb"
proof -
  note b = rb_bounds[OF assms]
  show ?thesis
  proof (cases "read_mirror rb = write_mirror rb")
    case True
    then show ?thesis using assms b by (simp add: rb_inv_def rb_len_def word_le_nat_alt)
  next
    case False
    then have le: "unat (write_index rb) \<le> unat (read_index rb)" using assms by (simp add: rb_inv_def word_le_nat_alt)
    then have "unat (read_index rb) + rb_len rb = rb_size rb + unat (write_index rb)"
      using False b by (simp add: rb_len_def)
    then show ?thesis using b by simp
  qed
qed

lemma rb_data_len:
  assumes "rb_inv rb"
  shows "unat (rt_ringbuffer_data_len rb) = rb_len rb" "unat (rt_ringbuffer_space_len rb) = rb_size rb - rb_len rb"
    "unat (ucast (rt_ringbuffer_space_len rb) :: u16) = rb_size rb - rb_len rb"
proof -
  note b = rb_bounds[OF assms]
  let ?r = "read_index rb" and ?w = "write_index rb"
  have "rt_ringbuffer_data_len rb = of_nat (rb_len rb)"
  proof (cases "read_mirror rb = write_mirror rb")
    case True
    then have "unat ?r \<le> unat ?w" using assms by (simp add: rb_inv_def word_le_nat_alt)
    then show ?thesis
      using True b word_unat_eq_iff[of ?r ?w]
      by (cases "?r = ?w") (auto simp: rt_ringbuffer_data_len_def rt_ringbuffer_status_def rb_len_def of_nat_diff
        word_less_nat_alt)
  next
    case False
    then have "unat ?w \<le> unat ?r" using assms by (simp add: rb_inv_def word_le_nat_alt)
    then show ?thesis
      using False b by (auto simp: rt_ringbuffer_data_len_def rt_ringbuffer_status_def rb_len_def of_nat_diff word_less_nat_alt)
  qed
  then show l: "unat (rt_ringbuffer_data_len rb) = rb_len rb" using b by (simp add: unat_of_nat)
  have "rt_ringbuffer_space_len rb = of_nat (rb_size rb) - of_nat (rb_len rb)"
    using \<open>rt_ringbuffer_data_len rb = of_nat (rb_len rb)\<close> b by (simp add: rt_ringbuffer_space_len_def)
  moreover define k where "k = rb_size rb - rb_len rb"
  ultimately have "rt_ringbuffer_space_len rb = of_nat k" "k < 2 ^ 15" using b by (simp_all add: of_nat_diff)
  then show "unat (rt_ringbuffer_space_len rb) = rb_size rb - rb_len rb"
    "unat (ucast (rt_ringbuffer_space_len rb) :: u16) = rb_size rb - rb_len rb"
    unfolding k_def[symmetric] by (simp_all add: unat_of_nat unsigned_ucast_eq take_bit_nat_eq_self)
qed

text \<open>Moving the write index over \<open>k\<close> bytes of free space, and the read index over \<open>k\<close> bytes of data.\<close>

lemma rb_advance_write:
  assumes inv: "rb_inv rb" and k: "k \<le> rb_size rb - rb_len rb" and l: "length buf = rb_size rb"
    and w: "unat w' = (if unat (write_index rb) + k < rb_size rb then unat (write_index rb) + k
                       else unat (write_index rb) + k - rb_size rb)"
    and m: "m' = (if unat (write_index rb) + k < rb_size rb then write_mirror rb else \<not> write_mirror rb)"
  shows "rb_inv (rb\<lparr>buffer_ptr := buf, write_mirror := m', write_index := w'\<rparr>)"
    "rb_len (rb\<lparr>buffer_ptr := buf, write_mirror := m', write_index := w'\<rparr>) = rb_len rb + k"
proof -
  note b = rb_bounds[OF inv]
  let ?rb = "rb\<lparr>buffer_ptr := buf, write_mirror := m', write_index := w'\<rparr>"
  let ?r = "unat (read_index rb)" and ?w = "unat (write_index rb)"
  have "?r \<le> ?w" if "read_mirror rb = write_mirror rb" using inv that by (simp add: rb_inv_def word_le_nat_alt)
  moreover have "?w \<le> ?r" if "read_mirror rb \<noteq> write_mirror rb" using inv that by (simp add: rb_inv_def word_le_nat_alt)
  ultimately show "rb_inv ?rb" "rb_len ?rb = rb_len rb + k"
    using inv k l b w m
    by (auto simp: rb_inv_def rb_len_def word_le_nat_alt split: if_splits)
qed

lemma rb_advance_read:
  assumes inv: "rb_inv rb" and k: "k \<le> rb_len rb"
    and r: "unat r' = (if unat (read_index rb) + k < rb_size rb then unat (read_index rb) + k
                       else unat (read_index rb) + k - rb_size rb)"
    and m: "m' = (if unat (read_index rb) + k < rb_size rb then read_mirror rb else \<not> read_mirror rb)"
  shows "rb_inv (rb\<lparr>read_mirror := m', read_index := r'\<rparr>)"
    "rb_len (rb\<lparr>read_mirror := m', read_index := r'\<rparr>) = rb_len rb - k"
    "unat r' = (unat (read_index rb) + k) mod rb_size rb"
proof -
  note b = rb_bounds[OF inv]
  let ?rb = "rb\<lparr>read_mirror := m', read_index := r'\<rparr>"
  let ?r = "unat (read_index rb)" and ?w = "unat (write_index rb)"
  have "?r \<le> ?w" if "read_mirror rb = write_mirror rb" using inv that by (simp add: rb_inv_def word_le_nat_alt)
  moreover have "?w \<le> ?r" if "read_mirror rb \<noteq> write_mirror rb" using inv that by (simp add: rb_inv_def word_le_nat_alt)
  ultimately show "rb_inv ?rb" "rb_len ?rb = rb_len rb - k"
    using inv k b r m
    by (auto simp: rb_inv_def rb_len_def word_le_nat_alt split: if_splits)
  show "unat r' = (?r + k) mod rb_size rb"
  proof (cases "?r + k < rb_size rb")
    case False
    then have "(?r + k) mod rb_size rb = ?r + k - rb_size rb" using b k by (simp add: mod_if le_mod_geq)
    then show ?thesis using False r by simp
  qed (use r in simp)
qed

section \<open>Blocks of bytes\<close>

text \<open>Copying in one piece or in two amounts to writing byte after byte around the end.\<close>

definition ring_write :: "nat \<Rightarrow> u8 list \<Rightarrow> u8 list \<Rightarrow> u8 list \<Rightarrow> bool" where
  "ring_write w xs buf buf' \<longleftrightarrow> length buf' = length buf \<and>
     (\<forall>j < length buf. buf' ! j =
        (if \<exists>i < length xs. j = (w + i) mod length buf
         then xs ! (if w \<le> j then j - w else j + length buf - w) else buf ! j))"

lemma wrap_index:
  fixes w S i k :: nat
  assumes "w < S" "i < k" "k \<le> S"
  shows "(w + i) mod S = (if w + i < S then w + i else w + i - S)"
  using assms by (auto simp: le_mod_geq)

lemma ring_write_items:
  assumes rw: "ring_write ((r + n) mod length buf) xs buf buf'" and r: "r < length buf" and n: "n + length xs \<le> length buf"
  shows "ring_items buf' r (n + length xs) = ring_items buf r n @ xs"
proof (rule nth_equalityI)
  let ?S = "length buf" and ?w = "(r + n) mod length buf"
  fix k assume "k < length (ring_items buf' r (n + length xs))"
  then have k: "k < n + length xs" by simp
  let ?j = "(r + k) mod ?S"
  have S: "0 < ?S" "length buf' = ?S" using r rw by (auto simp: ring_write_def)
  have w: "?w = (if r + n < ?S then r + n else r + n - ?S)" using r n by (auto simp: le_mod_geq)
  have j: "?j = (if r + k < ?S then r + k else r + k - ?S)" using wrap_index[OF r k] n by simp
  have "ring_items buf' r (n + length xs) ! k = buf' ! ?j" using k S by (simp add: ring_items_def)
  also have "\<dots> = (if k < n then buf ! ?j else xs ! (k - n))"
  proof (cases "k < n")
    case True
    have "?j \<noteq> (?w + i) mod ?S" if "i < length xs" for i
      using wrap_index[of ?w ?S i "length xs"] that True w j r n S by (auto split: if_splits)
    then show ?thesis using rw True S by (auto simp: ring_write_def)
  next
    case False
    define i where "i = k - n"
    have i: "i < length xs" "k = n + i" using False k by (auto simp: i_def)
    have jw: "?j = (?w + i) mod ?S" unfolding i(2) by (simp add: mod_simps ac_simps)
    have "?j < ?S" using S(1) by simp
    then have "buf' ! ?j = xs ! (if ?w \<le> ?j then ?j - ?w else ?j + ?S - ?w)"
      using rw i(1) jw unfolding ring_write_def by auto
    moreover have "(if ?w \<le> ?j then ?j - ?w else ?j + ?S - ?w) = i"
      using wrap_index[of ?w ?S i "length xs"] jw i(1) n S(1) w r by (auto split: if_splits)
    ultimately show ?thesis using False i_def by simp
  qed
  also have "\<dots> = (ring_items buf r n @ xs) ! k" using S(1) by (simp add: nth_append ring_items_def)
  finally show "ring_items buf' r (n + length xs) ! k = (ring_items buf r n @ xs) ! k" .
qed simp

lemma copy_one_piece:
  assumes "w + n < length buf" "n \<le> length src"
  shows "\<exists>buf'. copy_bytes w src 0 n buf = Some buf' \<and> ring_write w (take n src) buf buf'"
proof -
  let ?b = "take w buf @ take n src @ drop (w + n) buf"
  have "ring_write w (take n src) buf ?b"
    unfolding ring_write_def
  proof (intro conjI allI impI)
    fix j assume j: "j < length buf"
    have "(\<exists>i < n. j = (w + i) mod length buf) \<longleftrightarrow> w \<le> j \<and> j < w + n"
    proof
      assume "\<exists>i < n. j = (w + i) mod length buf"
      then show "w \<le> j \<and> j < w + n" using assms(1) by auto
    next
      assume "w \<le> j \<and> j < w + n"
      then show "\<exists>i < n. j = (w + i) mod length buf" using j by (intro exI[of _ "j - w"]) auto
    qed
    then show "?b ! j = (if \<exists>i < length (take n src). j = (w + i) mod length buf
        then take n src ! (if w \<le> j then j - w else j + length buf - w) else buf ! j)"
      using assms j by (auto simp: nth_append min_def)
  qed (use assms in auto)
  then show ?thesis using assms by (simp add: copy_bytes_def)
qed

lemma nth_splice:
  assumes "k \<le> length xs" "k \<le> length ys" "j < length ys"
  shows "(take k xs @ drop k ys) ! j = (if j < k then xs ! j else ys ! j)"
  using assms by (auto simp: nth_append min_def)

lemma copy_two_pieces:
  assumes "w < length buf" "length buf - w \<le> n" "n \<le> length buf" "n \<le> length src"
  shows "\<exists>buf1 buf2. copy_bytes w src 0 (length buf - w) buf = Some buf1 \<and>
    copy_bytes 0 src (length buf - w) (n - (length buf - w)) buf1 = Some buf2 \<and> ring_write w (take n src) buf buf2"
proof -
  define a where "a = length buf - w"
  define k where "k = n - a"
  define b1 where "b1 = take w buf @ take a src"
  have l: "length buf = w + a" "n = a + k" "length b1 = w + a" "0 < a" "k \<le> w" "a + k \<le> length src"
    using assms by (auto simp: a_def k_def b1_def)
  have nb1: "b1 ! j = (if j < w then buf ! j else src ! (j - w))" if "j < w + a" for j
    using that l by (auto simp: b1_def nth_append)
  let ?b2 = "take k (drop a src) @ drop k b1"
  have nb2: "?b2 ! j = (if j < k then src ! (a + j) else b1 ! j)" if "j < w + a" for j
    using nth_splice[of k "drop a src" b1 j] that l by simp
  have "copy_bytes w src 0 a buf = Some b1" "copy_bytes 0 src a k b1 = Some ?b2"
    using l by (simp_all add: copy_bytes_def b1_def)
  moreover have "ring_write w (take n src) buf ?b2"
    unfolding ring_write_def
  proof (intro conjI allI impI)
    fix j assume j: "j < length buf"
    have ex: "(\<exists>i < n. j = (w + i) mod length buf) \<longleftrightarrow> w \<le> j \<or> j < k"
    proof
      assume "\<exists>i < n. j = (w + i) mod length buf"
      then obtain i where i: "i < n" "j = (w + i) mod length buf" by auto
      then show "w \<le> j \<or> j < k" using wrap_index[OF assms(1) i(1) assms(3)] l by (auto split: if_splits)
    next
      have "(w + (j + a)) mod (w + a) = j mod (w + a)" by (metis add.assoc add.commute mod_add_self2)
      moreover assume "w \<le> j \<or> j < k"
      ultimately show "\<exists>i < n. j = (w + i) mod length buf"
        using j l by (intro exI[of _ "if w \<le> j then j - w else j + a"]) auto
    qed
    have "j + length buf - w = a + j" using l by simp
    then show "?b2 ! j = (if \<exists>i < length (take n src). j = (w + i) mod length buf
        then take n src ! (if w \<le> j then j - w else j + length buf - w) else buf ! j)"
      using ex nb1[of j] nb2[of j] j l by (auto simp: add.commute)
  qed (use l in auto)
  ultimately show ?thesis unfolding a_def[symmetric] k_def[symmetric] by blast
qed

lemma rb_copy_in_ok:
  assumes inv: "rb_inv rb" and n: "unat len \<le> rb_size rb - rb_len rb" "unat len \<le> length ptr"
  shows "\<exists>rb'. rb_copy_in rb ptr len = Some rb' \<and> rb_inv rb' \<and> rb_items rb' = rb_items rb @ take (unat len) ptr \<and>
    rb_size rb' = rb_size rb"
proof -
  note b = rb_bounds[OF inv]
  let ?w = "unat (write_index rb)" and ?S = "rb_size rb" and ?buf = "buffer_ptr rb" and ?n = "unat len"
  define room where "room = sint (buffer_size rb) - uint (write_index rb)"
  have u: "uint (write_index rb) = int ?w" "uint len = int ?n" by simp_all
  have r: "room = int ?S - int ?w" unfolding room_def u(1) b(2) ..
  have room: "room > uint len \<longleftrightarrow> ?w + ?n < ?S" "nat room = ?S - ?w" "uint len - room = int (?w + ?n) - int ?S"
    unfolding r u(2) by linarith+
  note cp = rb_copy_in_def[of rb ptr len, folded room_def, unfolded Let_def]
  have fin: "\<exists>rb'. rb_copy_in rb ptr len = Some rb' \<and> rb_inv rb' \<and> rb_items rb' = rb_items rb @ take ?n ptr \<and> rb_size rb' = ?S"
    if buf: "ring_write ?w (take ?n ptr) ?buf buf"
      and w: "unat w' = (if ?w + ?n < ?S then ?w + ?n else ?w + ?n - ?S)"
      and m: "m' = (if ?w + ?n < ?S then write_mirror rb else \<not> write_mirror rb)"
      and cp: "rb_copy_in rb ptr len = Some (rb\<lparr>buffer_ptr := buf, write_mirror := m', write_index := w'\<rparr>)" for buf w' m'
  proof -
    let ?rb = "rb\<lparr>buffer_ptr := buf, write_mirror := m', write_index := w'\<rparr>"
    have l: "length buf = ?S" using buf b by (simp add: ring_write_def)
    note adv = rb_advance_write[OF inv n(1) l w m]
    have "ring_items buf (unat (read_index rb)) (rb_len rb + length (take ?n ptr)) = rb_items rb @ take ?n ptr"
      unfolding rb_items_def
      by (rule ring_write_items) (use buf b rb_write_pos[OF inv] n in auto)
    then have "rb_items ?rb = rb_items rb @ take ?n ptr" using adv(2) n(2) by (simp add: rb_items_def)
    then show ?thesis using cp adv(1) by simp
  qed
  show ?thesis
  proof (cases "?w + ?n < ?S")
    case True
    obtain buf where buf: "copy_bytes ?w ptr 0 ?n ?buf = Some buf" "ring_write ?w (take ?n ptr) ?buf buf"
      using copy_one_piece[of ?w ?n ?buf ptr] True b n by auto
    have "unat (write_index rb + ucast len) = ?w + ?n"
      using True b by (simp add: unat_word_ariths unsigned_ucast_eq take_bit_nat_eq_self)
    moreover have "rb_copy_in rb ptr len = Some (rb\<lparr>buffer_ptr := buf, write_mirror := write_mirror rb, write_index := write_index rb + ucast len\<rparr>)"
      unfolding cp room using True buf(1) by simp
    ultimately show ?thesis using True buf(2) by (intro fin) auto
  next
    case False
    obtain buf1 buf2 where buf: "copy_bytes ?w ptr 0 (?S - ?w) ?buf = Some buf1"
      "copy_bytes 0 ptr (?S - ?w) (?n - (?S - ?w)) buf1 = Some buf2" "ring_write ?w (take ?n ptr) ?buf buf2"
    proof -
      have "?S - ?w \<le> ?n" "?n \<le> ?S" using False n(1) by linarith+
      then show thesis using copy_two_pieces[of ?w ?buf ?n ptr, unfolded b(5), OF b(7) _ _ n(2)] that by blast
    qed
    define e where "e = ?n - (?S - ?w)"
    have d: "uint len - room = int e" "e < 2 ^ 15" "e = ?w + ?n - ?S" using room(3) False b n by (auto simp: e_def)
    have "unat (of_int (uint len - room) :: 15 word) = e" unfolding d(1) using d(2) by (simp add: unat_of_nat)
    moreover have "rb_copy_in rb ptr len = Some (rb\<lparr>buffer_ptr := buf2, write_mirror := \<not> write_mirror rb,
        write_index := of_int (uint len - room)\<rparr>)"
      unfolding cp room(1,2) d(1) using False buf(1) buf(2)[folded e_def] by simp
    ultimately show ?thesis using False buf(3) d(3) by (intro fin) auto
  qed
qed

lemma rb_get_ok:
  assumes inv: "rb_inv rb"
  shows "\<exists>rb' k. rt_ringbuffer_get rb len = Some (rb', k, take (unat k) (rb_items rb)) \<and> rb_inv rb' \<and>
    unat k = min (unat len) (rb_len rb) \<and> rb_items rb' = drop (unat k) (rb_items rb) \<and> rb_size rb' = rb_size rb"
proof (cases "rb_len rb = 0")
  case True
  then have "rt_ringbuffer_data_len rb = 0" using rb_data_len(1)[OF inv] by (simp add: unat_eq_0)
  then show ?thesis using True inv by (simp add: rt_ringbuffer_get_def rb_items_def)
next
  case False
  note b = rb_bounds[OF inv] and dl = rb_data_len(1)[OF inv]
  let ?r = "unat (read_index rb)" and ?S = "rb_size rb" and ?buf = "buffer_ptr rb" and ?sz = "rt_ringbuffer_data_len rb"
  have nz: "?sz \<noteq> 0" using False dl by auto
  define len' where "len' = (if ?sz < ucast len then ucast ?sz else len)"
  let ?n = "unat len'"
  have "unat (ucast ?sz :: u16) = rb_len rb" using dl b by (simp add: unsigned_ucast_eq take_bit_nat_eq_self)
  moreover have "?sz < ucast len \<longleftrightarrow> rb_len rb < unat len"
    using dl unsigned_less[of len, where ?'a = nat] by (simp add: word_less_nat_alt unsigned_ucast_eq take_bit_nat_eq_self)
  ultimately have n: "?n = min (unat len) (rb_len rb)" by (auto simp: len'_def)
  define room where "room = sint (buffer_size rb) - uint (read_index rb)"
  have u: "uint (read_index rb) = int ?r" "uint len' = int ?n" by simp_all
  have r: "room = int ?S - int ?r" unfolding room_def u(1) b(2) ..
  have room: "room > uint len' \<longleftrightarrow> ?r + ?n < ?S" "nat room = ?S - ?r" "uint len' - room = int (?r + ?n) - int ?S"
    unfolding r u(2) by linarith+
  note get = rt_ringbuffer_get_def[of rb len, unfolded Let_def, folded len'_def room_def]
  have k: "unat (ucast len' :: u32) = ?n"
    using unsigned_less[of len', where ?'a = nat] by (simp add: unsigned_ucast_eq take_bit_nat_eq_self)
  have fin: ?thesis
    if g: "rt_ringbuffer_get rb len = Some (rb\<lparr>read_mirror := m', read_index := r'\<rparr>, ucast len', bs)"
      and r': "unat r' = (if ?r + ?n < ?S then ?r + ?n else ?r + ?n - ?S)"
      and m': "m' = (if ?r + ?n < ?S then read_mirror rb else \<not> read_mirror rb)"
      and bs: "bs = ring_items ?buf ?r ?n" for m' r' bs
  proof -
    let ?rb = "rb\<lparr>read_mirror := m', read_index := r'\<rparr>"
    have nl: "?n \<le> rb_len rb" using n by simp
    note adv = rb_advance_read[OF inv nl r' m']
    have "rb_items ?rb = drop ?n (rb_items rb)"
      using adv(2,3) ring_items_drop[of ?buf ?r ?n "rb_len rb"] b by (simp add: rb_items_def)
    moreover have "bs = take ?n (rb_items rb)" using bs ring_items_take[OF nl, of ?buf ?r] by (simp add: rb_items_def)
    ultimately show ?thesis using g adv(1) k n by auto
  qed
  show ?thesis
  proof (cases "?r + ?n < ?S")
    case True
    have "take ?n (drop ?r ?buf) = ring_items ?buf ?r ?n"
      by (rule nth_equalityI) (use True b in \<open>auto simp: ring_items_def\<close>)
    moreover have "unat (read_index rb + ucast len') = ?r + ?n"
      using True b by (simp add: unat_word_ariths unsigned_ucast_eq take_bit_nat_eq_self)
    moreover have "rt_ringbuffer_get rb len = Some (rb\<lparr>read_mirror := read_mirror rb, read_index := read_index rb + ucast len'\<rparr>,
        ucast len', take ?n (drop ?r ?buf))"
      unfolding get room using nz True b by simp
    ultimately show ?thesis using True by (intro fin) auto
  next
    case False
    define e where "e = ?n - (?S - ?r)"
    have d: "uint len' - room = int e" "e < 2 ^ 15" "e = ?r + ?n - ?S" "e \<le> ?S" "?n = ?S - ?r + e"
      using room(3) False b n by (auto simp: e_def)
    have "take (?S - ?r) (drop ?r ?buf) @ take e ?buf = ring_items ?buf ?r ?n"
    proof (rule nth_equalityI)
      fix i assume "i < length (take (?S - ?r) (drop ?r ?buf) @ take e ?buf)"
      then have i: "i < ?n" using d(4,5) b(5,6) by simp
      have m: "(?r + i) mod ?S = (if ?r + i < ?S then ?r + i else ?r + i - ?S)"
        by (rule wrap_index[OF b(6) i]) (use n b in simp)
      have "ring_items ?buf ?r ?n ! i = ?buf ! ((?r + i) mod ?S)" using i b by (simp add: ring_items_def)
      also have "\<dots> = (take (?S - ?r) (drop ?r ?buf) @ take e ?buf) ! i"
      proof (cases "i < ?S - ?r")
        case True
        then show ?thesis using m b by (simp add: nth_append)
      next
        case False
        then have "i - (?S - ?r) = ?r + i - ?S" "\<not> ?r + i < ?S" "i - (?S - ?r) < e" using b(6) i d(5) by linarith+
        then show ?thesis using m b(5,6) False by (simp add: nth_append)
      qed
      finally show "(take (?S - ?r) (drop ?r ?buf) @ take e ?buf) ! i = ring_items ?buf ?r ?n ! i" ..
    qed (use d(4,5) b(5,6) in simp)
    moreover have "unat (of_int (uint len' - room) :: 15 word) = e" unfolding d(1) using d(2) by (simp add: unat_of_nat)
    moreover have "rt_ringbuffer_get rb len = Some (rb\<lparr>read_mirror := \<not> read_mirror rb, read_index := of_int (uint len' - room)\<rparr>,
        ucast len', take (?S - ?r) (drop ?r ?buf) @ take e ?buf)"
      unfolding get room(1,2) d(1) using nz False b d(4) by simp
    ultimately show ?thesis using False d(3) by (intro fin) auto
  qed
qed

text \<open>
  C28. Blocks of bytes go through the ring buffer in order. \<^verbatim>\<open>rt_ringbuffer_put\<close> appends as much
  of the block as there is space for and returns how much; \<^verbatim>\<open>rt_ringbuffer_get\<close> takes the oldest
  bytes, as many as asked for and present; both in one piece or in two, around the end of the
  buffer, and without reading or writing outside of it.
\<close>

theorem ringbuffer_blocks_in_order:
  assumes "rb_inv rb"
  shows "(unat len \<le> length ptr \<longrightarrow>
            (\<exists>rb' k. rt_ringbuffer_put rb ptr len = Some (rb', k) \<and> rb_inv rb' \<and> rb_size rb' = rb_size rb \<and>
               unat k = min (unat len) (rb_size rb - length (rb_items rb)) \<and>
               rb_items rb' = rb_items rb @ take (unat k) ptr)) \<and>
         (\<exists>rb' k. rt_ringbuffer_get rb len = Some (rb', k, take (unat k) (rb_items rb)) \<and> rb_inv rb' \<and>
            rb_size rb' = rb_size rb \<and> unat k = min (unat len) (length (rb_items rb)) \<and>
            rb_items rb' = drop (unat k) (rb_items rb))"
proof (intro conjI impI)
  let ?sz = "ucast (rt_ringbuffer_space_len rb) :: u16"
  note sp = rb_data_len(3)[OF assms]
  assume ptr: "unat len \<le> length ptr"
  show "\<exists>rb' k. rt_ringbuffer_put rb ptr len = Some (rb', k) \<and> rb_inv rb' \<and> rb_size rb' = rb_size rb \<and>
      unat k = min (unat len) (rb_size rb - length (rb_items rb)) \<and> rb_items rb' = rb_items rb @ take (unat k) ptr"
  proof (cases "?sz = 0")
    case True
    then show ?thesis using assms sp by (simp add: rt_ringbuffer_put_def)
  next
    case False
    define len' where "len' = (if ?sz < len then ?sz else len)"
    have n: "unat len' = min (unat len) (rb_size rb - rb_len rb)" using sp by (auto simp: len'_def word_less_nat_alt)
    obtain rb' where "rb_copy_in rb ptr len' = Some rb'" "rb_inv rb'" "rb_items rb' = rb_items rb @ take (unat len') ptr"
      "rb_size rb' = rb_size rb"
    proof -
      have "unat len' \<le> rb_size rb - rb_len rb" "unat len' \<le> length ptr" using n ptr by simp_all
      then show thesis using rb_copy_in_ok[OF assms] that by blast
    qed
    moreover have "unat (ucast len' :: u32) = unat len'"
      using unsigned_less[of len', where ?'a = nat] by (simp add: unsigned_ucast_eq take_bit_nat_eq_self)
    ultimately show ?thesis
      using False n by (simp add: rt_ringbuffer_put_def Let_def flip: len'_def)
  qed
next
  show "\<exists>rb' k. rt_ringbuffer_get rb len = Some (rb', k, take (unat k) (rb_items rb)) \<and> rb_inv rb' \<and>
      rb_size rb' = rb_size rb \<and> unat k = min (unat len) (length (rb_items rb)) \<and> rb_items rb' = drop (unat k) (rb_items rb)"
    using rb_get_ok[OF assms, of len] by auto
qed

theorem ringbuffer_blocks_in_order_witness:
  "let rb = \<lparr>buffer_ptr = [2, 0, 0, 1], read_mirror = False, read_index = 3, write_mirror = True,
         write_index = 1, buffer_size = 4\<rparr>
   in (\<exists>rb' k. rt_ringbuffer_put rb [7, 8, 9] 3 = Some (rb', k) \<and> rb_items rb' = [1, 2, 7, 8]) \<and>
      (\<exists>rb' k. rt_ringbuffer_get rb 3 = Some (rb', k, [1, 2]) \<and> rb_items rb' = [])"
proof -
  let ?rb = "\<lparr>buffer_ptr = [2, 0, 0, 1], read_mirror = False, read_index = 3, write_mirror = True,
    write_index = 1, buffer_size = 4\<rparr>"
  have "rb_inv ?rb" by code_simp
  note P = ringbuffer_blocks_in_order[OF this, of 3 "[7, 8, 9]"]
  have "rb_items ?rb = [1, 2]" "rb_size ?rb = 4" "unat (3 :: u16) = 3" by code_simp+
  with P show ?thesis by (auto simp: Let_def)
qed

section \<open>Single bytes\<close>

text \<open>Putting and getting a single byte, as a bounded queue.\<close>

definition rb_put :: "u8 \<Rightarrow> rt_ringbuffer \<Rightarrow> rt_ringbuffer option" where
  "rb_put ch rb = do { (rb', k) \<leftarrow> rt_ringbuffer_putchar rb ch; if k = 0 then None else Some rb' }"

definition rb_get :: "rt_ringbuffer \<Rightarrow> (u8 \<times> rt_ringbuffer) option" where
  "rb_get rb = do { (rb', k, ch) \<leftarrow> rt_ringbuffer_getchar rb; c \<leftarrow> ch; Some (c, rb') }"

lemma rb_index_last:
  assumes "rb_inv rb"
  shows "uint i = sint (buffer_size rb) - 1 \<longleftrightarrow> unat (i :: 15 word) = rb_size rb - 1"
proof -
  have "uint i = int (unat i)" by simp
  then show ?thesis using rb_bounds(2,3)[OF assms] by linarith
qed

lemma rb_putchar_ok:
  assumes inv: "rb_inv rb"
  shows "rb_len rb = rb_size rb \<Longrightarrow> rt_ringbuffer_putchar rb ch = Some (rb, 0)"
    "rb_len rb < rb_size rb \<Longrightarrow> \<exists>rb'. rt_ringbuffer_putchar rb ch = Some (rb', 1) \<and> rb_inv rb' \<and>
       rb_items rb' = rb_items rb @ [ch] \<and> rb_size rb' = rb_size rb"
proof -
  note b = rb_bounds[OF inv] and sp = rb_data_len(2)[OF inv]
  show "rb_len rb = rb_size rb \<Longrightarrow> rt_ringbuffer_putchar rb ch = Some (rb, 0)"
    using sp by (simp add: rt_ringbuffer_putchar_def unat_eq_0)
  assume l: "rb_len rb < rb_size rb"
  let ?w = "unat (write_index rb)" and ?S = "rb_size rb" and ?buf = "(buffer_ptr rb)[unat (write_index rb) := ch]"
  let ?last = "?w = ?S - 1"
  let ?rb = "rb\<lparr>buffer_ptr := ?buf, write_mirror := (if ?last then \<not> write_mirror rb else write_mirror rb),
    write_index := (if ?last then 0 else write_index rb + 1)\<rparr>"
  have "rt_ringbuffer_putchar rb ch = Some (?rb, 1)"
    using sp l b rb_index_last[OF inv, of "write_index rb"]
    by (auto simp: rt_ringbuffer_putchar_def rb_store_def)
  moreover have "unat (if ?last then 0 else write_index rb + 1) = (if ?w + 1 < ?S then ?w + 1 else ?w + 1 - ?S)"
    using b by (auto simp: unat_word_ariths)
  then have "rb_inv ?rb" "rb_len ?rb = rb_len rb + 1"
    using l b by (intro rb_advance_write[OF inv, of 1]; auto)+
  moreover have "rb_items ?rb = rb_items rb @ [ch]"
    using ring_items_put[of "rb_len rb" "buffer_ptr rb" "unat (read_index rb)" ch] l b rb_write_pos[OF inv] calculation(3)
    by (simp add: rb_items_def)
  ultimately show "\<exists>rb'. rt_ringbuffer_putchar rb ch = Some (rb', 1) \<and> rb_inv rb' \<and>
      rb_items rb' = rb_items rb @ [ch] \<and> rb_size rb' = rb_size rb" by auto
qed

lemma rb_getchar_ok:
  assumes inv: "rb_inv rb"
  shows "rb_len rb = 0 \<Longrightarrow> rt_ringbuffer_getchar rb = Some (rb, 0, None)"
    "rb_items rb = ch # chs \<Longrightarrow> \<exists>rb'. rt_ringbuffer_getchar rb = Some (rb', 1, Some ch) \<and> rb_inv rb' \<and>
       rb_items rb' = chs \<and> rb_size rb' = rb_size rb"
proof -
  note b = rb_bounds[OF inv] and dl = rb_data_len(1)[OF inv]
  show "rb_len rb = 0 \<Longrightarrow> rt_ringbuffer_getchar rb = Some (rb, 0, None)"
    using dl by (simp add: rt_ringbuffer_getchar_def unat_eq_0)
  assume it: "rb_items rb = ch # chs"
  then have l: "0 < rb_len rb" using length_rb_items[of rb] by simp
  let ?r = "unat (read_index rb)" and ?S = "rb_size rb"
  let ?last = "?r = ?S - 1"
  let ?rb = "rb\<lparr>read_mirror := (if ?last then \<not> read_mirror rb else read_mirror rb),
    read_index := (if ?last then 0 else read_index rb + 1)\<rparr>"
  have nz: "rt_ringbuffer_data_len rb \<noteq> 0" using dl l by auto
  obtain k where k: "rb_len rb = Suc k" using l by (cases "rb_len rb") auto
  have first: "ch = buffer_ptr rb ! ?r" "chs = ring_items (buffer_ptr rb) (Suc ?r mod ?S) k"
    using it ring_items_get[of "buffer_ptr rb" ?r k] b k by (auto simp: rb_items_def)
  have "rt_ringbuffer_getchar rb = Some (?rb, 1, Some ch)"
    using nz b first(1) rb_index_last[OF inv, of "read_index rb"] by (auto simp: rt_ringbuffer_getchar_def Let_def)
  moreover have r: "unat (if ?last then 0 else read_index rb + 1) = (if ?r + 1 < ?S then ?r + 1 else ?r + 1 - ?S)"
    using b by (auto simp: unat_word_ariths)
  have m: "(if ?last then \<not> read_mirror rb else read_mirror rb) = (if ?r + 1 < ?S then read_mirror rb else \<not> read_mirror rb)"
    using b by auto
  have "1 \<le> rb_len rb" using l by simp
  note adv = rb_advance_read[OF inv this r m]
  have "rb_items ?rb = chs" using adv(2,3) first(2) k by (simp add: rb_items_def)
  ultimately show "\<exists>rb'. rt_ringbuffer_getchar rb = Some (rb', 1, Some ch) \<and> rb_inv rb' \<and>
       rb_items rb' = chs \<and> rb_size rb' = rb_size rb" using adv(1) by auto
qed

interpretation rbq: bounded_fifo rb_inv rb_items rb_size rb_put rb_get
proof (unfold_locales, goal_cases)
  case (1 rb)
  then show ?case using rb_bounds(4) by simp
next
  case (2 rb ch)
  then show ?case using rb_putchar_ok(2)[OF 2(1), of ch] by (auto simp: rb_put_def)
next
  case (3 rb ch)
  then show ?case using rb_putchar_ok(1)[OF 3(1), of ch] by (simp add: rb_put_def)
next
  case (4 rb ch chs)
  then show ?case using rb_getchar_ok(2)[OF 4] by (auto simp: rb_get_def)
next
  case (5 rb)
  then have "rb_len rb = 0" using length_rb_items[of rb] by simp
  then show ?case using rb_getchar_ok(1)[OF 5(1)] by (simp add: rb_get_def)
qed

text \<open>
  \<^verbatim>\<open>rt_ringbuffer_putchar_force\<close> is \<^verbatim>\<open>rt_ringbuffer_putchar\<close>, after a byte has been taken out if
  the buffer was full.
\<close>

lemma rb_full:
  assumes inv: "rb_inv rb"
  shows "rt_ringbuffer_status rb = RT_RINGBUFFER_FULL \<longleftrightarrow> rb_len rb = rb_size rb"
proof (cases "read_mirror rb = write_mirror rb")
  case True
  then have "rb_len rb < rb_size rb" using rb_bounds(7)[OF inv] by (simp add: rb_len_def)
  then show ?thesis using True by (simp add: rt_ringbuffer_status_def)
next
  case False
  then have "unat (write_index rb) \<le> unat (read_index rb)" using inv by (simp add: rb_inv_def word_le_nat_alt)
  then have "rb_len rb = rb_size rb \<longleftrightarrow> unat (read_index rb) = unat (write_index rb)"
    using False rb_bounds(3,6)[OF inv] by (simp add: rb_len_def) linarith
  then show ?thesis using False word_unat_eq_iff[of "read_index rb" "write_index rb"] by (simp add: rt_ringbuffer_status_def)
qed

lemma putchar_force_full:
  assumes inv: "rb_inv rb" and f: "rb_len rb = rb_size rb"
  shows "rt_ringbuffer_putchar_force rb ch = do { (rb1, _) \<leftarrow> rt_ringbuffer_getchar rb; rt_ringbuffer_putchar rb1 ch }"
proof -
  note b = rb_bounds[OF inv]
  have st: "rt_ringbuffer_status rb = RT_RINGBUFFER_FULL" using rb_full[OF inv] f by simp
  then have rw: "write_index rb = read_index rb" by (auto simp: rt_ringbuffer_status_def split: if_splits)
  obtain c cs where it: "rb_items rb = c # cs" using f b length_rb_items[of rb] by (cases "rb_items rb") auto
  obtain rb1 where rb1: "rt_ringbuffer_getchar rb = Some (rb1, 1, Some c)" "rb_inv rb1" "rb_items rb1 = cs" "rb_size rb1 = rb_size rb"
    using rb_getchar_ok(2)[OF inv it] by blast
  have "rb_len rb1 < rb_size rb1" using rb1 it f length_rb_items[of rb] length_rb_items[of rb1] by simp
  then have "rt_ringbuffer_space_len rb1 \<noteq> 0" using rb_data_len(2)[OF rb1(2)] by auto
  moreover have "rt_ringbuffer_data_len rb \<noteq> 0" using rb_data_len(1)[OF inv] f b by auto
  then have "rb1 = (if uint (read_index rb) = sint (buffer_size rb) - 1
              then rb\<lparr>read_mirror := \<not> read_mirror rb, read_index := 0\<rparr>
              else rb\<lparr>read_index := read_index rb + 1\<rparr>)"
    using rb1(1) b by (simp add: rt_ringbuffer_getchar_def Let_def split: if_splits)
  ultimately show ?thesis
    using rb1(1) b st rw by (simp add: rt_ringbuffer_putchar_force_def rt_ringbuffer_putchar_def rb_store_def)
qed

lemma putchar_force_ok:
  assumes inv: "rb_inv rb"
  shows "\<exists>rb'. rt_ringbuffer_putchar_force rb ch = Some (rb', 1) \<and> rb_inv rb' \<and> rb_size rb' = rb_size rb \<and>
    rb_items rb' = (if rb_len rb = rb_size rb then List.tl (rb_items rb) else rb_items rb) @ [ch]"
proof (cases "rb_len rb = rb_size rb")
  case True
  note b = rb_bounds[OF inv]
  obtain c cs where it: "rb_items rb = c # cs" using True b length_rb_items[of rb] by (cases "rb_items rb") auto
  obtain rb1 where rb1: "rt_ringbuffer_getchar rb = Some (rb1, 1, Some c)" "rb_inv rb1" "rb_items rb1 = cs" "rb_size rb1 = rb_size rb"
    using rb_getchar_ok(2)[OF inv it] by blast
  have "rb_len rb1 < rb_size rb1" using rb1 it True length_rb_items[of rb] length_rb_items[of rb1] by simp
  from rb_putchar_ok(2)[OF rb1(2) this, of ch] show ?thesis
    using putchar_force_full[OF inv True] rb1 it True by auto
next
  case False
  then have l: "rb_len rb < rb_size rb" using rb_bounds(4)[OF inv] by simp
  have "rt_ringbuffer_space_len rb \<noteq> 0" using rb_data_len(2)[OF inv] l by auto
  then have "rt_ringbuffer_putchar_force rb ch = rt_ringbuffer_putchar rb ch"
    using rb_full[OF inv] False
    by (simp add: rt_ringbuffer_putchar_force_def rt_ringbuffer_putchar_def rb_store_def Let_def)
  then show ?thesis using rb_putchar_ok(2)[OF inv l, of ch] False by auto
qed

text \<open>
  C38. \<^verbatim>\<open>rt_ringbuffer_put_force\<close> is meant to discard old data when the block does not fit. When the
  data does not reach around the end of the buffer it discards everything, the new block
  included: it copies as many bytes as the buffer has, more than the caller passed if the block is
  shorter, and leaves the buffer empty.
\<close>

theorem rt_ringbuffer_put_force_loses_block:
  assumes inv: "rb_inv rb" and m: "read_mirror rb = write_mirror rb" and ne: "rb_items rb \<noteq> []"
    and len: "rb_size rb - length (rb_items rb) < unat len"
  shows "(rb_size rb \<le> length ptr \<longrightarrow>
            (\<exists>rb'. rt_ringbuffer_put_force rb ptr len = Some (rb', of_nat (rb_size rb)) \<and> rb_inv rb' \<and> rb_items rb' = [])) \<and>
         (length ptr < rb_size rb \<longrightarrow> rt_ringbuffer_put_force rb ptr len = None)"
proof -
  note b = rb_bounds[OF inv] and sp = rb_data_len(3)[OF inv]
  let ?w = "unat (write_index rb)" and ?S = "rb_size rb" and ?bs = "buffer_size rb"
  have l: "0 < rb_len rb" using ne length_rb_items[of rb] by (cases "rb_items rb") auto
  then have w: "0 < ?w" using m by (simp add: rb_len_def)
  have ub: "uint ?bs = int ?S"
  proof -
    have "sint ?bs = (if uint ?bs < 2 ^ 15 then uint ?bs else uint ?bs - 2 ^ 16)" by (rule sint_u16_cases)
    then show ?thesis using b(2) uint_bounded[of ?bs] inv by (auto simp: rb_inv_def split: if_splits)
  qed
  then have un: "unat ?bs = ?S" by (metis nat_int unat_eq_nat_uint)
  let ?sp = "ucast (rt_ringbuffer_space_len rb) :: u16"
  have forced: "?sp < len" "?sp < ?bs" using sp len l b un by (simp_all add: word_less_nat_alt)
  define room where "room = sint ?bs - uint (write_index rb)"
  have r: "room = int ?S - int ?w" unfolding room_def b(2) by simp
  have room: "\<not> room > uint ?bs" "nat room = ?S - ?w" "uint ?bs - room = int ?w" using w unfolding r ub by linarith+
  note cp = rb_copy_in_def[of rb ptr ?bs, folded room_def, unfolded Let_def]
  note pf = rt_ringbuffer_put_force_def[of rb ptr len, folded room_def, unfolded Let_def]
  have cp': "rb_copy_in rb ptr ?bs = do {
      buf1 \<leftarrow> copy_bytes ?w ptr 0 (?S - ?w) (buffer_ptr rb);
      buf2 \<leftarrow> copy_bytes 0 ptr (?S - ?w) ?w buf1;
      Some (rb\<lparr>buffer_ptr := buf2, write_mirror := \<not> write_mirror rb, write_index := of_int (int ?w)\<rparr>) }"
    unfolding cp room(2,3) using room(1) by simp
  show ?thesis
  proof (intro conjI impI)
    assume "?S \<le> length ptr"
    then obtain buf1 buf2 where "copy_bytes ?w ptr 0 (?S - ?w) (buffer_ptr rb) = Some buf1"
      "copy_bytes 0 ptr (?S - ?w) ?w buf1 = Some buf2" and l2: "length buf2 = ?S"
      using copy_two_pieces[of ?w "buffer_ptr rb" ?S ptr] b(5,7) by (auto simp: ring_write_def)
    then have c: "rb_copy_in rb ptr ?bs =
        Some (rb\<lparr>buffer_ptr := buf2, write_mirror := \<not> write_mirror rb, write_index := write_index rb\<rparr>)"
      using cp' by simp
    let ?rb = "rb\<lparr>buffer_ptr := buf2, read_mirror := \<not> read_mirror rb, read_index := write_index rb,
      write_mirror := \<not> write_mirror rb, write_index := write_index rb\<rparr>"
    have "ucast ?bs = (of_nat ?S :: u32)" by (simp flip: un)
    then have "rt_ringbuffer_put_force rb ptr len = Some (?rb, of_nat ?S)"
      unfolding pf using forced c room(1) by simp
    moreover have "rb_inv ?rb" "rb_items ?rb = []" using inv m l2 by (simp_all add: rb_inv_def rb_items_def rb_len_def)
    ultimately show "\<exists>rb'. rt_ringbuffer_put_force rb ptr len = Some (rb', of_nat ?S) \<and> rb_inv rb' \<and> rb_items rb' = []"
      by blast
  next
    assume "length ptr < ?S"
    then have "rb_copy_in rb ptr ?bs = None" unfolding cp' using b(5,7) by (auto simp: copy_bytes_def)
    then show "rt_ringbuffer_put_force rb ptr len = None" unfolding pf using forced by simp
  qed
qed

theorem rt_ringbuffer_put_force_loses_block_witness:
  "let rb = \<lparr>buffer_ptr = [1, 2, 0, 0], read_mirror = False, read_index = 0, write_mirror = False,
         write_index = 2, buffer_size = 4\<rparr>
   in (\<exists>rb'. rt_ringbuffer_put_force rb [5, 6, 7, 8] 3 = Some (rb', 4) \<and> rb_items rb' = []) \<and>
      rt_ringbuffer_put_force rb [5, 6, 7] 3 = None"
proof -
  let ?rb = "\<lparr>buffer_ptr = [1, 2, 0, 0], read_mirror = False, read_index = 0, write_mirror = False,
    write_index = 2, buffer_size = 4\<rparr>"
  have "rb_inv ?rb" "rb_items ?rb \<noteq> []" "rb_size ?rb - length (rb_items ?rb) < unat (3 :: u16)" "rb_size ?rb = 4"
    by code_simp+
  then show ?thesis
    using rt_ringbuffer_put_force_loses_block[of ?rb 3 "[5, 6, 7, 8]"]
      rt_ringbuffer_put_force_loses_block[of ?rb 3 "[5, 6, 7]"] by (auto simp: Let_def)
qed

end
