(* ===== verification/Bytes.thy ===== *)
theory Bytes
  imports Prelude
begin

unbundle bit_operations_syntax

text \<open>
  Memory as bytes: the accesses to half words and words, the memory routines of
  \<^verbatim>\<open>src/kservice.c\<close> (\<^verbatim>\<open>rt_memset\<close>, \<^verbatim>\<open>rt_memcpy\<close>, \<^verbatim>\<open>rt_memmove\<close>, \<^verbatim>\<open>rt_memcmp\<close>), and that their
  loops over words do what the loops over bytes would do. Addresses are natural numbers; an
  \<^verbatim>\<open>unsigned long\<close> has four bytes, the least significant one first.
\<close>

section \<open>Definitions\<close>

type_synonym memory = "nat \<Rightarrow> u8"

definition rd16 :: "memory \<Rightarrow> nat \<Rightarrow> u16" where
  "rd16 m a = ucast (m a) OR push_bit 8 (ucast (m (a + 1)))"

definition wr16 :: "nat \<Rightarrow> u16 \<Rightarrow> memory \<Rightarrow> memory" where
  "wr16 a v m = m(a := ucast v, a + 1 := ucast (drop_bit 8 v))"

definition rd32 :: "memory \<Rightarrow> nat \<Rightarrow> u32" where
  "rd32 m a = ucast (m a) OR push_bit 8 (ucast (m (a + 1))) OR push_bit 16 (ucast (m (a + 2)))
     OR push_bit 24 (ucast (m (a + 3)))"

definition wr32 :: "nat \<Rightarrow> u32 \<Rightarrow> memory \<Rightarrow> memory" where
  "wr32 a v m = m(a := ucast v, a + 1 := ucast (drop_bit 8 v), a + 2 := ucast (drop_bit 16 v),
     a + 3 := ucast (drop_bit 24 v))"

text \<open>The loops of \<^verbatim>\<open>rt_memset\<close>: four words, one word, one byte at a time.\<close>

fun set_words4 :: "u32 \<Rightarrow> nat \<Rightarrow> nat \<Rightarrow> memory \<Rightarrow> nat \<times> nat \<times> memory" where
  "set_words4 buffer a count m =
     (if count \<ge> 16
      then set_words4 buffer (a + 16) (count - 16)
        (wr32 (a + 12) buffer (wr32 (a + 8) buffer (wr32 (a + 4) buffer (wr32 a buffer m))))
      else (a, count, m))"

fun set_words :: "u32 \<Rightarrow> nat \<Rightarrow> nat \<Rightarrow> memory \<Rightarrow> nat \<times> nat \<times> memory" where
  "set_words buffer a count m =
     (if count \<ge> 4 then set_words buffer (a + 4) (count - 4) (wr32 a buffer m) else (a, count, m))"

fun set_bytes :: "u8 \<Rightarrow> nat \<Rightarrow> nat \<Rightarrow> memory \<Rightarrow> memory" where
  "set_bytes d a 0 m = m"
| "set_bytes d a (Suc count) m = set_bytes d (a + 1) count (m(a := d))"

definition rt_memset :: "nat \<Rightarrow> u32 \<Rightarrow> nat \<Rightarrow> memory \<Rightarrow> memory" where
  "rt_memset s c count m =
     (let d = c AND 0xff in
      if \<not> count < 4 \<and> s mod 4 = 0 then
        let b1 = push_bit 8 d OR d;
            buffer = b1 OR push_bit 16 b1;
            (a1, n1, m1) = set_words4 buffer s count m;
            (a2, n2, m2) = set_words buffer a1 n1 m1
        in set_bytes (ucast d) a2 n2 m2
      else set_bytes (ucast d) s count m)"

fun copy_words4 :: "nat \<Rightarrow> nat \<Rightarrow> nat \<Rightarrow> memory \<Rightarrow> nat \<times> nat \<times> nat \<times> memory" where
  "copy_words4 dst src len m =
     (if len \<ge> 16
      then let m1 = wr32 dst (rd32 m src) m;
               m2 = wr32 (dst + 4) (rd32 m1 (src + 4)) m1;
               m3 = wr32 (dst + 8) (rd32 m2 (src + 8)) m2;
               m4 = wr32 (dst + 12) (rd32 m3 (src + 12)) m3
           in copy_words4 (dst + 16) (src + 16) (len - 16) m4
      else (dst, src, len, m))"

fun copy_words :: "nat \<Rightarrow> nat \<Rightarrow> nat \<Rightarrow> memory \<Rightarrow> nat \<times> nat \<times> nat \<times> memory" where
  "copy_words dst src len m =
     (if len \<ge> 4 then copy_words (dst + 4) (src + 4) (len - 4) (wr32 dst (rd32 m src) m)
      else (dst, src, len, m))"

fun copy_up :: "nat \<Rightarrow> nat \<Rightarrow> nat \<Rightarrow> memory \<Rightarrow> memory" where
  "copy_up dst src 0 m = m"
| "copy_up dst src (Suc n) m = copy_up (dst + 1) (src + 1) n (m(dst := m src))"

definition rt_memcpy :: "nat \<Rightarrow> nat \<Rightarrow> nat \<Rightarrow> memory \<Rightarrow> memory" where
  "rt_memcpy dst src count m =
     (if \<not> count < 16 \<and> src mod 4 = 0 \<and> dst mod 4 = 0 then
        let (d1, s1, l1, m1) = copy_words4 dst src count m;
            (d2, s2, l2, m2) = copy_words d1 s1 l1 m1
        in copy_up d2 s2 l2 m2
      else copy_up dst src count m)"

text \<open>The downward loop of \<^verbatim>\<open>rt_memmove\<close>; its pointers start behind the areas.\<close>

fun copy_down :: "nat \<Rightarrow> nat \<Rightarrow> nat \<Rightarrow> memory \<Rightarrow> memory" where
  "copy_down tmp s 0 m = m"
| "copy_down tmp s (Suc n) m = copy_down (tmp - 1) (s - 1) n (m(tmp - 1 := m (s - 1)))"

definition rt_memmove :: "nat \<Rightarrow> nat \<Rightarrow> nat \<Rightarrow> memory \<Rightarrow> memory" where
  "rt_memmove dst src n m =
     (if src < dst \<and> dst < src + n then copy_down (dst + n) (src + n) n m else copy_up dst src n m)"

fun rt_memcmp :: "memory \<Rightarrow> nat \<Rightarrow> nat \<Rightarrow> nat \<Rightarrow> int" where
  "rt_memcmp m cs ct 0 = 0"
| "rt_memcmp m cs ct (Suc count) =
     (let res = uint (m cs) - uint (m ct) in if res \<noteq> 0 then res else rt_memcmp m (cs + 1) (ct + 1) count)"

section \<open>Words in memory\<close>

lemma wr32_apply:
  "wr32 a v m i = (if a \<le> i \<and> i < a + 4 then ucast (drop_bit (8 * (i - a)) v) else m i)"
proof (cases "a \<le> i \<and> i < a + 4")
  case True
  then have "i = a \<or> i = a + 1 \<or> i = a + 2 \<or> i = a + 3" by arith
  then show ?thesis by (elim disjE) (simp_all add: wr32_def)
qed (auto simp: wr32_def)

lemma wr16_apply:
  "wr16 a v m i = (if a \<le> i \<and> i < a + 2 then ucast (drop_bit (8 * (i - a)) v) else m i)"
proof (cases "a \<le> i \<and> i < a + 2")
  case True
  then have "i = a \<or> i = a + 1" by arith
  then show ?thesis by (elim disjE) (simp_all add: wr16_def)
qed (auto simp: wr16_def)

lemma nat_lt_4: "k < 4 \<longleftrightarrow> k = 0 \<or> k = 1 \<or> k = 2 \<or> k = (3 :: nat)"
  by auto

lemma bit_u8_ge [simp]: "8 \<le> n \<Longrightarrow> \<not> bit (w :: u8) n"
  using bit_imp_le_length[of w n] by auto

lemma rd32_byte: "k < 4 \<Longrightarrow> ucast (drop_bit (8 * k) (rd32 m a)) = m (a + k)"
  unfolding nat_lt_4 by (elim disjE) (auto simp: rd32_def bit_simps intro!: bit_word_eqI)

lemma rd32_wr32 [simp]: "rd32 (wr32 a v m) a = v"
proof (rule bit_word_eqI)
  fix n assume "n < LENGTH(32)"
  then show "bit (rd32 (wr32 a v m) a) n = bit v n"
    by (cases "n < 8"; cases "n < 16"; cases "n < 24") (auto simp: rd32_def wr32_def bit_simps not_le not_less)
qed

lemma rd16_wr16 [simp]: "rd16 (wr16 a v m) a = v"
proof (rule bit_word_eqI)
  fix n assume "n < LENGTH(16)"
  then show "bit (rd16 (wr16 a v m) a) n = bit v n"
    by (auto simp: rd16_def wr16_def bit_simps not_le not_less)
qed

lemma rd32_cong: "(\<And>i. a \<le> i \<Longrightarrow> i < a + 4 \<Longrightarrow> m' i = m i) \<Longrightarrow> rd32 m' a = rd32 m a"
  by (simp add: rd32_def)

lemma rd16_cong: "(\<And>i. a \<le> i \<Longrightarrow> i < a + 2 \<Longrightarrow> m' i = m i) \<Longrightarrow> rd16 m' a = rd16 m a"
  by (simp add: rd16_def)

section \<open>The memory routines\<close>

text \<open>What the routines are meant to do, as functions of the memory before.\<close>

definition fill :: "nat \<Rightarrow> nat \<Rightarrow> u8 \<Rightarrow> memory \<Rightarrow> memory" where
  "fill a n d m = (\<lambda>i. if a \<le> i \<and> i < a + n then d else m i)"

definition copied :: "nat \<Rightarrow> nat \<Rightarrow> nat \<Rightarrow> memory \<Rightarrow> memory" where
  "copied dst src n m = (\<lambda>i. if dst \<le> i \<and> i < dst + n then m (src + (i - dst)) else m i)"

lemma fill_0 [simp]: "fill a 0 d m = m"
  by (rule ext) (auto simp: fill_def)

lemma copied_0 [simp]: "copied dst src 0 m = m"
  by (rule ext) (auto simp: copied_def)

lemma fill_fill: "fill (a + n) k d (fill a n d m) = fill a (n + k) d m"
  by (auto simp: fill_def)

text \<open>Copying upwards is right when the source is not overwritten before it is read.\<close>

lemma copied_copied:
  "dst \<le> src \<or> src + n + k \<le> dst \<Longrightarrow> copied (dst + n) (src + n) k (copied dst src n m) = copied dst src (n + k) m"
  by (rule ext) (auto simp: copied_def algebra_simps)

lemma set_bytes_fill: "set_bytes d a n m = fill a n d m"
proof (induction n arbitrary: a m)
  case (Suc n)
  have "fill a 1 d m = m(a := d)" by (auto simp: fill_def)
  then show ?case using Suc fill_fill[of a 1 n d m] by (simp add: fun_upd_def)
qed simp

lemma copy_up_copied: "dst \<le> src \<or> src + n \<le> dst \<Longrightarrow> copy_up dst src n m = copied dst src n m"
proof (induction n arbitrary: dst src m)
  case (Suc n)
  have "copied dst src 1 m = m(dst := m src)" by (auto simp: copied_def)
  then show ?case using Suc copied_copied[of dst src 1 n m] by (auto simp: fun_upd_def)
qed simp

lemma copy_down_copied: "src \<le> dst \<Longrightarrow> copy_down (dst + n) (src + n) n m = copied dst src n m"
proof (induction n arbitrary: m)
  case (Suc n)
  have "copied dst src n (m(dst + n := m (src + n))) = copied dst src (Suc n) m"
    using Suc.prems by (intro ext) (auto simp: copied_def less_Suc_eq)
  then show ?case using Suc by (simp add: fun_upd_def)
qed simp

abbreviation splat :: "u8 \<Rightarrow> u32 \<Rightarrow> bool" where
  "splat d buffer \<equiv> \<forall>k < 4. ucast (drop_bit (8 * k) buffer) = d"

lemma wr32_fill: "splat d buffer \<Longrightarrow> wr32 a buffer m = fill a 4 d m"
  by (rule ext) (auto simp: wr32_apply fill_def)

lemma wr32_copied: "wr32 dst (rd32 m src) m = copied dst src 4 m"
  by (rule ext) (auto simp: wr32_apply copied_def rd32_byte)

declare set_words4.simps [simp del] set_words.simps [simp del] copy_words4.simps [simp del] copy_words.simps [simp del]

lemma set_words4_fill:
  "splat d buffer \<Longrightarrow> set_words4 buffer a n m = (a + 16 * (n div 16), n mod 16, fill a (16 * (n div 16)) d m)"
proof (induction n arbitrary: a m rule: less_induct)
  case (less n)
  show ?case
  proof (cases "16 \<le> n")
    case True
    have "wr32 (a + 12) buffer (wr32 (a + 8) buffer (wr32 (a + 4) buffer (wr32 a buffer m))) = fill a 16 d m"
      using less.prems fill_fill[of a 4 4 d m] fill_fill[of a 8 4 d m] fill_fill[of a 12 4 d m]
      by (simp add: wr32_fill[OF less.prems])
    moreover have "n div 16 = Suc ((n - 16) div 16)" "n mod 16 = (n - 16) mod 16"
      using True by (simp_all add: le_div_geq le_mod_geq)
    ultimately show ?thesis
      using True less.IH[of "n - 16" "a + 16" "fill a 16 d m"] less.prems
      by (simp add: set_words4.simps[of _ _ n] fill_fill)
  qed (simp add: set_words4.simps)
qed

lemma set_words_fill:
  "splat d buffer \<Longrightarrow> set_words buffer a n m = (a + 4 * (n div 4), n mod 4, fill a (4 * (n div 4)) d m)"
proof (induction n arbitrary: a m rule: less_induct)
  case (less n)
  show ?case
  proof (cases "4 \<le> n")
    case True
    then have "n div 4 = Suc ((n - 4) div 4)" "n mod 4 = (n - 4) mod 4" by (simp_all add: le_div_geq le_mod_geq)
    then show ?thesis
      using True less.IH[of "n - 4" "a + 4" "fill a 4 d m"] less.prems
      by (simp add: set_words.simps[of _ _ n] wr32_fill[OF less.prems] fill_fill)
  qed (simp add: set_words.simps)
qed

lemma copy_words4_copied:
  "dst \<le> src \<or> src + n \<le> dst \<Longrightarrow>
   copy_words4 dst src n m = (dst + 16 * (n div 16), src + 16 * (n div 16), n mod 16, copied dst src (16 * (n div 16)) m)"
proof (induction n arbitrary: dst src m rule: less_induct)
  case (less n)
  show ?case
  proof (cases "16 \<le> n")
    case True
    have c: "copied (dst + 4) (src + 4) 4 (copied dst src 4 m) = copied dst src 8 m"
      "copied (dst + 8) (src + 8) 4 (copied dst src 8 m) = copied dst src 12 m"
      "copied (dst + 12) (src + 12) 4 (copied dst src 12 m) = copied dst src 16 m"
      using less.prems True copied_copied[of dst src 4 4 m] copied_copied[of dst src 8 4 m] copied_copied[of dst src 12 4 m]
      by auto
    have k: "n div 16 = Suc ((n - 16) div 16)" "n mod 16 = (n - 16) mod 16"
      using True by (simp_all add: le_div_geq le_mod_geq)
    have "16 * ((n - 16) div 16) \<le> n - 16" by simp
    then have "copied (dst + 16) (src + 16) (16 * ((n - 16) div 16)) (copied dst src 16 m) =
        copied dst src (16 + 16 * ((n - 16) div 16)) m"
      using less.prems True by (intro copied_copied) auto
    then show ?thesis
      using True less.IH[of "n - 16" "dst + 16" "src + 16" "copied dst src 16 m"] less.prems k
      by (auto simp: wr32_copied c Let_def copy_words4.simps[of dst src n])
  qed (simp add: copy_words4.simps)
qed

lemma copy_words_copied:
  "dst \<le> src \<or> src + n \<le> dst \<Longrightarrow>
   copy_words dst src n m = (dst + 4 * (n div 4), src + 4 * (n div 4), n mod 4, copied dst src (4 * (n div 4)) m)"
proof (induction n arbitrary: dst src m rule: less_induct)
  case (less n)
  show ?case
  proof (cases "4 \<le> n")
    case True
    then have k: "n div 4 = Suc ((n - 4) div 4)" "n mod 4 = (n - 4) mod 4" by (simp_all add: le_div_geq le_mod_geq)
    have "4 * ((n - 4) div 4) \<le> n - 4" by simp
    then have "copied (dst + 4) (src + 4) (4 * ((n - 4) div 4)) (copied dst src 4 m) =
        copied dst src (4 + 4 * ((n - 4) div 4)) m"
      using less.prems True by (intro copied_copied) auto
    then show ?thesis
      using True less.IH[of "n - 4" "dst + 4" "src + 4" "copied dst src 4 m"] less.prems k
      by (auto simp: wr32_copied copy_words.simps[of dst src n])
  qed (simp add: copy_words.simps)
qed

lemma splat_word:
  fixes d :: u32
  assumes "\<And>i. bit d i \<Longrightarrow> i < 8" and b1: "b1 = push_bit 8 d OR d"
  shows "splat (ucast d) (b1 OR push_bit 16 b1)"
proof -
  have "\<not> bit d i" if "8 \<le> i" for i using assms(1)[of i] that by auto
  then show ?thesis unfolding nat_lt_4 b1 by (auto simp: bit_simps intro!: bit_word_eqI)
qed

lemma rt_memset_fill: "rt_memset a c n m = fill a n (ucast c) m"
proof -
  let ?d = "c AND 0xff" and ?b1 = "push_bit 8 (c AND 0xff) OR (c AND 0xff)"
  have "bit (0xff :: u32) i \<longleftrightarrow> i < 8" for i
    using bit_mask_iff[of 8 i, where ?'a = "32 word"] by (auto simp: mask_eq_exp_minus_1 possible_bit_word)
  then have bits: "bit ?d i \<longleftrightarrow> i < 8 \<and> bit c i" for i by (auto simp: bit_and_iff)
  have d: "ucast ?d = (ucast c :: u8)" by (intro bit_word_eqI) (simp add: bits bit_ucast_iff)
  have "splat (ucast c) (?b1 OR push_bit 16 ?b1)"
    using splat_word[of ?d ?b1] bits unfolding d by blast
  note w = set_words4_fill[OF this] set_words_fill[OF this]
  have n: "16 * (n div 16) + (4 * (n mod 16 div 4) + n mod 16 mod 4) = n" by simp
  show ?thesis
    using fill_fill[of "a + 16 * (n div 16)" "4 * (n mod 16 div 4)" "n mod 16 mod 4" "ucast c" "fill a (16 * (n div 16)) (ucast c) m"]
      fill_fill[of a "16 * (n div 16)" "4 * (n mod 16 div 4) + n mod 16 mod 4" "ucast c" m]
    unfolding rt_memset_def Let_def w prod.case set_bytes_fill d by (simp add: n)
qed

lemma rt_memcpy_copied:
  assumes "dst \<le> src \<or> src + n \<le> dst"
  shows "rt_memcpy dst src n m = copied dst src n m"
proof -
  let ?k = "16 * (n div 16)" and ?l = "4 * (n mod 16 div 4)" and ?r = "n mod 16 mod 4"
  have n: "?k + n mod 16 = n" "?l + ?r = n mod 16" by simp_all
  have "copy_words (dst + ?k) (src + ?k) (n mod 16) (copied dst src ?k m) =
      (dst + ?k + ?l, src + ?k + ?l, ?r, copied (dst + ?k) (src + ?k) ?l (copied dst src ?k m))"
    using assms n by (intro copy_words_copied) linarith
  moreover have "copied (dst + ?k) (src + ?k) ?l (copied dst src ?k m) = copied dst src (?k + ?l) m"
    using assms n by (intro copied_copied) linarith
  moreover have "copy_up (dst + ?k + ?l) (src + ?k + ?l) ?r (copied dst src (?k + ?l) m) =
      copied (dst + (?k + ?l)) (src + (?k + ?l)) ?r (copied dst src (?k + ?l) m)"
    unfolding add.assoc[of dst] add.assoc[of src] using assms n by (intro copy_up_copied) linarith
  moreover have "\<dots> = copied dst src (?k + ?l + ?r) m"
    using assms n by (intro copied_copied) linarith
  ultimately show ?thesis
    using copy_words4_copied[OF assms, of m] copy_up_copied[OF assms, of m] n by (simp add: rt_memcpy_def)
qed

lemma rt_memmove_copied: "rt_memmove dst src n m = copied dst src n m"
  by (auto simp: rt_memmove_def copy_down_copied copy_up_copied not_less)

lemma rt_memcmp_ok:
  "rt_memcmp m a b n = 0 \<longleftrightarrow> (\<forall>i < n. m (a + i) = m (b + i))"
  "k < n \<Longrightarrow> \<forall>i < k. m (a + i) = m (b + i) \<Longrightarrow> m (a + k) \<noteq> m (b + k) \<Longrightarrow>
   rt_memcmp m a b n = uint (m (a + k)) - uint (m (b + k))"
proof (induction n arbitrary: a b k)
  case (Suc n)
  { case 1
    show ?case using Suc(1)[of "a + 1" "b + 1"] by (auto simp: Let_def All_less_Suc2 word_uint_eq_iff)
  next
    case 2
    then show ?case using Suc(2)[of "k - 1" "a + 1" "b + 1"] by (cases k) (auto simp: Let_def All_less_Suc2 word_uint_eq_iff)
  }
qed simp_all

text \<open>
  C33. The memory routines, which work on words where they can, do what they are meant to do.
  \<^verbatim>\<open>rt_memset\<close> stores the low byte of its argument in the area and nowhere else; \<^verbatim>\<open>rt_memcpy\<close> copies
  the area when the areas do not overlap or the destination is the lower one, \<^verbatim>\<open>rt_memmove\<close> always;
  \<^verbatim>\<open>rt_memcmp\<close> returns 0 for equal areas and otherwise the difference of the first bytes that differ.
\<close>

theorem memory_routines:
  "rt_memset a c n m = fill a n (ucast c) m \<and>
   (dst \<le> src \<or> src + n \<le> dst \<longrightarrow> rt_memcpy dst src n m = copied dst src n m) \<and>
   rt_memmove dst src n m = copied dst src n m \<and>
   (rt_memcmp m dst src n = 0 \<longleftrightarrow> (\<forall>i < n. m (dst + i) = m (src + i))) \<and>
   (\<forall>k < n. (\<forall>i < k. m (dst + i) = m (src + i)) \<and> m (dst + k) \<noteq> m (src + k) \<longrightarrow>
      rt_memcmp m dst src n = uint (m (dst + k)) - uint (m (src + k)))"
  by (simp add: rt_memset_fill rt_memcpy_copied rt_memmove_copied rt_memcmp_ok(1) del: split_paired_All)
    (auto intro: rt_memcmp_ok(2))

theorem memory_routines_witness:
  "rt_memcpy 0 20 17 of_nat 16 = 36 \<and> rt_memmove 20 16 8 of_nat 27 = 23 \<and> rt_memcmp of_nat 3 5 2 = - 2"
proof -
  note R = memory_routines
  have "rt_memcmp of_nat 3 5 2 = uint ((of_nat :: memory) (3 + 0)) - uint ((of_nat :: memory) (5 + 0))"
    using R[of 0 0 2 of_nat 3 5] by (elim conjE allE[of _ "0 :: nat"]) simp
  then show ?thesis using R[of 0 0 17 of_nat 0 20] R[of 0 0 8 of_nat 20 16] by (simp add: copied_def)
qed

end
