(* ===== verification/Mem.thy ===== *)
theory Mem
  imports Semaphore Chain Bytes
begin

unbundle bit_operations_syntax

text \<open>
  The small memory manager of \<^verbatim>\<open>src/mem.c\<close>. The heap is an array of bytes; each block starts with a
  \<^verbatim>\<open>struct heap_mem\<close> that holds the offsets of its neighbours. Pointers into the heap are kept as
  offsets from \<^verbatim>\<open>heap_ptr\<close>, the addresses that callers see are absolute, and 0 is null. The heap is
  protected by the semaphore \<^verbatim>\<open>heap_sem\<close>: what runs between taking and releasing it is one definition
  on the heap alone, and the calls compose it with the semaphore. This theory shows what these
  parts do to the list of blocks; \<^verbatim>\<open>MemCalls\<close> has what the calls promise.
\<close>

section \<open>Definitions\<close>

record heap_mem =
  hm_magic :: u16
  hm_used :: u16
  hm_next :: u32
  hm_prev :: u32

record small_mem =
  heap_ptr :: u32
  heap_end :: u32
  lfree :: u32
  mem_size_aligned :: u32
  used_mem :: u32
  max_mem :: u32
  heap_bytes :: memory

abbreviation HEAP_MAGIC :: u16 where "HEAP_MAGIC \<equiv> 0x1ea0"
abbreviation MIN_SIZE_ALIGNED :: u32 where "MIN_SIZE_ALIGNED \<equiv> 12"
abbreviation SIZEOF_STRUCT_MEM :: u32 where "SIZEOF_STRUCT_MEM \<equiv> 12"

definition get_hdr :: "memory \<Rightarrow> u32 \<Rightarrow> heap_mem" where
  "get_hdr m p = \<lparr>hm_magic = rd16 m (unat p), hm_used = rd16 m (unat p + 2), hm_next = rd32 m (unat p + 4),
     hm_prev = rd32 m (unat p + 8)\<rparr>"

definition put_hdr :: "u32 \<Rightarrow> heap_mem \<Rightarrow> memory \<Rightarrow> memory" where
  "put_hdr p x m = wr32 (unat p + 8) (hm_prev x) (wr32 (unat p + 4) (hm_next x)
     (wr16 (unat p + 2) (hm_used x) (wr16 (unat p) (hm_magic x) m)))"

abbreviation hdr :: "small_mem \<Rightarrow> u32 \<Rightarrow> heap_mem" where
  "hdr h p \<equiv> get_hdr (heap_bytes h) p"

definition upd_hdr :: "u32 \<Rightarrow> (heap_mem \<Rightarrow> heap_mem) \<Rightarrow> small_mem \<Rightarrow> small_mem" where
  "upd_hdr p f h = h\<lparr>heap_bytes := put_hdr p (f (hdr h p)) (heap_bytes h)\<rparr>"

definition plug_forward :: "u32 \<Rightarrow> small_mem \<Rightarrow> small_mem" where
  "plug_forward mem h =
     (let nmem = hm_next (hdr h mem) in
      if mem \<noteq> nmem \<and> hm_used (hdr h nmem) = 0 \<and> nmem \<noteq> heap_end h then
        let h1 = (if lfree h = nmem then h\<lparr>lfree := mem\<rparr> else h);
            h2 = upd_hdr mem (\<lambda>b. b\<lparr>hm_next := hm_next (hdr h1 nmem)\<rparr>) h1
        in upd_hdr (hm_next (hdr h2 nmem)) (\<lambda>b. b\<lparr>hm_prev := mem\<rparr>) h2
      else h)"

definition plug_backward :: "u32 \<Rightarrow> small_mem \<Rightarrow> small_mem" where
  "plug_backward mem h =
     (let pmem = hm_prev (hdr h mem) in
      if pmem \<noteq> mem \<and> hm_used (hdr h pmem) = 0 then
        let h1 = (if lfree h = mem then h\<lparr>lfree := pmem\<rparr> else h);
            h2 = upd_hdr pmem (\<lambda>b. b\<lparr>hm_next := hm_next (hdr h1 mem)\<rparr>) h1
        in upd_hdr (hm_next (hdr h2 mem)) (\<lambda>b. b\<lparr>hm_prev := pmem\<rparr>) h2
      else h)"

text \<open>The offset of a block is unsigned, so the first assertion, that it is not below the heap, is no test.\<close>

definition plug_holes :: "u32 \<Rightarrow> small_mem \<Rightarrow> small_mem option" where
  "plug_holes mem h = do {
     rt_assert (mem < heap_end h);
     rt_assert (hm_used (hdr h mem) = 0);
     Some (plug_backward mem (plug_forward mem h))
   }"

text \<open>The heap part of \<^verbatim>\<open>rt_system_heap_init\<close>; \<open>None\<close> inside is the error message and early return.\<close>

definition mem_setup :: "u32 \<Rightarrow> u32 \<Rightarrow> small_mem \<Rightarrow> small_mem option" where
  "mem_setup begin_addr end_addr h =
     (let begin_align = RT_ALIGN begin_addr RT_ALIGN_SIZE;
          end_align = RT_ALIGN_DOWN end_addr RT_ALIGN_SIZE
      in if end_align > 2 * SIZEOF_STRUCT_MEM \<and> end_align - 2 * SIZEOF_STRUCT_MEM \<ge> begin_align then
           let sz = end_align - begin_align - 2 * SIZEOF_STRUCT_MEM;
               e = sz + SIZEOF_STRUCT_MEM;
               h1 = h\<lparr>mem_size_aligned := sz, heap_ptr := begin_align\<rparr>;
               h2 = upd_hdr 0 (\<lambda>_. \<lparr>hm_magic = HEAP_MAGIC, hm_used = 0, hm_next = e, hm_prev = 0\<rparr>) h1;
               h3 = h2\<lparr>heap_end := hm_next (hdr h2 0)\<rparr>;
               h4 = upd_hdr (heap_end h3) (\<lambda>_. \<lparr>hm_magic = HEAP_MAGIC, hm_used = 1, hm_next = e, hm_prev = e\<rparr>) h3
           in Some (h4\<lparr>lfree := 0\<rparr>)
         else None)"

text \<open>
  The search of \<^verbatim>\<open>rt_malloc\<close>, the change of the block it found, and the walk of \<^verbatim>\<open>lfree\<close>. The walks
  are partial: on a damaged list they need not end.
\<close>

partial_function (option) malloc_search :: "small_mem \<Rightarrow> u32 \<Rightarrow> u32 \<Rightarrow> u32 option option" where
  "malloc_search h sz ptr =
     (if ptr < mem_size_aligned h - sz then
        (let mem = hdr h ptr in
         if hm_used mem = 0 \<and> hm_next mem - (ptr + SIZEOF_STRUCT_MEM) \<ge> sz then Some (Some ptr)
         else malloc_search h sz (hm_next mem))
      else Some None)"

definition count_used :: "u32 \<Rightarrow> small_mem \<Rightarrow> small_mem" where
  "count_used n h = (let u = used_mem h + n in h\<lparr>used_mem := u, max_mem := (if max_mem h < u then u else max_mem h)\<rparr>)"

definition malloc_take :: "u32 \<Rightarrow> u32 \<Rightarrow> small_mem \<Rightarrow> small_mem" where
  "malloc_take sz ptr h =
     (if hm_next (hdr h ptr) - (ptr + SIZEOF_STRUCT_MEM) \<ge> sz + SIZEOF_STRUCT_MEM + MIN_SIZE_ALIGNED then
        let ptr2 = ptr + SIZEOF_STRUCT_MEM + sz;
            h1 = upd_hdr ptr2 (\<lambda>b. \<lparr>hm_magic = HEAP_MAGIC, hm_used = 0, hm_next = hm_next (hdr h ptr), hm_prev = ptr\<rparr>) h;
            h2 = upd_hdr ptr (\<lambda>b. b\<lparr>hm_next := ptr2, hm_used := 1\<rparr>) h1;
            h3 = (if hm_next (hdr h2 ptr2) \<noteq> mem_size_aligned h2 + SIZEOF_STRUCT_MEM
                  then upd_hdr (hm_next (hdr h2 ptr2)) (\<lambda>b. b\<lparr>hm_prev := ptr2\<rparr>) h2 else h2)
        in upd_hdr ptr (\<lambda>b. b\<lparr>hm_magic := HEAP_MAGIC\<rparr>) (count_used (sz + SIZEOF_STRUCT_MEM) h3)
      else
        let h1 = upd_hdr ptr (\<lambda>b. b\<lparr>hm_used := 1\<rparr>) h
        in upd_hdr ptr (\<lambda>b. b\<lparr>hm_magic := HEAP_MAGIC\<rparr>) (count_used (hm_next (hdr h1 ptr) - ptr) h1))"

partial_function (option) lfree_walk :: "small_mem \<Rightarrow> u32 \<Rightarrow> u32 option" where
  "lfree_walk h p =
     (if hm_used (hdr h p) \<noteq> 0 \<and> p \<noteq> heap_end h then lfree_walk h (hm_next (hdr h p)) else Some p)"

definition advance_lfree :: "u32 \<Rightarrow> small_mem \<Rightarrow> small_mem option" where
  "advance_lfree mem h =
     (if mem = lfree h then do {
        p \<leftarrow> lfree_walk h (lfree h);
        rt_assert (p = heap_end h \<or> hm_used (hdr h p) = 0);
        Some (h\<lparr>lfree := p\<rparr>)
      }
      else Some h)"

text \<open>\<^verbatim>\<open>rt_malloc\<close> while it has the semaphore. The result is the address of the data, or 0.\<close>

definition malloc_locked :: "u32 \<Rightarrow> small_mem \<Rightarrow> (small_mem \<times> u32) option" where
  "malloc_locked sz h = do {
     found \<leftarrow> malloc_search h sz (lfree h);
     (case found of
        None \<Rightarrow> Some (h, 0)
      | Some mem \<Rightarrow> do {
          h1 \<leftarrow> advance_lfree mem (malloc_take sz mem h);
          let addr = heap_ptr h1 + mem;
          rt_assert (addr + SIZEOF_STRUCT_MEM + sz \<le> heap_ptr h1 + heap_end h1);
          rt_assert ((addr + SIZEOF_STRUCT_MEM) mod RT_ALIGN_SIZE = 0);
          rt_assert (addr AND (RT_ALIGN_SIZE - 1) = 0);
          Some (h1, addr + SIZEOF_STRUCT_MEM)
        })
   }"

text \<open>\<^verbatim>\<open>rt_free\<close> while it has the semaphore; \<open>mem\<close> is the offset of the header.\<close>

definition free_locked :: "u32 \<Rightarrow> small_mem \<Rightarrow> small_mem option" where
  "free_locked mem h = do {
     rt_assert (hm_used (hdr h mem) \<noteq> 0);
     rt_assert (hm_magic (hdr h mem) = HEAP_MAGIC);
     let h1 = upd_hdr mem (\<lambda>b. b\<lparr>hm_used := 0, hm_magic := HEAP_MAGIC\<rparr>) h;
     let h2 = (if mem < lfree h1 then h1\<lparr>lfree := mem\<rparr> else h1);
     let h3 = h2\<lparr>used_mem := used_mem h2 - (hm_next (hdr h2 mem) - mem)\<rparr>;
     plug_holes mem h3
   }"

text \<open>
  \<^verbatim>\<open>rt_realloc\<close> while it has the semaphore: \<open>Inl\<close> is a block kept in place, \<open>Inr\<close> the size of a block
  that has to be moved.
\<close>

definition realloc_split :: "u32 \<Rightarrow> u32 \<Rightarrow> u32 \<Rightarrow> small_mem \<Rightarrow> small_mem option" where
  "realloc_split newsize sz ptr h = do {
     let h1 = h\<lparr>used_mem := used_mem h - (sz - newsize)\<rparr>;
     let ptr2 = ptr + SIZEOF_STRUCT_MEM + newsize;
     let h2 = upd_hdr ptr2 (\<lambda>b. \<lparr>hm_magic = HEAP_MAGIC, hm_used = 0, hm_next = hm_next (hdr h1 ptr), hm_prev = ptr\<rparr>) h1;
     let h3 = upd_hdr ptr (\<lambda>b. b\<lparr>hm_next := ptr2\<rparr>) h2;
     let h4 = (if hm_next (hdr h3 ptr2) \<noteq> mem_size_aligned h3 + SIZEOF_STRUCT_MEM
               then upd_hdr (hm_next (hdr h3 ptr2)) (\<lambda>b. b\<lparr>hm_prev := ptr2\<rparr>) h3 else h3);
     plug_holes ptr2 h4
   }"

definition realloc_locked :: "u32 \<Rightarrow> u32 \<Rightarrow> small_mem \<Rightarrow> (small_mem \<times> u32 option) option" where
  "realloc_locked rmem newsize h =
     (if rmem < heap_ptr h \<or> rmem \<ge> heap_ptr h + heap_end h then Some (h, None)
      else
        let ptr = rmem - heap_ptr h - SIZEOF_STRUCT_MEM;
            sz = hm_next (hdr h ptr) - ptr - SIZEOF_STRUCT_MEM
        in if sz = newsize then Some (h, None)
           else if newsize + SIZEOF_STRUCT_MEM + 12 < sz then do {
             h' \<leftarrow> realloc_split newsize sz ptr h;
             Some (h', None)
           }
           else Some (h, Some sz))"

text \<open>
  The calls. The static semaphore \<^verbatim>\<open>heap_sem\<close> has a number as every semaphore. A call that has to wait
  for it returns \<open>Blocks\<close>; what it does once it runs again is the definition with \<open>_end\<close> in its name.
  \<^verbatim>\<open>rt_realloc\<close> may also wait in the calls of \<^verbatim>\<open>rt_malloc\<close> and \<^verbatim>\<open>rt_free\<close> it makes.
\<close>

record kmem = kernel +
  smem :: small_mem
  heap_sem :: nat

abbreviation RT_WAITING_FOREVER :: u32 where "RT_WAITING_FOREVER \<equiv> - 1"

definition rt_system_heap_init :: "u32 \<Rightarrow> u32 \<Rightarrow> 'a kmem_scheme \<Rightarrow> 'a kmem_scheme option" where
  "rt_system_heap_init begin_addr end_addr s = do {
     rt_debug_not_in_interrupt s;
     (case mem_setup begin_addr end_addr (smem s) of
        None \<Rightarrow> Some s
      | Some h \<Rightarrow> map_option fst (rt_sem_init (heap_sem s) [0x68, 0x65, 0x61, 0x70] 1 RT_IPC_FLAG_FIFO (s\<lparr>smem := h\<rparr>)))
   }"

definition heap_unlock :: "small_mem \<Rightarrow> 'a kmem_scheme \<Rightarrow> 'a kmem_scheme option" where
  "heap_unlock h s = map_option fst (rt_sem_release (heap_sem s) (s\<lparr>smem := h\<rparr>))"

definition rt_malloc_end :: "u32 \<Rightarrow> 'a kmem_scheme \<Rightarrow> ('a kmem_scheme \<times> u32) option" where
  "rt_malloc_end sz s = do {
     (h, p) \<leftarrow> malloc_locked sz (smem s);
     s1 \<leftarrow> heap_unlock h s;
     Some (s1, p)
   }"

definition rt_malloc :: "u32 \<Rightarrow> 'a kmem_scheme \<Rightarrow> ('a kmem_scheme \<times> u32 call) option" where
  "rt_malloc sz s =
     (if sz = 0 then Some (s, Returns 0)
      else do {
        rt_debug_not_in_interrupt s;
        let sz1 = RT_ALIGN sz RT_ALIGN_SIZE;
        if sz1 > mem_size_aligned (smem s) then Some (s, Returns 0)
        else do {
          let sz2 = (if sz1 < MIN_SIZE_ALIGNED then MIN_SIZE_ALIGNED else sz1);
          (s1, r) \<leftarrow> rt_sem_take (heap_sem s) RT_WAITING_FOREVER s;
          (case r of
             Blocks \<Rightarrow> Some (s1, Blocks)
           | Returns _ \<Rightarrow> do { (s2, p) \<leftarrow> rt_malloc_end sz2 s1; Some (s2, Returns p) })
        }
      })"

definition rt_free_end :: "u32 \<Rightarrow> 'a kmem_scheme \<Rightarrow> 'a kmem_scheme option" where
  "rt_free_end mem s = do {
     h \<leftarrow> free_locked mem (smem s);
     heap_unlock h s
   }"

definition rt_free :: "u32 \<Rightarrow> 'a kmem_scheme \<Rightarrow> ('a kmem_scheme \<times> unit call) option" where
  "rt_free rmem s =
     (if rmem = 0 then Some (s, Returns ())
      else do {
        let h = smem s;
        rt_debug_not_in_interrupt s;
        rt_assert (rmem AND (RT_ALIGN_SIZE - 1) = 0);
        rt_assert (rmem \<ge> heap_ptr h \<and> rmem < heap_ptr h + heap_end h);
        if rmem < heap_ptr h \<or> rmem \<ge> heap_ptr h + heap_end h then Some (s, Returns ())
        else do {
          (s1, r) \<leftarrow> rt_sem_take (heap_sem s) RT_WAITING_FOREVER s;
          (case r of
             Blocks \<Rightarrow> Some (s1, Blocks)
           | Returns _ \<Rightarrow> do { s2 \<leftarrow> rt_free_end (rmem - heap_ptr h - SIZEOF_STRUCT_MEM) s1; Some (s2, Returns ()) })
        }
      })"

text \<open>Moving a block that \<^verbatim>\<open>rt_realloc\<close> cannot resize in place, once \<^verbatim>\<open>rt_malloc\<close> has returned \<open>nmem\<close>.\<close>

definition realloc_move ::
  "u32 \<Rightarrow> u32 \<Rightarrow> u32 \<Rightarrow> u32 \<Rightarrow> 'a kmem_scheme \<Rightarrow> ('a kmem_scheme \<times> u32 call) option" where
  "realloc_move rmem newsize sz nmem s =
     (if nmem = 0 then Some (s, Returns 0)
      else do {
        let h = smem s;
        let bytes = rt_memcpy (unat (nmem - heap_ptr h)) (unat (rmem - heap_ptr h))
          (unat (if sz < newsize then sz else newsize)) (heap_bytes h);
        (s1, r) \<leftarrow> rt_free rmem (s\<lparr>smem := h\<lparr>heap_bytes := bytes\<rparr>\<rparr>);
        Some (s1, case r of Blocks \<Rightarrow> Blocks | Returns _ \<Rightarrow> Returns nmem)
      })"

definition rt_realloc_end :: "u32 \<Rightarrow> u32 \<Rightarrow> 'a kmem_scheme \<Rightarrow> ('a kmem_scheme \<times> u32 call) option" where
  "rt_realloc_end rmem newsize s = do {
     (h, move) \<leftarrow> realloc_locked rmem newsize (smem s);
     s1 \<leftarrow> heap_unlock h s;
     (case move of
        None \<Rightarrow> Some (s1, Returns rmem)
      | Some sz \<Rightarrow> do {
          (s2, r) \<leftarrow> rt_malloc newsize s1;
          (case r of
             Blocks \<Rightarrow> Some (s2, Blocks)
           | Returns nmem \<Rightarrow> realloc_move rmem newsize sz nmem s2)
        })
   }"

definition rt_realloc :: "u32 \<Rightarrow> u32 \<Rightarrow> 'a kmem_scheme \<Rightarrow> ('a kmem_scheme \<times> u32 call) option" where
  "rt_realloc rmem newsize s = do {
     rt_debug_not_in_interrupt s;
     let newsize1 = RT_ALIGN newsize RT_ALIGN_SIZE;
     if newsize1 > mem_size_aligned (smem s) then Some (s, Returns 0)
     else if newsize1 = 0 then do {
       (s1, r) \<leftarrow> rt_free rmem s;
       Some (s1, case r of Blocks \<Rightarrow> Blocks | Returns _ \<Rightarrow> Returns 0)
     }
     else if rmem = 0 then rt_malloc newsize1 s
     else do {
       (s1, r) \<leftarrow> rt_sem_take (heap_sem s) RT_WAITING_FOREVER s;
       (case r of Blocks \<Rightarrow> Some (s1, Blocks) | Returns _ \<Rightarrow> rt_realloc_end rmem newsize1 s1)
     }
   }"

text \<open>The part of \<^verbatim>\<open>rt_calloc\<close> after \<^verbatim>\<open>rt_malloc\<close>.\<close>

definition calloc_zero :: "u32 \<Rightarrow> u32 \<Rightarrow> 'a kmem_scheme \<Rightarrow> 'a kmem_scheme" where
  "calloc_zero p n s =
     (if p \<noteq> 0
      then s\<lparr>smem := (smem s)\<lparr>heap_bytes := rt_memset (unat (p - heap_ptr (smem s))) 0 (unat n) (heap_bytes (smem s))\<rparr>\<rparr>
      else s)"

definition rt_calloc :: "u32 \<Rightarrow> u32 \<Rightarrow> 'a kmem_scheme \<Rightarrow> ('a kmem_scheme \<times> u32 call) option" where
  "rt_calloc count sz s = do {
     (s1, r) \<leftarrow> rt_malloc (count * sz) s;
     Some (case r of Blocks \<Rightarrow> (s1, Blocks) | Returns p \<Rightarrow> (calloc_zero p (count * sz) s1, Returns p))
   }"

definition rt_memory_info :: "'a kmem_scheme \<Rightarrow> u32 \<times> u32 \<times> u32" where
  "rt_memory_info s = (mem_size_aligned (smem s), used_mem (smem s), max_mem (smem s))"

section \<open>Headers in memory\<close>

lemma put_hdr_outside:
  "i < unat p \<or> unat p + 12 \<le> i \<Longrightarrow> put_hdr p x m i = m i"
  by (auto simp: put_hdr_def wr32_apply wr16_apply)

lemma get_put_same [simp]: "get_hdr (put_hdr p x m) p = x"
proof -
  let ?a = "unat p"
  let ?m1 = "wr16 ?a (hm_magic x) m"
  let ?m2 = "wr16 (?a + 2) (hm_used x) ?m1"
  let ?m3 = "wr32 (?a + 4) (hm_next x) ?m2"
  let ?m4 = "wr32 (?a + 8) (hm_prev x) ?m3"
  have "rd32 ?m4 (?a + 4) = rd32 ?m3 (?a + 4)" by (rule rd32_cong) (simp add: wr32_apply)
  moreover have "rd16 ?m4 (?a + 2) = rd16 ?m2 (?a + 2)" by (rule rd16_cong) (simp add: wr32_apply)
  moreover have "rd16 ?m4 ?a = rd16 ?m1 ?a" by (rule rd16_cong) (simp add: wr32_apply wr16_apply)
  ultimately show ?thesis by (simp add: get_hdr_def put_hdr_def)
qed

lemma get_hdr_cong: "(\<And>i. unat p \<le> i \<Longrightarrow> i < unat p + 12 \<Longrightarrow> m' i = m i) \<Longrightarrow> get_hdr m' p = get_hdr m p"
  by (auto simp: get_hdr_def intro!: rd32_cong rd16_cong)

lemma get_put_other: "unat p + 12 \<le> unat q \<or> unat q + 12 \<le> unat p \<Longrightarrow> get_hdr (put_hdr p x m) q = get_hdr m q"
  by (rule get_hdr_cong) (auto intro: put_hdr_outside)

lemma upd_hdr_sel [simp]:
  "heap_ptr (upd_hdr p f h) = heap_ptr h" "heap_end (upd_hdr p f h) = heap_end h" "lfree (upd_hdr p f h) = lfree h"
  "mem_size_aligned (upd_hdr p f h) = mem_size_aligned h" "used_mem (upd_hdr p f h) = used_mem h"
  "max_mem (upd_hdr p f h) = max_mem h"
  "heap_bytes (upd_hdr p f h) = put_hdr p (f (hdr h p)) (heap_bytes h)"
  by (simp_all add: upd_hdr_def)

lemma count_used_sel [simp]:
  "heap_ptr (count_used n h) = heap_ptr h" "heap_end (count_used n h) = heap_end h" "lfree (count_used n h) = lfree h"
  "mem_size_aligned (count_used n h) = mem_size_aligned h" "heap_bytes (count_used n h) = heap_bytes h"
  "used_mem (count_used n h) = used_mem h + n"
  by (simp_all add: count_used_def Let_def)

text \<open>Offsets are natural numbers below \<open>2\<^sup>3\<^sup>2\<close> in the proofs.\<close>

definition w32 :: "nat \<Rightarrow> u32" where
  "w32 k = of_nat k"

lemma unat_w32 [simp]: "k < 2 ^ 32 \<Longrightarrow> unat (w32 k) = k"
  by (simp add: w32_def unat_of_nat)

lemma w32_unat [simp]: "w32 (unat w) = w"
  by (simp add: w32_def)

lemma w32_eq: "a < 2 ^ 32 \<Longrightarrow> b < 2 ^ 32 \<Longrightarrow> (w32 a = w32 b) = (a = b)"
  by (metis unat_w32)

lemma w32_less: "a < 2 ^ 32 \<Longrightarrow> b < 2 ^ 32 \<Longrightarrow> (w32 a < w32 b) = (a < b)"
  by (simp add: word_less_nat_alt)

lemma w32_le: "a < 2 ^ 32 \<Longrightarrow> b < 2 ^ 32 \<Longrightarrow> (w32 a \<le> w32 b) = (a \<le> b)"
  by (simp add: word_le_nat_alt)

lemma w32_add: "w32 a + w32 b = w32 (a + b)"
  by (simp add: w32_def)

lemma w32_diff: "b \<le> a \<Longrightarrow> w32 a - w32 b = w32 (a - b)"
  by (simp add: w32_def of_nat_diff)

lemma w32_numeral: "w32 a + numeral k = w32 (a + numeral k)" "w32 0 = 0" "w32 (numeral k) = numeral k"
  by (simp_all add: w32_def)

section \<open>The heap as a list of blocks\<close>

text \<open>A block is used or free and has a length, header included.\<close>

type_synonym blocks = "(bool \<times> nat) list"

definition span :: "blocks \<Rightarrow> nat" where
  "span bs = sum_list (map snd bs)"

fun blocks_at :: "memory \<Rightarrow> nat \<Rightarrow> nat \<Rightarrow> blocks \<Rightarrow> bool" where
  "blocks_at m pv off [] = True"
| "blocks_at m pv off ((u, n) # bs) =
     (12 \<le> n \<and> 4 dvd n \<and>
      get_hdr m (w32 off) = \<lparr>hm_magic = HEAP_MAGIC, hm_used = of_bool u, hm_next = w32 (off + n), hm_prev = w32 pv\<rparr> \<and>
      blocks_at m off (off + n) bs)"

text \<open>The offset of the last block of \<open>xs\<close>, or \<open>pv\<close> when there is none.\<close>

fun last_off :: "nat \<Rightarrow> nat \<Rightarrow> blocks \<Rightarrow> nat" where
  "last_off pv off [] = pv"
| "last_off pv off (b # bs) = last_off off (off + snd b) bs"

lemma span_simps [simp]: "span [] = 0" "span (b # bs) = snd b + span bs" "span (xs @ ys) = span xs + span ys"
  by (simp_all add: span_def)

lemma blocks_at_append:
  "blocks_at m pv off (xs @ ys) \<longleftrightarrow> blocks_at m pv off xs \<and> blocks_at m (last_off pv off xs) (off + span xs) ys"
  by (induction m pv off xs rule: blocks_at.induct) (auto simp: add.assoc)

lemma last_off_snoc [simp]: "last_off pv off (xs @ [b]) = off + span xs"
  by (induction xs arbitrary: pv off) (auto simp: add.assoc)

lemma blocks_at_cong:
  "off + span bs < 2 ^ 32 \<Longrightarrow> (\<And>i. off \<le> i \<Longrightarrow> i < off + span bs \<Longrightarrow> m' i = m i) \<Longrightarrow>
   blocks_at m' pv off bs = blocks_at m pv off bs"
proof (induction m pv off bs rule: blocks_at.induct)
  case (2 m pv off u n bs)
  have "get_hdr m' (w32 off) = get_hdr m (w32 off)" if "12 \<le> n"
    using that 2(2) by (intro get_hdr_cong 2(3)) auto
  then show ?case using 2 by auto
qed simp

lemma blocks_at_put:
  assumes "off + span bs < 2 ^ 32" "off + span bs \<le> unat p \<or> unat p + 12 \<le> off"
  shows "blocks_at (put_hdr p x m) pv off bs = blocks_at m pv off bs"
  using assms by (intro blocks_at_cong put_hdr_outside) auto

text \<open>Changing the link to the block before.\<close>

definition set_prev :: "nat \<Rightarrow> nat \<Rightarrow> memory \<Rightarrow> memory" where
  "set_prev off pv m = put_hdr (w32 off) ((get_hdr m (w32 off))\<lparr>hm_prev := w32 pv\<rparr>) m"

lemma blocks_at_set_prev:
  assumes "blocks_at m pv off (b # bs)" "off + span (b # bs) < 2 ^ 32"
  shows "blocks_at (set_prev off pv' m) pv' off (b # bs)"
proof (cases b)
  case (Pair u n)
  have "blocks_at (set_prev off pv' m) off (off + n) bs = blocks_at m off (off + n) bs"
    unfolding set_prev_def using assms Pair by (intro blocks_at_put) auto
  then show ?thesis using assms Pair by (simp add: set_prev_def)
qed

text \<open>The bytes that belong to the users of the heap.\<close>

fun data_cells :: "nat \<Rightarrow> blocks \<Rightarrow> nat set" where
  "data_cells off [] = {}"
| "data_cells off ((u, n) # bs) = (if u then {off + 12..<off + n} else {}) \<union> data_cells (off + n) bs"

definition wf_mem :: "memory \<Rightarrow> blocks \<Rightarrow> bool" where
  "wf_mem m bs \<longleftrightarrow> blocks_at m 0 0 bs \<and> hm_used (get_hdr m (w32 (span bs))) = 1 \<and> span bs + 12 < 2 ^ 32"

lemma data_cells_append: "data_cells off (xs @ ys) = data_cells off xs \<union> data_cells (off + span xs) ys"
  by (induction off xs rule: data_cells.induct) (auto simp: add.assoc)

lemma data_cells_range: "data_cells off bs \<subseteq> {off..<off + span bs}"
proof (induction off bs rule: data_cells.induct)
  case (2 off u n bs)
  then show ?case by (auto split: if_splits)
qed simp

lemma put_hdr_data:
  assumes i: "i \<in> data_cells 0 (xs @ b # ys)" and b: "12 \<le> snd b"
    and p: "unat p = span xs \<or> \<not> fst b \<and> span xs \<le> unat p \<and> unat p + 12 \<le> span xs + snd b \<or> span (xs @ b # ys) \<le> unat p"
  shows "put_hdr p x m i = m i"
proof (rule put_hdr_outside)
  obtain u n where bn: "b = (u, n)" by (cases b)
  have "i \<in> data_cells 0 xs \<Longrightarrow> i < span xs"
    "i \<in> data_cells (span xs + n) ys \<Longrightarrow> span xs + n \<le> i \<and> i < span xs + n + span ys"
    using data_cells_range[of 0 xs] data_cells_range[of "span xs + n" ys] by auto
  then show "i < unat p \<or> unat p + 12 \<le> i"
    using i p b bn by (auto simp: data_cells_append split: if_splits)
qed

text \<open>
  The three changes of the list: marking a block, splitting one and merging two. None of them
  touches the data of a block that is used afterwards.
\<close>

definition mark_mem :: "nat \<Rightarrow> bool \<Rightarrow> memory \<Rightarrow> memory" where
  "mark_mem off u m =
     put_hdr (w32 off) ((get_hdr m (w32 off))\<lparr>hm_magic := HEAP_MAGIC, hm_used := of_bool u\<rparr>) m"

lemma mark_block:
  assumes wf: "wf_mem m (xs @ (u, n) # ys)"
  shows "wf_mem (mark_mem (span xs) u' m) (xs @ (u', n) # ys)"
    "i \<in> data_cells 0 (xs @ (u', n) # ys) \<Longrightarrow> mark_mem (span xs) u' m i = m i"
proof -
  let ?p = "w32 (span xs) :: u32"
  have b: "blocks_at m 0 0 xs" "12 \<le> n" "4 dvd n" "blocks_at m (span xs) (span xs + n) ys"
    "get_hdr m ?p = \<lparr>hm_magic = HEAP_MAGIC, hm_used = of_bool u, hm_next = w32 (span xs + n), hm_prev = w32 (last_off 0 0 xs)\<rparr>"
    and lt: "span xs + n + span ys + 12 < 2 ^ 32"
    using wf by (auto simp: wf_mem_def blocks_at_append)
  have p: "unat ?p = span xs" using lt by simp
  have "blocks_at (mark_mem (span xs) u' m) 0 0 xs" "blocks_at (mark_mem (span xs) u' m) (span xs) (span xs + n) ys"
    unfolding mark_mem_def using b lt p blocks_at_put[of 0 xs ?p] blocks_at_put[of "span xs + n" ys ?p] by auto
  moreover have "get_hdr (mark_mem (span xs) u' m) (w32 (span xs + n + span ys)) = get_hdr m (w32 (span xs + n + span ys))"
    unfolding mark_mem_def using lt b(2) p by (intro get_put_other) auto
  ultimately show "wf_mem (mark_mem (span xs) u' m) (xs @ (u', n) # ys)"
    using wf b lt by (simp add: wf_mem_def blocks_at_append mark_mem_def add.assoc)
  assume "i \<in> data_cells 0 (xs @ (u', n) # ys)"
  then show "mark_mem (span xs) u' m i = m i"
    unfolding mark_mem_def using put_hdr_data[of i xs "(u', n)" ys ?p] b p by simp
qed

text \<open>After the blocks \<open>zs\<close> have changed, the next block is linked to the last of them.\<close>

lemma relink:
  assumes zs: "blocks_at m 0 0 zs" and ys: "blocks_at m pv (span zs) ys"
    and e: "hm_used (get_hdr m (w32 (span zs + span ys))) = 1" and lt: "span zs + span ys + 12 < 2 ^ 32"
    and m': "m' = set_prev (span zs) (last_off 0 0 zs) m \<or> ys = [] \<and> m' = m"
  shows "wf_mem m' (zs @ ys)" "i \<in> data_cells 0 (zs @ ys) \<Longrightarrow> m' i = m i"
proof -
  let ?m = "set_prev (span zs) (last_off 0 0 zs) m"
  have u: "unat (w32 (span zs)) = span zs" using lt by simp
  have f: "blocks_at ?m 0 0 zs" using zs lt u by (simp add: set_prev_def blocks_at_put)
  have "blocks_at ?m (last_off 0 0 zs) (span zs) ys"
  proof (cases ys)
    case (Cons b bs)
    then show ?thesis using blocks_at_set_prev[of m pv "span zs" b bs] ys lt by auto
  qed simp
  moreover have "hm_used (get_hdr ?m (w32 (span zs + span ys))) = 1"
  proof (cases ys)
    case (Cons b bs)
    then have "12 \<le> snd b" using ys by (cases b) simp
    then show ?thesis unfolding set_prev_def using e lt u Cons by (subst get_put_other) auto
  qed (use e in \<open>simp add: set_prev_def\<close>)
  ultimately show "wf_mem m' (zs @ ys)"
    using f zs e lt m' by (auto simp: wf_mem_def blocks_at_append)
  assume i: "i \<in> data_cells 0 (zs @ ys)"
  have "?m i = m i"
  proof (cases ys)
    case Nil
    then have "i < span zs" using i data_cells_range[of 0 zs] by auto
    then show ?thesis unfolding set_prev_def using u by (simp add: put_hdr_outside)
  next
    case (Cons b bs)
    then have "12 \<le> snd b" using ys by (cases b) simp
    then show ?thesis unfolding set_prev_def using put_hdr_data[of i zs b bs] i Cons u by simp
  qed
  then show "m' i = m i" using m' by auto
qed

definition split_mem :: "nat \<Rightarrow> nat \<Rightarrow> nat \<Rightarrow> bool \<Rightarrow> memory \<Rightarrow> memory" where
  "split_mem off k e u m =
     (let m1 = put_hdr (w32 (off + k)) \<lparr>hm_magic = HEAP_MAGIC, hm_used = 0,
                 hm_next = hm_next (get_hdr m (w32 off)), hm_prev = w32 off\<rparr> m;
          m2 = put_hdr (w32 off) ((get_hdr m1 (w32 off))\<lparr>hm_next := w32 (off + k), hm_used := of_bool u\<rparr>) m1
      in if hm_next (get_hdr m (w32 off)) \<noteq> w32 e
         then set_prev (unat (hm_next (get_hdr m (w32 off)))) (off + k) m2 else m2)"

lemma split_block:
  assumes wf: "wf_mem m (xs @ (u, n) # ys)" and k: "12 \<le> k" "k + 12 \<le> n" "4 dvd k"
    and e: "e = span (xs @ (u, n) # ys)"
  shows "wf_mem (split_mem (span xs) k e u' m) (xs @ (u', k) # (False, n - k) # ys)"
    "i \<in> data_cells 0 (xs @ (u', k) # (False, n - k) # ys) \<Longrightarrow> split_mem (span xs) k e u' m i = m i"
proof -
  let ?p = "w32 (span xs) :: u32" and ?q = "w32 (span xs + k) :: u32" and ?r = "w32 (span xs + n) :: u32"
  let ?m1 = "put_hdr ?q \<lparr>hm_magic = HEAP_MAGIC, hm_used = 0, hm_next = ?r, hm_prev = ?p\<rparr> m"
  let ?m2 = "put_hdr ?p ((get_hdr ?m1 ?p)\<lparr>hm_next := ?q, hm_used := of_bool u'\<rparr>) ?m1"
  have b: "blocks_at m 0 0 xs" "12 \<le> n" "4 dvd n" "blocks_at m (span xs) (span xs + n) ys"
    "get_hdr m ?p = \<lparr>hm_magic = HEAP_MAGIC, hm_used = of_bool u, hm_next = ?r, hm_prev = w32 (last_off 0 0 xs)\<rparr>"
    and lt: "span xs + n + span ys + 12 < 2 ^ 32"
    using wf by (auto simp: wf_mem_def blocks_at_append)
  have u: "unat ?p = span xs" "unat ?q = span xs + k" "unat ?r = span xs + n" using lt k by simp_all
  have frame: "blocks_at ?m2 0 0 xs" "blocks_at ?m2 (span xs) (span xs + n) ys"
    using b lt k u by (auto simp: blocks_at_put)
  have hdrs: "get_hdr ?m2 ?p = \<lparr>hm_magic = HEAP_MAGIC, hm_used = of_bool u', hm_next = ?q, hm_prev = w32 (last_off 0 0 xs)\<rparr>"
    "get_hdr ?m2 ?q = \<lparr>hm_magic = HEAP_MAGIC, hm_used = 0, hm_next = ?r, hm_prev = ?p\<rparr>"
    using b k lt u by (simp_all add: get_put_other)
  have en: "hm_used (get_hdr ?m2 (w32 (span xs + n + span ys))) = 1"
    using wf lt u k by (simp add: wf_mem_def get_put_other add.assoc)
  have d: "?m2 i = m i" if "i \<in> data_cells 0 (xs @ (u', k) # (False, n - k) # ys)" for i
    using put_hdr_data[of i xs "(u', k)" "(False, n - k) # ys" ?p] put_hdr_data[of i "xs @ [(u', k)]" "(False, n - k)" ys ?q]
      that k u by simp
  let ?zs = "xs @ [(u', k), (False, n - k)]"
  have zs: "blocks_at ?m2 0 0 ?zs" "span ?zs = span xs + n" "last_off 0 0 ?zs = span xs + k"
    using frame(1) hdrs k b last_off_snoc[of 0 0 "xs @ [(u', k)]" "(False, n - k)"] by (auto simp: blocks_at_append)
  have "?r \<noteq> w32 e \<longleftrightarrow> ys \<noteq> []"
    using lt b(4) e by (cases ys) (auto simp: w32_eq)
  then have s: "split_mem (span xs) k e u' m = set_prev (span ?zs) (last_off 0 0 ?zs) ?m2 \<or>
      ys = [] \<and> split_mem (span xs) k e u' m = ?m2"
    using b(5) u zs by (auto simp: split_mem_def Let_def)
  have "wf_mem (split_mem (span xs) k e u' m) (?zs @ ys)"
    by (rule relink(1)[OF zs(1) _ _ _ s]) (use frame en lt k in \<open>auto simp: zs add.assoc\<close>)
  then show "wf_mem (split_mem (span xs) k e u' m) (xs @ (u', k) # (False, n - k) # ys)" by simp
  assume i: "i \<in> data_cells 0 (xs @ (u', k) # (False, n - k) # ys)"
  have "split_mem (span xs) k e u' m i = ?m2 i"
    by (rule relink(2)[OF zs(1) _ _ _ s]) (use frame en lt k i in \<open>auto simp: zs add.assoc\<close>)
  then show "split_mem (span xs) k e u' m i = m i" using d[OF i] by simp
qed

definition merge_mem :: "nat \<Rightarrow> nat \<Rightarrow> memory \<Rightarrow> memory" where
  "merge_mem off nx m = set_prev nx off (put_hdr (w32 off) ((get_hdr m (w32 off))\<lparr>hm_next := w32 nx\<rparr>) m)"

lemma merge_block:
  assumes wf: "wf_mem m (xs @ (False, n) # (False, k) # ys)"
  shows "wf_mem (merge_mem (span xs) (span xs + n + k) m) (xs @ (False, n + k) # ys)"
    "i \<in> data_cells 0 (xs @ (False, n) # (False, k) # ys) \<Longrightarrow> merge_mem (span xs) (span xs + n + k) m i = m i"
proof -
  let ?p = "w32 (span xs)" and ?nx = "span xs + n + k" and ?zs = "xs @ [(False, n + k)]"
  let ?m1 = "put_hdr ?p ((get_hdr m ?p)\<lparr>hm_next := w32 ?nx\<rparr>) m"
  have b: "blocks_at m 0 0 xs" "12 \<le> n" "4 dvd n" "12 \<le> k" "4 dvd k" "blocks_at m (span xs + n) ?nx ys"
    "get_hdr m ?p = \<lparr>hm_magic = HEAP_MAGIC, hm_used = 0, hm_next = w32 (span xs + n), hm_prev = w32 (last_off 0 0 xs)\<rparr>"
    and lt: "?nx + span ys + 12 < 2 ^ 32"
    using wf by (auto simp: wf_mem_def blocks_at_append add.assoc)
  have u: "unat ?p = span xs" using lt by simp
  have zs: "blocks_at ?m1 0 0 ?zs" "span ?zs = ?nx" "last_off 0 0 ?zs = span xs"
    using b lt u by (auto simp: blocks_at_append blocks_at_put add.assoc)
  have "blocks_at ?m1 (span xs + n) ?nx ys" using b lt u by (simp add: blocks_at_put)
  moreover have "hm_used (get_hdr ?m1 (w32 (?nx + span ys))) = 1"
    using wf b lt u by (simp add: wf_mem_def get_put_other add.assoc)
  moreover have "merge_mem (span xs) ?nx m = set_prev (span ?zs) (last_off 0 0 ?zs) ?m1"
    unfolding zs(2,3) by (simp add: merge_mem_def)
  ultimately have r: "wf_mem (merge_mem (span xs) ?nx m) (?zs @ ys)"
    "i \<in> data_cells 0 (?zs @ ys) \<Longrightarrow> merge_mem (span xs) ?nx m i = ?m1 i" for i
    using relink[OF zs(1), of "span xs + n" ys "merge_mem (span xs) ?nx m"] lt unfolding zs(2) by auto
  then show "wf_mem (merge_mem (span xs) ?nx m) (xs @ (False, n + k) # ys)" by simp
  assume i: "i \<in> data_cells 0 (xs @ (False, n) # (False, k) # ys)"
  then have "i \<in> data_cells 0 (?zs @ ys)" by (simp add: data_cells_append add.assoc)
  moreover have "?m1 i = m i" using put_hdr_data[of i xs "(False, n)" "(False, k) # ys" ?p] i b u by simp
  ultimately show "merge_mem (span xs) ?nx m i = m i" using r(2) by simp
qed

section \<open>Invariant\<close>

definition used_span :: "blocks \<Rightarrow> nat" where
  "used_span bs = span (filter fst bs)"

definition coalesced :: "blocks \<Rightarrow> bool" where
  "coalesced bs \<longleftrightarrow> successively (\<lambda>x y. fst x \<or> fst y) bs"

definition starts_free :: "blocks \<Rightarrow> bool" where
  "starts_free ys \<longleftrightarrow> (case ys of [] \<Rightarrow> True | (u, _) # _ \<Rightarrow> \<not> u)"

text \<open>
  \<open>heap_blocks h xs ys\<close>: the heap consists of the blocks \<open>xs @ ys\<close>, and \<^verbatim>\<open>lfree\<close> points to the first of
  \<open>ys\<close>, which is free, or to the end of the heap. Between calls no two free blocks are neighbours.
\<close>

definition heap_blocks :: "small_mem \<Rightarrow> blocks \<Rightarrow> blocks \<Rightarrow> bool" where
  "heap_blocks h xs ys \<longleftrightarrow> wf_mem (heap_bytes h) (xs @ ys) \<and> xs @ ys \<noteq> [] \<and>
     unat (heap_ptr h) + span (xs @ ys) + 12 < 2 ^ 32 \<and> 4 dvd unat (heap_ptr h) \<and>
     heap_end h = w32 (span (xs @ ys)) \<and> mem_size_aligned h = w32 (span (xs @ ys) - 12) \<and>
     lfree h = w32 (span xs) \<and> starts_free ys \<and> used_mem h = w32 (used_span (xs @ ys)) \<and> used_mem h \<le> max_mem h"

definition heap_rep :: "small_mem \<Rightarrow> blocks \<Rightarrow> blocks \<Rightarrow> bool" where
  "heap_rep h xs ys \<longleftrightarrow> heap_blocks h xs ys \<and> coalesced (xs @ ys)"

lemma used_span_simps [simp]:
  "used_span [] = 0" "used_span (b # bs) = (if fst b then snd b else 0) + used_span bs"
  "used_span (xs @ ys) = used_span xs + used_span ys"
  by (simp_all add: used_span_def)

lemma used_span_le: "used_span bs \<le> span bs"
  by (induction bs) auto

lemma coalesced_simps:
  "coalesced (xs @ (u, n) # ys) \<longleftrightarrow>
     coalesced xs \<and> coalesced ys \<and> (u \<or> (xs \<noteq> [] \<longrightarrow> fst (last xs)) \<and> (ys \<noteq> [] \<longrightarrow> fst (hd ys)))"
  by (cases ys) (auto simp: coalesced_def successively_append_iff successively_Cons)

lemma coalesced_Nil [simp]: "coalesced []"
  by (simp add: coalesced_def)

lemma blocks_aligned: "blocks_at m pv off bs \<Longrightarrow> 4 dvd span bs"
  by (induction m pv off bs rule: blocks_at.induct) auto

lemma wf_mem_at:
  assumes "wf_mem m (xs @ (u, n) # ys)"
  shows "get_hdr m (w32 (span xs)) = \<lparr>hm_magic = HEAP_MAGIC, hm_used = of_bool u, hm_next = w32 (span xs + n), hm_prev = w32 (last_off 0 0 xs)\<rparr>"
    "12 \<le> n" "4 dvd n" "4 dvd span xs" "span xs + n + span ys + 12 < 2 ^ 32"
  using assms blocks_aligned[of m 0 0 xs] by (auto simp: wf_mem_def blocks_at_append add.assoc)

section \<open>Allocation\<close>

fun fits :: "nat \<Rightarrow> bool \<times> nat \<Rightarrow> bool" where
  "fits k (u, n) \<longleftrightarrow> \<not> u \<and> k + 12 \<le> n"

lemma malloc_search_ok:
  assumes "wf_mem (heap_bytes h) (zs @ ws)" "mem_size_aligned h = w32 (span (zs @ ws) - 12)" "k + 12 \<le> span (zs @ ws)"
  shows "malloc_search h (w32 k) (w32 (span zs)) = Some None \<and>
           (\<forall>us b vs. ws = us @ b # vs \<and> fits k b \<longrightarrow> vs = [] \<and> snd b = k + 12) \<or>
         (\<exists>us n vs. ws = us @ (False, n) # vs \<and> k + 12 \<le> n \<and> (\<forall>b \<in> set us. \<not> fits k b) \<and>
            malloc_search h (w32 k) (w32 (span zs)) = Some (Some (w32 (span zs + span us))))"
  using assms
proof (induction ws arbitrary: zs)
  case Nil
  then have "\<not> w32 (span zs) < mem_size_aligned h - w32 k" by (auto simp: wf_mem_def w32_diff w32_less)
  then show ?case by (simp add: malloc_search.simps)
next
  case (Cons b ws)
  obtain u n where b: "b = (u, n)" by (cases b)
  note at = wf_mem_at[of "heap_bytes h" zs u n ws, OF Cons.prems(1)[unfolded b]]
  let ?S = "span zs + n + span ws"
  have lim: "w32 (span zs) < mem_size_aligned h - w32 k \<longleftrightarrow> span zs + k + 12 < ?S"
    using Cons.prems at by (auto simp: b w32_diff w32_less add.assoc)
  have fit: "w32 k \<le> hm_next (hdr h (w32 (span zs))) - (w32 (span zs) + 12) \<longleftrightarrow> k + 12 \<le> n"
  proof -
    have "hm_next (hdr h (w32 (span zs))) - (w32 (span zs) + 12) = w32 (n - 12)"
      using at by (simp add: w32_numeral(1) w32_diff)
    moreover have "k < 2 ^ 32" using Cons.prems(3) at(5) by (simp add: b)
    ultimately show ?thesis using at by (auto simp: w32_le)
  qed
  note step = malloc_search.simps[of h "w32 k" "w32 (span zs)"]
  show ?case
  proof (cases "span zs + k + 12 < ?S")
    case False
    have "vs = [] \<and> snd c = k + 12" if d: "b # ws = us @ c # vs" "fits k c" for us c vs
    proof -
      have "n + span ws = span us + snd c + span vs" using arg_cong[OF d(1), of span] b by simp
      then have le: "span us + snd c + span vs \<le> k + 12" using False by simp
      have "k + 12 \<le> snd c" using d(2) by (cases c) simp
      moreover have "12 \<le> snd v" if "v \<in> set vs" for v :: "bool \<times> nat"
        using that wf_mem_at(2)[of "heap_bytes h" _ "fst v" "snd v"] Cons.prems(1) d(1) split_list[of v vs]
        by (metis append.assoc append_Cons prod.collapse)
      ultimately show ?thesis using le by (cases vs) (fastforce dest: meta_spec[of _ "hd vs"])+
    qed
    then show ?thesis using False lim step by auto
  next
    case lt: True
    show ?thesis
    proof (cases "fits k b")
      case True
      then show ?thesis using b lt lim fit step at by (intro disjI2 exI[of _ "[]"] exI[of _ n] exI[of _ ws]) auto
    next
      case False
      then have "\<not> (hm_used (hdr h (w32 (span zs))) = 0 \<and> w32 k \<le> hm_next (hdr h (w32 (span zs))) - (w32 (span zs) + 12))"
        using fit at(1) b by auto
      then have r: "malloc_search h (w32 k) (w32 (span zs)) = malloc_search h (w32 k) (w32 (span (zs @ [b])))"
        using lt lim step at(1) b by (auto simp: Let_def)
      have "malloc_search h (w32 k) (w32 (span (zs @ [b]))) = Some None \<and>
             (\<forall>us c vs. ws = us @ c # vs \<and> fits k c \<longrightarrow> vs = [] \<and> snd c = k + 12) \<or>
           (\<exists>us n vs. ws = us @ (False, n) # vs \<and> k + 12 \<le> n \<and> (\<forall>c \<in> set us. \<not> fits k c) \<and>
              malloc_search h (w32 k) (w32 (span (zs @ [b]))) = Some (Some (w32 (span (zs @ [b]) + span us))))"
        using Cons.IH[of "zs @ [b]"] Cons.prems by simp
      then show ?thesis
      proof (elim disjE exE conjE)
        fix us m vs
        assume "ws = us @ (False, m) # vs" "k + 12 \<le> m" "\<forall>c \<in> set us. \<not> fits k c"
          "malloc_search h (w32 k) (w32 (span (zs @ [b]))) = Some (Some (w32 (span (zs @ [b]) + span us)))"
        then show ?thesis
          using r False by (intro disjI2 exI[of _ "b # us"] exI[of _ m] exI[of _ vs]) (auto simp: add.assoc)
      qed (use r False in \<open>auto simp: Cons_eq_append_conv\<close>)
    qed
  qed
qed

text \<open>What is left of a free block of length \<open>n\<close> after \<open>k\<close> bytes have been taken from it.\<close>

definition taken :: "nat \<Rightarrow> nat \<Rightarrow> blocks" where
  "taken k n = (if k + 36 \<le> n then [(True, k + 12), (False, n - (k + 12))] else [(True, n)])"

lemma taken_ne [simp]: "taken k n \<noteq> []"
  by (simp add: taken_def)

lemma span_taken [simp]: "k + 12 \<le> n \<Longrightarrow> span (taken k n) = n"
  by (auto simp: taken_def)

lemma coalesced_taken:
  "coalesced (zs @ (False, n) # vs) \<Longrightarrow> coalesced (zs @ taken k n @ vs)"
  using coalesced_simps[of "zs @ [(True, k + 12)]" False "n - (k + 12)" vs]
  by (auto simp: taken_def coalesced_simps coalesced_simps[of "[]", simplified])

lemma mark_again:
  assumes "hm_used (get_hdr m (w32 off)) = of_bool u"
  shows "put_hdr (w32 off) ((get_hdr m (w32 off))\<lparr>hm_magic := HEAP_MAGIC\<rparr>) m = mark_mem off u m"
proof -
  have "(get_hdr m (w32 off))\<lparr>hm_magic := HEAP_MAGIC\<rparr> = (get_hdr m (w32 off))\<lparr>hm_magic := HEAP_MAGIC, hm_used := of_bool u\<rparr>"
    using assms by (cases "get_hdr m (w32 off)") simp
  then show ?thesis by (simp add: mark_mem_def)
qed

lemma malloc_take_ok:
  assumes wf: "wf_mem (heap_bytes h) (zs @ (False, n) # vs)" and k: "k + 12 \<le> n" "4 dvd k"
    and msa: "mem_size_aligned h = w32 (span (zs @ (False, n) # vs) - 12)"
    and um: "used_mem h = w32 (used_span (zs @ (False, n) # vs))"
  defines "h' \<equiv> malloc_take (w32 k) (w32 (span zs)) h"
  shows "wf_mem (heap_bytes h') (zs @ taken k n @ vs)"
    "i \<in> data_cells 0 (zs @ taken k n @ vs) \<Longrightarrow> heap_bytes h' i = heap_bytes h i"
    "used_mem h' = w32 (used_span (zs @ taken k n @ vs))" "used_mem h' \<le> max_mem h'"
    "heap_ptr h' = heap_ptr h" "heap_end h' = heap_end h" "lfree h' = lfree h" "mem_size_aligned h' = mem_size_aligned h"
proof -
  note at = wf_mem_at[OF wf]
  let ?p = "w32 (span zs)" and ?m = "heap_bytes h" and ?e = "span (zs @ (False, n) # vs)"
  have nx: "hm_next (get_hdr ?m ?p) - (?p + 12) = w32 (n - 12)" using at by (simp add: w32_numeral(1) w32_diff)
  have big: "w32 k + 12 + 12 \<le> hm_next (get_hdr ?m ?p) - (?p + 12) \<longleftrightarrow> k + 36 \<le> n"
    unfolding nx using at k by (auto simp: w32_numeral(1) w32_le)
  have all: "wf_mem (heap_bytes h') (zs @ taken k n @ vs) \<and>
      (\<forall>i \<in> data_cells 0 (zs @ taken k n @ vs). heap_bytes h' i = ?m i) \<and>
      used_mem h' = w32 (used_span (zs @ taken k n @ vs))"
  proof (cases "k + 36 \<le> n")
    case True
    have q: "?p + 12 + w32 k = w32 (span zs + (k + 12))" by (simp add: w32_numeral(1) w32_add add_ac)
    let ?m1 = "split_mem (span zs) (k + 12) ?e True ?m"
    have s: "wf_mem ?m1 (zs @ (True, k + 12) # (False, n - (k + 12)) # vs)"
      "\<And>i. i \<in> data_cells 0 (zs @ (True, k + 12) # (False, n - (k + 12)) # vs) \<Longrightarrow> ?m1 i = ?m i"
      using split_block[OF wf, where k = "k + 12" and e = ?e and u' = True] True k by auto
    have "heap_bytes h' = put_hdr ?p ((get_hdr ?m1 ?p)\<lparr>hm_magic := HEAP_MAGIC\<rparr>) ?m1"
      unfolding h'_def malloc_take_def Let_def using True big at msa q
      by (simp add: split_mem_def set_prev_def Let_def w32_numeral(1) get_put_other)
    then have "heap_bytes h' = mark_mem (span zs) True ?m1" using wf_mem_at(1)[OF s(1)] mark_again[of ?m1 "span zs" True] by simp
    moreover have "used_mem h' = used_mem h + (w32 k + 12)"
      unfolding h'_def malloc_take_def Let_def using True big by simp
    ultimately show ?thesis
      using mark_block[OF s(1), where u' = True] s(2) True um by (auto simp: taken_def w32_numeral(1) w32_add add_ac)
  next
    case False
    let ?m1 = "mark_mem (span zs) True ?m"
    have f: "wf_mem ?m1 (zs @ (True, n) # vs)"
      "\<And>i. i \<in> data_cells 0 (zs @ (True, n) # vs) \<Longrightarrow> ?m1 i = ?m i"
      using mark_block[OF wf, where u' = True] by auto
    have m1: "put_hdr ?p ((get_hdr ?m ?p)\<lparr>hm_used := 1\<rparr>) ?m = ?m1" using at(1) by (simp add: mark_mem_def)
    have "heap_bytes h' = put_hdr ?p ((get_hdr ?m1 ?p)\<lparr>hm_magic := HEAP_MAGIC\<rparr>) ?m1"
      "used_mem h' = used_mem h + (hm_next (get_hdr ?m1 ?p) - ?p)"
      unfolding h'_def malloc_take_def Let_def using False big m1 by simp_all
    then have "heap_bytes h' = mark_mem (span zs) True ?m1" "used_mem h' = used_mem h + w32 n"
      using wf_mem_at(1)[OF f(1)] mark_again[of ?m1 "span zs" True] by (simp_all add: w32_diff)
    then show ?thesis
      using mark_block[OF f(1), where u' = True] f(2) False um by (auto simp: taken_def w32_add add_ac)
  qed
  then show "wf_mem (heap_bytes h') (zs @ taken k n @ vs)"
    "i \<in> data_cells 0 (zs @ taken k n @ vs) \<Longrightarrow> heap_bytes h' i = heap_bytes h i"
    "used_mem h' = w32 (used_span (zs @ taken k n @ vs))" by auto
  show "used_mem h' \<le> max_mem h'"
    "heap_ptr h' = heap_ptr h" "heap_end h' = heap_end h" "lfree h' = lfree h" "mem_size_aligned h' = mem_size_aligned h"
    by (auto simp: h'_def malloc_take_def Let_def count_used_def)
qed

text \<open>The walk of \<^verbatim>\<open>lfree\<close> ends at the first free block.\<close>

lemma lfree_walk_ok:
  assumes "wf_mem (heap_bytes h) (zs @ ws)" "heap_end h = w32 (span (zs @ ws))"
  shows "lfree_walk h (w32 (span zs)) = Some (w32 (span (zs @ takeWhile fst ws)))"
    "starts_free (dropWhile fst ws)"
proof -
  show "starts_free (dropWhile fst ws)"
    by (induction ws) (auto simp: starts_free_def)
  show "lfree_walk h (w32 (span zs)) = Some (w32 (span (zs @ takeWhile fst ws)))"
    using assms
  proof (induction ws arbitrary: zs)
    case (Cons b ws)
    obtain u n where b: "b = (u, n)" by (cases b)
    note at = wf_mem_at[of "heap_bytes h" zs u n ws, OF Cons.prems(1)[unfolded b]]
    have "w32 (span zs) \<noteq> heap_end h" using at Cons.prems(2) b by (simp add: w32_eq)
    then show ?case using Cons.IH[of "zs @ [b]"] Cons.prems at b by (simp add: lfree_walk.simps[of h "w32 (span zs)"] add.assoc)
  qed (simp add: lfree_walk.simps)
qed

text \<open>The conditions on addresses that the assertions of \<^verbatim>\<open>rt_malloc\<close> test.\<close>

lemma aligned_and: "4 dvd unat (a :: u32) \<Longrightarrow> a AND 3 = 0" "4 dvd unat a \<Longrightarrow> a mod 4 = 0"
proof -
  assume "4 dvd unat a"
  then have "unat (a mod 4) = 0" by (simp add: unat_mod dvd_eq_mod_eq_0)
  then show "a mod 4 = 0" by (simp add: unat_eq_zero)
  moreover have "a AND 3 = a AND mask 2" by (simp add: mask_eq_exp_minus_1)
  then have "a AND 3 = a mod 4" unfolding take_bit_eq_mask[symmetric] take_bit_eq_mod by simp
  ultimately show "a AND 3 = 0" by simp
qed

lemma aligned_sum: "4 dvd unat (a :: u32) \<Longrightarrow> 4 dvd k \<Longrightarrow> unat a + k < 2 ^ 32 \<Longrightarrow> 4 dvd unat (a + w32 k)"
  by (simp add: unat_word_ariths)

lemma unat_add_w32: "unat (a :: u32) + k < 2 ^ 32 \<Longrightarrow> unat (a + w32 k) = unat a + k"
  by (simp add: unat_word_ariths)

lemma advance_lfree_ok:
  assumes wf: "wf_mem (heap_bytes h) (xs @ us @ ws)" and he: "heap_end h = w32 (span (xs @ us @ ws))"
    and lf: "lfree h = w32 (span xs)" "starts_free us"
  shows "\<exists>xs' ys'. advance_lfree (w32 (span (xs @ us))) h = Some (h\<lparr>lfree := w32 (span xs')\<rparr>) \<and>
           xs' @ ys' = xs @ us @ ws \<and> starts_free ys' \<and> (list_all fst xs \<longrightarrow> list_all fst xs')"
proof (cases us)
  case Nil
  let ?xs = "xs @ takeWhile fst ws" and ?ys = "dropWhile fst ws"
  have w: "lfree_walk h (w32 (span xs)) = Some (w32 (span ?xs))" "starts_free ?ys"
    using lfree_walk_ok[of h xs ws] wf he Nil by simp_all
  have eq: "xs @ us @ ws = ?xs @ ?ys" using Nil by simp
  have "w32 (span ?xs) = heap_end h \<or> hm_used (hdr h (w32 (span ?xs))) = 0"
  proof (cases ?ys)
    case Nil
    then have "xs @ us @ ws = ?xs" unfolding eq by (simp only: append_Nil2)
    then show ?thesis using he by simp
  next
    case (Cons b bs)
    then obtain n where "?ys = (False, n) # bs" using w(2) by (cases b) (simp add: starts_free_def)
    then show ?thesis using wf_mem_at(1)[of "heap_bytes h" ?xs False n bs] wf eq by simp
  qed
  then have "advance_lfree (w32 (span (xs @ us))) h = Some (h\<lparr>lfree := w32 (span ?xs)\<rparr>)"
    using lf(1) w(1) Nil by (simp add: advance_lfree_def)
  moreover have "list_all fst (takeWhile fst ws)" by (auto simp: list_all_iff dest: set_takeWhileD)
  ultimately show ?thesis using w(2) eq by (intro exI[of _ ?xs] exI[of _ ?ys]) simp
next
  case (Cons b bs)
  then obtain u n where b: "us = (u, n) # bs" by (cases b) simp
  have "w32 (span (xs @ us)) \<noteq> w32 (span xs)"
    using wf_mem_at[of "heap_bytes h" xs u n "bs @ ws"] wf b by (simp add: w32_eq)
  then have "advance_lfree (w32 (span (xs @ us))) h = Some (h\<lparr>lfree := w32 (span xs)\<rparr>)"
    using lf(1) by (simp add: advance_lfree_def)
  then show ?thesis using lf(2) Cons by (intro exI[of _ xs] exI[of _ "us @ ws"]) (simp add: starts_free_def)
qed

lemma malloc_locked_ok:
  assumes rep: "heap_rep h xs ys" and k: "4 dvd k" "k + 12 \<le> span (xs @ ys)"
  shows "malloc_locked (w32 k) h = Some (h, 0) \<and>
           (\<forall>us b vs. ys = us @ b # vs \<and> fits k b \<longrightarrow> vs = [] \<and> snd b = k + 12) \<or>
         (\<exists>h' us n vs xs' ys'. ys = us @ (False, n) # vs \<and> k + 12 \<le> n \<and> (\<forall>b \<in> set us. \<not> fits k b) \<and>
            malloc_locked (w32 k) h = Some (h', heap_ptr h + w32 (span xs + span us + 12)) \<and>
            heap_rep h' xs' ys' \<and> xs' @ ys' = xs @ us @ taken k n @ vs \<and> heap_ptr h' = heap_ptr h \<and>
            (\<forall>i \<in> data_cells 0 (xs' @ ys'). heap_bytes h' i = heap_bytes h i) \<and>
            (list_all fst xs \<longrightarrow> list_all fst xs'))"
proof -
  have wf: "wf_mem (heap_bytes h) (xs @ ys)" and co: "coalesced (xs @ ys)"
    and hp: "unat (heap_ptr h) + span (xs @ ys) + 12 < 2 ^ 32" "4 dvd unat (heap_ptr h)"
    and msa: "mem_size_aligned h = w32 (span (xs @ ys) - 12)" and he: "heap_end h = w32 (span (xs @ ys))"
    and lf: "lfree h = w32 (span xs)" "starts_free ys" and um: "used_mem h = w32 (used_span (xs @ ys))"
    using rep by (auto simp: heap_rep_def heap_blocks_def)
  consider (none) "malloc_search h (w32 k) (w32 (span xs)) = Some None"
      "\<forall>us b vs. ys = us @ b # vs \<and> fits k b \<longrightarrow> vs = [] \<and> snd b = k + 12"
    | (some) us n vs where "ys = us @ (False, n) # vs" "k + 12 \<le> n" "\<forall>b \<in> set us. \<not> fits k b"
      "malloc_search h (w32 k) (w32 (span xs)) = Some (Some (w32 (span xs + span us)))"
    using malloc_search_ok[OF wf msa k(2)] by blast
  then show ?thesis
  proof cases
    case none
    then show ?thesis using lf(1) by (intro disjI1) (simp add: malloc_locked_def)
  next
    case some
    let ?h1 = "malloc_take (w32 k) (w32 (span (xs @ us))) h" and ?bs = "(xs @ us) @ taken k n @ vs"
    have eq: "xs @ ys = (xs @ us) @ (False, n) # vs" using some by simp
    note T = malloc_take_ok[OF wf[unfolded eq] some(2) k(1) msa[unfolded eq] um[unfolded eq]]
    have sp: "span ?bs = span (xs @ ys)" using some by (simp add: eq)
    have "starts_free us" using lf(2) some(1) by (cases us) (auto simp: starts_free_def)
    then obtain xs' ys' where l: "advance_lfree (w32 (span (xs @ us))) ?h1 = Some (?h1\<lparr>lfree := w32 (span xs')\<rparr>)"
      "xs' @ ys' = ?bs" "starts_free ys'" "list_all fst xs \<longrightarrow> list_all fst xs'"
      using advance_lfree_ok[of ?h1 xs us "taken k n @ vs"] T(1,6,7) he lf(1) sp by auto
    let ?h' = "?h1\<lparr>lfree := w32 (span xs')\<rparr>"
    define d where "d = span (xs @ us)"
    have le: "d + n \<le> span (xs @ ys)" and d4: "4 dvd d" using eq wf_mem_at(4)[OF wf[unfolded eq]] by (simp_all add: d_def)
    have a: "unat (heap_ptr h + w32 d) = unat (heap_ptr h) + d"
      "unat (heap_ptr h + w32 (d + 12)) = unat (heap_ptr h) + (d + 12)"
      "unat (heap_ptr h + w32 (d + 12 + k)) = unat (heap_ptr h) + (d + 12 + k)"
      "unat (heap_ptr h + heap_end h) = unat (heap_ptr h) + span (xs @ ys)"
      unfolding he using hp(1) le some(2) by (intro unat_add_w32; linarith)+
    have w: "heap_ptr h + w32 d + 12 = heap_ptr h + w32 (d + 12)" "heap_ptr h + w32 (d + 12) + w32 k = heap_ptr h + w32 (d + 12 + k)"
      by (simp_all add: w32_def add_ac)
    have asserts: "heap_ptr h + w32 (d + 12 + k) \<le> heap_ptr h + heap_end h"
      "(heap_ptr h + w32 (d + 12)) mod 4 = 0" "heap_ptr h + w32 d AND 3 = 0"
      using le some(2) hp(2) d4 by (auto simp: word_le_nat_alt a intro!: aligned_and)
    have "malloc_locked (w32 k) h = Some (?h', heap_ptr h + w32 (d + 12))"
      using some(4) lf(1) l(1) T(5,6) asserts unfolding malloc_locked_def span_simps(3)[symmetric] d_def[symmetric]
      by (simp add: w)
    moreover have "heap_rep ?h' xs' ys'"
      using T l(2,3) hp msa he sp coalesced_taken[OF co[unfolded eq], of k] some(1)
      by (auto simp: heap_rep_def heap_blocks_def)
    ultimately show ?thesis
      using some(1-3) T(2,5) l(2,4)
      by (intro disjI2 exI[of _ ?h'] exI[of _ us] exI[of _ n] exI[of _ vs] exI[of _ xs'] exI[of _ ys']) (simp add: d_def add.assoc)
  qed
qed

section \<open>Release\<close>

lemma append_eq_two:
  assumes "xs @ ys = ws @ a # b # vs"
  shows "(\<exists>us. xs @ us = ws \<and> ys = us @ a # b # vs) \<or> xs = ws @ [a] \<and> ys = b # vs \<or>
    (\<exists>ts. xs = ws @ a # b # ts \<and> vs = ts @ ys)"
proof -
  from assms consider us where "xs @ us = ws" "ys = us @ a # b # vs" | us where "xs = ws @ us" "us @ ys = a # b # vs"
    unfolding append_eq_append_conv2 by blast
  then show ?thesis
  proof cases
    case 2
    then show ?thesis by (cases us; cases "List.tl us") auto
  qed blast
qed

lemma merge_rep:
  assumes rep: "heap_blocks h xs ys" and eq: "xs @ ys = ws @ (False, j) # (False, n) # vs"
  defines "h' \<equiv> h\<lparr>lfree := (if lfree h = w32 (span ws + j) then w32 (span ws) else lfree h),
    heap_bytes := merge_mem (span ws) (span ws + j + n) (heap_bytes h)\<rparr>"
  shows "\<exists>xs' ys'. heap_blocks h' xs' ys' \<and> xs' @ ys' = ws @ (False, j + n) # vs \<and>
    (\<forall>i \<in> data_cells 0 (xs @ ys). heap_bytes h' i = heap_bytes h i) \<and> (list_all fst xs \<longrightarrow> list_all fst xs')"
proof -
  have wf: "wf_mem (heap_bytes h) (ws @ (False, j) # (False, n) # vs)" using rep eq by (simp add: heap_blocks_def)
  note at = wf_mem_at[OF wf] and at2 = wf_mem_at[of _ "ws @ [(False, j)]" False n vs, simplified, OF wf]
  have lt: "span xs < 2 ^ 32" using wf unfolding eq[symmetric] by (simp add: wf_mem_def)
  have lf: "lfree h = w32 (span xs)" "starts_free ys" using rep by (auto simp: heap_blocks_def)
  obtain xs' ys' where new: "xs' @ ys' = ws @ (False, j + n) # vs" "starts_free ys'"
    "lfree h' = w32 (span xs')" "list_all fst xs \<longrightarrow> list_all fst xs'"
  proof -
    consider (low) us where "xs @ us = ws" "ys = us @ (False, j) # (False, n) # vs"
      | (at) "xs = ws @ [(False, j)]" "ys = (False, n) # vs"
      | (high) ts where "xs = ws @ (False, j) # (False, n) # ts" "vs = ts @ ys"
      using append_eq_two[OF eq] by (elim disjE exE conjE) assumption+
    then show thesis
    proof cases
      case low
      then have "span ws = span xs + span us" by auto
      then have "lfree h \<noteq> w32 (span ws + j)" using lf(1) lt at(2,5) by (simp add: w32_eq)
      moreover have "starts_free (us @ (False, j + n) # vs)" using low lf(2) by (cases us) (auto simp: starts_free_def)
      ultimately show thesis using low lf by (intro that[of xs "us @ (False, j + n) # vs"]) (auto simp: h'_def)
    next
      case at
      then show thesis using lf by (intro that[of ws "(False, j + n) # vs"]) (auto simp: h'_def starts_free_def)
    next
      case high
      then have "lfree h \<noteq> w32 (span ws + j)" using lf(1) lt at(2,5) at2(2) by (simp add: w32_eq)
      then show thesis using high lf by (intro that[of "ws @ (False, j + n) # ts" ys]) (auto simp: h'_def add.assoc)
    qed
  qed
  note mb = merge_block[OF wf]
  have "heap_blocks h' xs' ys'"
    using rep mb(1) new(2,3) unfolding heap_blocks_def new(1) eq by (auto simp: h'_def add.assoc)
  then show ?thesis using new mb(2) unfolding eq by (auto simp: h'_def)
qed

lemma plug_forward_ok:
  assumes rep: "heap_blocks h xs ys" and eq: "xs @ ys = zs @ (False, n) # vs"
  shows "\<exists>xs' ys'. heap_blocks (plug_forward (w32 (span zs)) h) xs' ys' \<and>
    xs' @ ys' = zs @ (case vs of (False, k) # ws \<Rightarrow> (False, n + k) # ws | _ \<Rightarrow> (False, n) # vs) \<and>
    (\<forall>i \<in> data_cells 0 (xs @ ys). heap_bytes (plug_forward (w32 (span zs)) h) i = heap_bytes h i) \<and>
    (list_all fst xs \<longrightarrow> list_all fst xs')"
proof -
  have wf: "wf_mem (heap_bytes h) (zs @ (False, n) # vs)" and he: "heap_end h = w32 (span zs + n + span vs)"
    using rep eq by (simp_all add: heap_blocks_def add.assoc)
  note at = wf_mem_at[OF wf]
  show ?thesis
  proof (cases "\<exists>k ws. vs = (False, k) # ws")
    case True
    then obtain k ws where vs: "vs = (False, k) # ws" by blast
    note at2 = wf_mem_at[of "heap_bytes h" "zs @ [(False, n)]" False k ws, simplified, OF wf[unfolded vs]]
    have ne: "w32 (span zs) \<noteq> w32 (span zs + n)" "w32 (span zs + n) \<noteq> heap_end h"
      using at at2 he vs by (auto simp: w32_eq)
    have g: "get_hdr (put_hdr (w32 (span zs)) x (heap_bytes h)) (w32 (span zs + n)) = hdr h (w32 (span zs + n))" for x
      using at at2 by (intro get_put_other) auto
    have "plug_forward (w32 (span zs)) h =
        h\<lparr>lfree := (if lfree h = w32 (span zs + n) then w32 (span zs) else lfree h),
          heap_bytes := merge_mem (span zs) (span zs + n + k) (heap_bytes h)\<rparr>"
      using at at2 ne by (simp add: plug_forward_def Let_def upd_hdr_def g merge_mem_def set_prev_def)
    then show ?thesis using merge_rep[OF rep eq[unfolded vs]] vs by simp
  next
    case False
    have "plug_forward (w32 (span zs)) h = h"
    proof (cases vs)
      case Nil
      then show ?thesis using at he by (simp add: plug_forward_def)
    next
      case (Cons b ws)
      then obtain k where vs: "vs = (True, k) # ws" using False by (cases b) auto
      show ?thesis
        using at wf_mem_at(1)[of "heap_bytes h" "zs @ [(False, n)]" True k ws] wf vs by (simp add: plug_forward_def)
    qed
    moreover have "(case vs of (False, k) # ws \<Rightarrow> (False, n + k) # ws | _ \<Rightarrow> (False, n) # vs) = (False, n) # vs"
      using False by (auto split: list.splits bool.splits)
    ultimately show ?thesis using rep eq by (intro exI[of _ xs] exI[of _ ys]) simp
  qed
qed

lemma plug_backward_ok:
  assumes rep: "heap_blocks h xs ys" and eq: "xs @ ys = zs @ (False, n) # vs"
  shows "\<exists>xs' ys'. heap_blocks (plug_backward (w32 (span zs)) h) xs' ys' \<and>
    xs' @ ys' = (if zs = [] \<or> fst (last zs) then zs @ (False, n) # vs else butlast zs @ (False, snd (last zs) + n) # vs) \<and>
    (\<forall>i \<in> data_cells 0 (xs @ ys). heap_bytes (plug_backward (w32 (span zs)) h) i = heap_bytes h i) \<and>
    (list_all fst xs \<longrightarrow> list_all fst xs')"
proof -
  have wf: "wf_mem (heap_bytes h) (zs @ (False, n) # vs)" using rep eq by (simp add: heap_blocks_def)
  note at = wf_mem_at[OF wf]
  show ?thesis
  proof (cases "zs = [] \<or> fst (last zs)")
    case True
    have "plug_backward (w32 (span zs)) h = h"
    proof (cases zs rule: rev_cases)
      case Nil
      then show ?thesis using at by (simp add: plug_backward_def)
    next
      case (snoc ws b)
      then obtain j where b: "b = (True, j)" using True by (cases b) auto
      show ?thesis
        using at(1) wf_mem_at(1)[of "heap_bytes h" ws True j "(False, n) # vs"] wf snoc b by (simp add: plug_backward_def)
    qed
    then show ?thesis using True rep eq by (intro exI[of _ xs] exI[of _ ys]) simp
  next
    case False
    then obtain ws j where zs: "zs = ws @ [(False, j)]" by (cases zs rule: rev_cases) auto
    note at2 = wf_mem_at[of "heap_bytes h" ws False j "(False, n) # vs", OF wf[unfolded zs, simplified]]
    have ne: "w32 (span ws) \<noteq> w32 (span ws + j)" using at2 by (auto simp: w32_eq)
    have g: "get_hdr (put_hdr (w32 (span ws)) x (heap_bytes h)) (w32 (span ws + j)) = hdr h (w32 (span ws + j))" for x
      using at2 by (intro get_put_other) auto
    have "plug_backward (w32 (span zs)) h =
        h\<lparr>lfree := (if lfree h = w32 (span ws + j) then w32 (span ws) else lfree h),
          heap_bytes := merge_mem (span ws) (span ws + j + n) (heap_bytes h)\<rparr>"
      using at at2 ne zs by (simp add: plug_backward_def Let_def upd_hdr_def g merge_mem_def set_prev_def)
    then show ?thesis using merge_rep[OF rep, of ws j n vs] eq zs by simp
  qed
qed

text \<open>The block list after the block behind \<open>zs\<close> has become free.\<close>

definition freed :: "blocks \<Rightarrow> nat \<Rightarrow> blocks \<Rightarrow> blocks" where
  "freed zs n vs =
     (let (n', vs') = (case vs of (False, k) # ws \<Rightarrow> (n + k, ws) | _ \<Rightarrow> (n, vs))
      in if zs = [] \<or> fst (last zs) then zs @ (False, n') # vs' else butlast zs @ (False, snd (last zs) + n') # vs')"

lemma coalesced_freed:
  assumes "coalesced zs" "coalesced vs"
  shows "coalesced (freed zs n vs)"
proof -
  obtain n' vs' where m: "(case vs of (False, k) # ws \<Rightarrow> (n + k, ws) | _ \<Rightarrow> (n, vs)) = (n', vs')" by fastforce
  have vs': "coalesced vs'" "vs' \<noteq> [] \<Longrightarrow> fst (hd vs')"
  proof -
    have "coalesced vs' \<and> (vs' \<noteq> [] \<longrightarrow> fst (hd vs'))"
      using m assms(2) coalesced_simps[of "[]"] by (auto split: list.splits bool.splits)
    then show "coalesced vs'" "vs' \<noteq> [] \<Longrightarrow> fst (hd vs')" by auto
  qed
  show ?thesis
  proof (cases "zs = [] \<or> fst (last zs)")
    case True
    then show ?thesis using assms(1) vs' m by (auto simp: freed_def coalesced_simps)
  next
    case False
    then obtain ws j where zs: "zs = ws @ [(False, j)]" by (cases zs rule: rev_cases) auto
    then show ?thesis using assms(1) vs' m coalesced_simps[of ws False j "[]"] by (auto simp: freed_def coalesced_simps)
  qed
qed

lemma plug_holes_ok:
  assumes rep: "heap_blocks h xs ys" and eq: "xs @ ys = zs @ (False, n) # vs" and co: "coalesced zs" "coalesced vs"
  shows "\<exists>h' xs' ys'. plug_holes (w32 (span zs)) h = Some h' \<and> heap_rep h' xs' ys' \<and> xs' @ ys' = freed zs n vs \<and>
    heap_ptr h' = heap_ptr h \<and> (\<forall>i \<in> data_cells 0 (xs @ ys). heap_bytes h' i = heap_bytes h i) \<and>
    (list_all fst xs \<longrightarrow> list_all fst xs')"
proof -
  let ?p = "w32 (span zs)"
  have wf: "wf_mem (heap_bytes h) (zs @ (False, n) # vs)" and he: "heap_end h = w32 (span zs + n + span vs)"
    using rep eq by (simp_all add: heap_blocks_def add.assoc)
  note at = wf_mem_at[OF wf]
  obtain n' vs' where m: "(case vs of (False, k) # ws \<Rightarrow> (n + k, ws) | _ \<Rightarrow> (n, vs)) = (n', vs')" by fastforce
  then have m': "(case vs of (False, k) # ws \<Rightarrow> (False, n + k) # ws | _ \<Rightarrow> (False, n) # vs) = (False, n') # vs'"
    by (auto split: list.splits bool.splits)
  obtain xs1 ys1 where f: "heap_blocks (plug_forward ?p h) xs1 ys1" "xs1 @ ys1 = zs @ (False, n') # vs'"
    "\<forall>i \<in> data_cells 0 (xs @ ys). heap_bytes (plug_forward ?p h) i = heap_bytes h i"
    "list_all fst xs \<longrightarrow> list_all fst xs1"
    using plug_forward_ok[OF rep eq] unfolding m' by blast
  obtain xs' ys' where b: "heap_blocks (plug_backward ?p (plug_forward ?p h)) xs' ys'" "xs' @ ys' = freed zs n vs"
    "\<forall>i \<in> data_cells 0 (xs1 @ ys1). heap_bytes (plug_backward ?p (plug_forward ?p h)) i = heap_bytes (plug_forward ?p h) i"
    "list_all fst xs1 \<longrightarrow> list_all fst xs'"
    using plug_backward_ok[OF f(1,2)] m by (auto simp: freed_def)
  have d: "data_cells 0 (xs1 @ ys1) = data_cells 0 (xs @ ys)"
    unfolding f(2) eq using m by (auto simp: data_cells_append add.assoc split: list.splits bool.splits)
  have "plug_holes ?p h = Some (plug_backward ?p (plug_forward ?p h))"
    using at he by (simp add: plug_holes_def w32_less)
  moreover have "heap_ptr (plug_backward ?p (plug_forward ?p h)) = heap_ptr h"
    by (simp add: plug_backward_def plug_forward_def Let_def)
  ultimately show ?thesis
    using f(3,4) b d coalesced_freed[OF co, of n]
    by (intro exI[of _ "plug_backward ?p (plug_forward ?p h)"] exI[of _ xs'] exI[of _ ys']) (auto simp: heap_rep_def)
qed

lemma free_locked_ok:
  assumes rep: "heap_rep h xs ys" and eq: "xs @ ys = zs @ (True, n) # vs"
  shows "\<exists>h' xs' ys'. free_locked (w32 (span zs)) h = Some h' \<and> heap_rep h' xs' ys' \<and> xs' @ ys' = freed zs n vs \<and>
    heap_ptr h' = heap_ptr h \<and> (\<forall>i \<in> data_cells 0 (zs @ (False, n) # vs). heap_bytes h' i = heap_bytes h i) \<and>
    (list_all fst xs \<longrightarrow> list_all fst xs')"
proof -
  let ?p = "w32 (span zs)" and ?m1 = "mark_mem (span zs) False (heap_bytes h)"
  have wf: "wf_mem (heap_bytes h) (zs @ (True, n) # vs)" and co: "coalesced (zs @ (True, n) # vs)"
    and lf: "lfree h = w32 (span xs)" "starts_free ys"
    using rep eq by (auto simp: heap_rep_def heap_blocks_def)
  note at = wf_mem_at[OF wf] and mk = mark_block[OF wf, where u' = False]
  define h3 where "h3 = h\<lparr>heap_bytes := ?m1, lfree := (if ?p < lfree h then ?p else lfree h), used_mem := used_mem h - w32 n\<rparr>"
  have nx: "hm_next (get_hdr ?m1 ?p) = w32 (span zs + n)" using wf_mem_at(1)[OF mk(1)] by simp
  have fr: "free_locked ?p h = plug_holes ?p h3"
    using at(1) nx by (simp add: free_locked_def h3_def upd_hdr_def mark_mem_def w32_diff Let_def)
  have lt: "span (xs @ ys) + 12 < 2 ^ 32" using at(5) unfolding eq by (simp add: add.assoc)
  obtain xs1 ys1 where s: "xs1 @ ys1 = zs @ (False, n) # vs" "starts_free ys1" "lfree h3 = w32 (span xs1)"
    "list_all fst xs \<longrightarrow> list_all fst xs1"
  proof -
    from eq consider us where "xs @ us = zs" "ys = us @ (True, n) # vs" | us where "xs = zs @ us" "us @ ys = (True, n) # vs"
      unfolding append_eq_append_conv2 by blast
    then show thesis
    proof cases
      case 1
      then have sp: "span zs = span xs + span us" by auto
      then have "\<not> ?p < lfree h" using lf(1) at(5) by (simp add: w32_less)
      moreover have "starts_free (us @ (False, n) # vs)" using 1 lf(2) by (cases us) (auto simp: starts_free_def)
      ultimately show thesis using 1 lf(1) by (intro that[of xs "us @ (False, n) # vs"]) (auto simp: h3_def)
    next
      case 2
      then obtain ts where us: "us = (True, n) # ts" using lf(2) by (cases us) (auto simp: starts_free_def)
      then have "span xs = span zs + n + span ts" "span xs < 2 ^ 32" using 2 lt by auto
      then have "?p < lfree h" using lf(1) at(2) by (simp add: w32_less)
      then show thesis using 2 us by (intro that[of zs "(False, n) # vs"]) (auto simp: h3_def starts_free_def)
    qed
  qed
  have u: "used_mem h = w32 (used_span zs + n + used_span vs)" "used_mem h \<le> max_mem h"
    using rep unfolding heap_rep_def heap_blocks_def eq by (auto simp: add.assoc)
  have ul: "used_span zs + n + used_span vs < 2 ^ 32" using at(5) used_span_le[of zs] used_span_le[of vs] by simp
  then have "used_mem h - w32 n = w32 (used_span zs + used_span vs)" "used_mem h - w32 n \<le> used_mem h"
    unfolding u(1) by (simp_all add: w32_diff w32_le)
  then have um: "used_mem h3 = w32 (used_span zs + used_span vs)" "used_mem h3 \<le> max_mem h3"
    using u(2) by (auto simp: h3_def)
  have "heap_blocks h3 xs1 ys1"
    using rep mk(1) s(2,3) um unfolding heap_rep_def heap_blocks_def eq s(1) by (simp add: h3_def)
  moreover have "coalesced zs" "coalesced vs" using co by (simp_all add: coalesced_simps)
  ultimately obtain h' xs' ys' where "plug_holes ?p h3 = Some h'" "heap_rep h' xs' ys'" "xs' @ ys' = freed zs n vs"
    "heap_ptr h' = heap_ptr h3" "\<forall>i \<in> data_cells 0 (xs1 @ ys1). heap_bytes h' i = heap_bytes h3 i"
    "list_all fst xs1 \<longrightarrow> list_all fst xs'"
    using plug_holes_ok[OF _ s(1)] by blast
  then show ?thesis
    using fr s(1,4) mk(2) by (intro exI[of _ h'] exI[of _ xs'] exI[of _ ys']) (auto simp: h3_def)
qed

section \<open>Resizing\<close>

lemma realloc_split_blocks:
  assumes rep: "heap_rep h xs ys" and eq: "xs @ ys = zs @ (True, n) # vs" and k: "4 dvd k" "k + 36 < n"
  shows "\<exists>h4 xs1 ys1. realloc_split (w32 k) (w32 (n - 12)) (w32 (span zs)) h = plug_holes (w32 (span (zs @ [(True, k + 12)]))) h4 \<and>
    heap_blocks h4 xs1 ys1 \<and> xs1 @ ys1 = (zs @ [(True, k + 12)]) @ (False, n - (k + 12)) # vs \<and>
    lfree h4 = lfree h \<and> heap_ptr h4 = heap_ptr h \<and>
    (\<forall>i \<in> data_cells 0 (xs1 @ ys1). heap_bytes h4 i = heap_bytes h i)"
proof -
  let ?p = "w32 (span zs)" and ?e = "span (zs @ (True, n) # vs)"
  let ?m1 = "split_mem (span zs) (k + 12) ?e True (heap_bytes h)"
  have wf: "wf_mem (heap_bytes h) (zs @ (True, n) # vs)" and co: "coalesced (zs @ (True, n) # vs)"
    and lf: "lfree h = w32 (span xs)" "starts_free ys" and msa: "mem_size_aligned h = w32 (?e - 12)"
    and u: "used_mem h = w32 (used_span zs + n + used_span vs)" "used_mem h \<le> max_mem h"
    using rep eq unfolding heap_rep_def heap_blocks_def eq by (auto simp: add.assoc)
  note at = wf_mem_at[OF wf]
  have sb: "wf_mem ?m1 (zs @ (True, k + 12) # (False, n - (k + 12)) # vs)"
    "\<And>i. i \<in> data_cells 0 (zs @ (True, k + 12) # (False, n - (k + 12)) # vs) \<Longrightarrow> ?m1 i = heap_bytes h i"
    using split_block[OF wf, where k = "k + 12" and e = ?e and u' = True] k by auto
  define h4 where "h4 = h\<lparr>used_mem := used_mem h - w32 (n - 12 - k), heap_bytes := ?m1\<rparr>"
  have q: "?p + 12 + w32 k = w32 (span (zs @ [(True, k + 12)]))" by (simp add: w32_def)
  have sp: "realloc_split (w32 k) (w32 (n - 12)) ?p h = plug_holes (w32 (span (zs @ [(True, k + 12)]))) h4"
    using at msa k q unfolding realloc_split_def h4_def
    by (simp add: split_mem_def set_prev_def Let_def upd_hdr_def w32_numeral(1) w32_diff get_put_other)
  have lt: "span (xs @ ys) + 12 < 2 ^ 32" using at(5) unfolding eq by (simp add: add.assoc)
  obtain xs1 ys1 where s: "xs1 @ ys1 = (zs @ [(True, k + 12)]) @ (False, n - (k + 12)) # vs" "starts_free ys1"
    "lfree h = w32 (span xs1)"
  proof -
    from eq consider us where "xs @ us = zs" "ys = us @ (True, n) # vs" | us where "xs = zs @ us" "us @ ys = (True, n) # vs"
      unfolding append_eq_append_conv2 by blast
    then show thesis
    proof cases
      case 1
      then have "starts_free (us @ (True, k + 12) # (False, n - (k + 12)) # vs)"
        using lf(2) by (cases us) (auto simp: starts_free_def)
      then show thesis using 1 lf(1) by (intro that[of xs "us @ (True, k + 12) # (False, n - (k + 12)) # vs"]) auto
    next
      case 2
      then obtain ts where us: "us = (True, n) # ts" using lf(2) by (cases us) (auto simp: starts_free_def)
      then show thesis
        using 2 lf k by (intro that[of "zs @ (True, k + 12) # (False, n - (k + 12)) # ts" ys]) auto
    qed
  qed
  have ul: "used_span zs + n + used_span vs < 2 ^ 32" using at(5) used_span_le[of zs] used_span_le[of vs] by simp
  then have "used_mem h - w32 (n - 12 - k) = w32 (used_span zs + (k + 12) + used_span vs)" "used_mem h - w32 (n - 12 - k) \<le> used_mem h"
    unfolding u(1) using k by (simp_all add: w32_diff w32_le add_ac)
  then have um: "used_mem h4 = w32 (used_span zs + (k + 12) + used_span vs)" "used_mem h4 \<le> max_mem h4"
    using u(2) by (auto simp: h4_def)
  have "heap_blocks h4 xs1 ys1"
    using rep sb(1) s(2,3) um k unfolding heap_rep_def heap_blocks_def eq s(1) by (simp add: h4_def add.assoc)
  then show ?thesis
    using sp s(1) sb(2) by (intro exI[of _ h4] exI[of _ xs1] exI[of _ ys1]) (simp add: h4_def)
qed

lemma realloc_split_ok:
  assumes rep: "heap_rep h xs ys" and eq: "xs @ ys = zs @ (True, n) # vs" and k: "4 dvd k" "k + 36 < n"
  shows "\<exists>h' xs' ys'. realloc_split (w32 k) (w32 (n - 12)) (w32 (span zs)) h = Some h' \<and> heap_rep h' xs' ys' \<and>
    xs' @ ys' = freed (zs @ [(True, k + 12)]) (n - (k + 12)) vs \<and> heap_ptr h' = heap_ptr h \<and>
    (\<forall>i \<in> data_cells 0 (zs @ (True, k + 12) # (False, n - (k + 12)) # vs). heap_bytes h' i = heap_bytes h i)"
proof -
  obtain h4 xs1 ys1 where s: "realloc_split (w32 k) (w32 (n - 12)) (w32 (span zs)) h = plug_holes (w32 (span (zs @ [(True, k + 12)]))) h4"
    "heap_blocks h4 xs1 ys1" "xs1 @ ys1 = (zs @ [(True, k + 12)]) @ (False, n - (k + 12)) # vs" "heap_ptr h4 = heap_ptr h"
    "\<forall>i \<in> data_cells 0 (xs1 @ ys1). heap_bytes h4 i = heap_bytes h i"
    using realloc_split_blocks[OF rep eq k] by blast
  have "coalesced (zs @ (True, n) # vs)" using rep eq by (simp add: heap_rep_def)
  then have "coalesced (zs @ [(True, k + 12)])" "coalesced vs" by (simp_all add: coalesced_simps)
  then obtain h' xs' ys' where "plug_holes (w32 (span (zs @ [(True, k + 12)]))) h4 = Some h'" "heap_rep h' xs' ys'"
    "xs' @ ys' = freed (zs @ [(True, k + 12)]) (n - (k + 12)) vs"
    "heap_ptr h' = heap_ptr h4" "\<forall>i \<in> data_cells 0 (xs1 @ ys1). heap_bytes h' i = heap_bytes h4 i"
    using plug_holes_ok[OF s(2,3)] by blast
  then show ?thesis using s by (intro exI[of _ h'] exI[of _ xs'] exI[of _ ys']) auto
qed

text \<open>Without free neighbours there is nothing to plug.\<close>

lemma plug_holes_alone:
  assumes rep: "heap_blocks h xs ys" and eq: "xs @ ys = zs @ (False, n) # vs"
    and z: "zs \<noteq> []" "fst (last zs)" and v: "vs = [] \<or> fst (hd vs)"
  shows "plug_holes (w32 (span zs)) h = Some h"
proof -
  have wf: "wf_mem (heap_bytes h) (zs @ (False, n) # vs)" and he: "heap_end h = w32 (span zs + n + span vs)"
    using rep eq by (simp_all add: heap_blocks_def add.assoc)
  note at = wf_mem_at[OF wf]
  have "plug_forward (w32 (span zs)) h = h"
  proof (cases vs)
    case (Cons b ws)
    then obtain k where "vs = (True, k) # ws" using v by (cases b) auto
    then show ?thesis
      using at wf_mem_at(1)[of "heap_bytes h" "zs @ [(False, n)]" True k ws] wf by (simp add: plug_forward_def)
  qed (use at he in \<open>simp add: plug_forward_def\<close>)
  moreover obtain ws j where "zs = ws @ [(True, j)]" using z by (cases zs rule: rev_cases) auto
  then have "plug_backward (w32 (span zs)) h = h"
    using at(1) wf_mem_at(1)[of "heap_bytes h" ws True j "(False, n) # vs"] wf by (simp add: plug_backward_def)
  ultimately show ?thesis using at he by (simp add: plug_holes_def w32_less)
qed

text \<open>The block at an address handed out before is found again.\<close>

lemma user_addr:
  assumes rep: "heap_rep h xs ys" and eq: "xs @ ys = zs @ (u, n) # vs"
    and r: "r = heap_ptr h + w32 (span zs + 12)"
  shows "unat r = unat (heap_ptr h) + span zs + 12" "r - heap_ptr h - 12 = w32 (span zs)" "r \<noteq> 0"
    "heap_ptr h \<le> r" "u \<Longrightarrow> 12 < n \<Longrightarrow> r < heap_ptr h + heap_end h" "r AND 3 = 0"
proof -
  have hp: "unat (heap_ptr h) + (span zs + n + span vs) + 12 < 2 ^ 32" "4 dvd unat (heap_ptr h)"
    and he: "heap_end h = w32 (span zs + n + span vs)" and wf: "wf_mem (heap_bytes h) (zs @ (u, n) # vs)"
    using rep eq unfolding heap_rep_def heap_blocks_def eq by (auto simp: add.assoc)
  note at = wf_mem_at[OF wf]
  show ur: "unat r = unat (heap_ptr h) + span zs + 12" using unat_add_w32[of "heap_ptr h" "span zs + 12"] hp r by simp
  show "r - heap_ptr h - 12 = w32 (span zs)" unfolding r by (simp add: w32_def)
  show "r \<noteq> 0" "heap_ptr h \<le> r" using ur by (auto simp: word_le_nat_alt)
  show "r AND 3 = 0" using ur hp(2) at(4) by (intro aligned_and) simp
  assume "12 < n"
  then show "r < heap_ptr h + heap_end h"
    using unat_add_w32[of "heap_ptr h" "span zs + n + span vs"] hp ur by (simp add: he word_less_nat_alt)
qed

end
