(* ===== verification/Allocator.thy ===== *)
theory Allocator
  imports Prelude
begin

text \<open>
  What the users of a heap rely on: the interface of an allocator of memory, and what follows for
  a user who holds an area while others call the allocator and write to their own areas.
\<close>

definition same_cells :: "(nat \<times> nat) set \<Rightarrow> (nat \<Rightarrow> u8) \<Rightarrow> (nat \<Rightarrow> u8) \<Rightarrow> bool" where
  "same_cells A c c' \<longleftrightarrow> (\<forall>(a, l) \<in> A. \<forall>i < l. c' (a + i) = c (a + i))"

lemma same_cellsD: "same_cells A c c' \<Longrightarrow> (a, l) \<in> A \<Longrightarrow> i < l \<Longrightarrow> c' (a + i) = c (a + i)"
  by (auto simp: same_cells_def)

text \<open>
  \<open>areas s\<close> are the areas handed out, as address and length; \<open>cell s\<close> are the bytes. A call that does
  not return is \<open>None\<close>; the laws say that calls on areas handed out do return.
\<close>

locale allocator =
  fixes inv :: "'s \<Rightarrow> bool"
    and areas :: "'s \<Rightarrow> (nat \<times> nat) set"
    and cell :: "'s \<Rightarrow> nat \<Rightarrow> u8"
    and valid :: "u32 \<Rightarrow> 's \<Rightarrow> bool"
    and alloc :: "u32 \<Rightarrow> 's \<Rightarrow> ('s \<times> nat option) option"
    and resize :: "nat \<Rightarrow> u32 \<Rightarrow> 's \<Rightarrow> ('s \<times> nat option) option"
    and dealloc :: "nat \<Rightarrow> 's \<Rightarrow> 's option"
    and store :: "nat \<Rightarrow> u8 \<Rightarrow> 's \<Rightarrow> 's"
  assumes disjoint: "inv s \<Longrightarrow> (a, l) \<in> areas s \<Longrightarrow> (b, m) \<in> areas s \<Longrightarrow> (a, l) \<noteq> (b, m) \<Longrightarrow>
      {a..<a + l} \<inter> {b..<b + m} = {}"
    and alloc: "inv s \<Longrightarrow> valid sz s \<Longrightarrow> \<exists>s' p. alloc sz s = Some (s', p) \<and> inv s' \<and>
      (p = None \<and> areas s' = areas s \<or>
       (\<exists>a l. p = Some a \<and> unat sz \<le> l \<and> (a, l) \<notin> areas s \<and> areas s' = insert (a, l) (areas s))) \<and>
      same_cells (areas s) (cell s) (cell s')"
    and dealloc: "inv s \<Longrightarrow> (a, l) \<in> areas s \<Longrightarrow> \<exists>s'. dealloc a s = Some s' \<and> inv s' \<and>
      areas s' = areas s - {(a, l)} \<and> same_cells (areas s') (cell s) (cell s')"
    and resize: "inv s \<Longrightarrow> (a, l) \<in> areas s \<Longrightarrow> valid sz s \<Longrightarrow> \<exists>s' p. resize a sz s = Some (s', p) \<and> inv s' \<and>
      areas s - {(a, l)} \<subseteq> areas s' \<and> same_cells (areas s - {(a, l)}) (cell s) (cell s')"
    and store: "inv s \<Longrightarrow> (a, l) \<in> areas s \<Longrightarrow> i < l \<Longrightarrow> inv (store (a + i) v s) \<and>
      areas (store (a + i) v s) = areas s \<and> cell (store (a + i) v s) = (cell s)(a + i := v)"
begin

text \<open>What others may do while a user holds the area at \<open>a\<close>.\<close>

definition others :: "nat \<Rightarrow> 's \<Rightarrow> 's \<Rightarrow> bool" where
  "others a s s' \<longleftrightarrow>
     (\<exists>sz p. valid sz s \<and> alloc sz s = Some (s', p)) \<or>
     (\<exists>b m. (b, m) \<in> areas s \<and> b \<noteq> a \<and> dealloc b s = Some s') \<or>
     (\<exists>b m sz p. (b, m) \<in> areas s \<and> b \<noteq> a \<and> valid sz s \<and> resize b sz s = Some (s', p)) \<or>
     (\<exists>b m i v. (b, m) \<in> areas s \<and> b \<noteq> a \<and> i < m \<and> s' = store (b + i) v s)"

lemma others_step:
  assumes inv: "inv s" and a: "(a, l) \<in> areas s" and o: "others a s s'"
  shows "inv s' \<and> (a, l) \<in> areas s' \<and> (\<forall>i < l. cell s' (a + i) = cell s (a + i))"
proof -
  from o[unfolded others_def] consider
      (new) sz p where "valid sz s" "alloc sz s = Some (s', p)"
    | (free) b m where "(b, m) \<in> areas s" "b \<noteq> a" "dealloc b s = Some s'"
    | (move) b m sz p where "(b, m) \<in> areas s" "b \<noteq> a" "valid sz s" "resize b sz s = Some (s', p)"
    | (put) b m i v where "(b, m) \<in> areas s" "b \<noteq> a" "i < m" "s' = store (b + i) v s"
    by blast
  then show ?thesis
  proof cases
    case new
    then have "inv s'" "areas s \<subseteq> areas s'" "same_cells (areas s) (cell s) (cell s')"
      using alloc[OF inv new(1)] by auto
    then show ?thesis using a same_cellsD by blast
  next
    case free
    then have s': "inv s'" "areas s' = areas s - {(b, m)}" "same_cells (areas s') (cell s) (cell s')"
      using dealloc[OF inv free(1)] by (metis option.inject)+
    then have "(a, l) \<in> areas s'" using a free(2) by simp
    then show ?thesis using s'(1) same_cellsD[OF s'(3)] by blast
  next
    case move
    then have s': "inv s'" "areas s - {(b, m)} \<subseteq> areas s'" "same_cells (areas s - {(b, m)}) (cell s) (cell s')"
      using resize[OF inv move(1,3)] by (metis option.inject prod.inject)+
    moreover have "(a, l) \<in> areas s - {(b, m)}" using a move(2) by simp
    ultimately show ?thesis using same_cellsD[OF s'(3)] by blast
  next
    case put
    have "b + i \<notin> {a..<a + l}" using disjoint[OF inv a put(1)] put(2,3) by auto
    then show ?thesis using store[OF inv put(1,3), of v] a put(4) by auto
  qed
qed

lemma area_stable:
  assumes "(others a)\<^sup>*\<^sup>* s s'" "inv s" "(a, l) \<in> areas s"
  shows "inv s' \<and> (a, l) \<in> areas s' \<and> (\<forall>i < l. cell s' (a + i) = cell s (a + i))"
  using assms
proof (induction rule: rtranclp_induct)
  case (step y z)
  then show ?case using others_step[of y a l z] by simp
qed simp

end

end
