(* ===== verification/MemCalls.thy ===== *)
theory MemCalls
  imports Mem
begin

unbundle bit_operations_syntax

text \<open>
  What \<^verbatim>\<open>rt_malloc\<close>, \<^verbatim>\<open>rt_free\<close> and \<^verbatim>\<open>rt_realloc\<close> of \<^verbatim>\<open>src/mem.c\<close> promise: on an idle heap in terms of the
  list of blocks and of the set of live data areas, on a busy one that they wait, and where they
  go wrong.
\<close>

section \<open>The calls\<close>

text \<open>The heap is well formed and nobody holds its semaphore or waits for it.\<close>

definition heap_idle :: "'a kmem_scheme \<Rightarrow> blocks \<Rightarrow> blocks \<Rightarrow> bool" where
  "heap_idle s xs ys \<longleftrightarrow> heap_rep (smem s) xs ys \<and>
     rt_object_get_type (sem_obj (heap_sem s)) s = RT_Object_Class_Semaphore \<and>
     sem_value (sems s (heap_sem s)) = 1 \<and> tl s (sem_list (heap_sem s)) = [] \<and> irq_nest s = 0"

lemma kmem_sel [simp]:
  "smem (set_sem n v s) = smem s" "heap_sem (set_sem n v s) = heap_sem s"
  "rt_object_get_type x (s\<lparr>smem := h\<rparr>) = rt_object_get_type x s"
  by (simp_all add: set_sem_def rt_object_get_type_def)

lemma heap_idle_upd [simp]:
  "heap_idle (s\<lparr>smem := h\<rparr>) xs' ys' \<longleftrightarrow> heap_rep h xs' ys' \<and>
     rt_object_get_type (sem_obj (heap_sem s)) s = RT_Object_Class_Semaphore \<and>
     sem_value (sems s (heap_sem s)) = 1 \<and> tl s (sem_list (heap_sem s)) = [] \<and> irq_nest s = 0"
  by (simp add: heap_idle_def)

lemma heap_lock_unlock:
  assumes "heap_idle s xs ys"
  shows "rt_sem_take (heap_sem s) time s = Some (set_sem (heap_sem s) 0 s, Returns RT_EOK)"
    "heap_unlock h (set_sem (heap_sem s) 0 s) = Some (s\<lparr>smem := h\<rparr>)"
proof -
  show "rt_sem_take (heap_sem s) time s = Some (set_sem (heap_sem s) 0 s, Returns RT_EOK)"
    using assms by (simp add: rt_sem_take_def heap_idle_def)
  have "(sems s)(heap_sem s := \<lparr>sem_value = 1\<rparr>) = sems s"
    using assms by (cases "sems s (heap_sem s)") (auto simp: heap_idle_def)
  then have "s\<lparr>smem := h, sems := (sems s)(heap_sem s := \<lparr>sem_value = 1\<rparr>)\<rparr> = s\<lparr>smem := h\<rparr>" by (cases s) simp
  then show "heap_unlock h (set_sem (heap_sem s) 0 s) = Some (s\<lparr>smem := h\<rparr>)"
    using assms by (simp add: heap_unlock_def rt_sem_release_def heap_idle_def set_sem_def rt_object_get_type_def)
qed

text \<open>The number of bytes that a request is rounded to.\<close>

definition req :: "u32 \<Rightarrow> nat" where
  "req sz = max 12 (4 * ((unat sz + 3) div 4))"

lemma req_props: "4 dvd req sz" "12 \<le> req sz" "unat sz \<le> req sz"
  by (auto simp: req_def max_def)

lemma rt_malloc_idle:
  assumes s: "heap_idle s xs ys" and sz: "sz \<noteq> 0" "unat sz + 3 < 2 ^ 32" and fit: "req sz + 12 \<le> span (xs @ ys)"
  shows "rt_malloc sz s = do { (h, p) \<leftarrow> malloc_locked (w32 (req sz)) (smem s); Some (s\<lparr>smem := h\<rparr>, Returns p) }"
proof -
  have msa: "mem_size_aligned (smem s) = w32 (span (xs @ ys) - 12)" and lt: "span (xs @ ys) < 2 ^ 32"
    using s by (auto simp: heap_idle_def heap_rep_def heap_blocks_def wf_mem_def)
  define a where "a = 4 * ((unat sz + 3) div 4)"
  have a: "RT_ALIGN sz 4 = w32 a" "a + 12 \<le> span (xs @ ys)" "a < 2 ^ 32"
    using unat_ALIGN[OF sz(2)] fit lt w32_unat[of "RT_ALIGN sz 4"] by (simp_all add: a_def req_def)
  have "\<not> mem_size_aligned (smem s) < w32 a" using a lt by (auto simp: msa w32_less)
  moreover have "(if w32 a < 12 then 12 else w32 a) = w32 (req sz)"
    using a(3) w32_less[of a 12] by (simp add: req_def a_def[symmetric] w32_numeral max_def)
  ultimately show ?thesis
    using sz(1) s heap_lock_unlock[OF s] a(1)
    by (cases "malloc_locked (w32 (req sz)) (smem s)")
      (auto simp: rt_malloc_def rt_malloc_end_def rt_debug_not_in_interrupt_def heap_idle_def Let_def)
qed

lemma rt_free_idle:
  assumes s: "heap_idle s xs ys" and eq: "xs @ ys = zs @ (True, n) # vs" "12 < n"
    and r: "r = heap_ptr (smem s) + w32 (span zs + 12)"
  shows "rt_free r s = do { h \<leftarrow> free_locked (w32 (span zs)) (smem s); Some (s\<lparr>smem := h\<rparr>, Returns ()) }"
proof -
  have "heap_rep (smem s) xs ys" using s by (simp add: heap_idle_def)
  note ua = user_addr[OF this eq(1) r]
  show ?thesis
    using ua eq(2) s heap_lock_unlock[OF s] 
    by (auto simp: rt_free_def rt_free_end_def rt_debug_not_in_interrupt_def heap_idle_def Let_def)
qed

section \<open>Live blocks\<close>

text \<open>The data areas that are handed out, as offset and length.\<close>

fun live_at :: "nat \<Rightarrow> blocks \<Rightarrow> (nat \<times> nat) set" where
  "live_at off [] = {}"
| "live_at off ((u, n) # bs) = (if u then {(off + 12, n - 12)} else {}) \<union> live_at (off + n) bs"

lemma live_at_append [simp]: "live_at off (xs @ ys) = live_at off xs \<union> live_at (off + span xs) ys"
  by (induction off xs rule: live_at.induct) (auto simp: add.assoc)

lemma live_at_iff:
  "(a, l) \<in> live_at off bs \<longleftrightarrow> (\<exists>zs n vs. bs = zs @ (True, n) # vs \<and> a = off + span zs + 12 \<and> l = n - 12)"
proof
  show "(a, l) \<in> live_at off bs \<Longrightarrow> \<exists>zs n vs. bs = zs @ (True, n) # vs \<and> a = off + span zs + 12 \<and> l = n - 12"
  proof (induction off bs rule: live_at.induct)
    case (2 off u n bs)
    show ?case
    proof (cases "u \<and> (a, l) = (off + 12, n - 12)")
      case True
      then show ?thesis by (intro exI[of _ "[]"] exI[of _ n] exI[of _ bs]) simp
    next
      case False
      then obtain zs m vs where "bs = zs @ (True, m) # vs" "a = off + n + span zs + 12" "l = m - 12"
        using 2 by (auto split: if_splits)
      then show ?thesis by (intro exI[of _ "(u, n) # zs"] exI[of _ m] exI[of _ vs]) simp
    qed
  qed simp
qed auto

lemma live_at_range: "(a, l) \<in> live_at off bs \<Longrightarrow> \<forall>(u, n) \<in> set bs. 12 \<le> n \<Longrightarrow> off + 12 \<le> a \<and> a + l \<le> off + span bs"
  by (auto simp: live_at_iff)

lemma live_at_disjoint:
  "(a, l) \<in> live_at off bs \<Longrightarrow> (b, m) \<in> live_at off bs \<Longrightarrow> (a, l) \<noteq> (b, m) \<Longrightarrow> \<forall>(u, n) \<in> set bs. 12 \<le> n \<Longrightarrow>
   {a..<a + l} \<inter> {b..<b + m} = {} \<and> a \<noteq> b"
proof (induction off bs rule: live_at.induct)
  case (2 off u n bs)
  have *: "off + n + 12 \<le> c \<and> c + k \<le> off + n + span bs" if "(c, k) \<in> live_at (off + n) bs" for c k
    using live_at_range[OF that] 2(5) by auto
  show ?case using 2 *[of a l] *[of b m] by (auto split: if_splits)
qed simp

lemma live_at_data: "(a, l) \<in> live_at off bs \<Longrightarrow> a \<le> i \<Longrightarrow> i < a + l \<Longrightarrow> i \<in> data_cells off bs"
  by (induction off bs rule: live_at.induct) (auto split: if_splits)

lemma wf_mem_big: "wf_mem m bs \<Longrightarrow> \<forall>(u, n) \<in> set bs. 12 \<le> n"
  using wf_mem_at(2) by (fastforce dest: split_list)

lemma live_at_freed: "live_at 0 (freed zs n vs) = live_at 0 zs \<union> live_at (span zs + n) vs"
proof -
  obtain n' vs' where m: "(case vs of (False, k) # ws \<Rightarrow> (n + k, ws) | _ \<Rightarrow> (n, vs)) = (n', vs')" by fastforce
  then have "live_at (span zs + n') vs' = live_at (span zs + n) vs"
    by (auto simp: add.assoc split: list.splits bool.splits)
  then show ?thesis using m by (cases zs rule: rev_cases) (auto simp: freed_def add.assoc)
qed

lemma blocks_unique:
  "blocks_at m pv off bs \<Longrightarrow> blocks_at m pv' off cs \<Longrightarrow> span bs = span cs \<Longrightarrow> off + span bs < 2 ^ 32 \<Longrightarrow> bs = cs"
proof (induction m pv off bs arbitrary: pv' cs rule: blocks_at.induct)
  case (1 m pv off)
  then show ?case by (cases cs) auto
next
  case (2 m pv off u n bs)
  then obtain v k ds where cs: "cs = (v, k) # ds" by (cases cs) auto
  have e: "(of_bool u :: u16) = of_bool v" "w32 (off + n) = w32 (off + k)" using 2 cs by auto
  have "off + n < 2 ^ 32" "off + k < 2 ^ 32" using "2.prems"(3,4) cs by simp_all
  then have nk: "n = k" using e(2) w32_eq[of "off + n" "off + k"] by simp
  have "u = v" using e(1) by (cases u; cases v) simp_all
  moreover have "bs = ds" using "2.IH"[of off ds] "2.prems" cs nk by simp
  ultimately show ?case using cs nk by simp
qed

definition heap_live :: "small_mem \<Rightarrow> (nat \<times> nat) set" where
  "heap_live h = {x. \<exists>xs ys. heap_rep h xs ys \<and> x \<in> live_at 0 (xs @ ys)}"

lemma heap_live_eq:
  assumes "heap_rep h xs ys"
  shows "heap_live h = live_at 0 (xs @ ys)"
proof -
  have eq: "xs' @ ys' = xs @ ys" if r: "heap_rep h xs' ys'" for xs' ys'
  proof (rule blocks_unique)
    show "span (xs' @ ys') = span (xs @ ys)"
      using assms r by (auto simp: heap_rep_def heap_blocks_def wf_mem_def w32_eq)
  qed (use assms r in \<open>auto simp: heap_rep_def heap_blocks_def wf_mem_def\<close>)
  show ?thesis
  proof (intro equalityI subsetI)
    fix x assume "x \<in> heap_live h"
    then obtain xs' ys' where "heap_rep h xs' ys'" "x \<in> live_at 0 (xs' @ ys')" by (auto simp: heap_live_def)
    then show "x \<in> live_at 0 (xs @ ys)" by (metis eq)
  next
    fix x assume "x \<in> live_at 0 (xs @ ys)"
    then show "x \<in> heap_live h" using assms unfolding heap_live_def by blast
  qed
qed

section \<open>A heap after initialization\<close>

lemma mem_setup_ok:
  assumes m: "mem_setup b e h = Some h'" and b: "unat b + 3 < 2 ^ 32" and u: "used_mem h = 0"
  shows "heap_rep h' [] [(False, unat (mem_size_aligned h') + 12)]"
    "heap_ptr h' = RT_ALIGN b 4" "mem_size_aligned h' = RT_ALIGN_DOWN e 4 - RT_ALIGN b 4 - 24"
proof -
  let ?b = "RT_ALIGN b 4" and ?e = "RT_ALIGN_DOWN e 4"
  define k where "k = ?e - ?b - 24"
  have c: "24 < ?e" "?b \<le> ?e - 24"
    using m by (auto simp: mem_setup_def Let_def split: if_splits)
  have ub: "unat ?b = 4 * ((unat b + 3) div 4)" "unat ?e = 4 * (unat e div 4)" using unat_ALIGN[OF b] unat_ALIGN_DOWN by auto
  have "unat (?e - 24) = unat ?e - 24" using c(1) by (simp add: unat_sub word_less_nat_alt word_le_nat_alt)
  then have le: "unat ?b + 24 \<le> unat ?e" using c by (simp add: word_le_nat_alt word_less_nat_alt)
  have uk: "unat k = unat ?e - unat ?b - 24"
  proof -
    have "unat (?e - ?b) = unat ?e - unat ?b" using le by (simp add: unat_sub word_le_nat_alt)
    then show ?thesis using le by (simp add: k_def unat_sub word_le_nat_alt)
  qed
  have lt: "unat ?e < 2 ^ 32" using unsigned_less[of ?e, where ?'a = nat] by simp
  let ?n = "unat k + 12"
  have "?n < 2 ^ 32" using uk lt le by linarith
  moreover have n1: "k + 12 = w32 ?n" by (simp add: w32_def)
  ultimately have n: "k + 12 = w32 ?n" "unat (k + 12) = ?n" by simp_all
  have d: "4 dvd unat k" using uk ub by (simp add: dvd_diff_nat)
  have h': "h' = h\<lparr>mem_size_aligned := k, heap_ptr := ?b,
      heap_bytes := put_hdr (k + 12) \<lparr>hm_magic = HEAP_MAGIC, hm_used = 1, hm_next = k + 12, hm_prev = k + 12\<rparr>
        (put_hdr 0 \<lparr>hm_magic = HEAP_MAGIC, hm_used = 0, hm_next = k + 12, hm_prev = 0\<rparr> (heap_bytes h)),
      heap_end := k + 12, lfree := 0\<rparr>"
    using m c by (auto simp: mem_setup_def Let_def k_def upd_hdr_def split: if_splits)
  have bn: "unat ?b + ?n + 12 < 2 ^ 32" using uk le lt by linarith
  then have "wf_mem (heap_bytes h') [(False, ?n)]"
    using n d by (simp add: h' wf_mem_def get_put_other w32_numeral)
  moreover note bn
  moreover have "4 dvd unat ?b" using ub by simp
  ultimately show "heap_rep h' [] [(False, unat (mem_size_aligned h') + 12)]"
    using u n by (simp add: heap_rep_def heap_blocks_def h' starts_free_def w32_numeral coalesced_simps[of "[]", simplified])
  show "heap_ptr h' = ?b" "mem_size_aligned h' = ?e - ?b - 24" by (simp_all add: h' k_def)
qed

definition demo_mem :: small_mem where
  "demo_mem = the (mem_setup 0x20000002 0x20000100 \<lparr>heap_ptr = 0, heap_end = 0, lfree = 0, mem_size_aligned = 0,
     used_mem = 0, max_mem = 0, heap_bytes = (\<lambda>_. 0)\<rparr>)"

definition demo_heap :: "u16 \<Rightarrow> kmem" where
  "demo_heap v = kernel.extend (set_sem 1 v demo_ipc) (kmem.fields demo_mem 1)"

lemma demo_heap_sel [simp]:
  "smem (demo_heap v) = demo_mem" "heap_sem (demo_heap v) = 1" "cur (demo_heap v) = Some 1"
  "sems (demo_heap v) n = (if n = 1 then \<lparr>sem_value = v\<rparr> else \<lparr>sem_value = 0\<rparr>)"
  "rt_object_get_type x (demo_heap v) = rt_object_get_type x demo_ipc" "tstat (demo_heap v) t = tstat demo_ipc t"
  "tl (demo_heap v) = tl demo_ipc" "irq_nest (demo_heap v) = 0" "lock_nest (demo_heap v) = 0" "objs (demo_heap v) = objs demo_ipc"
  by (simp_all add: demo_heap_def kernel.defs kmem.defs rt_object_get_type_def tstat_def del: demo_ipc_kernel(1))

lemma demo_heap_inv: "kinv {} 100 (demo_heap v)"
proof -
  have "demo_heap v = demo_kernel (ktimer.more (demo_heap v))"
    by (simp add: demo_heap_def demo_ipc_def demo_kernel_def set_sem_def kernel.defs kmem.defs)
  then show ?thesis by (metis demo_kernel_inv)
qed

lemma demo_mem_rep: "heap_rep demo_mem [] [(False, 240)]" "heap_ptr demo_mem = 0x20000004"
proof -
  let ?h0 = "\<lparr>heap_ptr = 0, heap_end = 0, lfree = 0, mem_size_aligned = 0, used_mem = 0, max_mem = 0, heap_bytes = (\<lambda>_. 0)\<rparr>"
  have "mem_setup 0x20000002 0x20000100 ?h0 \<noteq> None" by (simp add: mem_setup_def Let_def RT_ALIGN_def RT_ALIGN_DOWN_def)
  then have "mem_setup 0x20000002 0x20000100 ?h0 = Some demo_mem" by (auto simp: demo_mem_def)
  note S = mem_setup_ok[OF this]
  then show "heap_rep demo_mem [] [(False, 240)]" "heap_ptr demo_mem = 0x20000004"
    by (simp_all add: RT_ALIGN_def RT_ALIGN_DOWN_def)
qed

lemma demo_heap_idle: "heap_idle (demo_heap 1) [] [(False, 240)]"
  using demo_mem_rep by (simp add: heap_idle_def)

lemma demo_malloc:
  assumes sz: "sz \<noteq> 0" "unat sz + 3 < 2 ^ 32" "req sz + 12 < 240"
  obtains h xs ys where "rt_malloc sz (demo_heap 1) = Some ((demo_heap 1)\<lparr>smem := h\<rparr>, Returns 0x20000010)"
    "heap_idle ((demo_heap 1)\<lparr>smem := h\<rparr>) xs ys" "xs @ ys = taken (req sz) 240" "heap_ptr h = 0x20000004"
proof -
  have one: "[(False, 240)] = us @ (False, n) # vs \<longleftrightarrow> us = [] \<and> n = 240 \<and> vs = []" for us n and vs :: blocks
    by (cases us) auto
  have two: "[(False, 240)] = us @ b # vs \<longleftrightarrow> us = [] \<and> b = (False, 240) \<and> vs = []" for us b and vs :: blocks
    by (cases us) auto
  obtain h xs ys where "malloc_locked (w32 (req sz)) demo_mem = Some (h, heap_ptr demo_mem + w32 12)" "heap_rep h xs ys"
    "xs @ ys = taken (req sz) 240" "heap_ptr h = heap_ptr demo_mem"
    using malloc_locked_ok[OF demo_mem_rep(1) req_props(1), of sz] sz(3) unfolding one two by auto
  then show thesis
    using that[of h xs ys] rt_malloc_idle[OF demo_heap_idle sz(1,2)] sz(3) demo_heap_idle demo_mem_rep(2)
    by (simp add: w32_def heap_idle_def)
qed

lemma demo_alloc:
  obtains h xs ys where "rt_malloc 10 (demo_heap 1) = Some ((demo_heap 1)\<lparr>smem := h\<rparr>, Returns 0x20000010)"
    "heap_idle ((demo_heap 1)\<lparr>smem := h\<rparr>) xs ys" "xs @ ys = [(True, 24), (False, 216)]" "heap_ptr h = 0x20000004"
proof -
  have "req 10 = 12" by (simp add: req_def)
  then show thesis by (intro demo_malloc[of 10, OF _ _ _ that]) (simp_all add: taken_def)
qed

section \<open>What the calls promise\<close>



lemma rt_free_ok:
  assumes s: "heap_idle s xs ys" and eq: "xs @ ys = zs @ (True, n) # vs" "12 < n"
    and r: "r = heap_ptr (smem s) + w32 (span zs + 12)"
  shows "\<exists>h' xs' ys'. rt_free r s = Some (s\<lparr>smem := h'\<rparr>, Returns ()) \<and> heap_idle (s\<lparr>smem := h'\<rparr>) xs' ys' \<and>
    xs' @ ys' = freed zs n vs \<and> heap_ptr h' = heap_ptr (smem s) \<and>
    live_at 0 (xs' @ ys') = live_at 0 (xs @ ys) - {(span zs + 12, n - 12)} \<and>
    (\<forall>i \<in> data_cells 0 (zs @ (False, n) # vs). heap_bytes h' i = heap_bytes (smem s) i) \<and>
    (list_all fst xs \<longrightarrow> list_all fst xs')"
proof -
  have rep: "heap_rep (smem s) xs ys" using s by (simp add: heap_idle_def)
  obtain h' xs' ys' where f: "free_locked (w32 (span zs)) (smem s) = Some h'" "heap_rep h' xs' ys'" "xs' @ ys' = freed zs n vs"
    "heap_ptr h' = heap_ptr (smem s)" "\<forall>i \<in> data_cells 0 (zs @ (False, n) # vs). heap_bytes h' i = heap_bytes (smem s) i"
    "list_all fst xs \<longrightarrow> list_all fst xs'"
    using free_locked_ok[OF rep eq(1)] by blast
  have "wf_mem (heap_bytes (smem s)) (zs @ (True, n) # vs)" using rep eq by (simp add: heap_rep_def heap_blocks_def)
  note big = wf_mem_big[OF this]
  have "(span zs + 12, n - 12) \<notin> live_at 0 zs" "(span zs + 12, n - 12) \<notin> live_at (span zs + n) vs"
    using live_at_range[of "span zs + 12" "n - 12" 0 zs] live_at_range[of "span zs + 12" "n - 12" "span zs + n" vs] big eq(2) by auto
  then have "live_at 0 (xs' @ ys') = live_at 0 (xs @ ys) - {(span zs + 12, n - 12)}"
    unfolding f(3) eq(1) live_at_freed by auto
  moreover have "rt_free r s = Some (s\<lparr>smem := h'\<rparr>, Returns ())" using rt_free_idle[OF s eq r] f(1) by simp
  moreover have "heap_idle (s\<lparr>smem := h'\<rparr>) xs' ys'" using s f(2) by (simp add: heap_idle_def)
  ultimately show ?thesis using f(3-6) by (intro exI[of _ h'] exI[of _ xs'] exI[of _ ys'] conjI)
qed

text \<open>
  C31. \<^verbatim>\<open>rt_free\<close> of a used block makes it free and merges it with the free blocks before and behind,
  so that no two free blocks are neighbours. The other used blocks keep their place and their
  bytes, and \<^verbatim>\<open>lfree\<close> stays the lowest free block if it was.
\<close>

theorem rt_free_coalesces:
  assumes s: "heap_idle s xs ys" and eq: "xs @ ys = zs @ (True, n) # vs" "12 < n"
    and r: "r = heap_ptr (smem s) + w32 (span zs + 12)"
  shows "\<exists>h' xs' ys'. rt_free r s = Some (s\<lparr>smem := h'\<rparr>, Returns ()) \<and> heap_idle (s\<lparr>smem := h'\<rparr>) xs' ys' \<and>
    xs' @ ys' = freed zs n vs \<and> heap_ptr h' = heap_ptr (smem s) \<and>
    live_at 0 (xs' @ ys') = live_at 0 (xs @ ys) - {(span zs + 12, n - 12)} \<and>
    (\<forall>i \<in> data_cells 0 (zs @ (False, n) # vs). heap_bytes h' i = heap_bytes (smem s) i) \<and>
    (list_all fst xs \<longrightarrow> list_all fst xs')"
  by (rule rt_free_ok[OF assms])

theorem rt_free_coalesces_witness:
  "\<exists>s1 s2. rt_malloc 10 (demo_heap 1) = Some (s1, Returns 0x20000010) \<and> rt_free 0x20000010 s1 = Some (s2, Returns ()) \<and>
     heap_live (smem s2) = {}"
proof -
  obtain h xs ys where d: "rt_malloc 10 (demo_heap 1) = Some ((demo_heap 1)\<lparr>smem := h\<rparr>, Returns 0x20000010)"
    "heap_idle ((demo_heap 1)\<lparr>smem := h\<rparr>) xs ys" "xs @ ys = [] @ (True, 24) # [(False, 216)]" "heap_ptr h = 0x20000004"
    using demo_alloc by (metis append_Nil)
  have "0x20000010 = heap_ptr (smem ((demo_heap 1)\<lparr>smem := h\<rparr>)) + w32 (span [] + 12)" using d(4) by (simp add: w32_def)
  from rt_free_coalesces[OF d(2,3) _ this] obtain h' xs' ys' where
    "rt_free 0x20000010 ((demo_heap 1)\<lparr>smem := h\<rparr>) = Some ((demo_heap 1)\<lparr>smem := h\<rparr>\<lparr>smem := h'\<rparr>, Returns ())"
    "heap_idle ((demo_heap 1)\<lparr>smem := h\<rparr>\<lparr>smem := h'\<rparr>) xs' ys'" "live_at 0 (xs' @ ys') = live_at 0 (xs @ ys) - {(span [] + 12, 24 - 12)}"
    by auto
  moreover from this have "heap_live h' = {}" using d(3) heap_live_eq[of h' xs' ys'] by (simp add: heap_idle_def)
  ultimately show ?thesis using d(1) by (intro exI conjI) auto
qed

lemma freed_taken:
  assumes "coalesced (zs @ (False, n) # vs)" "k + 12 \<le> n"
  shows "freed zs (snd (hd (taken k n))) (List.tl (taken k n) @ vs) = zs @ (False, n) # vs"
proof -
  have "zs = [] \<or> fst (last zs)" "vs = [] \<or> fst (hd vs)" using assms(1) by (auto simp: coalesced_simps)
  then show ?thesis using assms(2) by (cases vs) (auto simp: freed_def taken_def split: bool.splits)
qed

text \<open>
  C34. Releasing a block that \<^verbatim>\<open>rt_malloc\<close> has just returned restores the heap: the same list of
  blocks, the same count of used memory, and the same bytes in every used block.
\<close>

theorem malloc_free_roundtrip:
  assumes s: "heap_idle s xs ys" and sz: "sz \<noteq> 0" "unat sz + 3 < 2 ^ 32" "req sz + 12 \<le> span (xs @ ys)"
    and m: "rt_malloc sz s = Some (s1, Returns p)" "p \<noteq> 0"
  shows "\<exists>s2 xs2 ys2. rt_free p s1 = Some (s2, Returns ()) \<and> heap_idle s2 xs2 ys2 \<and> xs2 @ ys2 = xs @ ys \<and>
    used_mem (smem s2) = used_mem (smem s) \<and> (\<forall>i \<in> data_cells 0 (xs @ ys). heap_bytes (smem s2) i = heap_bytes (smem s) i)"
proof -
  have rep: "heap_rep (smem s) xs ys" using s by (simp add: heap_idle_def)
  have "malloc_locked (w32 (req sz)) (smem s) \<noteq> Some (smem s, 0)" using m rt_malloc_idle[OF s sz] by auto
  then obtain h' us n vs xs' ys' where a: "ys = us @ (False, n) # vs" "req sz + 12 \<le> n"
    "malloc_locked (w32 (req sz)) (smem s) = Some (h', heap_ptr (smem s) + w32 (span xs + span us + 12))"
    "heap_rep h' xs' ys'" "xs' @ ys' = xs @ us @ taken (req sz) n @ vs" "heap_ptr h' = heap_ptr (smem s)"
    "\<forall>i \<in> data_cells 0 (xs' @ ys'). heap_bytes h' i = heap_bytes (smem s) i"
    using malloc_locked_ok[OF rep req_props(1) sz(3)] by metis
  have s1: "s1 = s\<lparr>smem := h'\<rparr>" "p = heap_ptr h' + w32 (span (xs @ us) + 12)"
    using m rt_malloc_idle[OF s sz] a(3,6) by auto
  let ?k = "snd (hd (taken (req sz) n))" and ?ws = "List.tl (taken (req sz) n) @ vs"
  have eq: "xs' @ ys' = (xs @ us) @ (True, ?k) # ?ws" "12 < ?k"
    using a(2,5) req_props(2)[of sz] by (auto simp: taken_def)
  have i1: "heap_idle s1 xs' ys'" using s a(4) s1 by (simp add: heap_idle_def)
  have i1': "heap_ptr (smem s1) = heap_ptr h'" using s1 by simp
  have rep1: "heap_rep (smem s1) xs' ys'" using i1 by (simp add: heap_idle_def)
  obtain h2 xs2 ys2 where f: "free_locked (w32 (span (xs @ us))) (smem s1) = Some h2" "heap_rep h2 xs2 ys2"
    "xs2 @ ys2 = freed (xs @ us) ?k ?ws" "\<forall>i \<in> data_cells 0 ((xs @ us) @ (False, ?k) # ?ws). heap_bytes h2 i = heap_bytes (smem s1) i"
    using free_locked_ok[OF rep1 eq(1)] by blast
  have co: "coalesced ((xs @ us) @ (False, n) # vs)" using rep a(1) by (simp add: heap_rep_def)
  have l: "xs2 @ ys2 = xs @ ys" using f(3) freed_taken[OF co a(2)] a(1) by simp
  have "rt_free p s1 = Some (s1\<lparr>smem := h2\<rparr>, Returns ())"
    using rt_free_idle[OF i1 eq] s1 f(1) by simp
  moreover have "heap_idle (s1\<lparr>smem := h2\<rparr>) xs2 ys2" using i1 f(2) by (simp add: heap_idle_def)
  moreover have "used_mem h2 = used_mem (smem s)"
    using rep f(2) unfolding heap_rep_def heap_blocks_def l by simp
  moreover have "heap_bytes h2 i = heap_bytes (smem s) i" if "i \<in> data_cells 0 (xs @ ys)" for i
  proof -
    have "i \<in> data_cells 0 ((xs @ us) @ (False, ?k) # ?ws)"
      using that a(1,2) unfolding taken_def by (auto simp: data_cells_append add.assoc split: if_splits)
    moreover have "i \<in> data_cells 0 (xs' @ ys')"
      using calculation unfolding eq(1) by (auto simp: data_cells_append add.assoc)
    ultimately show ?thesis using f(4) a(7) s1 by simp
  qed
  ultimately show ?thesis using l by (intro exI[of _ "s1\<lparr>smem := h2\<rparr>"] exI[of _ xs2] exI[of _ ys2]) simp
qed

theorem malloc_free_roundtrip_witness:
  "\<exists>s1 s2. rt_malloc 10 (demo_heap 1) = Some (s1, Returns 0x20000010) \<and> rt_free 0x20000010 s1 = Some (s2, Returns ()) \<and>
     used_mem (smem s2) = 0"
proof -
  obtain h xs ys where d: "rt_malloc 10 (demo_heap 1) = Some ((demo_heap 1)\<lparr>smem := h\<rparr>, Returns 0x20000010)"
    using demo_alloc by metis
  have "used_mem demo_mem = 0" using demo_mem_rep(1) by (simp add: heap_rep_def heap_blocks_def w32_numeral)
  then show ?thesis
    using malloc_free_roundtrip[OF demo_heap_idle _ _ _ d] d by (auto simp: req_def)
qed

text \<open>Writing into the data of used blocks leaves the list alone.\<close>

lemma blocks_at_data:
  "blocks_at m pv off bs \<Longrightarrow> off + span bs < 2 ^ 32 \<Longrightarrow>
   (\<And>i. off \<le> i \<Longrightarrow> i < off + span bs \<Longrightarrow> i \<notin> data_cells off bs \<Longrightarrow> m' i = m i) \<Longrightarrow> blocks_at m' pv off bs"
proof (induction m pv off bs rule: blocks_at.induct)
  case (2 m pv off u n bs)
  have r: "data_cells (off + n) bs \<subseteq> {off + n..<off + n + span bs}" by (rule data_cells_range)
  have "m' i = m i" if "off \<le> i" "i < off + 12" for i
    using that r 2(2) by (intro 2(4)) auto
  then have "get_hdr m' (w32 off) = get_hdr m (w32 off)" using 2(3) by (intro get_hdr_cong) auto
  moreover have "blocks_at m' off (off + n) bs"
    by (rule 2(1)) (use 2(2,3) in \<open>auto intro!: 2(4) split: if_splits\<close>)
  ultimately show ?case using 2(2) by simp
qed simp

lemma heap_rep_data:
  assumes rep: "heap_rep h xs ys" and m: "\<And>i. i \<notin> data_cells 0 (xs @ ys) \<Longrightarrow> m i = heap_bytes h i"
  shows "heap_rep (h\<lparr>heap_bytes := m\<rparr>) xs ys"
proof -
  have wf: "wf_mem (heap_bytes h) (xs @ ys)" using rep by (simp add: heap_rep_def heap_blocks_def)
  have "blocks_at m 0 0 (xs @ ys)"
    by (rule blocks_at_data[of "heap_bytes h"]) (use wf in \<open>simp_all add: wf_mem_def m\<close>)
  moreover have "get_hdr m (w32 (span (xs @ ys))) = get_hdr (heap_bytes h) (w32 (span (xs @ ys)))"
    using wf data_cells_range[of 0 "xs @ ys"] by (intro get_hdr_cong m) (auto simp: wf_mem_def)
  ultimately have "wf_mem m (xs @ ys)" using wf unfolding wf_mem_def by simp
  then show ?thesis using rep by (auto simp: heap_rep_def heap_blocks_def)
qed

lemma heap_rep_copy:
  assumes rep: "heap_rep h xs ys" and l: "(a, c) \<in> live_at 0 (xs @ ys)" "n \<le> c"
  shows "heap_rep (h\<lparr>heap_bytes := copied a src n (heap_bytes h)\<rparr>) xs ys"
proof (rule heap_rep_data[OF rep])
  fix i assume "i \<notin> data_cells 0 (xs @ ys)"
  then have "\<not> (a \<le> i \<and> i < a + n)" using live_at_data[OF l(1), of i] l(2) by auto
  then show "copied a src n (heap_bytes h) i = heap_bytes h i" by (auto simp: copied_def)
qed

lemma live_taken:
  "live_at 0 (zs @ taken k n @ vs) = insert (span zs + 12, snd (hd (taken k n)) - 12) (live_at 0 (zs @ (False, n) # vs))"
  if "k + 12 \<le> n"
  using that by (auto simp: taken_def add.assoc)

lemma data_cells_free:
  "i \<in> data_cells 0 (zs @ (False, n) # vs) \<Longrightarrow> i < span zs \<or> span zs + n \<le> i"
  using data_cells_range[of 0 zs] data_cells_range[of "span zs + n" vs] by (auto simp: data_cells_append)

text \<open>A used block keeps its place when another block is taken.\<close>

lemma taken_elsewhere:
  assumes eq: "zs @ (True, n) # vs = as @ (False, m) # bs" and k: "k + 12 \<le> m"
  shows "\<exists>zs1 vs1. as @ taken k m @ bs = zs1 @ (True, n) # vs1 \<and> span zs1 = span zs \<and>
    data_cells 0 (zs @ (False, n) # vs) \<subseteq> data_cells 0 (zs1 @ (False, n) # vs1) \<and>
    (span as + 12, snd (hd (taken k m)) - 12) \<in> live_at 0 (zs1 @ (False, n) # vs1) \<and>
    (span as + m \<le> span zs \<or> span zs + n \<le> span as)"
proof -
  have sp: "span (taken k m) = m" using k by simp
  have d: "data_cells off (taken k m @ ws) \<supseteq> data_cells (off + m) ws" for off ws
    using k by (auto simp: data_cells_append sp)
  have l: "(off + 12, snd (hd (taken k m)) - 12) \<in> live_at off (taken k m @ ws)" for off ws
    by (auto simp: taken_def)
  consider (low) z where "zs = as @ (False, m) # z" "bs = z @ (True, n) # vs"
    | (high) z where "as = zs @ (True, n) # z" "vs = z @ (False, m) # bs"
  proof -
    from eq consider us where "zs = as @ us" "us @ (True, n) # vs = (False, m) # bs"
      | us where "as = zs @ us" "us @ (False, m) # bs = (True, n) # vs"
      unfolding append_eq_append_conv2 by metis
    then show thesis
    proof cases
      case 1
      then show thesis using low by (cases us) auto
    next
      case 2
      then show thesis using high by (cases us) auto
    qed
  qed
  then show ?thesis
  proof cases
    case low
    then show ?thesis
      using d[of "span as" "z @ (False, n) # vs"] l[of "span as" "z @ (False, n) # vs"] sp
      by (intro exI[of _ "as @ taken k m @ z"] exI[of _ vs]) (auto simp: data_cells_append add.assoc)
  next
    case high
    then show ?thesis
      using d[of "span zs + n + span z" bs] l[of "span zs + n + span z" bs] sp
      by (intro exI[of _ zs] exI[of _ "z @ taken k m @ bs"]) (auto simp: data_cells_append add.assoc)
  qed
qed

lemma realloc_locked_eq:
  assumes rep: "heap_rep h xs ys" and eq: "xs @ ys = zs @ (True, n) # vs" "12 < n"
    and r: "r = heap_ptr h + w32 (span zs + 12)" and k: "k + 12 \<le> span (xs @ ys)"
  shows "realloc_locked r (w32 k) h =
    (if k = n - 12 then Some (h, None)
     else if k + 36 < n then map_option (\<lambda>h'. (h', None)) (realloc_split (w32 k) (w32 (n - 12)) (w32 (span zs)) h)
     else Some (h, Some (w32 (n - 12))))"
proof -
  have wf: "wf_mem (heap_bytes h) (zs @ (True, n) # vs)" using rep eq by (simp add: heap_rep_def heap_blocks_def)
  note at = wf_mem_at[OF wf] and ua = user_addr[OF rep eq(1) r]
  have kl: "k + 24 < 2 ^ 32" using k at(5) unfolding eq(1) by simp
  have "hm_next (hdr h (w32 (span zs))) - w32 (span zs) - 12 = w32 (n - 12)"
    using at w32_diff[of "span zs" "span zs + n"] w32_diff[of 12 n] by (simp add: w32_numeral)
  moreover have "(w32 (n - 12) = w32 k) = (k = n - 12)" using kl at by (auto simp: w32_eq)
  moreover have "(w32 k + 12 + 12 < w32 (n - 12)) = (k + 36 < n)"
    using kl at by (auto simp: w32_numeral(1) w32_less)
  ultimately show ?thesis
    using ua eq(2) by (auto simp: realloc_locked_def Let_def map_option_case split: option.splits bind_splits)
qed

lemma rt_realloc_idle:
  assumes s: "heap_idle s xs ys" and nz: "newsize \<noteq> 0" "unat newsize + 3 < 2 ^ 32" and r: "r \<noteq> 0"
    and k: "k = 4 * ((unat newsize + 3) div 4)" "k + 12 \<le> span (xs @ ys)"
  shows "rt_realloc r newsize s = do {
    (h, move) \<leftarrow> realloc_locked r (w32 k) (smem s);
    (case move of
       None \<Rightarrow> Some (s\<lparr>smem := h\<rparr>, Returns r)
     | Some sz \<Rightarrow> do {
         (s2, c) \<leftarrow> rt_malloc (w32 k) (s\<lparr>smem := h\<rparr>);
         (case c of Blocks \<Rightarrow> Some (s2, Blocks) | Returns nmem \<Rightarrow> realloc_move r (w32 k) sz nmem s2)
       }) }"
proof -
  have msa: "mem_size_aligned (smem s) = w32 (span (xs @ ys) - 12)" and lt: "span (xs @ ys) < 2 ^ 32"
    using s by (auto simp: heap_idle_def heap_rep_def heap_blocks_def wf_mem_def)
  have a: "RT_ALIGN newsize 4 = w32 k" using unat_ALIGN[OF nz(2)] w32_unat[of "RT_ALIGN newsize 4"] k by simp
  have "0 < unat newsize" using nz(1) by (simp add: unat_gt_0)
  then have "w32 k \<noteq> 0" using k lt w32_eq[of k 0] by (simp add: w32_numeral)
  moreover have "\<not> mem_size_aligned (smem s) < w32 k" using k lt by (auto simp: msa w32_less)
  ultimately show ?thesis
    using r s heap_lock_unlock[OF s] a
    by (cases "realloc_locked r (w32 k) (smem s)")
      (auto simp: rt_realloc_def rt_realloc_end_def rt_debug_not_in_interrupt_def heap_idle_def Let_def split: option.splits)
qed

text \<open>What \<^verbatim>\<open>rt_realloc\<close> promises of the block \<open>old\<close>, which becomes \<open>k\<close> bytes long at least.\<close>

definition resized :: "nat \<times> nat \<Rightarrow> nat \<Rightarrow> blocks \<Rightarrow> small_mem \<Rightarrow> u32 \<Rightarrow> blocks \<Rightarrow> small_mem \<Rightarrow> bool" where
  "resized old k bs h p bs' h' \<longleftrightarrow>
     (\<exists>a l. p = heap_ptr h + w32 a \<and> k \<le> l \<and> live_at 0 bs' = insert (a, l) (live_at 0 bs - {old}) \<and>
        (\<forall>i < min k (snd old). heap_bytes h' (a + i) = heap_bytes h (fst old + i)) \<and>
        (\<forall>(b, m) \<in> live_at 0 bs - {old}. \<forall>i < m. heap_bytes h' (b + i) = heap_bytes h (b + i)))"

lemma resized_moved:
  assumes lv: "live_at 0 bs1 = insert (a, c) (live_at 0 bs)" and ne: "a \<noteq> fst old" and k: "k \<le> c"
    and bs3: "live_at 0 bs3 = live_at 0 bs1 - {old}" and old: "old \<in> live_at 0 bs"
    and h1: "\<forall>i \<in> data_cells 0 bs1. heap_bytes h1 i = heap_bytes h i"
    and h3: "\<And>b m i. (b, m) \<in> live_at 0 bs1 - {old} \<Longrightarrow> i < m \<Longrightarrow>
      heap_bytes h3 (b + i) = copied a (fst old) (min k (snd old)) (heap_bytes h1) (b + i)"
    and out: "\<And>i. i \<in> data_cells 0 bs \<Longrightarrow> i < a \<or> a + c \<le> i"
  shows "resized old k bs h (heap_ptr h + w32 a) bs3 h3"
  unfolding resized_def
proof (rule exI[of _ a], rule exI[of _ c], intro conjI allI ballI impI)
  show "live_at 0 bs3 = insert (a, c) (live_at 0 bs - {old})" unfolding bs3 lv using ne by auto
  have same: "heap_bytes h1 (b + i) = heap_bytes h (b + i)" if "(b, m) \<in> live_at 0 bs" "i < m" for b m i
    using h1 live_at_data[of b m 0 bs1 "b + i"] that lv by simp
  { fix i assume i: "i < min k (snd old)"
    have "(a, c) \<in> live_at 0 bs1 - {old}" using lv ne by auto
    then have "heap_bytes h3 (a + i) = heap_bytes h1 (fst old + i)" using h3[of a c i] i k by (simp add: copied_def)
    then show "heap_bytes h3 (a + i) = heap_bytes h (fst old + i)" using same[of "fst old" "snd old" i] old i by simp }
  fix x assume x: "x \<in> live_at 0 bs - {old}"
  have "heap_bytes h3 (b + i) = heap_bytes h (b + i)" if "x = (b, m)" "i < m" for b m i
  proof -
    have b: "(b, m) \<in> live_at 0 bs" "(b, m) \<in> live_at 0 bs1 - {old}" using x that lv by auto
    then have "b + i < a \<or> a + c \<le> b + i" using out live_at_data[OF b(1), of "b + i"] that by simp
    then show ?thesis using h3[OF b(2) that(2)] same[OF b(1) that(2)] k by (auto simp: copied_def)
  qed
  then show "case x of (b, m) \<Rightarrow> \<forall>i < m. heap_bytes h3 (b + i) = heap_bytes h (b + i)" by (cases x) simp
qed (use k in simp_all)

lemma realloc_moves:
  assumes s: "heap_idle s xs ys" and eq: "xs @ ys = zs @ (True, n) # vs" "12 < n"
    and r: "r = heap_ptr (smem s) + w32 (span zs + 12)" and k: "4 dvd k" "req (w32 k) + 12 \<le> span (xs @ ys)" "0 < k" "k < 2 ^ 32 - 4"
  shows "\<exists>s' p xs' ys'. do { (s2, c) \<leftarrow> rt_malloc (w32 k) s;
      (case c of Blocks \<Rightarrow> Some (s2, Blocks) | Returns nmem \<Rightarrow> realloc_move r (w32 k) (w32 (n - 12)) nmem s2) } = Some (s', Returns p) \<and>
    heap_idle s' xs' ys' \<and>
    (p = 0 \<and> s' = s \<or> resized (span zs + 12, n - 12) k (xs @ ys) (smem s) p (xs' @ ys') (smem s'))"
proof -
  have rep: "heap_rep (smem s) xs ys" using s by (simp add: heap_idle_def)
  have sz: "w32 k \<noteq> 0" "unat (w32 k) + 3 < 2 ^ 32" using k w32_eq[of k 0] by (simp_all add: w32_numeral)
  let ?q = "req (w32 k)"
  have q: "k \<le> ?q" using req_props(3)[of "w32 k"] k by simp
  note m = rt_malloc_idle[OF s sz k(2)]
  consider (none) "malloc_locked (w32 ?q) (smem s) = Some (smem s, 0)"
    | (some) h' us l ws xs' ys' where "ys = us @ (False, l) # ws" "?q + 12 \<le> l"
      "malloc_locked (w32 ?q) (smem s) = Some (h', heap_ptr (smem s) + w32 (span xs + span us + 12))"
      "heap_rep h' xs' ys'" "xs' @ ys' = xs @ us @ taken ?q l @ ws" "heap_ptr h' = heap_ptr (smem s)"
      "\<forall>i \<in> data_cells 0 (xs' @ ys'). heap_bytes h' i = heap_bytes (smem s) i"
    using malloc_locked_ok[OF rep req_props(1) k(2)] by metis
  then show ?thesis
  proof cases
    case none
    then show ?thesis using m s by (intro exI[of _ s] exI[of _ 0] exI[of _ xs] exI[of _ ys]) (simp add: realloc_move_def)
  next
    case some
    define a where "a = span (xs @ us) + 12"
    define c where "c = snd (hd (taken ?q l)) - 12"
    have c: "k \<le> c" using some(2) q by (auto simp: c_def taken_def)
    have eqa: "zs @ (True, n) # vs = (xs @ us) @ (False, l) # ws" using eq some(1) by simp
    obtain zs1 vs1 where t: "xs' @ ys' = zs1 @ (True, n) # vs1" "span zs1 = span zs"
      "data_cells 0 (zs @ (False, n) # vs) \<subseteq> data_cells 0 (zs1 @ (False, n) # vs1)"
      "(a, c) \<in> live_at 0 (zs1 @ (False, n) # vs1)" "span (xs @ us) + l \<le> span zs \<or> span zs + n \<le> span (xs @ us)"
      using taken_elsewhere[OF eqa some(2)] some(5) unfolding a_def c_def by auto
    let ?src = "span zs + 12" and ?cnt = "min k (n - 12)"
    have cl: "c + 12 \<le> l" using some(2) q by (auto simp: c_def taken_def)
    have wf: "wf_mem (heap_bytes (smem s)) (zs @ (True, n) # vs)" using rep eq by (simp add: heap_rep_def heap_blocks_def)
    have lt: "a < 2 ^ 32" "?src < 2 ^ 32" "n < 2 ^ 32"
      using wf_mem_at(5)[OF wf] wf_mem_at(5)[OF wf[unfolded eqa]] by (simp_all add: a_def)
    define m2 where "m2 = copied a ?src ?cnt (heap_bytes h')"
    have "a \<le> ?src \<or> ?src + ?cnt \<le> a" using t(5) cl by (auto simp: a_def)
    then have cp: "rt_memcpy a ?src ?cnt (heap_bytes h') = m2" unfolding m2_def by (rule rt_memcpy_copied)
    have "(a, c) \<in> live_at 0 (xs' @ ys')" using t(4) unfolding t(1) by auto
    then have "heap_rep (h'\<lparr>heap_bytes := m2\<rparr>) xs' ys'"
      unfolding m2_def using heap_rep_copy[OF some(4)] c by (meson le_trans min.cobounded1)
    then have idle: "heap_idle (s\<lparr>smem := h'\<lparr>heap_bytes := m2\<rparr>\<rparr>) xs' ys'" using s by (simp add: heap_idle_def)
    obtain h3 xs3 ys3 where f: "rt_free r (s\<lparr>smem := h'\<lparr>heap_bytes := m2\<rparr>\<rparr>) = Some (s\<lparr>smem := h3\<rparr>, Returns ())"
      "heap_idle (s\<lparr>smem := h3\<rparr>) xs3 ys3" "live_at 0 (xs3 @ ys3) = live_at 0 (xs' @ ys') - {(?src, n - 12)}"
      "\<forall>i \<in> data_cells 0 (zs1 @ (False, n) # vs1). heap_bytes h3 i = m2 i"
      using rt_free_ok[OF idle t(1) eq(2), of r] r some(6) t(2) by auto
    have lv: "live_at 0 (xs' @ ys') = insert (a, c) (live_at 0 (xs @ ys))"
      using live_taken[OF some(2), of "xs @ us" ws] unfolding some(1,5) a_def c_def by simp
    let ?p = "heap_ptr (smem s) + w32 a"
    have ne: "a \<noteq> ?src" using t(5) eq(2) some(2) by (auto simp: a_def)
    have "unat (if w32 (n - 12) < w32 k then w32 (n - 12) else w32 k) = ?cnt" using lt k by (simp add: w32_less min_def)
    moreover have "?p - heap_ptr (smem s) = w32 a" "r - heap_ptr (smem s) = w32 ?src" unfolding r by simp_all
    moreover have "?p \<noteq> 0" using user_addr(3)[OF rep, of "xs @ us" False l ws ?p] some(1) by (simp add: a_def)
    ultimately have mv: "realloc_move r (w32 k) (w32 (n - 12)) ?p (s\<lparr>smem := h'\<rparr>) = Some (s\<lparr>smem := h3\<rparr>, Returns ?p)"
      using f(1) cp lt some(6) by (simp add: realloc_move_def Let_def)
    have "resized (?src, n - 12) k (xs @ ys) (smem s) ?p (xs3 @ ys3) h3"
    proof (rule resized_moved[OF lv _ c f(3)])
      show "(?src, n - 12) \<in> live_at 0 (xs @ ys)" unfolding eq(1) by simp
      show "heap_bytes h3 (b + i) = copied a (fst (?src, n - 12)) (min k (snd (?src, n - 12))) (heap_bytes h') (b + i)"
        if "(b, m) \<in> live_at 0 (xs' @ ys') - {(?src, n - 12)}" "i < m" for b m i
      proof -
        have "(b, m) \<in> live_at 0 (zs1 @ (False, n) # vs1)" using that(1) unfolding t(1) using t(2) by auto
        then show ?thesis using f(4) live_at_data[of b m 0 "zs1 @ (False, n) # vs1" "b + i"] that(2) by (simp add: m2_def)
      qed
      show "i < a \<or> a + c \<le> i" if "i \<in> data_cells 0 (xs @ ys)" for i
        using that eq(1) eqa data_cells_free[of i "xs @ us" l ws] cl by (auto simp: a_def)
    qed (use ne some(7) in simp_all)
    then show ?thesis
      using m some(3) mv f(2) by (intro exI[of _ "s\<lparr>smem := h3\<rparr>"] exI[of _ ?p] exI[of _ xs3] exI[of _ ys3]) (simp add: a_def)
  qed
qed

lemma resized_in_place:
  assumes eq: "bs = zs @ (True, n) # vs" "k + 12 \<le> n"
    and bs': "live_at 0 bs' = insert (span zs + 12, l) (live_at 0 zs \<union> live_at (span zs + n) vs)" "k \<le> l" "l \<le> n - 12"
    and big: "\<forall>(u, m) \<in> set bs. 12 \<le> m"
    and h': "\<And>i. i \<in> data_cells 0 (zs @ (True, l + 12) # (False, n - (l + 12)) # vs) \<Longrightarrow> heap_bytes h' i = heap_bytes h i"
  shows "resized (span zs + 12, n - 12) k bs h (heap_ptr h + w32 (span zs + 12)) bs' h'"
  unfolding resized_def
proof (rule exI[of _ "span zs + 12"], rule exI[of _ l], intro conjI allI ballI impI)
  have out: "(span zs + 12, n - 12) \<notin> live_at 0 zs" "(span zs + 12, n - 12) \<notin> live_at (span zs + n) vs"
    using live_at_range[of "span zs + 12" "n - 12" 0 zs] live_at_range[of "span zs + 12" "n - 12" "span zs + n" vs] big eq by auto
  then show "live_at 0 bs' = insert (span zs + 12, l) (live_at 0 bs - {(span zs + 12, n - 12)})"
    unfolding bs' eq(1) by auto
  have ne: "12 + l \<le> n" using bs'(3) eq(2) by simp
  { fix i assume "i < min k (snd (span zs + 12, n - 12))"
    then show "heap_bytes h' (span zs + 12 + i) = heap_bytes h (fst (span zs + 12, n - 12) + i)"
      using bs'(2) h'[of "span zs + 12 + i"] by (simp add: data_cells_append) }
  fix x assume "x \<in> live_at 0 bs - {(span zs + 12, n - 12)}"
  then have x: "x \<in> live_at 0 zs \<or> x \<in> live_at (span zs + n) vs" unfolding eq(1) by auto
  have "heap_bytes h' (b + i) = heap_bytes h (b + i)" if "x = (b, m)" "i < m" for b m i
    using x that live_at_data[of b m 0 zs "b + i"] live_at_data[of b m "span zs + n" vs "b + i"] ne
    by (intro h') (auto simp: data_cells_append)
  then show "case x of (b, m) \<Rightarrow> \<forall>i < m. heap_bytes h' (b + i) = heap_bytes h (b + i)" by (cases x) simp
qed (use bs' in simp_all)

lemma rt_realloc_ok:
  assumes s: "heap_idle s xs ys" and eq: "xs @ ys = zs @ (True, n) # vs" "12 < n"
    and r: "r = heap_ptr (smem s) + w32 (span zs + 12)"
    and nz: "newsize \<noteq> 0" "unat newsize + 3 < 2 ^ 32" "req newsize + 12 \<le> span (xs @ ys)"
  shows "\<exists>s' p xs' ys'. rt_realloc r newsize s = Some (s', Returns p) \<and> heap_idle s' xs' ys' \<and>
    (p = 0 \<and> s' = s \<or>
     resized (span zs + 12, n - 12) (4 * ((unat newsize + 3) div 4)) (xs @ ys) (smem s) p (xs' @ ys') (smem s'))"
proof -
  define k where "k = 4 * ((unat newsize + 3) div 4)"
  have rep: "heap_rep (smem s) xs ys" using s by (simp add: heap_idle_def)
  have wf: "wf_mem (heap_bytes (smem s)) (zs @ (True, n) # vs)" using rep eq by (simp add: heap_rep_def heap_blocks_def)
  note big = wf_mem_big[OF wf, folded eq(1)]
  have lt: "span (xs @ ys) + 12 < 2 ^ 32" using rep by (simp add: heap_rep_def heap_blocks_def wf_mem_def)
  have k: "4 dvd k" "k + 12 \<le> span (xs @ ys)" "0 < k" "k < 2 ^ 32 - 4" "req (w32 k) = req newsize"
  proof -
    show "4 dvd k" "k + 12 \<le> span (xs @ ys)" using nz(3) by (simp_all add: k_def req_def)
    then show "k < 2 ^ 32 - 4" "req (w32 k) = req newsize" using lt by (simp_all add: req_def k_def)
    have "0 < unat newsize" using nz(1) by (simp add: unat_gt_0)
    then show "0 < k" by (simp add: k_def div_greater_zero_iff)
  qed
  note R = rt_realloc_idle[OF s nz(1,2) user_addr(3)[OF rep eq(1) r] k_def k(2)]
  note L = realloc_locked_eq[OF rep eq r k(2)]
  show ?thesis
    unfolding k_def[symmetric]
  proof (cases "k = n - 12")
    case True
    then have "rt_realloc r newsize s = Some (s, Returns r)" using R L by simp
    moreover have "resized (span zs + 12, n - 12) k (xs @ ys) (smem s) r (xs @ ys) (smem s)"
      unfolding r using True eq(2) by (intro resized_in_place[OF eq(1), where l = "n - 12"] big) (auto simp: eq(1))
    ultimately show "\<exists>s' p xs' ys'. rt_realloc r newsize s = Some (s', Returns p) \<and> heap_idle s' xs' ys' \<and>
      (p = 0 \<and> s' = s \<or> resized (span zs + 12, n - 12) k (xs @ ys) (smem s) p (xs' @ ys') (smem s'))"
      using s by blast
  next
    case ne: False
    show "\<exists>s' p xs' ys'. rt_realloc r newsize s = Some (s', Returns p) \<and> heap_idle s' xs' ys' \<and>
      (p = 0 \<and> s' = s \<or> resized (span zs + 12, n - 12) k (xs @ ys) (smem s) p (xs' @ ys') (smem s'))"
    proof (cases "k + 36 < n")
      case True
      obtain h' xs' ys' where h': "realloc_split (w32 k) (w32 (n - 12)) (w32 (span zs)) (smem s) = Some h'" "heap_rep h' xs' ys'"
        "xs' @ ys' = freed (zs @ [(True, k + 12)]) (n - (k + 12)) vs"
        "\<forall>i \<in> data_cells 0 (zs @ (True, k + 12) # (False, n - (k + 12)) # vs). heap_bytes h' i = heap_bytes (smem s) i"
        using realloc_split_ok[OF rep eq(1) k(1) True] by blast
      have "rt_realloc r newsize s = Some (s\<lparr>smem := h'\<rparr>, Returns r)" using R L h'(1) ne True by simp
      moreover have "heap_idle (s\<lparr>smem := h'\<rparr>) xs' ys'" using s h'(2) by (simp add: heap_idle_def)
      moreover have "live_at 0 (xs' @ ys') = insert (span zs + 12, k) (live_at 0 zs \<union> live_at (span zs + n) vs)"
        unfolding h'(3) live_at_freed using True by (auto simp: add.assoc)
      then have "resized (span zs + 12, n - 12) k (xs @ ys) (smem s) r (xs' @ ys') h'"
        unfolding r using True h'(4) by (intro resized_in_place[OF eq(1) _ _ _ _ big, where l = k]) auto
      ultimately show ?thesis by (intro exI[of _ "s\<lparr>smem := h'\<rparr>"] exI[of _ r] exI[of _ xs'] exI[of _ ys']) simp
    next
      case False
      then show ?thesis using R L ne realloc_moves[OF s eq r k(1) _ k(3,4)] k(5) nz(3) by simp
    qed
  qed
qed



section \<open>Where the calls go wrong\<close>

text \<open>
  C99. Rounding the size wraps: a request within three bytes of \<open>2\<^sup>3\<^sup>2\<close> is served as one of 12 bytes, and
  succeeds wherever that does.
\<close>

theorem rt_malloc_huge_request_wraps:
  assumes "2 ^ 32 \<le> unat sz + 3" and "12 \<le> mem_size_aligned (smem s)"
  shows "rt_malloc sz s = rt_malloc 12 s"
proof -
  have "sz \<noteq> 0" using assms(1) by auto
  moreover have "RT_ALIGN 12 4 = 12" by (simp add: RT_ALIGN_def)
  ultimately show ?thesis
    using ALIGN_wraps[OF assms(1)] assms(2) by (auto simp: rt_malloc_def Let_def)
qed

theorem rt_malloc_huge_request_wraps_witness:
  "rt_malloc 0xffffffff (demo_heap 1) = rt_malloc 12 (demo_heap 1)"
proof -
  have "mem_size_aligned demo_mem = 228" using demo_mem_rep(1) by (simp add: heap_rep_def heap_blocks_def w32_numeral)
  then show ?thesis using rt_malloc_huge_request_wraps[where sz = "0xffffffff" and s = "demo_heap 1"] by simp
qed

text \<open>
  C99. \<^verbatim>\<open>rt_realloc\<close> that shrinks a block does not move \<^verbatim>\<open>lfree\<close> down to the block it splits off. When the
  heap was full, the memory it gives back is not found: every \<^verbatim>\<open>rt_malloc\<close> returns null although there
  is a free block with room.
\<close>

theorem rt_realloc_strands_block:
  assumes s: "heap_idle s xs []" "list_all fst xs" and eq: "xs = zs @ (True, n) # vs"
    and r: "r = heap_ptr (smem s) + w32 (span zs + 12)" and nz: "newsize \<noteq> 0" "unat newsize + 3 < 2 ^ 32"
    and k: "k = 4 * ((unat newsize + 3) div 4)" "k + 36 < n"
  shows "\<exists>s'. rt_realloc r newsize s = Some (s', Returns r) \<and>
    heap_idle s' (zs @ (True, k + 12) # (False, n - (k + 12)) # vs) [] \<and>
    (\<forall>sz. sz \<noteq> 0 \<and> unat sz + 3 < 2 ^ 32 \<and> req sz + 12 \<le> span xs \<longrightarrow> rt_malloc sz s' = Some (s', Returns 0))"
proof -
  have rep: "heap_rep (smem s) xs []" using s by (simp add: heap_idle_def)
  have eq': "xs @ [] = zs @ (True, n) # vs" using eq by simp
  have k': "4 dvd k" "k + 12 \<le> span (xs @ [])" using k eq by simp_all
  obtain h4 xs1 ys1 where h: "realloc_split (w32 k) (w32 (n - 12)) (w32 (span zs)) (smem s) = plug_holes (w32 (span (zs @ [(True, k + 12)]))) h4"
    "heap_blocks h4 xs1 ys1" "xs1 @ ys1 = (zs @ [(True, k + 12)]) @ (False, n - (k + 12)) # vs" "lfree h4 = lfree (smem s)"
    using realloc_split_blocks[OF rep eq' k'(1) k(2)] by blast
  let ?bs = "(zs @ [(True, k + 12)]) @ (False, n - (k + 12)) # vs"
  have v: "vs = [] \<or> fst (hd vs)" using s(2) eq by (cases vs) auto
  have p: "plug_holes (w32 (span (zs @ [(True, k + 12)]))) h4 = Some h4"
    by (rule plug_holes_alone[OF h(2,3) _ _ v]) simp_all
  have sp: "span ?bs = span xs" using k(2) eq by simp
  have "lfree h4 = w32 (span ?bs)" using h(4) rep unfolding sp by (simp add: heap_rep_def heap_blocks_def)
  moreover have "coalesced (zs @ (True, n) # vs)" using rep eq by (simp add: heap_rep_def)
  then have "coalesced ?bs" using v coalesced_simps[of "zs @ [(True, k + 12)]"] by (auto simp: coalesced_simps)
  ultimately have rep': "heap_rep h4 ?bs []" using h(2) unfolding heap_rep_def heap_blocks_def h(3) by (auto simp: starts_free_def)
  have "rt_realloc r newsize s = Some (s\<lparr>smem := h4\<rparr>, Returns r)"
    using rt_realloc_idle[OF s(1) nz user_addr(3)[OF rep eq' r] k(1) k'(2)] realloc_locked_eq[OF rep eq' _ r k'(2)] h(1) p k(2)
    by auto
  moreover have idle: "heap_idle (s\<lparr>smem := h4\<rparr>) ?bs []" using s rep' by (simp add: heap_idle_def)
  moreover have "rt_malloc sz (s\<lparr>smem := h4\<rparr>) = Some (s\<lparr>smem := h4\<rparr>, Returns 0)"
    if "sz \<noteq> 0" "unat sz + 3 < 2 ^ 32" "req sz + 12 \<le> span xs" for sz
    using rt_malloc_idle[OF idle that(1,2)] malloc_locked_ok[OF rep' req_props(1), of sz] that(3) sp by simp
  ultimately show ?thesis by (intro exI[of _ "s\<lparr>smem := h4\<rparr>"]) simp
qed

theorem rt_realloc_strands_block_witness:
  "\<exists>s1 s2. rt_malloc 208 (demo_heap 1) = Some (s1, Returns 0x20000010) \<and>
     rt_realloc 0x20000010 16 s1 = Some (s2, Returns 0x20000010) \<and> rt_malloc 20 s2 = Some (s2, Returns 0)"
proof -
  have q: "req 208 = 208" "req 20 = 20" by (simp_all add: req_def)
  obtain h xs ys where d: "rt_malloc 208 (demo_heap 1) = Some ((demo_heap 1)\<lparr>smem := h\<rparr>, Returns 0x20000010)"
    "heap_idle ((demo_heap 1)\<lparr>smem := h\<rparr>) xs ys" "xs @ ys = [(True, 240)]" "heap_ptr h = 0x20000004"
    by (rule demo_malloc[of 208]) (simp_all add: q taken_def)
  have "starts_free ys" using d(2) by (simp add: heap_rep_def heap_blocks_def)
  then have "ys = []" "xs = [(True, 240)]" using d(3) by (cases xs; cases ys; simp add: starts_free_def)+
  then have idle: "heap_idle ((demo_heap 1)\<lparr>smem := h\<rparr>) [(True, 240)] []" using d(2) by simp
  have r: "0x20000010 = heap_ptr (smem ((demo_heap 1)\<lparr>smem := h\<rparr>)) + w32 (span [] + 12)" using d(4) by (simp add: w32_def)
  have k: "16 = 4 * ((unat (16 :: u32) + 3) div 4)" by simp
  obtain s' where s': "rt_realloc 0x20000010 16 ((demo_heap 1)\<lparr>smem := h\<rparr>) = Some (s', Returns 0x20000010)"
    "\<forall>sz. sz \<noteq> 0 \<and> unat sz + 3 < 2 ^ 32 \<and> req sz + 12 \<le> span [(True, 240)] \<longrightarrow> rt_malloc sz s' = Some (s', Returns 0)"
    using rt_realloc_strands_block[OF idle _ _ r _ _ k, of 240 "[]"] by auto
  have "rt_malloc 20 s' = Some (s', Returns 0)" by (rule s'(2)[rule_format]) (simp add: q)
  then show ?thesis using d(1) s'(1) by blast
qed

section \<open>The semaphore of the heap\<close>

lemma kmem_more_eq:
  assumes "ktimer.more s' = ktimer.more (s :: 'a kmem_scheme)"
  shows "smem s' = smem s" "heap_sem s' = heap_sem s"
  using assms by (cases s; cases s'; simp)+

lemma heap_busy:
  fixes s :: "'a kmem_scheme"
  assumes inv: "kinv {} b s" and ok: "sem_ok n s" and t: "cur s = Some t" "tstat s t = RT_THREAD_READY"
    and irq: "irq_nest s = 0" and v: "sem_value (sems s n) = 0"
  obtains s' where "rt_sem_take n RT_WAITING_FOREVER s = Some (s', if cur s' = Some t then Returns RT_EOK else Blocks)"
    "kinv {} b s'" "smem s' = smem s" "heap_sem s' = heap_sem s" "sems s' = sems s" "t \<in> set (tl s' (sem_list n))"
    "\<And>u. lock_nest s = 0 \<Longrightarrow> u \<noteq> t \<Longrightarrow> tstat s u = RT_THREAD_READY \<Longrightarrow> cur s' \<noteq> Some t"
    "lock_nest s \<noteq> 0 \<Longrightarrow> cur s' = Some t"
proof -
  let ?fl = "oflag (objs s (sem_obj n))"
  have fl: "?fl = RT_IPC_FLAG_FIFO \<or> ?fl = RT_IPC_FLAG_PRIO" using ok by (simp add: sem_ok_def)
  have tm: "time_ok RT_WAITING_FOREVER" by (simp add: time_ok_def)
  obtain s' where s': "ipc_block (sem_list n) t ?fl RT_WAITING_FOREVER (upd_thr t (\<lambda>th. th\<lparr>error := RT_EOK\<rparr>) s) = Some s'"
    "kinv {} b s'" "ktimer.more s' = ktimer.more s" "error (thr s' t) = RT_EOK" "t \<in> set (tl s' (sem_list n))"
    "\<And>u. lock_nest s = 0 \<Longrightarrow> u \<noteq> t \<Longrightarrow> tstat s u = RT_THREAD_READY \<Longrightarrow> cur s' \<noteq> Some t"
    "lock_nest s \<noteq> 0 \<Longrightarrow> cur s' = Some t"
    by (rule ipc_wait_outcomes[OF inv t _ fl tm, of "sem_list n"]) auto
  show thesis
    by (rule that[of s'])
      (use s' v ok irq t kmem_more_eq[OF s'(3)] kernel_more_eq(1)[OF s'(3)] in
        \<open>auto simp: rt_sem_take_def sem_ok_def in_thread rt_sem_take_end_def\<close>)
qed

text \<open>
  C37. While another thread holds the semaphore of the heap, \<^verbatim>\<open>rt_malloc\<close> and \<^verbatim>\<open>rt_free\<close> leave the heap alone
  and wait, as long as the scheduler is not locked. With the scheduler locked they do not wait:
  \<^verbatim>\<open>rt_malloc\<close> ignores the result of \<^verbatim>\<open>rt_sem_take\<close> and works on the heap without the semaphore.
\<close>

theorem heap_calls_wait:
  fixes s :: "'a kmem_scheme"
  assumes inv: "kinv {} b s" and ok: "sem_ok (heap_sem s) s" and t: "cur s = Some t" "tstat s t = RT_THREAD_READY"
    and irq: "irq_nest s = 0" and v: "sem_value (sems s (heap_sem s)) = 0"
    and sz: "sz \<noteq> 0" "RT_ALIGN sz 4 \<le> mem_size_aligned (smem s)"
    and r: "r \<noteq> 0" "r AND 3 = 0" "heap_ptr (smem s) \<le> r" "r < heap_ptr (smem s) + heap_end (smem s)"
  shows "(lock_nest s = 0 \<and> (\<exists>u. u \<noteq> t \<and> tstat s u = RT_THREAD_READY) \<longrightarrow>
            (\<exists>s'. rt_malloc sz s = Some (s', Blocks) \<and> rt_free r s = Some (s', Blocks) \<and> smem s' = smem s \<and>
               kinv {} b s' \<and> t \<in> set (tl s' (sem_list (heap_sem s))))) \<and>
         (lock_nest s \<noteq> 0 \<longrightarrow>
            (\<exists>s'. smem s' = smem s \<and> cur s' = Some t \<and> sem_value (sems s' (heap_sem s)) = 0 \<and>
               rt_malloc sz s = map_option (\<lambda>(s2, p). (s2, Returns p))
                 (rt_malloc_end (if RT_ALIGN sz 4 < 12 then 12 else RT_ALIGN sz 4) s')))"
proof -
  obtain s' where s': "rt_sem_take (heap_sem s) RT_WAITING_FOREVER s = Some (s', if cur s' = Some t then Returns RT_EOK else Blocks)"
    "kinv {} b s'" "smem s' = smem s" "sems s' = sems s" "t \<in> set (tl s' (sem_list (heap_sem s)))"
    "\<And>u. lock_nest s = 0 \<Longrightarrow> u \<noteq> t \<Longrightarrow> tstat s u = RT_THREAD_READY \<Longrightarrow> cur s' \<noteq> Some t"
    "lock_nest s \<noteq> 0 \<Longrightarrow> cur s' = Some t"
    by (rule heap_busy[OF inv ok t irq v]) blast
  have m: "rt_malloc sz s = (case (if cur s' = Some t then Returns RT_EOK else Blocks) of
        Blocks \<Rightarrow> Some (s', Blocks)
      | Returns _ \<Rightarrow> do { (s2, p) \<leftarrow> rt_malloc_end (if RT_ALIGN sz 4 < 12 then 12 else RT_ALIGN sz 4) s'; Some (s2, Returns p) })"
    using sz(1) leD[OF sz(2)] irq s'(1) by (simp add: rt_malloc_def rt_debug_not_in_interrupt_def Let_def)
  have f: "rt_free r s = Some (s', Blocks)" if "cur s' \<noteq> Some t"
    using that r irq s'(1) by (auto simp: rt_free_def rt_debug_not_in_interrupt_def Let_def)
  show ?thesis
  proof (intro conjI impI)
    assume "lock_nest s = 0 \<and> (\<exists>u. u \<noteq> t \<and> tstat s u = RT_THREAD_READY)"
    then have "cur s' \<noteq> Some t" using s'(6) by blast
    then show "\<exists>s'. rt_malloc sz s = Some (s', Blocks) \<and> rt_free r s = Some (s', Blocks) \<and> smem s' = smem s \<and>
        kinv {} b s' \<and> t \<in> set (tl s' (sem_list (heap_sem s)))"
      using m f s'(2,3,5) by (intro exI[of _ s']) simp
  next
    assume "lock_nest s \<noteq> 0"
    then have c: "cur s' = Some t" by (rule s'(7))
    have "rt_malloc sz s = map_option (\<lambda>(s2, p). (s2, Returns p))
        (rt_malloc_end (if RT_ALIGN sz 4 < 12 then 12 else RT_ALIGN sz 4) s')"
      unfolding m using c by (cases "rt_malloc_end (if RT_ALIGN sz 4 < 12 then 12 else RT_ALIGN sz 4) s'") auto
    then show "\<exists>s'. smem s' = smem s \<and> cur s' = Some t \<and> sem_value (sems s' (heap_sem s)) = 0 \<and>
        rt_malloc sz s = map_option (\<lambda>(s2, p). (s2, Returns p))
          (rt_malloc_end (if RT_ALIGN sz 4 < 12 then 12 else RT_ALIGN sz 4) s')"
      using c s'(3,4) v by (intro exI[of _ s']) simp
  qed
qed

theorem heap_calls_wait_witness:
  "\<exists>s'. rt_malloc 10 (demo_heap 0) = Some (s', Blocks) \<and> rt_free 0x20000010 (demo_heap 0) = Some (s', Blocks) \<and>
     smem s' = demo_mem"
proof -
  have m: "mem_size_aligned demo_mem = 228" "heap_end demo_mem = 240"
    using demo_mem_rep(1) by (simp_all add: heap_rep_def heap_blocks_def w32_numeral)
  have "sem_ok (heap_sem (demo_heap 0)) (demo_heap 0)" by (simp add: sem_ok_def)
  note W = heap_calls_wait[OF demo_heap_inv this, of 1 10 "0x20000010", THEN conjunct1, THEN mp]
  have "\<exists>s'. rt_malloc 10 (demo_heap 0) = Some (s', Blocks) \<and> rt_free 0x20000010 (demo_heap 0) = Some (s', Blocks) \<and>
      smem s' = smem (demo_heap 0) \<and> kinv {} 100 s' \<and> 1 \<in> set (tl s' (sem_list (heap_sem (demo_heap 0))))"
    by (rule W) (use demo_mem_rep(2) m in \<open>auto simp: RT_ALIGN_def intro!: exI[of _ 2]\<close>)
  then show ?thesis by auto
qed

end
