(* ===== verification/HeapAreas.thy ===== *)
theory HeapAreas
  imports MemCalls Allocator
begin

unbundle bit_operations_syntax

text \<open>
  The heap of \<^verbatim>\<open>src/mem.c\<close> implements the interface of an allocator: the areas it has handed out are
  disjoint and keep their bytes whatever the other users of the heap do.
\<close>

section \<open>The heap is an allocator\<close>

definition heap_good :: "'a kmem_scheme \<Rightarrow> bool" where
  "heap_good s \<longleftrightarrow> (\<exists>xs ys. heap_idle s xs ys \<and> (\<forall>(a, l) \<in> live_at 0 (xs @ ys). 0 < l))"

definition heap_request :: "u32 \<Rightarrow> 'a kmem_scheme \<Rightarrow> bool" where
  "heap_request sz s \<longleftrightarrow> sz \<noteq> 0 \<and> unat sz + 3 < 2 ^ 32 \<and> req sz \<le> unat (mem_size_aligned (smem s))"

definition heap_off :: "'a kmem_scheme \<Rightarrow> u32 \<Rightarrow> nat option" where
  "heap_off s p = (if p = 0 then None else Some (unat (p - heap_ptr (smem s))))"

definition heap_alloc :: "u32 \<Rightarrow> 'a kmem_scheme \<Rightarrow> ('a kmem_scheme \<times> nat option) option" where
  "heap_alloc sz s = (case rt_malloc sz s of Some (s', Returns p) \<Rightarrow> Some (s', heap_off s p) | _ \<Rightarrow> None)"

definition heap_resize :: "nat \<Rightarrow> u32 \<Rightarrow> 'a kmem_scheme \<Rightarrow> ('a kmem_scheme \<times> nat option) option" where
  "heap_resize a sz s =
     (case rt_realloc (heap_ptr (smem s) + w32 a) sz s of Some (s', Returns p) \<Rightarrow> Some (s', heap_off s p) | _ \<Rightarrow> None)"

definition heap_dealloc :: "nat \<Rightarrow> 'a kmem_scheme \<Rightarrow> 'a kmem_scheme option" where
  "heap_dealloc a s = (case rt_free (heap_ptr (smem s) + w32 a) s of Some (s', Returns _) \<Rightarrow> Some s' | _ \<Rightarrow> None)"

definition heap_store :: "nat \<Rightarrow> u8 \<Rightarrow> 'a kmem_scheme \<Rightarrow> 'a kmem_scheme" where
  "heap_store i v s = s\<lparr>smem := (smem s)\<lparr>heap_bytes := (heap_bytes (smem s))(i := v)\<rparr>\<rparr>"

lemma heap_goodE:
  assumes "heap_good s"
  obtains xs ys where "heap_idle s xs ys" "\<forall>(a, l) \<in> live_at 0 (xs @ ys). 0 < l" "heap_live (smem s) = live_at 0 (xs @ ys)"
    "span (xs @ ys) = unat (mem_size_aligned (smem s)) + 12" "heap_rep (smem s) xs ys" "\<forall>(u, n) \<in> set (xs @ ys). 12 \<le> n"
proof -
  obtain xs ys where i: "heap_idle s xs ys" "\<forall>(a, l) \<in> live_at 0 (xs @ ys). 0 < l" using assms by (auto simp: heap_good_def)
  have rep: "heap_rep (smem s) xs ys" using i(1) by (simp add: heap_idle_def)
  have wf: "wf_mem (heap_bytes (smem s)) (xs @ ys)" "xs @ ys \<noteq> []" and m: "mem_size_aligned (smem s) = w32 (span (xs @ ys) - 12)"
    using rep by (auto simp: heap_rep_def heap_blocks_def)
  obtain u n bs where b: "xs @ ys = (u, n) # bs" using wf(2) by (cases "xs @ ys") auto
  then have "12 \<le> span (xs @ ys)" using wf_mem_at(2)[of "heap_bytes (smem s)" "[]" u n bs] wf(1) by simp
  moreover have "span (xs @ ys) < 2 ^ 32" using wf(1) by (simp add: wf_mem_def)
  ultimately have "span (xs @ ys) = unat (mem_size_aligned (smem s)) + 12" unfolding m by simp
  then show thesis using that i rep heap_live_eq[OF rep] wf_mem_big[OF wf(1)] by blast
qed

lemma heap_goodI: "heap_idle s xs ys \<Longrightarrow> \<forall>(a, l) \<in> live_at 0 (xs @ ys). 0 < l \<Longrightarrow> heap_good s"
  unfolding heap_good_def by blast

lemma same_cells_data:
  assumes "\<forall>i \<in> data_cells 0 bs. m' i = m i" "A \<subseteq> live_at 0 bs"
  shows "same_cells A m m'"
  unfolding same_cells_def using assms live_at_data[of _ _ 0 bs] by fastforce

lemma heap_alloc_law:
  assumes g: "heap_good s" and v: "heap_request sz s"
  shows "\<exists>s' p. heap_alloc sz s = Some (s', p) \<and> heap_good s' \<and>
      (p = None \<and> heap_live (smem s') = heap_live (smem s) \<or>
       (\<exists>a l. p = Some a \<and> unat sz \<le> l \<and> (a, l) \<notin> heap_live (smem s) \<and> heap_live (smem s') = insert (a, l) (heap_live (smem s)))) \<and>
      same_cells (heap_live (smem s)) (heap_bytes (smem s)) (heap_bytes (smem s'))"
proof -
  obtain xs ys where i: "heap_idle s xs ys" "\<forall>(a, l) \<in> live_at 0 (xs @ ys). 0 < l" "heap_live (smem s) = live_at 0 (xs @ ys)"
    "span (xs @ ys) = unat (mem_size_aligned (smem s)) + 12" "heap_rep (smem s) xs ys" "\<forall>(u, n) \<in> set (xs @ ys). 12 \<le> n"
    by (rule heap_goodE[OF g])
  have sz: "sz \<noteq> 0" "unat sz + 3 < 2 ^ 32" "req sz + 12 \<le> span (xs @ ys)" using v i(4) by (auto simp: heap_request_def)
  note m = rt_malloc_idle[OF i(1) sz]
  consider (none) "malloc_locked (w32 (req sz)) (smem s) = Some (smem s, 0)"
    | (some) h' us n vs xs' ys' where "ys = us @ (False, n) # vs" "req sz + 12 \<le> n"
      "malloc_locked (w32 (req sz)) (smem s) = Some (h', heap_ptr (smem s) + w32 (span xs + span us + 12))"
      "heap_rep h' xs' ys'" "xs' @ ys' = xs @ us @ taken (req sz) n @ vs"
      "\<forall>i \<in> data_cells 0 (xs' @ ys'). heap_bytes h' i = heap_bytes (smem s) i"
    using malloc_locked_ok[OF i(5) req_props(1) sz(3)] by metis
  then show ?thesis
  proof cases
    case none
    then have "heap_alloc sz s = Some (s, None)" using m by (simp add: heap_alloc_def heap_off_def)
    then show ?thesis using g by (auto simp: same_cells_def)
  next
    case some
    let ?a = "span (xs @ us) + 12" and ?l = "snd (hd (taken (req sz) n)) - 12"
    have lv: "live_at 0 (xs' @ ys') = insert (?a, ?l) (live_at 0 (xs @ ys))"
      using live_taken[OF some(2), of "xs @ us" vs] unfolding some(1,5) by simp
    have l: "unat sz \<le> ?l" "12 \<le> ?l" using some(2) req_props(2,3)[of sz] by (auto simp: taken_def)
    have ua: "heap_ptr (smem s) + w32 ?a \<noteq> 0" using user_addr(3)[OF i(5), of "xs @ us" False n vs] some(1) by simp
    have "wf_mem (heap_bytes (smem s)) ((xs @ us) @ (False, n) # vs)" using i(5) some(1) by (simp add: heap_rep_def heap_blocks_def)
    then have lt: "?a < 2 ^ 32" using wf_mem_at(2,5)[of _ "xs @ us" False n vs] by fastforce
    have new: "(?a, ?l) \<notin> live_at 0 (xs @ ys)"
      using live_at_range[of ?a ?l 0 "xs @ us"] live_at_range[of ?a ?l "span (xs @ us) + n" vs] i(6) some(1,2)
      by (auto simp: add.assoc)
    have "heap_alloc sz s = Some (s\<lparr>smem := h'\<rparr>, Some ?a)"
      using m some(3) ua lt by (simp add: heap_alloc_def heap_off_def)
    moreover have "heap_good (s\<lparr>smem := h'\<rparr>)"
      using i(1,2) some(4) l(2) lv by (intro heap_goodI[of _ xs' ys']) (auto simp: heap_idle_def)
    moreover have "same_cells (live_at 0 (xs @ ys)) (heap_bytes (smem s)) (heap_bytes h')"
      by (rule same_cells_data[OF some(6)]) (use lv in blast)
    ultimately show ?thesis using l(1) new lv heap_live_eq[OF some(4)] i(3) by auto
  qed
qed

lemma heap_dealloc_law:
  assumes g: "heap_good s" and a: "(a, l) \<in> heap_live (smem s)"
  shows "\<exists>s'. heap_dealloc a s = Some s' \<and> heap_good s' \<and> heap_live (smem s') = heap_live (smem s) - {(a, l)} \<and>
      same_cells (heap_live (smem s')) (heap_bytes (smem s)) (heap_bytes (smem s'))"
proof -
  obtain xs ys where i: "heap_idle s xs ys" "\<forall>(a, l) \<in> live_at 0 (xs @ ys). 0 < l" "heap_live (smem s) = live_at 0 (xs @ ys)"
    "span (xs @ ys) = unat (mem_size_aligned (smem s)) + 12" "heap_rep (smem s) xs ys" "\<forall>(u, n) \<in> set (xs @ ys). 12 \<le> n"
    by (rule heap_goodE[OF g])
  obtain zs n vs where eq: "xs @ ys = zs @ (True, n) # vs" "a = span zs + 12" "l = n - 12"
    using a unfolding i(3) live_at_iff add_0 by blast
  have "0 < l" using a i(2) unfolding i(3) by blast
  then have "12 < n" using eq(3) by simp
  from rt_free_ok[OF i(1) eq(1) this refl] obtain h' xs' ys' where
    f: "rt_free (heap_ptr (smem s) + w32 (span zs + 12)) s = Some (s\<lparr>smem := h'\<rparr>, Returns ())" "heap_idle (s\<lparr>smem := h'\<rparr>) xs' ys'"
    "live_at 0 (xs' @ ys') = live_at 0 (xs @ ys) - {(a, l)}"
    "\<forall>i \<in> data_cells 0 (zs @ (False, n) # vs). heap_bytes h' i = heap_bytes (smem s) i"
    unfolding eq(2,3) by metis
  have lv: "heap_live h' = live_at 0 (xs' @ ys')" using f(2) by (intro heap_live_eq) simp
  have "heap_dealloc a s = Some (s\<lparr>smem := h'\<rparr>)" using f(1) eq(2) by (simp add: heap_dealloc_def)
  moreover have "heap_good (s\<lparr>smem := h'\<rparr>)" by (rule heap_goodI[OF f(2)]) (unfold f(3), use i(2) in blast)
  moreover have "same_cells (heap_live h') (heap_bytes (smem s)) (heap_bytes h')"
    unfolding lv f(3) eq by (rule same_cells_data[OF f(4)]) auto
  moreover have "heap_live h' = heap_live (smem s) - {(a, l)}" unfolding lv f(3) i(3) ..
  ultimately show ?thesis by (intro exI[of _ "s\<lparr>smem := h'\<rparr>"]) simp
qed

lemma heap_resize_law:
  assumes g: "heap_good s" and a: "(a, l) \<in> heap_live (smem s)" and v: "heap_request sz s"
  shows "\<exists>s' p. heap_resize a sz s = Some (s', p) \<and> heap_good s' \<and> heap_live (smem s) - {(a, l)} \<subseteq> heap_live (smem s') \<and>
      same_cells (heap_live (smem s) - {(a, l)}) (heap_bytes (smem s)) (heap_bytes (smem s'))"
proof -
  obtain xs ys where i: "heap_idle s xs ys" "\<forall>(a, l) \<in> live_at 0 (xs @ ys). 0 < l" "heap_live (smem s) = live_at 0 (xs @ ys)"
    "span (xs @ ys) = unat (mem_size_aligned (smem s)) + 12" "heap_rep (smem s) xs ys" "\<forall>(u, n) \<in> set (xs @ ys). 12 \<le> n"
    by (rule heap_goodE[OF g])
  have sz: "sz \<noteq> 0" "unat sz + 3 < 2 ^ 32" "req sz + 12 \<le> span (xs @ ys)" using v i(4) by (auto simp: heap_request_def)
  obtain zs n vs where eq: "xs @ ys = zs @ (True, n) # vs" "a = span zs + 12" "l = n - 12"
    using a unfolding i(3) live_at_iff add_0 by blast
  have "0 < l" using a i(2) unfolding i(3) by blast
  then have "12 < n" using eq(3) by simp
  let ?k = "4 * ((unat sz + 3) div 4)"
  from rt_realloc_ok[OF i(1) eq(1) \<open>12 < n\<close> refl sz] obtain s' p xs' ys' where
    r: "rt_realloc (heap_ptr (smem s) + w32 a) sz s = Some (s', Returns p)" "heap_idle s' xs' ys'"
    "p = 0 \<and> s' = s \<or> resized (a, l) ?k (xs @ ys) (smem s) p (xs' @ ys') (smem s')"
    unfolding eq(2,3) by blast
  have R: "heap_resize a sz s = Some (s', heap_off s p)" using r(1) by (simp add: heap_resize_def)
  from r(3) show ?thesis
  proof
    assume "p = 0 \<and> s' = s"
    then show ?thesis using R g by (auto simp: same_cells_def)
  next
    assume "resized (a, l) ?k (xs @ ys) (smem s) p (xs' @ ys') (smem s')"
    then obtain b m where z: "?k \<le> m" "live_at 0 (xs' @ ys') = insert (b, m) (live_at 0 (xs @ ys) - {(a, l)})"
      "\<forall>(b, m) \<in> live_at 0 (xs @ ys) - {(a, l)}. \<forall>i < m. heap_bytes (smem s') (b + i) = heap_bytes (smem s) (b + i)"
      unfolding resized_def by blast
    have "0 < unat sz" using sz(1) by (simp add: unat_gt_0)
    then have "0 < m" using z(1) by linarith
    then have "heap_good s'" using i(2) by (intro heap_goodI[OF r(2)]) (auto simp: z(2) simp del: live_at_append)
    moreover have "heap_live (smem s') = live_at 0 (xs' @ ys')" using r(2) by (intro heap_live_eq) (simp add: heap_idle_def)
    ultimately show ?thesis using R z(2,3) i(3) by (auto simp: same_cells_def)
  qed
qed

lemma heap_store_law:
  assumes g: "heap_good s" and a: "(a, l) \<in> heap_live (smem s)" "i < l"
  shows "heap_good (heap_store (a + i) v s) \<and> heap_live (smem (heap_store (a + i) v s)) = heap_live (smem s) \<and>
      heap_bytes (smem (heap_store (a + i) v s)) = (heap_bytes (smem s))(a + i := v)"
proof -
  obtain xs ys where i: "heap_idle s xs ys" "\<forall>(a, l) \<in> live_at 0 (xs @ ys). 0 < l" "heap_live (smem s) = live_at 0 (xs @ ys)"
    "span (xs @ ys) = unat (mem_size_aligned (smem s)) + 12" "heap_rep (smem s) xs ys" "\<forall>(u, n) \<in> set (xs @ ys). 12 \<le> n"
    by (rule heap_goodE[OF g])
  have "a + i \<in> data_cells 0 (xs @ ys)" using a i(3) live_at_data[of a l 0 "xs @ ys" "a + i"] by simp
  then have rep: "heap_rep (smem (heap_store (a + i) v s)) xs ys"
    by (auto simp: heap_store_def intro!: heap_rep_data[OF i(5)])
  then have "heap_idle (heap_store (a + i) v s) xs ys" using i(1) by (simp add: heap_store_def heap_idle_def)
  note heap_goodI[OF this i(2)]
  then show ?thesis using i(3) heap_live_eq[OF rep] by (simp add: heap_store_def)
qed

lemma heap_live_disjoint:
  assumes "heap_good s" "(a, l) \<in> heap_live (smem s)" "(b, m) \<in> heap_live (smem s)" "(a, l) \<noteq> (b, m)"
  shows "{a..<a + l} \<inter> {b..<b + m} = {}"
  using heap_goodE[OF assms(1)] live_at_disjoint[of a l 0 _ b m] assms(2-4) by metis

interpretation sm: allocator heap_good "\<lambda>s. heap_live (smem s)" "\<lambda>s. heap_bytes (smem s)" heap_request heap_alloc heap_resize
    heap_dealloc heap_store
  by unfold_locales
    (fact heap_live_disjoint heap_alloc_law heap_dealloc_law heap_resize_law heap_store_law)+

text \<open>What the other users of the heap may do while the area at offset \<open>a\<close> is held.\<close>

inductive heap_call :: "nat \<Rightarrow> 'a kmem_scheme \<Rightarrow> 'a kmem_scheme \<Rightarrow> bool" for a where
  call_malloc: "sz \<noteq> 0 \<Longrightarrow> unat sz + 3 < 2 ^ 32 \<Longrightarrow> req sz \<le> unat (mem_size_aligned (smem s)) \<Longrightarrow>
     rt_malloc sz s = Some (s', Returns p) \<Longrightarrow> heap_call a s s'"
| call_free: "(b, m) \<in> heap_live (smem s) \<Longrightarrow> b \<noteq> a \<Longrightarrow>
     rt_free (heap_ptr (smem s) + w32 b) s = Some (s', Returns ()) \<Longrightarrow> heap_call a s s'"
| call_realloc: "(b, m) \<in> heap_live (smem s) \<Longrightarrow> b \<noteq> a \<Longrightarrow>
     sz \<noteq> 0 \<Longrightarrow> unat sz + 3 < 2 ^ 32 \<Longrightarrow> req sz \<le> unat (mem_size_aligned (smem s)) \<Longrightarrow>
     rt_realloc (heap_ptr (smem s) + w32 b) sz s = Some (s', Returns p) \<Longrightarrow> heap_call a s s'"
| call_write: "(b, m) \<in> heap_live (smem s) \<Longrightarrow> b \<noteq> a \<Longrightarrow> i < m \<Longrightarrow>
     heap_call a s (s\<lparr>smem := (smem s)\<lparr>heap_bytes := (heap_bytes (smem s))(b + i := v)\<rparr>\<rparr>)"

lemma heap_call_others: "heap_call a s s' \<Longrightarrow> sm.others a s s'"
  unfolding sm.others_def
proof (induction rule: heap_call.induct)
  case (call_malloc sz s s' p)
  then show ?case by (intro disjI1 exI[of _ sz] exI[of _ "heap_off s p"]) (simp add: heap_request_def heap_alloc_def)
next
  case (call_free b m s s')
  then show ?case by (intro disjI2 disjI1 exI[of _ b] exI[of _ m]) (simp add: heap_dealloc_def)
next
  case (call_realloc b m s sz s' p)
  then show ?case
    by (intro disjI2 disjI1 exI[of _ b] exI[of _ m] exI[of _ sz] exI[of _ "heap_off s p"])
      (simp add: heap_request_def heap_resize_def)
next
  case (call_write b m s i v)
  then show ?case by (intro disjI2 exI[of _ b] exI[of _ m] exI[of _ i] exI[of _ v]) (simp add: heap_store_def)
qed

text \<open>
  C29. An area handed out by the heap belongs to its user: whatever sequence of \<^verbatim>\<open>rt_malloc\<close>, of \<^verbatim>\<open>rt_free\<close>
  and \<^verbatim>\<open>rt_realloc\<close> of other areas and of writes into other areas happens, the heap stays well formed, the
  area stays handed out at the same place with the same length, its bytes do not change, and it
  overlaps no other area.
\<close>

theorem heap_areas_stable:
  assumes calls: "(heap_call a)\<^sup>*\<^sup>* s s'" and s: "heap_idle s xs ys" and l: "\<forall>(c, k) \<in> live_at 0 (xs @ ys). 0 < k"
    and a: "(a, l) \<in> live_at 0 (xs @ ys)"
  shows "\<exists>xs' ys'. heap_idle s' xs' ys' \<and> (a, l) \<in> live_at 0 (xs' @ ys') \<and>
     (\<forall>i < l. heap_bytes (smem s') (a + i) = heap_bytes (smem s) (a + i)) \<and>
     (\<forall>(b, m) \<in> live_at 0 (xs' @ ys') - {(a, l)}. {a..<a + l} \<inter> {b..<b + m} = {})"
proof -
  have g: "heap_good s" by (rule heap_goodI[OF s l])
  have lv: "(a, l) \<in> heap_live (smem s)" using a heap_live_eq[of "smem s" xs ys] s by (simp add: heap_idle_def)
  have "(sm.others a)\<^sup>*\<^sup>* s s'" by (rule rtranclp_mono[THEN predicate2D, OF _ calls]) (blast intro: heap_call_others)
  note st = sm.area_stable[OF this g lv]
  obtain xs' ys' where h: "heap_idle s' xs' ys'" "heap_live (smem s') = live_at 0 (xs' @ ys')"
    using heap_goodE st by metis
  have "{a..<a + l} \<inter> {b..<b + m} = {}" if "(b, m) \<in> live_at 0 (xs' @ ys') - {(a, l)}" for b m
    using that heap_live_disjoint[of s' a l b m] st h(2) by auto
  then show ?thesis using st h by blast
qed

theorem heap_areas_stable_witness:
  "\<exists>s s' p. rt_malloc 10 (demo_heap 1) = Some (s, Returns 0x20000010) \<and> rt_malloc 40 s = Some (s', Returns p) \<and>
     (\<exists>xs' ys'. heap_idle s' xs' ys' \<and> (12, 12) \<in> live_at 0 (xs' @ ys') \<and>
        (\<forall>i < 12. heap_bytes (smem s') (12 + i) = heap_bytes (smem s) (12 + i)))"
proof -
  obtain h xs ys where d: "rt_malloc 10 (demo_heap 1) = Some ((demo_heap 1)\<lparr>smem := h\<rparr>, Returns 0x20000010)"
    "heap_idle ((demo_heap 1)\<lparr>smem := h\<rparr>) xs ys" "xs @ ys = [(True, 24), (False, 216)]" "heap_ptr h = 0x20000004"
    by (rule demo_alloc)
  let ?s = "(demo_heap 1)\<lparr>smem := h\<rparr>"
  have l: "live_at 0 (xs @ ys) = {(12, 12)}" unfolding d(3) by simp
  then have g: "heap_good ?s" by (intro heap_goodI[OF d(2)]) simp
  have "mem_size_aligned h = w32 (span (xs @ ys) - 12)" using d(2) by (simp add: heap_rep_def heap_blocks_def)
  then have m: "unat (mem_size_aligned h) = 228" unfolding d(3) by simp
  have r: "req 40 = 40" by (simp add: req_def)
  have "heap_request 40 ?s" by (simp add: heap_request_def m r)
  from heap_alloc_law[OF g this] obtain s' p where p: "rt_malloc 40 ?s = Some (s', Returns p)"
    by (auto simp: heap_alloc_def split: option.splits call.splits)
  have "heap_call 12 ?s s'" by (rule call_malloc[OF _ _ _ p]) (simp_all add: m r)
  from heap_areas_stable[OF r_into_rtranclp[of "heap_call 12", OF this] d(2), of 12, unfolded l] obtain xs' ys' where
    "heap_idle s' xs' ys'" "(12, 12) \<in> live_at 0 (xs' @ ys')" "\<forall>i < 12. heap_bytes (smem s') (12 + i) = heap_bytes (smem ?s) (12 + i)"
    by auto
  then show ?thesis using d(1) p by blast
qed

end
