(* ===== verification/Printf.thy ===== *)
theory Printf
  imports KString "HOL-Library.Sublist"
begin

unbundle bit_operations_syntax

text \<open>
  The formatted output of \<^verbatim>\<open>src/kservice.c\<close>: \<^verbatim>\<open>print_number\<close> and \<^verbatim>\<open>rt_vsnprintf\<close> with the functions
  that call it, in the build with \<^verbatim>\<open>RT_PRINTF_PRECISION\<close>, which the file defines, and without
  \<^verbatim>\<open>RT_PRINTF_SPECIAL\<close> and \<^verbatim>\<open>RT_PRINTF_LONGLONG\<close>. What is written is compared with the text that a
  format stands for, which is a list of characters without a buffer.

  The variable arguments are a list; taking one that is missing or of the other kind is undefined,
  \<open>None\<close>. An \<^verbatim>\<open>int\<close> or \<^verbatim>\<open>long\<close> argument is a 32 bit word. The position in the buffer is a natural
  number: the text is assumed not to reach the end of the address space.
\<close>

section \<open>Definitions\<close>

abbreviation ch :: "char \<Rightarrow> u8" where "ch c \<equiv> of_char c"

abbreviation ZEROPAD :: u8 where "ZEROPAD \<equiv> 1"
abbreviation SIGN :: u8 where "SIGN \<equiv> 2"
abbreviation PLUS :: u8 where "PLUS \<equiv> 4"
abbreviation SPACE :: u8 where "SPACE \<equiv> 8"
abbreviation LEFT :: u8 where "LEFT \<equiv> 16"
abbreviation SPECIAL :: u8 where "SPECIAL \<equiv> 32"
abbreviation LARGE :: u8 where "LARGE \<equiv> 64"

definition isdigit :: "u8 \<Rightarrow> bool" where
  "isdigit c \<longleftrightarrow> (ucast c - 48 :: u32) < 10"

definition divide :: "u32 \<Rightarrow> nat \<Rightarrow> u32 \<times> u32" where
  "divide n base = (if base = 10 then (n mod 10, n div 10) else (n mod 16, n div 16))"

text \<open>\<^verbatim>\<open>skip_atoi\<close>, from the value \<open>i\<close> on.\<close>

fun skip_atoi :: "u32 \<Rightarrow> u8 list \<Rightarrow> u32 \<times> u8 list" where
  "skip_atoi i [] = (i, [])"
| "skip_atoi i (c # s) = (if isdigit c then skip_atoi (i * 10 + ucast c - 48) s else (i, c # s))"

text \<open>The buffer and the place of the next character; nothing is stored behind \<open>e\<close>.\<close>

type_synonym sink = "(nat \<Rightarrow> u8) \<times> nat"

definition putc :: "nat \<Rightarrow> u8 \<Rightarrow> sink \<Rightarrow> sink" where
  "putc e c w = (if snd w \<le> e then (fst w)(snd w := c) else fst w, snd w + 1)"

text \<open>\<^verbatim>\<open>while (size-- > 0)\<close>: what is left in \<^verbatim>\<open>size\<close> is the first component.\<close>

function pad :: "nat \<Rightarrow> u8 \<Rightarrow> int \<Rightarrow> sink \<Rightarrow> int \<times> sink" where
  "pad e c sz w = (if sz > 0 then pad e c (sz - 1) (putc e c w) else (sz - 1, w))"
  by pat_completeness auto
termination
  by (relation "measure (\<lambda>(e, c, n, w). nat n)") auto

declare pad.simps [simp del]

lemma divide_less:
  assumes "num \<noteq> 0" "divide num base = (r, num')"
  shows "unat num' < unat num"
proof -
  have "num' = num div 10 \<or> num' = num div 16" "0 < unat num"
    using assms by (auto simp: divide_def unat_gt_0 split: if_splits)
  then show ?thesis by (auto simp: unat_div)
qed

text \<open>The digits that are stored in \<^verbatim>\<open>tmp\<close>, the last one first.\<close>

function tmp_digits :: "u8 list \<Rightarrow> nat \<Rightarrow> u32 \<Rightarrow> u8 list" where
  "tmp_digits digits base num =
     (if num = 0 then []
      else (let (r, num') = divide num base in digits ! unat r # tmp_digits digits base num'))"
  by pat_completeness auto
termination
  by (relation "measure (\<lambda>(ds, b, n). unat n)") (auto dest: divide_less[OF _ sym])

declare tmp_digits.simps [simp del]

definition small_digits :: "u8 list" where "small_digits = map of_char ''0123456789abcdef''"
definition large_digits :: "u8 list" where "large_digits = map of_char ''0123456789ABCDEF''"

text \<open>\<^verbatim>\<open>while (i-- > 0)\<close> and \<^verbatim>\<open>while (i < precision--)\<close>.\<close>

definition put_digits :: "nat \<Rightarrow> u8 list \<Rightarrow> sink \<Rightarrow> sink" where
  "put_digits e tmp w = fold (putc e) (rev tmp) w"

function put_zeros :: "nat \<Rightarrow> int \<Rightarrow> int \<Rightarrow> sink \<Rightarrow> sink" where
  "put_zeros e i precision w =
     (if i < precision then put_zeros e i (precision - 1) (putc e (ch CHR ''0'') w) else w)"
  by pat_completeness auto
termination
  by (relation "measure (\<lambda>(e, i, p, w). nat (p - i))") auto

declare put_zeros.simps [simp del]

definition print_number :: "nat \<Rightarrow> u32 \<Rightarrow> nat \<Rightarrow> int \<Rightarrow> int \<Rightarrow> u8 \<Rightarrow> sink \<Rightarrow> sink" where
  "print_number e num base s precision type0 w =
     (let digits = (if type0 AND LARGE \<noteq> 0 then large_digits else small_digits);
          type = (if type0 AND LEFT \<noteq> 0 then type0 AND NOT ZEROPAD else type0);
          c = (if type AND ZEROPAD \<noteq> 0 then ch CHR ''0'' else ch CHR '' '');
          (sign, num1) =
            (if type AND SIGN \<noteq> 0 then
               if sint num < 0 then (ch CHR ''-'', - num)
               else if type AND PLUS \<noteq> 0 then (ch CHR ''+'', num)
               else if type AND SPACE \<noteq> 0 then (ch CHR '' '', num) else (0, num)
             else (0, num));
          tmp = (if num1 = 0 then [ch CHR ''0''] else tmp_digits digits base num1);
          i = int (length tmp);
          precision1 = (if i > precision then i else precision);
          size1 = s - precision1;
          (size2, w1) =
            (if type AND (ZEROPAD OR LEFT) = 0 then
               pad e (ch CHR '' '') (if sign \<noteq> 0 \<and> size1 > 0 then size1 - 1 else size1) w
             else (size1, w));
          (size3, w2) =
            (if sign \<noteq> 0 then (if snd w1 \<le> e then size2 - 1 else size2, putc e sign w1) else (size2, w1));
          (size4, w3) = (if type AND LEFT = 0 then pad e c size3 w2 else (size3, w2));
          w4 = put_zeros e i precision1 w3;
          w5 = put_digits e tmp w4;
          (_, w6) = pad e (ch CHR '' '') size4 w5
      in w6)"

datatype arg = AInt u32 | AStr "u8 list option"

definition arg_int :: "arg list \<Rightarrow> (u32 \<times> arg list) option" where
  "arg_int args = (case args of AInt n # as \<Rightarrow> Some (n, as) | _ \<Rightarrow> None)"

definition arg_str :: "arg list \<Rightarrow> (u8 list option \<times> arg list) option" where
  "arg_str args = (case args of AStr p # as \<Rightarrow> Some (p, as) | _ \<Rightarrow> None)"

text \<open>The parts of a directive: flags, field width, precision, qualifier.\<close>

fun fmt_flags :: "u8 \<Rightarrow> u8 list \<Rightarrow> u8 \<times> u8 list" where
  "fmt_flags flags [] = (flags, [])"
| "fmt_flags flags (c # fmt) =
     (if c = ch CHR ''-'' then fmt_flags (flags OR LEFT) fmt
      else if c = ch CHR ''+'' then fmt_flags (flags OR PLUS) fmt
      else if c = ch CHR '' '' then fmt_flags (flags OR SPACE) fmt
      else if c = ch CHR ''#'' then fmt_flags (flags OR SPECIAL) fmt
      else if c = ch CHR ''0'' then fmt_flags (flags OR ZEROPAD) fmt
      else (flags, c # fmt))"

definition fmt_width :: "u8 \<Rightarrow> u8 list \<Rightarrow> arg list \<Rightarrow> (int \<times> u8 \<times> u8 list \<times> arg list) option" where
  "fmt_width flags fmt args =
     (if isdigit (chr fmt) then let (n, fmt') = skip_atoi 0 fmt in Some (sint n, flags, fmt', args)
      else if chr fmt = ch CHR ''*'' then do {
        (n, args') \<leftarrow> arg_int args;
        if sint n < 0 then Some (- sint n, flags OR LEFT, drop 1 fmt, args')
        else Some (sint n, flags, drop 1 fmt, args')
      }
      else Some (- 1, flags, fmt, args))"

definition fmt_precision :: "u8 list \<Rightarrow> arg list \<Rightarrow> (int \<times> u8 list \<times> arg list) option" where
  "fmt_precision fmt args =
     (if chr fmt = ch CHR ''.'' then do {
        let fmt1 = drop 1 fmt;
        (p, fmt2, args') \<leftarrow>
          (if isdigit (chr fmt1) then let (n, fmt') = skip_atoi 0 fmt1 in Some (sint n, fmt', args)
           else if chr fmt1 = ch CHR ''*'' then do { (n, args') \<leftarrow> arg_int args; Some (sint n, drop 1 fmt1, args') }
           else Some (- 1, fmt1, args));
        Some (if p < 0 then 0 else p, fmt2, args')
      }
      else Some (- 1, fmt, args))"

definition fmt_qualifier :: "u8 list \<Rightarrow> u8 \<times> u8 list" where
  "fmt_qualifier fmt =
     (if chr fmt = ch CHR ''h'' \<or> chr fmt = ch CHR ''l'' then (chr fmt, drop 1 fmt) else (0, fmt))"

definition fmt_number :: "u8 \<Rightarrow> u8 \<Rightarrow> arg list \<Rightarrow> (u32 \<times> arg list) option" where
  "fmt_number qualifier flags args = do {
     (n, args') \<leftarrow> arg_int args;
     Some (if qualifier = ch CHR ''h'' then
             let num = ucast n :: u16 in if flags AND SIGN \<noteq> 0 then word_of_int (sint num) else ucast num
           else n, args')
   }"

text \<open>What is between the percent sign and the conversion character.\<close>

definition fmt_spec ::
  "u8 list \<Rightarrow> arg list \<Rightarrow> (u8 \<times> int \<times> int \<times> u8 \<times> u8 list \<times> arg list) option" where
  "fmt_spec fmt args = do {
     let (flags, fmt1) = fmt_flags 0 fmt;
     (width, flags1, fmt2, args1) \<leftarrow> fmt_width flags fmt1 args;
     (precision, fmt3, args2) \<leftarrow> fmt_precision fmt2 args1;
     let (qualifier, fmt4) = fmt_qualifier fmt3;
     Some (flags1, width, precision, qualifier, fmt4, args2)
   }"

definition null_text :: "u8 list" where "null_text = map of_char ''(NULL)''"

definition put_field :: "nat \<Rightarrow> u8 \<Rightarrow> int \<Rightarrow> u8 list \<Rightarrow> sink \<Rightarrow> sink" where
  "put_field e flags sz txt w =
     (let (sz1, w1) = (if flags AND LEFT = 0 then pad e (ch CHR '' '') sz w else (sz, w));
          w2 = fold (putc e) txt w1;
          (_, w3) = pad e (ch CHR '' '') sz1 w2
      in w3)"

definition print_int ::
  "nat \<Rightarrow> nat \<Rightarrow> u8 \<Rightarrow> int \<Rightarrow> int \<Rightarrow> u8 \<Rightarrow> arg list \<Rightarrow> sink \<Rightarrow> (arg list \<times> sink) option" where
  "print_int e base flags width precision qualifier args w = do {
     (n, args') \<leftarrow> fmt_number qualifier flags args;
     Some (args', print_number e n base width precision flags w)
   }"

text \<open>The conversion by the character \<open>c\<close>, which is 0 at the end of the format.\<close>

definition fmt_convert ::
  "nat \<Rightarrow> u8 \<Rightarrow> u8 \<Rightarrow> int \<Rightarrow> int \<Rightarrow> u8 \<Rightarrow> arg list \<Rightarrow> sink \<Rightarrow> (arg list \<times> sink) option" where
  "fmt_convert e c flags width precision qualifier args w =
     (if c = ch CHR ''c'' then do {
        (n, args') \<leftarrow> arg_int args;
        Some (args', put_field e flags (width - 1) [ucast n] w)
      }
      else if c = ch CHR ''s'' then do {
        (p, args') \<leftarrow> arg_str args;
        let s = (case p of None \<Rightarrow> null_text | Some s \<Rightarrow> s);
        let len0 = int (rt_strlen s);
        let len = (if precision > 0 \<and> len0 > precision then precision else len0);
        Some (args', put_field e flags (width - len) (take (nat len) s) w)
      }
      else if c = ch CHR ''p'' then do {
        (n, args') \<leftarrow> arg_int args;
        Some (args', if width = - 1 then print_number e n 16 8 precision (flags OR ZEROPAD) w
                     else print_number e n 16 width precision flags w)
      }
      else if c = ch CHR ''%'' then Some (args, putc e (ch CHR ''%'') w)
      else if c = ch CHR ''o'' then print_int e 8 flags width precision qualifier args w
      else if c = ch CHR ''X'' then print_int e 16 (flags OR LARGE) width precision qualifier args w
      else if c = ch CHR ''x'' then print_int e 16 flags width precision qualifier args w
      else if c = ch CHR ''d'' \<or> c = ch CHR ''i'' then print_int e 10 (flags OR SIGN) width precision qualifier args w
      else if c = ch CHR ''u'' then print_int e 10 flags width precision qualifier args w
      else if c \<noteq> 0 then Some (args, putc e c (putc e (ch CHR ''%'') w))
      else Some (args, putc e (ch CHR ''%'') w))"

lemma suffix_skip_atoi: "suffix (snd (skip_atoi i s)) s"
  by (induction i s rule: skip_atoi.induct) (auto intro: suffix_ConsI)

lemma suffix_fmt_flags: "suffix (snd (fmt_flags f s)) s"
  by (induction f s rule: fmt_flags.induct) (auto intro: suffix_ConsI)

lemma suffix_fmt_width: "fmt_width flags fmt args = Some (n, flags', fmt', args') \<Longrightarrow> suffix fmt' fmt"
  using suffix_skip_atoi[of 0 fmt]
  by (auto simp: fmt_width_def split_def Let_def Option.bind_eq_Some_conv suffix_drop split: if_splits)

lemma suffix_fmt_precision: "fmt_precision fmt args = Some (n, fmt', args') \<Longrightarrow> suffix fmt' fmt"
  using suffix_skip_atoi[of 0 "drop 1 fmt"] suffix_order.trans[OF _ suffix_drop[of 1 fmt]] suffix_order.trans[OF suffix_drop[of 1 "drop 1 fmt"] suffix_drop[of 1 fmt]]
  by (auto simp: fmt_precision_def split_def Let_def Option.bind_eq_Some_conv suffix_drop split: if_splits)

lemma suffix_fmt_spec:
  assumes "fmt_spec fmt args = Some (flags, width, precision, qualifier, fmt', args')"
  shows "suffix fmt' fmt"
proof -
  obtain fl fmt1 where f: "fmt_flags 0 fmt = (fl, fmt1)" by fastforce
  obtain wd flags1 fmt2 args1 pr fmt3 args2 where wd: "fmt_width fl fmt1 args = Some (wd, flags1, fmt2, args1)"
    "fmt_precision fmt2 args1 = Some (pr, fmt3, args2)" "fmt' = snd (fmt_qualifier fmt3)"
    using assms f by (auto simp: fmt_spec_def split_def Let_def Option.bind_eq_Some_conv)
  have "suffix fmt' fmt3" using wd(3) by (simp add: fmt_qualifier_def suffix_drop)
  also have "suffix fmt3 fmt2" by (rule suffix_fmt_precision[OF wd(2)])
  also have "suffix fmt2 fmt1" by (rule suffix_fmt_width[OF wd(1)])
  also have "suffix fmt1 fmt" using suffix_fmt_flags[of 0 fmt] f by simp
  finally show ?thesis .
qed

lemma length_fmt_spec:
  "fmt_spec fmt args = Some (flags, width, precision, qualifier, fmt', args') \<Longrightarrow> length fmt' \<le> length fmt"
  by (intro suffix_length_le suffix_fmt_spec)

function vsnprintf_loop :: "nat \<Rightarrow> u8 list \<Rightarrow> arg list \<Rightarrow> sink \<Rightarrow> sink option" where
  "vsnprintf_loop e [] args w = Some w"
| "vsnprintf_loop e (c # fmt) args w =
     (if c = 0 then Some w
      else if c \<noteq> ch CHR ''%'' then vsnprintf_loop e fmt args (putc e c w)
      else do {
        (flags, width, precision, qualifier, fmt1, args1) \<leftarrow> fmt_spec fmt args;
        (args2, w2) \<leftarrow> fmt_convert e (chr fmt1) flags width precision qualifier args1 w;
        if chr fmt1 = 0 then Some w2 else vsnprintf_loop e (drop 1 fmt1) args2 w2
      })"
  by pat_completeness auto
termination
  by (relation "measure (\<lambda>(e, fmt, args, w). length fmt)") (auto dest!: length_fmt_spec)

definition rt_vsnprintf ::
  "u32 \<Rightarrow> u32 \<Rightarrow> u8 list \<Rightarrow> arg list \<Rightarrow> (nat \<Rightarrow> u8) \<Rightarrow> ((nat \<Rightarrow> u8) \<times> int) option" where
  "rt_vsnprintf buf sz fmt args m = do {
     let end0 = buf + sz - 1;
     let e = unat (if end0 < buf then - 1 else end0);
     (m1, str) \<leftarrow> vsnprintf_loop e fmt args (m, unat buf);
     Some (if str \<le> e then m1(str := 0) else m1(e := 0), int str - int (unat buf))
   }"

definition rt_snprintf ::
  "u32 \<Rightarrow> u32 \<Rightarrow> u8 list \<Rightarrow> arg list \<Rightarrow> (nat \<Rightarrow> u8) \<Rightarrow> ((nat \<Rightarrow> u8) \<times> int) option" where
  "rt_snprintf buf sz fmt args m = rt_vsnprintf buf sz fmt args m"

definition rt_vsprintf :: "u32 \<Rightarrow> u8 list \<Rightarrow> arg list \<Rightarrow> (nat \<Rightarrow> u8) \<Rightarrow> ((nat \<Rightarrow> u8) \<times> int) option" where
  "rt_vsprintf buf fmt args m = rt_vsnprintf buf (- 1) fmt args m"

definition rt_sprintf :: "u32 \<Rightarrow> u8 list \<Rightarrow> arg list \<Rightarrow> (nat \<Rightarrow> u8) \<Rightarrow> ((nat \<Rightarrow> u8) \<times> int) option" where
  "rt_sprintf buf fmt args m = rt_vsprintf buf fmt args m"

section \<open>The text of a format\<close>

text \<open>The digits of a number, the first one first.\<close>

function nat_digits :: "nat \<Rightarrow> nat \<Rightarrow> nat list" where
  "nat_digits b n = (if b < 2 \<or> n < b then [n] else nat_digits b (n div b) @ [n mod b])"
  by pat_completeness auto
termination
  by (relation "measure snd") auto

declare nat_digits.simps [simp del]

definition digit_char :: "bool \<Rightarrow> nat \<Rightarrow> u8" where
  "digit_char large d = (if d < 10 then 48 + of_nat d else (if large then 65 else 97) + of_nat (d - 10))"

definition spaces :: "int \<Rightarrow> u8 list" where "spaces n = replicate (nat n) 32"

definition sign_text :: "u8 \<Rightarrow> u32 \<Rightarrow> u8 list" where
  "sign_text flags num =
     (if flags AND SIGN = 0 then [] else if sint num < 0 then map of_char ''-''
      else if flags AND PLUS \<noteq> 0 then map of_char ''+''
      else if flags AND SPACE \<noteq> 0 then map of_char '' '' else [])"

definition magnitude :: "u8 \<Rightarrow> u32 \<Rightarrow> nat" where
  "magnitude flags num = (if flags AND SIGN = 0 then unat num else nat \<bar>sint num\<bar>)"

text \<open>The digits, at least as many as the precision says, and the sign, filled up to the width.\<close>

definition number_text :: "u32 \<Rightarrow> nat \<Rightarrow> int \<Rightarrow> int \<Rightarrow> u8 \<Rightarrow> u8 list" where
  "number_text num base width precision flags =
     (let ds = map (digit_char (flags AND LARGE \<noteq> 0)) (nat_digits base (magnitude flags num));
          body = replicate (nat precision - length ds) 48 @ ds;
          sign = sign_text flags num;
          fill = nat (width - int (length sign) - int (length body))
      in if flags AND LEFT \<noteq> 0 then sign @ body @ replicate fill 32
         else if flags AND ZEROPAD \<noteq> 0 then sign @ replicate fill 48 @ body
         else replicate fill 32 @ sign @ body)"

definition field_text :: "u8 \<Rightarrow> int \<Rightarrow> u8 list \<Rightarrow> u8 list" where
  "field_text flags width txt =
     (let fill = replicate (nat (width - int (length txt))) 32
      in if flags AND LEFT \<noteq> 0 then txt @ fill else fill @ txt)"

definition int_text :: "nat \<Rightarrow> u8 \<Rightarrow> int \<Rightarrow> int \<Rightarrow> u8 \<Rightarrow> arg list \<Rightarrow> (arg list \<times> u8 list) option" where
  "int_text base flags width precision qualifier args =
     map_option (\<lambda>(n, args'). (args', number_text n base width precision flags)) (fmt_number qualifier flags args)"

definition convert_text ::
  "u8 \<Rightarrow> u8 \<Rightarrow> int \<Rightarrow> int \<Rightarrow> u8 \<Rightarrow> arg list \<Rightarrow> (arg list \<times> u8 list) option" where
  "convert_text c flags width precision qualifier args =
     (if c = ch CHR ''c'' then
        map_option (\<lambda>(n, args'). (args', field_text flags width [ucast n])) (arg_int args)
      else if c = ch CHR ''s'' then
        map_option (\<lambda>(p, args').
          let txt = chars (case p of None \<Rightarrow> null_text | Some s \<Rightarrow> s)
          in (args', field_text flags width (if precision > 0 then take (nat precision) txt else txt))) (arg_str args)
      else if c = ch CHR ''p'' then
        map_option (\<lambda>(n, args'). (args', if width = - 1 then number_text n 16 8 precision (flags OR ZEROPAD)
          else number_text n 16 width precision flags)) (arg_int args)
      else if c = ch CHR ''%'' then Some (args, map of_char ''%'')
      else if c = ch CHR ''o'' then int_text 8 flags width precision qualifier args
      else if c = ch CHR ''X'' then int_text 16 (flags OR LARGE) width precision qualifier args
      else if c = ch CHR ''x'' then int_text 16 flags width precision qualifier args
      else if c = ch CHR ''d'' \<or> c = ch CHR ''i'' then int_text 10 (flags OR SIGN) width precision qualifier args
      else if c = ch CHR ''u'' then int_text 10 flags width precision qualifier args
      else if c \<noteq> 0 then Some (args, map of_char ''%'' @ [c])
      else Some (args, map of_char ''%''))"

function format_text :: "u8 list \<Rightarrow> arg list \<Rightarrow> u8 list option" where
  "format_text [] args = Some []"
| "format_text (c # fmt) args =
     (if c = 0 then Some []
      else if c \<noteq> ch CHR ''%'' then map_option ((#) c) (format_text fmt args)
      else do {
        (flags, width, precision, qualifier, fmt1, args1) \<leftarrow> fmt_spec fmt args;
        (args2, txt) \<leftarrow> convert_text (chr fmt1) flags width precision qualifier args1;
        if chr fmt1 = 0 then Some txt else map_option ((@) txt) (format_text (drop 1 fmt1) args2)
      })"
  by pat_completeness auto
termination
  by (relation "measure (\<lambda>(fmt, args). length fmt)") (auto dest!: length_fmt_spec)

section \<open>Printing into a buffer\<close>

text \<open>
  \<open>prints e txt w w'\<close>: as far as the buffer goes, \<open>txt\<close> has been written; the place after it is exact
  as long as the buffer has room, and at least that far otherwise.
\<close>

definition prints :: "nat \<Rightarrow> u8 list \<Rightarrow> sink \<Rightarrow> sink \<Rightarrow> bool" where
  "prints e txt w w' \<longleftrightarrow>
     (\<forall>a. fst w' a = (if snd w \<le> a \<and> a < snd w + length txt \<and> a \<le> e then txt ! (a - snd w) else fst w a)) \<and>
     snd w + length txt \<le> snd w' \<and> (snd w + length txt \<le> e + 1 \<longrightarrow> snd w' = snd w + length txt)"

lemma prints_Nil [simp]: "prints e [] w w"
  by (auto simp: prints_def)

lemma prints_putc: "prints e [c] w (putc e c w)"
  by (auto simp: prints_def putc_def)

lemma prints_append:
  assumes a: "prints e xs w w1" and b: "prints e ys w1 w2"
  shows "prints e (xs @ ys) w w2"
proof -
  have "fst w2 a = (if snd w \<le> a \<and> a < snd w + length (xs @ ys) \<and> a \<le> e then (xs @ ys) ! (a - snd w) else fst w a)" for a
  proof (cases "snd w + length xs \<le> e + 1")
    case True
    then have "snd w1 = snd w + length xs" using a by (simp add: prints_def)
    moreover have "fst w2 a = (if snd w1 \<le> a \<and> a < snd w1 + length ys \<and> a \<le> e then ys ! (a - snd w1) else fst w1 a)"
      "fst w1 a = (if snd w \<le> a \<and> a < snd w + length xs \<and> a \<le> e then xs ! (a - snd w) else fst w a)"
      using a b by (simp_all add: prints_def)
    ultimately show ?thesis by (auto simp: nth_append)
  next
    case False
    then have "\<not> (snd w1 \<le> a \<and> a \<le> e)" using a by (auto simp: prints_def)
    then have "fst w2 a = fst w1 a" using b by (auto simp: prints_def)
    also have "\<dots> = (if snd w \<le> a \<and> a < snd w + length xs \<and> a \<le> e then xs ! (a - snd w) else fst w a)"
      using a by (simp add: prints_def)
    finally show ?thesis using False by (auto simp: nth_append)
  qed
  then show ?thesis using a b by (auto simp: prints_def)
qed

lemma prints_Cons: "prints e cs (putc e c w) w' \<Longrightarrow> prints e (c # cs) w w'"
  using prints_append[OF prints_putc, of e cs c w w'] by simp

lemma prints_fold: "prints e cs w (fold (putc e) cs w)"
proof (induction cs arbitrary: w)
  case (Cons c cs)
  then show ?case using prints_Cons[OF Cons.IH] by simp
qed simp

lemma pad_eq: "pad e c n w = (if n > 0 then - 1 else n - 1, fold (putc e) (replicate (nat n) c) w)"
proof (induction e c n w rule: pad.induct)
  case (1 e c n w)
  show ?case
  proof (cases "n > 0")
    case True
    then have "replicate (nat n) c = c # replicate (nat (n - 1)) c" by (simp add: nat_diff_distrib Suc_nat_eq_nat_zadd1[symmetric] flip: replicate_Suc)
    then show ?thesis using 1 True by (subst pad.simps) auto
  next
    case False
    then show ?thesis by (subst pad.simps) simp
  qed
qed

lemma pad_again:
  "pad e c (fst (pad e c' k w)) w' = (fst (pad e c' k w) - 1, w')"
  "0 \<le> j \<Longrightarrow> pad e c (fst (pad e c' k w) - j) w' = (fst (pad e c' k w) - j - 1, w')"
  by (subst pad.simps, simp add: pad_eq)+

lemma prints_pad: "prints e (replicate (nat n) c) w (snd (pad e c n w))"
  unfolding pad_eq snd_conv by (rule prints_fold)

lemma put_zeros_eq: "put_zeros e i p w = fold (putc e) (replicate (nat (p - i)) 48) w"
proof (induction e i p w rule: put_zeros.induct)
  case (1 e i p w)
  show ?case
  proof (cases "i < p")
    case True
    then have "nat (p - i) = Suc (nat (p - 1 - i))" by simp
    then show ?thesis using 1 True by (subst put_zeros.simps) simp
  next
    case False
    then show ?thesis by (subst put_zeros.simps) simp
  qed
qed

lemma tmp_digits_rev:
  assumes b: "base = 10 \<or> base = 16" and ds: "\<And>d. d < 16 \<Longrightarrow> digits ! d = digit_char large d" and n: "num \<noteq> 0"
  shows "rev (tmp_digits digits base num) = map (digit_char large) (nat_digits base (unat num))"
  using b ds n
proof (induction digits base num rule: tmp_digits.induct)
  case (1 digits base num)
  let ?r = "unat num mod base" and ?q = "num div of_nat base"
  have dv: "divide num base = (num mod of_nat base, ?q)" using 1(2) by (auto simp: divide_def)
  have r: "unat (num mod of_nat base) = ?r" "unat ?q = unat num div base" "0 < base" "?r < 16"
    using 1(2) by (auto simp: unat_mod unat_div intro: order.strict_trans[OF mod_less_divisor])
  have t: "tmp_digits digits base num = digits ! ?r # tmp_digits digits base ?q"
    using 1(4) r(1) dv by (subst tmp_digits.simps) simp
  show ?case
  proof (cases "?q = 0")
    case True
    then have "unat num div base = 0" using r(2) by simp
    then have "unat num < base" using r(3) by (simp add: div_eq_0_iff)
    then have "nat_digits base (unat num) = [?r]" by (subst nat_digits.simps) simp
    moreover have "tmp_digits digits base ?q = []" using True by (subst tmp_digits.simps) simp
    ultimately show ?thesis using t 1(3)[OF r(4)] by simp
  next
    case False
    then have "0 < unat num div base" using r(2) by (simp add: unat_gt_0 flip: r(2))
    then have "\<not> unat num < base" using div_less by fastforce
    then have "nat_digits base (unat num) = nat_digits base (unat num div base) @ [?r]"
      using 1(2) by (subst nat_digits.simps) auto
    moreover have "rev (tmp_digits digits base ?q) = map (digit_char large) (nat_digits base (unat ?q))"
      by (rule 1(1)[OF 1(4) _ refl 1(2,3) False]) (use dv in \<open>simp_all\<close>)
    ultimately show ?thesis using t 1(3)[OF r(4)] r(2) by simp
  qed
qed

lemma digit_tables:
  "d < 16 \<Longrightarrow> small_digits ! d = digit_char False d" "d < 16 \<Longrightarrow> large_digits ! d = digit_char True d"
proof -
  have *: "small_digits = map (digit_char False) [0..<16]" "large_digits = map (digit_char True) [0..<16]"
    by (simp_all add: small_digits_def large_digits_def digit_char_def upt_rec)
  show "d < 16 \<Longrightarrow> small_digits ! d = digit_char False d" "d < 16 \<Longrightarrow> large_digits ! d = digit_char True d"
    unfolding * by simp_all
qed

lemma unat_abs: "unat (if sint num < 0 then - num else num) = nat \<bar>sint num\<bar>" for num :: u32
proof (cases "uint num < 0x80000000")
  case True
  then show ?thesis by (simp add: sint_u32_cases)
next
  case False
  have "num \<noteq> 0" using False by auto
  then have "uint num \<noteq> 0" "uint num mod 0x100000000 = uint num"
    using uint_bounded[of num] by (simp_all add: uint_0_iff)
  then have "uint (- num) = 0x100000000 - uint num" by (simp add: uint_word_ariths zmod_zminus1_eq_if)
  then show ?thesis using False uint_bounded[of num] by (simp add: sint_u32_cases unat_eq_nat_uint)
qed

lemma prints_longer:
  "e < snd w \<Longrightarrow> prints e xs w w' \<Longrightarrow> length ys \<le> length xs \<Longrightarrow> ys \<noteq> [] \<Longrightarrow> prints e ys w w'"
  by (cases ys) (auto simp: prints_def)

lemma flag_bits:
  "x AND 17 = 0 \<longleftrightarrow> x AND 1 = 0 \<and> x AND 16 = 0" "(x AND - 2) AND 1 = 0" "(x AND - 2) AND 2 = x AND 2"
  "(x AND - 2) AND 4 = x AND 4" "(x AND - 2) AND 8 = x AND 8" "(x AND - 2) AND 16 = x AND 16" for x :: u8
proof -
  have "x AND 17 = (x AND 1) OR (x AND 16)" by (simp flip: bit.conj_disj_distrib)
  then show "x AND 17 = 0 \<longleftrightarrow> x AND 1 = 0 \<and> x AND 16 = 0" by (simp add: or_eq_0_iff)
qed (simp_all add: and.assoc)

text \<open>The sign and the digits as \<^verbatim>\<open>print_number\<close> computes them.\<close>

lemma number_sign:
  assumes "(if type AND SIGN \<noteq> 0 then
       if sint num < 0 then (ch CHR ''-'', - num)
       else if type AND PLUS \<noteq> 0 then (ch CHR ''+'', num)
       else if type AND SPACE \<noteq> 0 then (ch CHR '' '', num) else (0, num)
     else (0, num)) = (sign, num1)"
  shows "sign_text type num = (if sign = 0 then [] else [sign])" "unat num1 = magnitude type num"
  using assms unat_abs[of num] by (auto simp: sign_text_def magnitude_def split: if_splits)

lemma number_digits:
  assumes "base = 10 \<or> base = 16"
  shows "rev (if num = 0 then [ch CHR ''0''] else tmp_digits (if large then large_digits else small_digits) base num) =
    map (digit_char large) (nat_digits base (unat num))"
proof (cases "num = 0")
  case True
  have "nat_digits base 0 = [0]" using assms by (subst nat_digits.simps) auto
  then show ?thesis using True by (simp add: digit_char_def)
next
  case False
  then show ?thesis
    using tmp_digits_rev[OF assms, of "if large then large_digits else small_digits" large num] digit_tables by simp
qed

lemma prints_body:
  assumes "rev tmp = ds" "p = (if int (length tmp) > precision then int (length tmp) else precision)"
  shows "prints e (replicate (nat precision - length ds) 48 @ ds) w (put_digits e tmp (put_zeros e (int (length tmp)) p w))"
proof -
  have "nat (p - int (length tmp)) = nat precision - length ds" using assms by auto
  then show ?thesis
    unfolding put_zeros_eq put_digits_def assms(1)
    by (simp only:) (intro prints_append[OF prints_fold prints_fold])
qed

lemma print_number_ok:
  assumes b: "base = 10 \<or> base = 16"
  shows "prints e (number_text num base width precision flags) w (print_number e num base width precision flags w)"
proof -
  define type where "type = (if flags AND LEFT \<noteq> 0 then flags AND NOT ZEROPAD else flags)"
  define large where "large = (flags AND LARGE \<noteq> 0)"
  obtain sign num1 where sn: "(if type AND SIGN \<noteq> 0 then
       if sint num < 0 then (ch CHR ''-'', - num)
       else if type AND PLUS \<noteq> 0 then (ch CHR ''+'', num)
       else if type AND SPACE \<noteq> 0 then (ch CHR '' '', num) else (0, num)
     else (0, num)) = (sign, num1)" by (rule prod.exhaust)
  define tmp where "tmp = (if num1 = 0 then [ch CHR ''0''] else tmp_digits (if flags AND LARGE \<noteq> 0 then large_digits else small_digits) base num1)"
  define p where "p = (if int (length tmp) > precision then int (length tmp) else precision)"
  define ds where "ds = map (digit_char large) (nat_digits base (magnitude flags num))"
  define body where "body = replicate (nat precision - length ds) (48 :: u8) @ ds"
  define sg where "sg = (if sign = 0 then [] else [sign])"
  have ty: "type AND 2 = flags AND 2" "type AND 4 = flags AND 4" "type AND 8 = flags AND 8" "type AND 16 = flags AND 16"
    "type AND 1 = 0 \<longleftrightarrow> flags AND 16 \<noteq> 0 \<or> flags AND 1 = 0"
    by (auto simp: type_def flag_bits)
  have sg: "sign_text flags num = sg" "unat num1 = magnitude flags num"
  proof -
    have "sign_text type num = sign_text flags num" "magnitude type num = magnitude flags num"
      by (simp_all add: sign_text_def magnitude_def ty)
    then show "sign_text flags num = sg" "unat num1 = magnitude flags num"
      using number_sign[OF sn] by (simp_all add: sg_def)
  qed
  have rt: "rev tmp = ds" unfolding tmp_def ds_def sg(2)[symmetric] large_def by (rule number_digits[OF b])
  have len: "int (length body) = p" "length tmp = length ds" using rt by (auto simp: body_def p_def simp flip: rt)
  have bd: "prints e body w' (put_digits e tmp (put_zeros e (int (length tmp)) p w'))" for w'
    unfolding body_def by (rule prints_body[OF rt p_def])
  let ?fill = "nat (width - p - int (length sg))"
  have tx: "number_text num base width precision flags =
      (if flags AND 16 \<noteq> 0 then sg @ body @ replicate ?fill 32
       else if flags AND 1 \<noteq> 0 then sg @ replicate ?fill 48 @ body else replicate ?fill 32 @ sg @ body)"
    by (simp add: number_text_def Let_def sg(1) len(1)[symmetric] diff_right_commute flip: large_def ds_def body_def)
  have ps: "prints e sg w' (if sign \<noteq> 0 then putc e sign w' else w')" for w' by (simp add: sg_def prints_putc)
  note pn = print_number_def[of e num base width precision flags w, unfolded Let_def, folded type_def, unfolded sn prod.case,
      folded tmp_def, folded p_def]
  let ?n3 = "if sign \<noteq> 0 then if snd w \<le> e then width - p - 1 else width - p else width - p"
  let ?w2 = "if sign \<noteq> 0 then putc e sign w else w"
  have longer: "prints e ys w w'" if "prints e xs w w'" "length xs + ?fill = length ys + nat ?n3" "sg \<noteq> [] \<Longrightarrow> ys \<noteq> []" "?fill = nat ?n3 \<Longrightarrow> xs = ys"
    for xs ys w'
  proof (cases "?fill = nat ?n3")
    case False
    then have "sign \<noteq> 0" "e < snd w" by (auto simp: sg_def split: if_splits)
    then show ?thesis using that by (intro prints_longer[OF _ that(1)]) (auto simp: sg_def)
  qed (use that in simp)
  consider (left) "flags AND 16 \<noteq> 0" | (zero) "flags AND 16 = 0" "flags AND 1 \<noteq> 0" | (plain) "flags AND 16 = 0" "flags AND 1 = 0"
    by blast
  then show ?thesis
  proof cases
    case plain
    let ?n = "if sign \<noteq> 0 \<and> 0 < width - p then width - p - 1 else width - p"
    let ?w1 = "snd (pad e 32 ?n w)"
    let ?w2 = "if sign \<noteq> 0 then putc e sign ?w1 else ?w1"
    have "nat ?n = ?fill" by (simp add: sg_def)
    then have w1: "prints e (replicate ?fill 32) w ?w1" using prints_pad[of e ?n 32 w] by simp
    have "print_number e num base width precision flags w = put_digits e tmp (put_zeros e (int (length tmp)) p ?w2)"
      using plain unfolding pn by (simp add: flag_bits ty split_def pad_again)
    then show ?thesis using prints_append[OF w1 prints_append[OF ps bd]] plain by (simp add: tx)
  next
    case zero
    then have eq: "print_number e num base width precision flags w =
        put_digits e tmp (put_zeros e (int (length tmp)) p (snd (pad e 48 ?n3 ?w2)))"
      unfolding pn by (simp add: flag_bits ty split_def pad_again)
    have "prints e (sg @ replicate (nat ?n3) 48 @ body) w (print_number e num base width precision flags w)"
      unfolding eq by (intro prints_append[OF ps] prints_append[OF prints_pad] bd)
    moreover have "number_text num base width precision flags = sg @ replicate ?fill 48 @ body" unfolding tx using zero by simp
    ultimately show ?thesis by (simp only:) (rule longer, assumption, auto)
  next
    case left
    then have eq: "print_number e num base width precision flags w =
        snd (pad e 32 ?n3 (put_digits e tmp (put_zeros e (int (length tmp)) p ?w2)))"
      unfolding pn by (simp add: flag_bits ty split_def)
    have "prints e (sg @ body @ replicate (nat ?n3) 32) w (print_number e num base width precision flags w)"
      unfolding eq by (intro prints_append[OF ps] prints_append[OF bd] prints_pad)
    moreover have "number_text num base width precision flags = sg @ body @ replicate ?fill 32" unfolding tx using left by simp
    ultimately show ?thesis by (simp only:) (rule longer, assumption, auto)
  qed
qed

lemma prints_field:
  assumes "sz = width - int (length txt)"
  shows "prints e (field_text flags width txt) w (put_field e flags sz txt w)"
proof (cases "flags AND 16 = 0")
  case True
  then have "put_field e flags sz txt w = fold (putc e) txt (snd (pad e 32 sz w))"
    by (simp add: put_field_def split_def pad_again)
  then show ?thesis using True prints_append[OF prints_pad prints_fold] by (simp add: field_text_def assms)
next
  case False
  then have "put_field e flags sz txt w = snd (pad e 32 sz (fold (putc e) txt w))"
    by (simp add: put_field_def split_def)
  then show ?thesis using False prints_append[OF prints_fold prints_pad] by (simp add: field_text_def assms)
qed

lemma take_chars: "n \<le> length (chars s) \<Longrightarrow> take n s = take n (chars s)"
  by (metis chars_def min.absorb1 takeWhile_eq_take take_take)

text \<open>Both give up on the same arguments, and otherwise the text is printed.\<close>

definition prints_opt :: "nat \<Rightarrow> ('a \<times> u8 list) option \<Rightarrow> sink \<Rightarrow> ('a \<times> sink) option \<Rightarrow> bool" where
  "prints_opt e r w r' \<longleftrightarrow>
     (case r of None \<Rightarrow> r' = None | Some (x, txt) \<Rightarrow> (\<exists>w'. r' = Some (x, w') \<and> prints e txt w w'))"

lemma prints_opt_simps [simp]:
  "prints_opt e None w r \<longleftrightarrow> r = None"
  "prints_opt e (Some (x, txt)) w (Some (y, w')) \<longleftrightarrow> x = y \<and> prints e txt w w'"
  by (auto simp: prints_opt_def simp del: split_paired_Ex)

lemma print_int_ok:
  assumes "base = 10 \<or> base = 16"
  shows "prints_opt e (int_text base flags width precision qualifier args) w
    (print_int e base flags width precision qualifier args w)"
  by (cases "fmt_number qualifier flags args") (auto simp: int_text_def print_int_def print_number_ok[OF assms])

lemma fmt_convert_ok:
  assumes "c \<noteq> ch CHR ''o''"
  shows "prints_opt e (convert_text c flags width precision qualifier args) w
    (fmt_convert e c flags width precision qualifier args w)"
proof -
  have s: "prints e (field_text flags width (if precision > 0 then take (nat precision) (chars s) else chars s)) w
      (put_field e flags (width - len) (take (nat len) s) w)"
    if "len = (if precision > 0 \<and> int (rt_strlen s) > precision then precision else int (rt_strlen s))" for s len
  proof -
    have "take (nat len) s = (if precision > 0 then take (nat precision) (chars s) else chars s)" (is "_ = ?t")
      using that take_chars[of "nat len" s] by (auto simp: rt_strlen_chars)
    moreover have "len = int (length ?t)" using that by (auto simp: rt_strlen_chars)
    ultimately show ?thesis using prints_field[of "width - len" width ?t e flags w] by simp
  qed
  have "prints e [37, c] w (putc e c (putc e 37 w))" using prints_append[OF prints_putc prints_putc] by simp
  moreover have "prints_opt e (convert_text 99 flags width precision qualifier args) w (fmt_convert e 99 flags width precision qualifier args w)"
    by (cases "arg_int args") (auto simp: convert_text_def fmt_convert_def intro!: prints_field)
  moreover have "prints_opt e (convert_text 115 flags width precision qualifier args) w (fmt_convert e 115 flags width precision qualifier args w)"
  proof (cases "arg_str args")
    case (Some r)
    obtain p as where "r = (p, as)" by (rule prod.exhaust)
    then show ?thesis using Some s[OF refl, of "case p of None \<Rightarrow> null_text | Some s \<Rightarrow> s"]
      by (simp add: convert_text_def fmt_convert_def Let_def split del: if_split)
  qed (simp add: convert_text_def fmt_convert_def)
  moreover have "prints_opt e (convert_text 112 flags width precision qualifier args) w (fmt_convert e 112 flags width precision qualifier args w)"
    by (cases "arg_int args") (auto simp: convert_text_def fmt_convert_def intro!: print_number_ok)
  ultimately show ?thesis
    using assms
    by (cases "c = 99"; cases "c = 115"; cases "c = 112")
      (simp_all add: convert_text_def fmt_convert_def print_int_ok prints_putc)
qed

lemma vsnprintf_loop_ok:
  assumes "format_text fmt args = Some tx" "ch CHR ''o'' \<notin> set fmt"
  shows "\<exists>w'. vsnprintf_loop e fmt args w = Some w' \<and> prints e tx w w'"
  using assms
proof (induction fmt args arbitrary: tx w rule: format_text.induct)
  case (1 args)
  then show ?case by simp
next
  case (2 c fmt args)
  consider (nul) "c = 0" | (char) "c \<noteq> 0" "c \<noteq> ch CHR ''%''" | (dir) "c = ch CHR ''%''" by blast
  then show ?case
  proof cases
    case nul
    then show ?thesis using 2(3) by simp
  next
    case char
    then obtain t where t: "format_text fmt args = Some t" "tx = c # t" using 2(3) by auto
    then obtain w' where "vsnprintf_loop e fmt args (putc e c w) = Some w'" "prints e t (putc e c w) w'"
      using 2(1)[OF char t(1), of "putc e c w"] 2(4) by auto
    then show ?thesis using char t(2) prints_Cons by (intro exI[of _ w']) simp
  next
    case dir
    then obtain fl wd pr q fmt1 args1 where sp: "fmt_spec fmt args = Some (fl, wd, pr, q, fmt1, args1)"
      using 2(3) by (auto simp: Option.bind_eq_Some_conv)
    have set1: "set fmt1 \<subseteq> set fmt" by (rule set_mono_suffix[OF suffix_fmt_spec[OF sp]])
    then have "chr fmt1 \<noteq> ch CHR ''o''" using 2(4) by (cases fmt1) (auto simp: chr_def)
    note cv = fmt_convert_ok[OF this, of e fl wd pr q args1 w]
    obtain args2 t where t: "convert_text (chr fmt1) fl wd pr q args1 = Some (args2, t)"
      using 2(3) dir sp by (auto simp: Option.bind_eq_Some_conv)
    obtain w2 where w2: "fmt_convert e (chr fmt1) fl wd pr q args1 w = Some (args2, w2)" "prints e t w w2"
      using cv unfolding t prints_opt_def by auto
    show ?thesis
    proof (cases "chr fmt1 = 0")
      case True
      then show ?thesis using 2(3) dir sp t w2 by (intro exI[of _ w2]) auto
    next
      case False
      then obtain t2 where t2: "format_text (drop 1 fmt1) args2 = Some t2" "tx = t @ t2" using 2(3) dir sp t by auto
      have "ch CHR ''o'' \<notin> set (drop 1 fmt1)" using set1 2(4) set_drop_subset[of 1 fmt1] by auto
      from 2(2)[OF _ _ sp refl refl refl refl refl t refl False t2(1) this, of w2] dir
      obtain w' where "vsnprintf_loop e (drop 1 fmt1) args2 w2 = Some w'" "prints e t2 w2 w'" by auto
      then show ?thesis using dir sp w2 False t2(2) prints_append by (intro exI[of _ w']) simp
    qed
  qed
qed

section \<open>What is promised\<close>

lemma rt_vsnprintf_ok:
  assumes tx: "format_text fmt args = Some tx" "ch CHR ''o'' \<notin> set fmt"
    and e: "e = unat (if buf + sz - 1 < buf then - 1 else buf + sz - 1)" "unat buf \<le> e"
  defines "k \<equiv> min (length tx) (e - unat buf)"
  shows "\<exists>m' n. rt_vsnprintf buf sz fmt args m = Some (m', n) \<and>
     (\<forall>i < k. m' (unat buf + i) = tx ! i) \<and> m' (unat buf + k) = 0 \<and>
     (\<forall>a. a < unat buf \<or> unat buf + k < a \<and> e < a \<longrightarrow> m' a = m a) \<and>
     (if unat buf + length tx \<le> e then n = int (length tx) else int (length tx) \<le> n)"
proof -
  obtain w where w: "vsnprintf_loop e fmt args (m, unat buf) = Some w" "prints e tx (m, unat buf) w"
    using vsnprintf_loop_ok[OF tx] by blast
  let ?m = "if snd w \<le> e then (fst w)(snd w := 0) else (fst w)(e := 0)"
  have r: "rt_vsnprintf buf sz fmt args m = Some (?m, int (snd w) - int (unat buf))"
    using w(1) e(1) by (simp add: rt_vsnprintf_def Let_def split_def)
  have z: "(if snd w \<le> e then snd w else e) = unat buf + k" using w(2) e(2) by (auto simp: prints_def k_def)
  then have m: "?m = (fst w)(unat buf + k := 0)" by (auto split: if_splits)
  have "fst w (unat buf + i) = tx ! i" if "i < k" for i using w(2) that e(2) by (auto simp: prints_def k_def)
  moreover have "fst w a = m a" if "a < unat buf \<or> unat buf + k < a \<and> e < a" for a using w(2) that by (auto simp: prints_def)
  moreover have "if unat buf + length tx \<le> e then int (snd w) - int (unat buf) = int (length tx)
      else int (length tx) \<le> int (snd w) - int (unat buf)"
  proof -
    have "if p + length tx \<le> e then int (snd w) - int p = int (length tx) else int (length tx) \<le> int (snd w) - int p"
      if "p = unat buf" for p using w(2) unfolding prints_def that[symmetric] by auto
    then show ?thesis by blast
  qed
  ultimately show ?thesis unfolding r m by auto
qed


lemma demo_format: "format_text (map of_char ''n=%04d'') [AInt 0xfffffffb] = Some (map of_char ''n=-005'')"
  by code_simp


text \<open>
  When the sign of a number is the first character that does not fit, \<^verbatim>\<open>print_number\<close> does not count it and
  fills one character too many: the returned length is larger than the length of the text. The
  conversion \<open>%o\<close> prints in base 16, since \<^verbatim>\<open>divide\<close> knows the bases 10 and 16 only.
\<close>

theorem rt_snprintf_flaws:
  "map_option snd (rt_snprintf 0x100 1 (map of_char ''n=%04d'') [AInt 0xfffffffb] (\<lambda>a. 0)) = Some 7 \<and>
   map_option length (format_text (map of_char ''n=%04d'') [AInt 0xfffffffb]) = Some 6 \<and>
   map_option (\<lambda>(m, n). [m 0x100, m 0x101]) (rt_snprintf 0x100 8 (map of_char ''%o'') [AInt 10] (\<lambda>a. 0)) =
     Some [of_char CHR ''a'', 0] \<and>
   format_text (map of_char ''%o'') [AInt 10] = Some (map of_char ''12'')"
  by code_simp

section \<open>Numbers in formats\<close>

lemma isdigit_digit_char: "d < 10 \<Longrightarrow> isdigit (digit_char large d) \<and> ucast (digit_char large d) - 48 = (of_nat d :: u32)"
proof -
  assume "d < 10"
  then have "d = 0 \<or> d = 1 \<or> d = 2 \<or> d = 3 \<or> d = 4 \<or> d = 5 \<or> d = 6 \<or> d = 7 \<or> d = 8 \<or> d = 9" by presburger
  then show ?thesis by (elim disjE) (simp_all add: isdigit_def digit_char_def)
qed

text \<open>\<^verbatim>\<open>skip_atoi\<close> reads back what is printed in base 10.\<close>

lemma skip_atoi_digits:
  "skip_atoi i (map (digit_char large) (nat_digits 10 n) @ rest) =
   skip_atoi (i * 10 ^ length (nat_digits 10 n) + of_nat n) rest"
proof (induction "10 :: nat" n arbitrary: i rest rule: nat_digits.induct)
  case (1 n)
  show ?case
  proof (cases "n < 10")
    case True
    then show ?thesis using isdigit_digit_char[OF True, of large] by (subst (1 2) nat_digits.simps) (simp add: add_diff_eq[symmetric])
  next
    case False
    have "n mod 10 < 10" by simp
    note d = isdigit_digit_char[OF this, of large]
    have "of_nat n = (of_nat (n div 10) * 10 + of_nat (n mod 10) :: u32)"
      by (metis div_mult_mod_eq of_nat_add of_nat_mult of_nat_numeral)
    moreover have "nat_digits 10 n = nat_digits 10 (n div 10) @ [n mod 10]" using False by (subst nat_digits.simps) simp
    ultimately show ?thesis using 1 False d by (simp add: algebra_simps)
  qed
qed

end
