(* ===== verification/Completion.thy ===== *)
theory Completion
  imports Ipc
begin

unbundle bit_operations_syntax

text \<open>
  The completions of \<^verbatim>\<open>components/drivers/src/completion.c\<close>: a flag that one thread may wait for. A call
  that blocks continues, once the thread is scheduled again, with \<open>rt_completion_wait_end\<close>.
\<close>

section \<open>Definitions\<close>

record kcomp = kernel +
  completions :: "nat \<Rightarrow> u32"

abbreviation RT_COMPLETED :: u32 where "RT_COMPLETED \<equiv> 1"
abbreviation RT_UNCOMPLETED :: u32 where "RT_UNCOMPLETED \<equiv> 0"

abbreviation comp_list :: "nat \<Rightarrow> lhead" where "comp_list n \<equiv> SuspendedDev (CompletionId n)"

definition set_completion :: "nat \<Rightarrow> u32 \<Rightarrow> 'a kcomp_scheme \<Rightarrow> 'a kcomp_scheme" where
  "set_completion n v s = s\<lparr>completions := (completions s)(n := v)\<rparr>"

definition rt_completion_init :: "nat \<Rightarrow> 'a kcomp_scheme \<Rightarrow> 'a kcomp_scheme" where
  "rt_completion_init n s = rt_ipc_object_init (comp_list n) (set_completion n RT_UNCOMPLETED s)"

definition rt_completion_wait_end :: "nat \<Rightarrow> tid \<Rightarrow> 'a kcomp_scheme \<Rightarrow> 'a kcomp_scheme \<times> rt_err" where
  "rt_completion_wait_end n thread s = (set_completion n RT_UNCOMPLETED s, error (thr s thread))"

definition rt_completion_wait ::
  "nat \<Rightarrow> u32 \<Rightarrow> 'a kcomp_scheme \<Rightarrow> ('a kcomp_scheme \<times> rt_err call) option" where
  "rt_completion_wait n timeout s =
     (if completions s n \<noteq> RT_COMPLETED then do {
        rt_assert (tl s (comp_list n) = []);
        if timeout = 0 then Some (s, Returns (- RT_ETIMEOUT))
        else do {
          thread \<leftarrow> rt_thread_self s;
          let s1 = upd_thr thread (\<lambda>th. th\<lparr>error := RT_EOK\<rparr>) s;
          rt_debug_not_in_interrupt s1;
          s2 \<leftarrow> ipc_block (comp_list n) thread RT_IPC_FLAG_FIFO timeout s1;
          if cur s2 \<noteq> Some thread then Some (s2, Blocks)
          else (let (s3, r) = rt_completion_wait_end n thread s2 in Some (s3, Returns r))
        }
      }
      else Some (set_completion n RT_UNCOMPLETED s, Returns RT_EOK))"

definition rt_completion_done :: "nat \<Rightarrow> 'a kcomp_scheme \<Rightarrow> 'a kcomp_scheme option" where
  "rt_completion_done n s =
     (if completions s n = RT_COMPLETED then Some s
      else do {
        let s1 = set_completion n RT_COMPLETED s;
        if tl s1 (comp_list n) \<noteq> [] then do {
          (s2, _) \<leftarrow> rt_ipc_list_resume (comp_list n) s1;
          rt_schedule s2
        }
        else Some s1
      })"

section \<open>Waiting and completing\<close>

lemma kcomp_more_eq:
  "ktimer.more s' = ktimer.more s \<Longrightarrow> completions s' = completions s" for s :: "'a kcomp_scheme"
  by (cases s; cases s') simp

lemma set_completion_sel [simp]:
  "completions (set_completion n v s) = (completions s)(n := v)" "thr (set_completion n v s) = thr s"
  "tl (set_completion n v s) = tl s" "cur (set_completion n v s) = cur s" "lock_nest (set_completion n v s) = lock_nest s"
  "irq_nest (set_completion n v s) = irq_nest s" "kinv X b (set_completion n v s) = kinv X b s"
  "tstat (set_completion n v s) t = tstat s t" "prio_of (set_completion n v s) t = prio_of s t"
  "timer_list (set_completion n v s) = timer_list s"
proof -
  show "kinv X b (set_completion n v s) = kinv X b s" by (rule kinv_cong) (simp_all add: set_completion_def)
qed (simp_all add: set_completion_def tstat_def prio_of_def)

text \<open>
  C35. A completion and the thread that waits for it. If the completion is done first, the flag is set,
  doing it again changes nothing, and \<^verbatim>\<open>rt_completion_wait\<close> returns \<^verbatim>\<open>RT_EOK\<close> at once and clears the flag. If
  the thread waits first, it is suspended with its timer armed, and \<^verbatim>\<open>rt_completion_done\<close> makes it ready;
  its call then returns \<^verbatim>\<open>RT_EOK\<close> and clears the flag. Without waiting time the call returns
  \<^verbatim>\<open>-RT_ETIMEOUT\<close>. The kernel invariant is kept.
\<close>

theorem completion_handshake:
  fixes s :: "'a kcomp_scheme"
  assumes inv: "kinv {} b s" and c: "cur s = Some c" "tstat s c = RT_THREAD_READY" and irq: "irq_nest s = 0" "lock_nest s = 0"
    and u: "u \<noteq> c" "tstat s u = RT_THREAD_READY"
  shows "(tl s (comp_list n) = [] \<and> completions s n = RT_UNCOMPLETED \<longrightarrow>
            rt_completion_done n s = Some (set_completion n RT_COMPLETED s) \<and>
            rt_completion_done n (set_completion n RT_COMPLETED s) = Some (set_completion n RT_COMPLETED s) \<and>
            rt_completion_wait n time (set_completion n RT_COMPLETED s) = Some (set_completion n RT_UNCOMPLETED s, Returns RT_EOK) \<and>
            rt_completion_wait n 0 s = Some (s, Returns (- RT_ETIMEOUT)) \<and>
            (time_ok time \<longrightarrow> (\<exists>s'. rt_completion_wait n time s = Some (s', Blocks) \<and> kinv {} b s' \<and>
               tl s' (comp_list n) = [c] \<and> tstat s' c = RT_THREAD_SUSPEND \<and> completions s' n = RT_UNCOMPLETED \<and>
               error (thr s' c) = RT_EOK \<and>
               (sint time > 0 \<longrightarrow> ThreadTimer c \<in> set (timer_list s') \<and> due (tick s') s' (ThreadTimer c) = unat time)))) \<and>
         (\<forall>w. tl s (comp_list n) = [w] \<and> completions s n = RT_UNCOMPLETED \<longrightarrow>
            (\<exists>s'. rt_completion_done n s = Some s' \<and> kinv {} b s' \<and> tl s' (comp_list n) = [] \<and>
               tstat s' w = RT_THREAD_READY \<and> ThreadTimer w \<notin> set (timer_list s') \<and>
               ((\<forall>u. tstat s u = RT_THREAD_READY \<longrightarrow> prio_of s w < prio_of s u) \<longrightarrow> cur s' = Some w) \<and>
               (error (thr s w) = RT_EOK \<longrightarrow>
                  rt_completion_wait_end n w s' = (set_completion n RT_UNCOMPLETED s', RT_EOK))))"
proof (intro conjI allI impI)
  assume e: "tl s (comp_list n) = [] \<and> completions s n = RT_UNCOMPLETED"
  have m: "set_completion n RT_UNCOMPLETED (set_completion n RT_COMPLETED s) = set_completion n RT_UNCOMPLETED s"
    by (simp add: set_completion_def)
  show "rt_completion_done n s = Some (set_completion n RT_COMPLETED s)"
    "rt_completion_done n (set_completion n RT_COMPLETED s) = Some (set_completion n RT_COMPLETED s)"
    "rt_completion_wait n time (set_completion n RT_COMPLETED s) = Some (set_completion n RT_UNCOMPLETED s, Returns RT_EOK)"
    "rt_completion_wait n 0 s = Some (s, Returns (- RT_ETIMEOUT))"
    using e m by (simp_all add: rt_completion_done_def rt_completion_wait_def)
  assume tm: "time_ok time"
  obtain s' where s': "ipc_block (comp_list n) c RT_IPC_FLAG_FIFO time (upd_thr c (\<lambda>th. th\<lparr>error := RT_EOK\<rparr>) s) = Some s'"
    "kinv {} b s'" "tstat s' c = RT_THREAD_SUSPEND"
    "\<And>k. (\<nexists>p. k = Ready p) \<Longrightarrow> tl s' k =
       (if k = comp_list n then queued RT_IPC_FLAG_FIFO (\<lambda>u. current_priority (thr s u)) c (tl s (comp_list n)) else tl s k)"
    "ktimer.more s' = ktimer.more s" "error (thr s' c) = RT_EOK"
    "0 < sint time \<Longrightarrow> ThreadTimer c \<in> set (timer_list s') \<and> due (tick s') s' (ThreadTimer c) = unat time"
    "\<And>u. lock_nest s = 0 \<Longrightarrow> u \<noteq> c \<Longrightarrow> tstat s u = RT_THREAD_READY \<Longrightarrow> cur s' \<noteq> Some c"
    by (rule ipc_wait_outcomes[OF inv c, of "comp_list n" RT_IPC_FLAG_FIFO time]) (use tm in auto)
  have "cur s' \<noteq> Some c" by (rule s'(8)[OF irq(2) u])
  moreover have "tl s' (comp_list n) = [c]" using s'(4)[of "comp_list n"] e by (simp add: queued_def)
  ultimately show "\<exists>s'. rt_completion_wait n time s = Some (s', Blocks) \<and> kinv {} b s' \<and>
      tl s' (comp_list n) = [c] \<and> tstat s' c = RT_THREAD_SUSPEND \<and> completions s' n = RT_UNCOMPLETED \<and>
      error (thr s' c) = RT_EOK \<and>
      (sint time > 0 \<longrightarrow> ThreadTimer c \<in> set (timer_list s') \<and> due (tick s') s' (ThreadTimer c) = unat time)"
    using s' e irq c tm kcomp_more_eq[OF s'(5)]
    by (intro exI[of _ s']) (simp add: rt_completion_wait_def rt_thread_self_def rt_debug_not_in_interrupt_def time_ok_def)
next
  fix w assume w: "tl s (comp_list n) = [w] \<and> completions s n = RT_UNCOMPLETED"
  let ?s1 = "set_completion n RT_COMPLETED s"
  have l: "tl ?s1 (comp_list n) = w # []" and k1: "kinv {} b ?s1" and c1: "cur ?s1 = Some c" using w inv c by simp_all
  obtain s' where s': "rt_schedule (resume_state w ?s1) = Some s'" "kinv {} b s'"
    "thr s' = (thr ?s1)(w := set_stat RT_THREAD_READY (thr ?s1 w))"
    "\<And>u. tstat s' u = (if u = w then RT_THREAD_READY else tstat ?s1 u)"
    "\<And>k. (\<nexists>p. k = Ready p) \<Longrightarrow> tl s' k = (if k = comp_list n then [] else tl ?s1 k)"
    "timer_list s' = removeAll (ThreadTimer w) (timer_list ?s1)"
    "lock_nest ?s1 = 0 \<Longrightarrow> (\<And>u. tstat ?s1 u = RT_THREAD_READY \<Longrightarrow> prio_of ?s1 w < prio_of ?s1 u) \<Longrightarrow> cur s' = Some w"
    by (rule wake_schedule_ok[OF k1 _ l c1]) auto
  have "rt_completion_done n s = Some s'"
    using w s'(1) rt_ipc_list_resume_ok(1)[OF k1 _ l] by (simp add: rt_completion_done_def)
  then show "\<exists>s'. rt_completion_done n s = Some s' \<and> kinv {} b s' \<and> tl s' (comp_list n) = [] \<and>
      tstat s' w = RT_THREAD_READY \<and> ThreadTimer w \<notin> set (timer_list s') \<and>
      ((\<forall>u. tstat s u = RT_THREAD_READY \<longrightarrow> prio_of s w < prio_of s u) \<longrightarrow> cur s' = Some w) \<and>
      (error (thr s w) = RT_EOK \<longrightarrow> rt_completion_wait_end n w s' = (set_completion n RT_UNCOMPLETED s', RT_EOK))"
    using s' irq by (intro exI[of _ s']) (auto simp: rt_completion_wait_end_def)
qed

definition demo_comp :: kcomp where
  "demo_comp = demo_dev (comp_list 0) (kcomp.fields (\<lambda>_. RT_UNCOMPLETED))"

theorem completion_handshake_witness:
  "\<exists>s'. rt_completion_done 0 demo_comp = Some s' \<and> kinv {} 100 s' \<and> cur s' = Some 3 \<and>
     rt_completion_wait_end 0 3 s' = (set_completion 0 RT_UNCOMPLETED s', RT_EOK)"
proof -
  have inv: "kinv {} 100 demo_comp" unfolding demo_comp_def by (rule demo_dev_inv) simp
  have "completions demo_comp 0 = RT_UNCOMPLETED"
    by (simp add: demo_comp_def demo_dev_def relink_def kernel.defs kcomp.defs)
  then show ?thesis
    using completion_handshake[OF inv, of 1 2 0 0, THEN conjunct2, rule_format, of 3] by (auto simp: demo_comp_def split: if_splits)
qed

text \<open>
  A completion is lost when the waiting time has run out but the thread has not run yet: the flag is
  set and the list is empty, and the end of \<^verbatim>\<open>rt_completion_wait\<close> returns \<^verbatim>\<open>-RT_ETIMEOUT\<close> and clears the flag.
\<close>

theorem completion_lost_after_timeout:
  assumes "tl s (comp_list n) = []" "completions s n = RT_UNCOMPLETED" "error (thr s t) = - RT_ETIMEOUT"
  shows "\<exists>s1 s2. rt_completion_done n s = Some s1 \<and> completions s1 n = RT_COMPLETED \<and>
    rt_completion_wait_end n t s1 = (s2, - RT_ETIMEOUT) \<and> completions s2 n = RT_UNCOMPLETED"
  using assms by (auto simp: rt_completion_done_def rt_completion_wait_end_def)

end
