(* ===== verification/DataQueue.thy ===== *)
theory DataQueue
  imports Ipc Fifo
begin

unbundle bit_operations_syntax

text \<open>
  The data queues of \<^verbatim>\<open>components/drivers/src/dataqueue.c\<close>: a ring of data items with two lists of waiting
  threads. The function to notify acts outside of the kernel; it is the argument \<open>ntf\<close>, and a queue has
  one if \<open>evt_notify\<close> holds. \<^verbatim>\<open>rt_data_queue_pop\<close> does not enable the interrupts on all of its paths: the
  result says whether it did.
\<close>

section \<open>Definitions\<close>

type_synonym data_item = "u32 \<times> u32"

record rt_data_queue =
  dq_size :: u16
  dq_lwm :: u16
  waiting_lwm :: bool
  get_index :: u16
  put_index :: u16
  dq_queue :: "data_item list option"
  evt_notify :: bool

record kdq = kernel +
  dqueues :: "nat \<Rightarrow> rt_data_queue"

abbreviation push_list :: "nat \<Rightarrow> lhead" where "push_list n \<equiv> SuspendedDev (PushId n)"
abbreviation pop_list :: "nat \<Rightarrow> lhead" where "pop_list n \<equiv> SuspendedDev (PopId n)"

abbreviation RT_DATAQUEUE_EVENT_POP :: u32 where "RT_DATAQUEUE_EVENT_POP \<equiv> 1"
abbreviation RT_DATAQUEUE_EVENT_PUSH :: u32 where "RT_DATAQUEUE_EVENT_PUSH \<equiv> 2"
abbreviation RT_DATAQUEUE_EVENT_LWM :: u32 where "RT_DATAQUEUE_EVENT_LWM \<equiv> 3"

type_synonym 'a ntf = "nat \<Rightarrow> u32 \<Rightarrow> 'a \<Rightarrow> 'a"

definition set_dq :: "nat \<Rightarrow> rt_data_queue \<Rightarrow> 'a kdq_scheme \<Rightarrow> 'a kdq_scheme" where
  "set_dq n q s = s\<lparr>dqueues := (dqueues s)(n := q)\<rparr>"

definition notify :: "'a ntf \<Rightarrow> nat \<Rightarrow> u32 \<Rightarrow> 'a kdq_scheme \<Rightarrow> 'a kdq_scheme" where
  "notify ntf n event s = (if evt_notify (dqueues s n) then kdq.more_update (ntf n event) s else s)"

text \<open>\<open>mem\<close> is the array that the heap has for the queue.\<close>

definition rt_data_queue_init ::
  "nat \<Rightarrow> u16 \<Rightarrow> u16 \<Rightarrow> bool \<Rightarrow> data_item list option \<Rightarrow> 'a kdq_scheme \<Rightarrow> 'a kdq_scheme \<times> rt_err" where
  "rt_data_queue_init n sz lwm ntfy mem s =
     (let s1 = rt_ipc_object_init (push_list n) s;
          s2 = rt_ipc_object_init (pop_list n) s1;
          s3 = set_dq n \<lparr>dq_size = sz, dq_lwm = lwm, waiting_lwm = False, get_index = 0, put_index = 0,
                         dq_queue = mem, evt_notify = ntfy\<rparr> s2
      in (s3, if mem = None then - RT_ENOMEM else RT_EOK))"

text \<open>The indices have 16 bits, but their difference is an \<^verbatim>\<open>int\<close>.\<close>

definition dq_full :: "rt_data_queue \<Rightarrow> bool" where
  "dq_full q \<longleftrightarrow> uint (put_index q) - uint (get_index q) = uint (dq_size q)"

definition dq_store :: "data_item \<Rightarrow> rt_data_queue \<Rightarrow> rt_data_queue option" where
  "dq_store x q = do {
     arr \<leftarrow> dq_queue q;
     let i = unat (put_index q AND (dq_size q - 1));
     rt_assert (i < length arr);
     Some (q\<lparr>dq_queue := Some (arr[i := x]), put_index := put_index q + 1\<rparr>)
   }"

definition dq_front :: "rt_data_queue \<Rightarrow> data_item option" where
  "dq_front q = do {
     arr \<leftarrow> dq_queue q;
     let i = unat (get_index q AND (dq_size q - 1));
     rt_assert (i < length arr);
     Some (arr ! i)
   }"

definition dq_fetch :: "rt_data_queue \<Rightarrow> (data_item \<times> rt_data_queue) option" where
  "dq_fetch q = do { x \<leftarrow> dq_front q; Some (x, q\<lparr>get_index := get_index q + 1\<rparr>) }"

definition dq_push_now :: "'a ntf \<Rightarrow> nat \<Rightarrow> data_item \<Rightarrow> 'a kdq_scheme \<Rightarrow> ('a kdq_scheme \<times> rt_err) option" where
  "dq_push_now ntf n x s = do {
     q \<leftarrow> dq_store x (dqueues s n);
     let s1 = set_dq n q s;
     if tl s1 (pop_list n) \<noteq> [] then do {
       (s2, _) \<leftarrow> rt_ipc_list_resume (pop_list n) s1;
       s3 \<leftarrow> rt_schedule s2;
       Some (s3, RT_EOK)
     }
     else Some (notify ntf n RT_DATAQUEUE_EVENT_PUSH s1, RT_EOK)
   }"

partial_function (option) dq_push_loop ::
  "'a ntf \<Rightarrow> nat \<Rightarrow> data_item \<Rightarrow> u32 \<Rightarrow> tid option \<Rightarrow> 'a kdq_scheme \<Rightarrow> ('a kdq_scheme \<times> rt_err call) option" where
  "dq_push_loop ntf n x timeout self s =
     (if dq_full (dqueues s n) then do {
        let s0 = set_dq n ((dqueues s n)\<lparr>waiting_lwm := True\<rparr>) s;
        if timeout = 0 then Some (s0, Returns (- RT_ETIMEOUT))
        else do {
          rt_debug_not_in_interrupt s0;
          thread \<leftarrow> self;
          let s1 = upd_thr thread (\<lambda>th. th\<lparr>error := RT_EOK\<rparr>) s0;
          s2 \<leftarrow> ipc_block (push_list n) thread RT_IPC_FLAG_FIFO timeout s1;
          if cur s2 \<noteq> Some thread then Some (s2, Blocks)
          else if error (thr s2 thread) \<noteq> RT_EOK then Some (s2, Returns (error (thr s2 thread)))
          else dq_push_loop ntf n x timeout self s2
        }
      }
      else do { (s', r) \<leftarrow> dq_push_now ntf n x s; Some (s', Returns r) })"

definition rt_data_queue_push ::
  "'a ntf \<Rightarrow> nat \<Rightarrow> data_item \<Rightarrow> u32 \<Rightarrow> 'a kdq_scheme \<Rightarrow> ('a kdq_scheme \<times> rt_err call) option" where
  "rt_data_queue_push ntf n x timeout s = dq_push_loop ntf n x timeout (rt_thread_self s) s"

definition rt_data_queue_push_end ::
  "'a ntf \<Rightarrow> nat \<Rightarrow> data_item \<Rightarrow> u32 \<Rightarrow> tid \<Rightarrow> 'a kdq_scheme \<Rightarrow> ('a kdq_scheme \<times> rt_err call) option" where
  "rt_data_queue_push_end ntf n x timeout thread s =
     (if error (thr s thread) \<noteq> RT_EOK then Some (s, Returns (error (thr s thread)))
      else dq_push_loop ntf n x timeout (Some thread) s)"

text \<open>The result of \<^verbatim>\<open>rt_data_queue_pop\<close>: the error, the item, and whether the interrupts are enabled again.\<close>

type_synonym pop_result = "rt_err \<times> data_item option \<times> bool"

definition dq_low :: "rt_data_queue \<Rightarrow> bool" where
  "dq_low q \<longleftrightarrow> waiting_lwm q \<and> uint (put_index q) - uint (get_index q) \<le> uint (dq_lwm q)"

definition dq_pop_now :: "'a ntf \<Rightarrow> nat \<Rightarrow> 'a kdq_scheme \<Rightarrow> ('a kdq_scheme \<times> pop_result) option" where
  "dq_pop_now ntf n s = do {
     (x, q) \<leftarrow> dq_fetch (dqueues s n);
     if dq_low q then do {
       let s1 = set_dq n (q\<lparr>waiting_lwm := False\<rparr>) s;
       s3 \<leftarrow> (if tl s1 (push_list n) \<noteq> [] then do { (s2, _) \<leftarrow> rt_ipc_list_resume (push_list n) s1; rt_schedule s2 }
              else Some s1);
       Some (notify ntf n RT_DATAQUEUE_EVENT_LWM s3, RT_EOK, Some x, tl s1 (push_list n) \<noteq> [])
     }
     else Some (notify ntf n RT_DATAQUEUE_EVENT_POP (set_dq n q s), RT_EOK, Some x, True)
   }"

partial_function (option) dq_pop_loop ::
  "'a ntf \<Rightarrow> nat \<Rightarrow> u32 \<Rightarrow> tid option \<Rightarrow> 'a kdq_scheme \<Rightarrow> ('a kdq_scheme \<times> pop_result call) option" where
  "dq_pop_loop ntf n timeout self s =
     (if get_index (dqueues s n) = put_index (dqueues s n) then
        if timeout = 0 then Some (s, Returns (- RT_ETIMEOUT, None, True))
        else do {
          rt_debug_not_in_interrupt s;
          thread \<leftarrow> self;
          let s1 = upd_thr thread (\<lambda>th. th\<lparr>error := RT_EOK\<rparr>) s;
          s2 \<leftarrow> ipc_block (pop_list n) thread RT_IPC_FLAG_FIFO timeout s1;
          if cur s2 \<noteq> Some thread then Some (s2, Blocks)
          else if error (thr s2 thread) \<noteq> RT_EOK then Some (s2, Returns (error (thr s2 thread), None, True))
          else dq_pop_loop ntf n timeout self s2
        }
      else do { (s', r) \<leftarrow> dq_pop_now ntf n s; Some (s', Returns r) })"

definition rt_data_queue_pop ::
  "'a ntf \<Rightarrow> nat \<Rightarrow> u32 \<Rightarrow> 'a kdq_scheme \<Rightarrow> ('a kdq_scheme \<times> pop_result call) option" where
  "rt_data_queue_pop ntf n timeout s = dq_pop_loop ntf n timeout (rt_thread_self s) s"

definition rt_data_queue_pop_end ::
  "'a ntf \<Rightarrow> nat \<Rightarrow> u32 \<Rightarrow> tid \<Rightarrow> 'a kdq_scheme \<Rightarrow> ('a kdq_scheme \<times> pop_result call) option" where
  "rt_data_queue_pop_end ntf n timeout thread s =
     (if error (thr s thread) \<noteq> RT_EOK then Some (s, Returns (error (thr s thread), None, True))
      else dq_pop_loop ntf n timeout (Some thread) s)"

definition rt_data_queue_peak :: "nat \<Rightarrow> 'a kdq_scheme \<Rightarrow> (rt_err \<times> data_item option) option" where
  "rt_data_queue_peak n s =
     (if get_index (dqueues s n) = put_index (dqueues s n) then Some (- RT_EEMPTY, None)
      else do { x \<leftarrow> dq_front (dqueues s n); Some (RT_EOK, Some x) })"

definition rt_data_queue_reset :: "nat \<Rightarrow> 'a kdq_scheme \<Rightarrow> 'a kdq_scheme option" where
  "rt_data_queue_reset n s = do {
     let s1 = rt_enter_critical s;
     (s2, _) \<leftarrow> rt_ipc_list_resume_all (pop_list n) s1;
     (s3, _) \<leftarrow> rt_ipc_list_resume_all (push_list n) s2;
     s4 \<leftarrow> rt_exit_critical s3;
     rt_schedule s4
   }"

section \<open>The ring\<close>

definition dq_count :: "rt_data_queue \<Rightarrow> nat" where
  "dq_count q = unat (put_index q - get_index q)"

definition dq_items :: "rt_data_queue \<Rightarrow> data_item list" where
  "dq_items q = ring_items (the (dq_queue q)) (unat (get_index q)) (dq_count q)"

text \<open>The size is a power of two, so that the 16 bit indices run around the ring.\<close>

definition dq_inv :: "rt_data_queue \<Rightarrow> bool" where
  "dq_inv q \<longleftrightarrow> (\<exists>k \<le> 15. dq_size q = 2 ^ k) \<and> (\<exists>arr. dq_queue q = Some arr \<and> length arr = unat (dq_size q)) \<and>
     dq_count q \<le> unat (dq_size q)"

lemma dq_invE:
  assumes "dq_inv q"
  obtains k arr where "k \<le> 15" "dq_size q = 2 ^ k" "unat (dq_size q) = 2 ^ k" "dq_queue q = Some arr" "length arr = 2 ^ k"
    "dq_count q \<le> 2 ^ k" "(2 :: nat) ^ k \<le> 2 ^ 15"
proof -
  obtain k where k: "k \<le> 15" "dq_size q = 2 ^ k" using assms by (auto simp: dq_inv_def)
  have "(2 :: nat) ^ k \<le> 2 ^ 15" using k(1) by (intro power_increasing) auto
  moreover from this have "unat (of_nat (2 ^ k) :: u16) = 2 ^ k" unfolding unat_of_nat by simp
  ultimately show thesis using that k assms by (auto simp: dq_inv_def)
qed

lemma dq_index:
  assumes "k \<le> 15"
  shows "unat (i AND (2 ^ k - 1) :: u16) = unat i mod 2 ^ k"
proof -
  have "i AND (2 ^ k - 1) = take_bit k i" by (simp add: take_bit_eq_mask mask_eq_exp_minus_1)
  then have "unat (i AND (2 ^ k - 1)) = take_bit k (unat i)" by (simp only: unsigned_take_bit_eq)
  then show ?thesis by (simp only: take_bit_eq_mod)
qed

lemma dq_put_mod:
  assumes "k \<le> 15"
  shows "unat (put_index q) mod 2 ^ k = (unat (get_index q) + dq_count q) mod 2 ^ k"
proof -
  have "put_index q = get_index q + (put_index q - get_index q)" by simp
  then have "unat (put_index q) = (unat (get_index q) + dq_count q) mod 2 ^ 16"
    unfolding dq_count_def using unat_word_ariths(1)[of "get_index q" "put_index q - get_index q"] by simp
  moreover have "(2 :: nat) ^ k dvd 2 ^ 16" using assms by (intro le_imp_power_dvd) simp
  ultimately show ?thesis by (simp add: mod_mod_cancel)
qed

lemma ring_items_mod:
  assumes "a mod length pool = b mod length pool"
  shows "ring_items pool a n = ring_items pool b n"
proof -
  have "(a + i) mod length pool = (b + i) mod length pool" for i using assms by (metis mod_add_left_eq)
  then show ?thesis by (simp add: ring_items_def)
qed

lemma dq_store_ok:
  assumes inv: "dq_inv q" and room: "dq_count q < unat (dq_size q)"
  shows "\<exists>q'. dq_store x q = Some q' \<and> dq_inv q' \<and> dq_items q' = dq_items q @ [x] \<and> dq_size q' = dq_size q \<and>
    put_index q' = put_index q + 1 \<and> get_index q' = get_index q \<and> waiting_lwm q' = waiting_lwm q \<and> dq_lwm q' = dq_lwm q \<and>
    evt_notify q' = evt_notify q"
proof -
  obtain k arr where k: "k \<le> 15" "dq_size q = 2 ^ k" "unat (dq_size q) = 2 ^ k" "dq_queue q = Some arr" "length arr = 2 ^ k"
    "dq_count q \<le> 2 ^ k" "(2 :: nat) ^ k \<le> 2 ^ 15"
    by (rule dq_invE[OF inv])
  let ?i = "unat (put_index q) mod 2 ^ k"
  let ?q' = "q\<lparr>dq_queue := Some (arr[?i := x]), put_index := put_index q + 1\<rparr>"
  have s: "dq_store x q = Some ?q'" using k(1,2,4,5) dq_index[OF k(1), of "put_index q"] by (simp add: dq_store_def)
  have e: "put_index q + 1 - get_index q = put_index q - get_index q + 1" by simp
  have "unat (put_index q - get_index q + 1) = Suc (unat (put_index q - get_index q))"
    using room k(3,7) unat_word_ariths(1)[of "put_index q - get_index q" 1] by (simp add: dq_count_def)
  then have c: "dq_count ?q' = Suc (dq_count q)" by (simp add: dq_count_def e del: add_diff_eq)
  have "dq_items ?q' = dq_items q @ [x]"
    using ring_items_put[of "dq_count q" arr "unat (get_index q)" x] c k dq_put_mod[OF k(1), of q] room
    by (simp add: dq_items_def)
  moreover have "dq_inv ?q'" using k(1-5) c room by (auto simp: dq_inv_def)
  ultimately show ?thesis using s by simp
qed

lemma dq_fetch_ok:
  assumes inv: "dq_inv q" and some: "get_index q \<noteq> put_index q"
  shows "\<exists>x q'. dq_front q = Some x \<and> dq_fetch q = Some (x, q') \<and> q' = q\<lparr>get_index := get_index q + 1\<rparr> \<and> dq_inv q' \<and>
    dq_items q = x # dq_items q'"
proof -
  obtain k arr where k: "k \<le> 15" "dq_size q = 2 ^ k" "unat (dq_size q) = 2 ^ k" "dq_queue q = Some arr" "length arr = 2 ^ k"
    "dq_count q \<le> 2 ^ k" "(2 :: nat) ^ k \<le> 2 ^ 15"
    by (rule dq_invE[OF inv])
  let ?i = "unat (get_index q) mod 2 ^ k" and ?q' = "q\<lparr>get_index := get_index q + 1\<rparr>"
  have f: "dq_front q = Some (arr ! ?i)" using k(1,2,4,5) dq_index[OF k(1), of "get_index q"] by (simp add: dq_front_def)
  have "put_index q - get_index q \<noteq> 0" using some by simp
  then have c: "dq_count q = Suc (dq_count ?q')" by (simp add: dq_count_def diff_diff_eq[symmetric] unat_minus_one unat_gt_0)
  have "unat (get_index q + 1) mod 2 ^ k = Suc (unat (get_index q)) mod 2 ^ k"
  proof -
    have "(2 :: nat) ^ k dvd 2 ^ 16" using k(1) by (intro le_imp_power_dvd) simp
    then show ?thesis using unat_word_ariths(1)[of "get_index q" 1] by (simp add: mod_mod_cancel)
  qed
  then have "dq_items q = arr ! ?i # dq_items ?q'"
    using ring_items_get[of arr "unat (get_index q)" "dq_count ?q'"] c k
      ring_items_mod[of "Suc (unat (get_index q)) mod 2 ^ k" arr "unat (get_index q + 1)"]
    by (simp add: dq_items_def)
  moreover have "dq_inv ?q'" using k(1-6) c by (auto simp: dq_inv_def)
  ultimately show ?thesis using f by (simp add: dq_fetch_def)
qed

lemma dq_full_iff:
  assumes "get_index q \<le> put_index q"
  shows "dq_full q \<longleftrightarrow> dq_count q = unat (dq_size q)"
proof -
  have "unat (get_index q) \<le> unat (put_index q)" using assms by (simp add: word_le_nat_alt)
  moreover have "dq_full q \<longleftrightarrow> int (unat (put_index q)) - int (unat (get_index q)) = int (unat (dq_size q))" by (simp add: dq_full_def)
  ultimately show ?thesis unfolding dq_count_def by (simp only: unat_sub[OF assms]) linarith
qed

lemma dq_full_count: "dq_full q \<Longrightarrow> dq_count q = unat (dq_size q)"
proof (rule dq_full_iff[THEN iffD1])
  assume "dq_full q"
  moreover have "0 \<le> uint (dq_size q)" by simp
  ultimately show "get_index q \<le> put_index q" unfolding dq_full_def word_le_def by linarith
qed

lemma dq_items_empty: "dq_items q = [] \<longleftrightarrow> get_index q = put_index q"
  by (auto simp: dq_items_def dq_count_def ring_items_def unat_eq_0)

section \<open>Pushing and popping\<close>

lemma kdq_more_eq: "ktimer.more s' = ktimer.more s \<Longrightarrow> dqueues s' = dqueues s" for s :: "'a kdq_scheme"
  by (cases s; cases s') simp

lemma set_dq_sel [simp]:
  "dqueues (set_dq n q s) = (dqueues s)(n := q)" "thr (set_dq n q s) = thr s" "tl (set_dq n q s) = tl s"
  "cur (set_dq n q s) = cur s" "lock_nest (set_dq n q s) = lock_nest s" "irq_nest (set_dq n q s) = irq_nest s"
  "tstat (set_dq n q s) t = tstat s t" "prio_of (set_dq n q s) t = prio_of s t" "kinv X b (set_dq n q s) = kinv X b s"
proof -
  show "kinv X b (set_dq n q s) = kinv X b s" by (rule kinv_cong) (simp_all add: set_dq_def)
qed (simp_all add: set_dq_def tstat_def prio_of_def)

lemma notify_sel [simp]:
  "dqueues (notify f n e s) = dqueues s" "thr (notify f n e s) = thr s" "tl (notify f n e s) = tl s"
  "cur (notify f n e s) = cur s" "lock_nest (notify f n e s) = lock_nest s" "irq_nest (notify f n e s) = irq_nest s"
  "tstat (notify f n e s) t = tstat s t" "prio_of (notify f n e s) t = prio_of s t" "kinv X b (notify f n e s) = kinv X b s"
proof -
  show "kinv X b (notify f n e s) = kinv X b s" by (rule kinv_cong) (simp_all add: notify_def)
qed (simp_all add: notify_def tstat_def prio_of_def)

lemma dq_push_now_ok:
  fixes s :: "'a kdq_scheme"
  assumes inv: "kinv {} b s" and ok: "dq_inv (dqueues s n)" and room: "dq_count (dqueues s n) < unat (dq_size (dqueues s n))"
    and c: "cur s = Some c"
  obtains s' where "dq_push_now ntf n x s = Some (s', RT_EOK)" "kinv {} b s'" "dq_inv (dqueues s' n)"
    "dq_items (dqueues s' n) = dq_items (dqueues s n) @ [x]" "tl s' (pop_list n) = List.tl (tl s (pop_list n))"
    "\<And>u. error (thr s' u) = error (thr s u)" "cur s' \<noteq> None"
    "\<And>w ws. tl s (pop_list n) = w # ws \<Longrightarrow> tstat s' w = RT_THREAD_READY"
proof -
  obtain q where q: "dq_store x (dqueues s n) = Some q" "dq_inv q" "dq_items q = dq_items (dqueues s n) @ [x]"
    using dq_store_ok[OF ok room, of x] by auto
  let ?s1 = "set_dq n q s" and ?l = "pop_list n"
  have k1: "kinv {} b ?s1" "cur ?s1 = Some c" using inv c by simp_all
  obtain s' where s': "(if tl ?s1 ?l \<noteq> [] then do { (s2, _) \<leftarrow> rt_ipc_list_resume ?l ?s1; rt_schedule s2 } else Some ?s1) = Some s'"
    "kinv {} b s'" "\<And>k. (\<nexists>p. k = Ready p) \<Longrightarrow> tl s' k = (if k = ?l then List.tl (tl ?s1 ?l) else tl ?s1 k)"
    "\<And>u. error (thr s' u) = error (thr ?s1 u)" "ktimer.more s' = ktimer.more ?s1" "cur s' \<noteq> None"
    "\<And>w ws. tl ?s1 ?l = w # ws \<Longrightarrow> tstat s' w = RT_THREAD_READY"
    by (rule wake_first_ok[OF k1(1) _ k1(2), of ?l]) auto
  let ?s2 = "if tl s ?l \<noteq> [] then s' else notify ntf n RT_DATAQUEUE_EVENT_PUSH s'"
  have "dq_push_now ntf n x s = Some (?s2, RT_EOK)"
    using q(1) s'(1) by (auto simp: dq_push_now_def Let_def split_def Option.bind_eq_Some_conv split: if_splits)
  then show thesis by (rule that) (use s' q(2,3) kdq_more_eq[OF s'(5)] in auto)
qed

lemma dq_pop_now_ok:
  fixes s :: "'a kdq_scheme"
  assumes inv: "kinv {} b s" and ok: "dq_inv (dqueues s n)" and some: "get_index (dqueues s n) \<noteq> put_index (dqueues s n)"
    and c: "cur s = Some c" and low: "low = dq_low ((dqueues s n)\<lparr>get_index := get_index (dqueues s n) + 1\<rparr>)"
  obtains s' y ys where "dq_items (dqueues s n) = y # ys"
    "dq_pop_now ntf n s = Some (s', RT_EOK, Some y, \<not> low \<or> tl s (push_list n) \<noteq> [])"
    "kinv {} b s'" "dq_inv (dqueues s' n)" "dq_items (dqueues s' n) = ys" "cur s' \<noteq> None"
    "dq_size (dqueues s' n) = dq_size (dqueues s n)" "waiting_lwm (dqueues s' n) = (waiting_lwm (dqueues s n) \<and> \<not> low)"
    "\<And>u. error (thr s' u) = error (thr s u)"
    "tl s' (push_list n) = (if low then List.tl (tl s (push_list n)) else tl s (push_list n))"
    "\<And>w ws. low \<Longrightarrow> tl s (push_list n) = w # ws \<Longrightarrow> tstat s' w = RT_THREAD_READY"
proof -
  obtain y q where q: "dq_fetch (dqueues s n) = Some (y, q)" "q = (dqueues s n)\<lparr>get_index := get_index (dqueues s n) + 1\<rparr>"
    "dq_inv q" "dq_items (dqueues s n) = y # dq_items q"
    using dq_fetch_ok[OF ok some] by auto
  have i': "dq_inv (q\<lparr>waiting_lwm := False\<rparr>)" "dq_items (q\<lparr>waiting_lwm := False\<rparr>) = dq_items q"
    using q(3) by (simp_all add: dq_inv_def dq_items_def dq_count_def)
  let ?s1 = "set_dq n (q\<lparr>waiting_lwm := False\<rparr>) s" and ?l = "push_list n"
  have k1: "kinv {} b ?s1" "cur ?s1 = Some c" using inv c by simp_all
  obtain s' where s': "(if tl ?s1 ?l \<noteq> [] then do { (s2, _) \<leftarrow> rt_ipc_list_resume ?l ?s1; rt_schedule s2 } else Some ?s1) = Some s'"
    "kinv {} b s'" "\<And>k. (\<nexists>p. k = Ready p) \<Longrightarrow> tl s' k = (if k = ?l then List.tl (tl ?s1 ?l) else tl ?s1 k)"
    "\<And>u. error (thr s' u) = error (thr ?s1 u)" "ktimer.more s' = ktimer.more ?s1" "cur s' \<noteq> None"
    "\<And>w ws. tl ?s1 ?l = w # ws \<Longrightarrow> tstat s' w = RT_THREAD_READY"
    by (rule wake_first_ok[OF k1(1) _ k1(2), of ?l]) auto
  let ?s2 = "if low then notify ntf n RT_DATAQUEUE_EVENT_LWM s' else notify ntf n RT_DATAQUEUE_EVENT_POP (set_dq n q s)"
  have "dq_pop_now ntf n s = Some (?s2, RT_EOK, Some y, \<not> low \<or> tl s ?l \<noteq> [])"
    using q(1) s'(1) low[folded q(2)] by (simp add: dq_pop_now_def Let_def)
  then show thesis
  proof (rule that[OF q(4)])
    show "dq_inv (dqueues ?s2 n)" "dq_items (dqueues ?s2 n) = dq_items q" "dq_size (dqueues ?s2 n) = dq_size (dqueues s n)"
      "waiting_lwm (dqueues ?s2 n) = (waiting_lwm (dqueues s n) \<and> \<not> low)"
      using kdq_more_eq[OF s'(5)] i' q(2,3) by auto
  qed (use s' inv c in auto)
qed

definition mark_full :: "nat \<Rightarrow> 'a kdq_scheme \<Rightarrow> 'a kdq_scheme" where
  "mark_full n s = set_dq n ((dqueues s n)\<lparr>waiting_lwm := True\<rparr>) s"

lemma mark_full_again:
  assumes "waiting_lwm (dqueues s n)"
  shows "mark_full n s = s"
proof -
  have "(dqueues s n)\<lparr>waiting_lwm := True\<rparr> = dqueues s n" using assms by (cases "dqueues s n") simp
  then show ?thesis by (simp add: mark_full_def set_dq_def)
qed

interpretation dqo: wait_loop "\<lambda>time. dq_pop_loop ntf n time (Some t)" "pop_list n" "\<lambda>_. RT_IPC_FLAG_FIFO" t
    "\<lambda>e. (e, None, True)" "\<lambda>s. get_index (dqueues s n) = put_index (dqueues s n)" "\<lambda>time _ _. time" for ntf n t
proof (unfold_locales, goal_cases)
  case (3 s time)
  then show ?case by (subst dq_pop_loop.simps) (simp add: in_thread Let_def cong: if_cong)
next
  case (2 s' s)
  then show ?case using kdq_more_eq[of s' s] by simp
qed simp_all

interpretation dqi: wait_loop "\<lambda>time. dq_push_loop ntf n x time (Some t)" "push_list n" "\<lambda>_. RT_IPC_FLAG_FIFO" t
    "\<lambda>e. e" "\<lambda>s. dq_full (dqueues s n) \<and> waiting_lwm (dqueues s n)" "\<lambda>time _ _. time" for ntf n x t
proof (unfold_locales, goal_cases)
  case (3 s time)
  then show ?case
    by (subst dq_push_loop.simps) (simp add: mark_full_again[unfolded mark_full_def] in_thread Let_def cong: if_cong)
next
  case (2 s' s)
  then show ?case using kdq_more_eq[of s' s] by simp
qed simp_all

lemma dq_push_loop_mark:
  assumes "dq_full (dqueues s n)"
  shows "dq_push_loop ntf n x time self s = dq_push_loop ntf n x time self (mark_full n s)"
proof -
  have f: "dq_full (dqueues (mark_full n s) n)" using assms by (simp add: mark_full_def dq_full_def)
  have "set_dq n ((dqueues (mark_full n s) n)\<lparr>waiting_lwm := True\<rparr>) (mark_full n s) = mark_full n s"
    by (simp add: mark_full_def set_dq_def)
  then show ?thesis using assms f by (simp add: dq_push_loop.simps[of _ _ _ _ _ s] dq_push_loop.simps[of _ _ _ _ _ "mark_full n s"]
        mark_full_def[symmetric])
qed


text \<open>
  C37. Popping from a data queue. The oldest item is removed and returned. If the low water mark was asked
  for and is reached, the first thread that waits to push becomes ready, and its call appends its item;
  no other one is woken, and the mark is asked for no more. The interrupts are enabled again, except if
  the mark is reached and nobody waits to push. Of an empty queue the call returns \<^verbatim>\<open>-RT_ETIMEOUT\<close> or waits.
\<close>

theorem rt_data_queue_pop_oldest:
  fixes s :: "'a kdq_scheme"
  assumes inv: "kinv {} b s" and ok: "dq_inv (dqueues s n)" and c: "cur s = Some c" "tstat s c = RT_THREAD_READY"
    and irq: "irq_nest s = 0" "lock_nest s = 0" and u: "u \<noteq> c" "tstat s u = RT_THREAD_READY"
    and low: "low = dq_low ((dqueues s n)\<lparr>get_index := get_index (dqueues s n) + 1\<rparr>)"
  shows "(\<forall>y ys. dq_items (dqueues s n) = y # ys \<longrightarrow>
            (\<exists>s'. rt_data_queue_pop ntf n time s = Some (s', Returns (RT_EOK, Some y, \<not> (low \<and> tl s (push_list n) = []))) \<and>
               kinv {} b s' \<and> dq_inv (dqueues s' n) \<and> dq_items (dqueues s' n) = ys \<and>
               waiting_lwm (dqueues s' n) = (waiting_lwm (dqueues s n) \<and> \<not> low) \<and>
               (\<not> low \<longrightarrow> tl s' (push_list n) = tl s (push_list n)) \<and>
               (\<forall>w ws. low \<and> tl s (push_list n) = w # ws \<longrightarrow> tl s' (push_list n) = ws \<and> tstat s' w = RT_THREAD_READY \<and>
                  (error (thr s w) = RT_EOK \<longrightarrow>
                     (\<exists>s''. rt_data_queue_push_end ntf n x time w s' = Some (s'', Returns RT_EOK) \<and> kinv {} b s'' \<and>
                        dq_items (dqueues s'' n) = ys @ [x]))))) \<and>
         (dq_items (dqueues s n) = [] \<longrightarrow>
            rt_data_queue_pop ntf n 0 s = Some (s, Returns (- RT_ETIMEOUT, None, True)) \<and>
            (time_ok time \<longrightarrow> (\<exists>s'. rt_data_queue_pop ntf n time s = Some (s', Blocks) \<and> kinv {} b s' \<and>
               waits_in (pop_list n) c RT_IPC_FLAG_FIFO time s s')))"
proof (intro conjI impI allI)
  fix y ys assume it: "dq_items (dqueues s n) = y # ys"
  then have ne: "get_index (dqueues s n) \<noteq> put_index (dqueues s n)" using dq_items_empty[of "dqueues s n"] by auto
  obtain s' where s': "dq_pop_now ntf n s = Some (s', RT_EOK, Some y, \<not> low \<or> tl s (push_list n) \<noteq> [])"
    "kinv {} b s'" "dq_inv (dqueues s' n)" "dq_items (dqueues s' n) = ys" "cur s' \<noteq> None"
    "dq_size (dqueues s' n) = dq_size (dqueues s n)" "waiting_lwm (dqueues s' n) = (waiting_lwm (dqueues s n) \<and> \<not> low)"
    "\<And>u. error (thr s' u) = error (thr s u)"
    "tl s' (push_list n) = (if low then List.tl (tl s (push_list n)) else tl s (push_list n))"
    "\<And>w ws. low \<Longrightarrow> tl s (push_list n) = w # ws \<Longrightarrow> tstat s' w = RT_THREAD_READY"
    by (rule dq_pop_now_ok[OF inv ok ne c(1) low, of ntf]) (use it in auto)
  obtain c' where c': "cur s' = Some c'" using s'(5) by auto
  have room: "dq_count (dqueues s' n) < unat (dq_size (dqueues s' n))"
  proof -
    have "length (dq_items (dqueues s n)) \<le> unat (dq_size (dqueues s n))" using ok by (simp add: dq_inv_def dq_items_def)
    then have "length (dq_items (dqueues s' n)) < unat (dq_size (dqueues s n))" using it s'(4) by simp
    then show ?thesis using s'(6) by (simp add: dq_items_def)
  qed
  obtain s'' where s'': "dq_push_now ntf n x s' = Some (s'', RT_EOK)" "kinv {} b s''"
    "dq_items (dqueues s'' n) = dq_items (dqueues s' n) @ [x]"
    by (rule dq_push_now_ok[OF s'(2,3) room c', of ntf x]) auto
  have "\<exists>s''. rt_data_queue_push_end ntf n x time w s' = Some (s'', Returns RT_EOK) \<and> kinv {} b s'' \<and>
      dq_items (dqueues s'' n) = ys @ [x]" if "error (thr s w) = RT_EOK" for w
    using that s'(4,8) s'' room dq_full_count[of "dqueues s' n"] dq_push_loop.simps[of ntf n x time "Some w" s']
    by (auto simp: rt_data_queue_push_end_def)
  moreover have "rt_data_queue_pop ntf n time s = Some (s', Returns (RT_EOK, Some y, \<not> (low \<and> tl s (push_list n) = [])))"
    using s'(1) ne dq_pop_loop.simps[of ntf n time "rt_thread_self s" s] by (simp add: rt_data_queue_pop_def)
  ultimately show "\<exists>s'. rt_data_queue_pop ntf n time s = Some (s', Returns (RT_EOK, Some y, \<not> (low \<and> tl s (push_list n) = []))) \<and>
      kinv {} b s' \<and> dq_inv (dqueues s' n) \<and> dq_items (dqueues s' n) = ys \<and>
      waiting_lwm (dqueues s' n) = (waiting_lwm (dqueues s n) \<and> \<not> low) \<and>
      (\<not> low \<longrightarrow> tl s' (push_list n) = tl s (push_list n)) \<and>
      (\<forall>w ws. low \<and> tl s (push_list n) = w # ws \<longrightarrow> tl s' (push_list n) = ws \<and> tstat s' w = RT_THREAD_READY \<and>
         (error (thr s w) = RT_EOK \<longrightarrow>
            (\<exists>s''. rt_data_queue_push_end ntf n x time w s' = Some (s'', Returns RT_EOK) \<and> kinv {} b s'' \<and>
               dq_items (dqueues s'' n) = ys @ [x])))"
    using s' by (intro exI[of _ s']) auto
next
  assume "dq_items (dqueues s n) = []"
  then have e: "get_index (dqueues s n) = put_index (dqueues s n)" by (simp add: dq_items_empty)
  then show "rt_data_queue_pop ntf n 0 s = Some (s, Returns (- RT_ETIMEOUT, None, True))"
    by (simp add: rt_data_queue_pop_def dq_pop_loop.simps[of _ _ _ _ s])
  assume "time_ok time"
  then show "\<exists>s'. rt_data_queue_pop ntf n time s = Some (s', Blocks) \<and> kinv {} b s' \<and>
      waits_in (pop_list n) c RT_IPC_FLAG_FIFO time s s'"
    using dqo.outcomes(2)[OF inv c irq(1) _ e _ irq(2) u, of time ntf] c(1) by (simp add: rt_data_queue_pop_def rt_thread_self_def)
qed

text \<open>
  The test of \<^verbatim>\<open>rt_data_queue_push\<close> misses a full queue once the 16 bit put index has wrapped around and the
  get index has not: the new item then takes the place of the oldest one.
\<close>

theorem rt_data_queue_push_overwrites:
  fixes s :: "'a kdq_scheme"
  assumes ok: "dq_inv (dqueues s n)" and full: "dq_count (dqueues s n) = unat (dq_size (dqueues s n))"
    and wrap: "put_index (dqueues s n) < get_index (dqueues s n)" and l: "tl s (pop_list n) = []"
  shows "\<exists>s'. rt_data_queue_push ntf n x time s = Some (s', Returns RT_EOK) \<and> rt_data_queue_peak n s' = Some (RT_EOK, Some x) \<and>
    dq_count (dqueues s' n) = Suc (unat (dq_size (dqueues s' n)))"
proof -
  let ?q = "dqueues s n"
  obtain k arr where k: "k \<le> 15" "dq_size ?q = 2 ^ k" "unat (dq_size ?q) = 2 ^ k" "dq_queue ?q = Some arr" "length arr = 2 ^ k"
    "dq_count ?q \<le> 2 ^ k" "(2 :: nat) ^ k \<le> 2 ^ 15"
    by (rule dq_invE[OF ok])
  have "\<not> dq_full ?q" using wrap uint_ge_0[of "dq_size ?q"] unfolding dq_full_def word_less_def by linarith
  moreover have p: "unat (put_index ?q AND (2 ^ k - 1)) = unat (get_index ?q) mod 2 ^ k"
    "unat (get_index ?q AND (2 ^ k - 1)) = unat (get_index ?q) mod 2 ^ k"
    using dq_put_mod[OF k(1), of ?q] full k(3) by (simp_all add: dq_index[OF k(1)])
  let ?q' = "?q\<lparr>dq_queue := Some (arr[unat (get_index ?q) mod 2 ^ k := x]), put_index := put_index ?q + 1\<rparr>"
  have "dq_store x ?q = Some ?q'" using k(2,4,5) p(1) by (simp add: dq_store_def)
  ultimately have push: "rt_data_queue_push ntf n x time s = Some (notify ntf n RT_DATAQUEUE_EVENT_PUSH (set_dq n ?q' s), Returns RT_EOK)"
    using l by (simp add: rt_data_queue_push_def dq_push_now_def dq_push_loop.simps[of _ _ _ _ _ s])
  have e: "put_index ?q + 1 - get_index ?q = put_index ?q - get_index ?q + 1" by simp
  have c: "dq_count ?q' = Suc (2 ^ k)"
    using full k(3,7) unat_word_ariths(1)[of "put_index ?q - get_index ?q" 1]
    by (simp add: dq_count_def e del: add_diff_eq)
  then have "get_index ?q' \<noteq> put_index ?q'" by (auto simp: dq_count_def)
  then have "rt_data_queue_peak n (set_dq n ?q' s) = Some (RT_EOK, Some x)"
    using k(2,4,5) p(2) by (simp add: rt_data_queue_peak_def dq_front_def)
  then show ?thesis using push c k(3) by (auto simp: rt_data_queue_peak_def)
qed

text \<open>
  \<^verbatim>\<open>rt_data_queue_reset\<close> ends the waiting of all threads with \<^verbatim>\<open>-RT_ERROR\<close>; the items stay.
\<close>

theorem rt_data_queue_reset_wakes:
  fixes s :: "'a kdq_scheme"
  assumes inv: "kinv {} b s" and c: "cur s = Some c" and l: "lock_nest s = 0"
  shows "\<exists>s'. rt_data_queue_reset n s = Some s' \<and> kinv {} b s' \<and> tl s' (pop_list n) = [] \<and> tl s' (push_list n) = [] \<and>
    (\<forall>w \<in> set (tl s (pop_list n)) \<union> set (tl s (push_list n)). tstat s' w = RT_THREAD_READY \<and> error (thr s' w) = - RT_ERROR) \<and>
    dqueues s' n = dqueues s n"
proof -
  let ?s1 = "rt_enter_critical s"
  have k1: "kinv {} b ?s1" unfolding rt_enter_critical_def by (subst kinv_cong[where s = s]) (use inv in simp_all)
  obtain s2 where s2: "rt_ipc_list_resume_all (pop_list n) ?s1 = Some (s2, RT_EOK)" "kinv {} b s2" "all_resumed (pop_list n) ?s1 s2"
    using rt_ipc_list_resume_all_ok[OF k1, of "pop_list n"] by auto
  obtain s3 where s3: "rt_ipc_list_resume_all (push_list n) s2 = Some (s3, RT_EOK)" "kinv {} b s3" "all_resumed (push_list n) s2 s3"
    using rt_ipc_list_resume_all_ok[OF s2(2), of "push_list n"] by auto
  let ?s3 = "s3\<lparr>lock_nest := 0\<rparr>"
  have k3: "kinv {} b ?s3" by (subst kinv_cong[where s = s3]) (use s3(2) in simp_all)
  have e: "cur s3 = Some c" "lock_nest s3 = 1" "ktimer.more s3 = ktimer.more s" "tl s3 (push_list n) = []" "tl s3 (pop_list n) = []"
    using s2(3) s3(3) c l by (auto simp: all_resumed_def rt_enter_critical_def)
  have w: "tstat s3 w = RT_THREAD_READY \<and> error (thr s3 w) = - RT_ERROR"
    if "w \<in> set (tl s (pop_list n)) \<union> set (tl s (push_list n))" for w
    using s2(3) s3(3) that unfolding all_resumed_def
    by (cases "w \<in> set (tl s (push_list n))") (auto simp: rt_enter_critical_def tstat_def split: if_splits)
  obtain s4 where s4: "rt_schedule ?s3 = Some s4" "kinv {} b s4" "thr s4 = thr ?s3" "cur s4 \<noteq> None" "kbase.more s4 = kbase.more ?s3"
    "\<And>h. (\<nexists>p. h = Ready p) \<Longrightarrow> tl s4 h = tl ?s3 h"
    by (rule rt_schedule_kinv[OF k3, of c]) (use e in auto)
  obtain c4 where c4: "cur s4 = Some c4" using s4(4) by auto
  obtain s5 where s5: "rt_schedule s4 = Some s5" "kinv {} b s5" "thr s5 = thr s4" "kbase.more s5 = kbase.more s4"
    "\<And>h. (\<nexists>p. h = Ready p) \<Longrightarrow> tl s5 h = tl s4 h"
    by (rule rt_schedule_kinv[OF s4(2) c4]) auto
  have "rt_data_queue_reset n s = Some s5"
    using s2(1) s3(1) s4(1) s5(1) e(2) by (simp add: rt_data_queue_reset_def rt_exit_critical_def)
  moreover have "dqueues s5 n = dqueues s n"
    using ktimer_more_eq[OF s5(4)] ktimer_more_eq[OF s4(5)] e(3) kdq_more_eq[of s5 s] by simp
  moreover have "tstat s5 v = tstat s3 v" for v using s4(3) s5(3) by (simp add: tstat_def)
  ultimately show ?thesis using s5 s4 e w by (intro exI[of _ s5]) simp
qed

section \<open>Examples\<close>

definition demo_dq :: "u16 \<Rightarrow> u16 \<Rightarrow> rt_data_queue" where
  "demo_dq g p = \<lparr>dq_size = 2, dq_lwm = 1, waiting_lwm = True, get_index = g, put_index = p,
     dq_queue = Some [(7, 8), (9, 10)], evt_notify = True\<rparr>"

definition demo_kdq :: "lhead \<Rightarrow> u16 \<Rightarrow> u16 \<Rightarrow> kdq" where
  "demo_kdq h g p = demo_dev h (kdq.fields (\<lambda>_. demo_dq g p))"

lemma demo_kdq_sel [simp]:
  "dqueues (demo_kdq h g p) n = demo_dq g p" "waiting_list h \<Longrightarrow> kinv {} 100 (demo_kdq h g p)"
  by (simp_all add: demo_kdq_def demo_dev_inv) (simp add: demo_dev_def relink_def kernel.defs kdq.defs)

lemma demo_dq_inv: "unat (p - g) \<le> 2 \<Longrightarrow> dq_inv (demo_dq g p)"
  by (auto simp: dq_inv_def demo_dq_def dq_count_def intro!: exI[of _ 1])


theorem rt_data_queue_pop_oldest_witness:
  "\<exists>s' s''. rt_data_queue_pop (\<lambda>_ _ x. x) 0 5 (demo_kdq (push_list 0) 4 6) = Some (s', Returns (RT_EOK, Some (7, 8), True)) \<and>
     tstat s' 3 = RT_THREAD_READY \<and> rt_data_queue_push_end (\<lambda>_ _ x. x) 0 (1, 4) 5 3 s' = Some (s'', Returns RT_EOK) \<and>
     dq_items (dqueues s'' 0) = [(9, 10), (1, 4)]"
proof -
  let ?s = "demo_kdq (push_list 0) 4 6"
  have k: "kinv {} 100 ?s" by simp
  have i: "dq_inv (dqueues ?s 0)" by (simp add: demo_dq_inv)
  have "dq_items (demo_dq 4 6) = [(7, 8), (9, 10)]" by code_simp
  then have e: "dq_items (dqueues ?s 0) = [(7, 8), (9, 10)]" by simp
  have "True = dq_low ((dqueues ?s 0)\<lparr>get_index := get_index (dqueues ?s 0) + 1\<rparr>)" by (simp add: demo_dq_def dq_low_def)
  then show ?thesis
    using rt_data_queue_pop_oldest[OF k i, of 1 2 True "\<lambda>_ _ x. x" 5 "(1, 4)"] e by (auto simp: demo_kdq_def split: if_splits)
qed

end
