(* ===== verification/Device.thy ===== *)
theory Device
  imports MemPool
begin

unbundle bit_operations_syntax

text \<open>
  The device layer of \<^verbatim>\<open>components/drivers/src/device.c\<close>. A driver is a record of functions, which are the
  argument \<open>dops\<close> of the operations; a null pointer is \<open>None\<close>. The contents of the buffer that a driver
  reads into are part of its result.
\<close>

section \<open>Definitions\<close>

abbreviation RT_Object_Class_Device :: u8 where "RT_Object_Class_Device \<equiv> 8"
abbreviation RT_DEVICE_FLAG_ACTIVATED :: u16 where "RT_DEVICE_FLAG_ACTIVATED \<equiv> 0x010"
abbreviation RT_DEVICE_OFLAG_MASK :: u16 where "RT_DEVICE_OFLAG_MASK \<equiv> 7"
abbreviation RT_DEVICE_OFLAG_CLOSE :: u16 where "RT_DEVICE_OFLAG_CLOSE \<equiv> 0"
abbreviation RT_DEVICE_OFLAG_OPEN :: u16 where "RT_DEVICE_OFLAG_OPEN \<equiv> 1"
abbreviation RT_DEVICE_FLAG_STANDALONE :: u16 where "RT_DEVICE_FLAG_STANDALONE \<equiv> 2"

text \<open>The flags of a device have 15 bits.\<close>

record rt_device =
  dev_flag :: u16
  open_flag :: u16
  ref_count :: u8
  fops :: "nat option"

record kdev = kernel +
  devices :: "nat \<Rightarrow> rt_device"

record 's rt_device_ops =
  dop_init :: "(nat \<Rightarrow> 's \<Rightarrow> ('s \<times> rt_err) option) option"
  dop_open :: "(nat \<Rightarrow> u16 \<Rightarrow> 's \<Rightarrow> ('s \<times> rt_err) option) option"
  dop_close :: "(nat \<Rightarrow> 's \<Rightarrow> ('s \<times> rt_err) option) option"
  dop_read :: "(nat \<Rightarrow> int \<Rightarrow> u32 \<Rightarrow> 's \<Rightarrow> ('s \<times> u8 list \<times> u32) option) option"
  dop_write :: "(nat \<Rightarrow> int \<Rightarrow> u8 list \<Rightarrow> u32 \<Rightarrow> 's \<Rightarrow> ('s \<times> u32) option) option"
  dop_control :: "(nat \<Rightarrow> int \<Rightarrow> u32 \<Rightarrow> 's \<Rightarrow> ('s \<times> rt_err) option) option"

definition upd_dev :: "nat \<Rightarrow> (rt_device \<Rightarrow> rt_device) \<Rightarrow> 'a kdev_scheme \<Rightarrow> 'a kdev_scheme" where
  "upd_dev n f s = s\<lparr>devices := (devices s)(n := f (devices s n))\<rparr>"

definition rt_device_find :: "u8 list \<Rightarrow> nat option" where
  "rt_device_find nm = None"

definition rt_device_register ::
  "nat option \<Rightarrow> u8 list \<Rightarrow> u16 \<Rightarrow> 'a kdev_scheme \<Rightarrow> ('a kdev_scheme \<times> rt_err) option" where
  "rt_device_register dev nm flags s =
     (case dev of
        None \<Rightarrow> Some (s, - RT_ERROR)
      | Some n \<Rightarrow>
          if rt_device_find nm \<noteq> None then Some (s, - RT_ERROR)
          else do {
            s1 \<leftarrow> rt_object_init (DeviceObj n) RT_Object_Class_Device nm s;
            Some (upd_dev n (\<lambda>d. d\<lparr>dev_flag := flags AND 0x7fff, ref_count := 0, open_flag := 0, fops := None\<rparr>) s1, RT_EOK)
          })"

definition rt_device_unregister :: "nat \<Rightarrow> 'a kdev_scheme \<Rightarrow> 'a kdev_scheme \<times> rt_err" where
  "rt_device_unregister n s = (rt_object_detach (DeviceObj n) s, RT_EOK)"

definition rt_device_init ::
  "'a kdev_scheme rt_device_ops \<Rightarrow> nat \<Rightarrow> 'a kdev_scheme \<Rightarrow> ('a kdev_scheme \<times> rt_err) option" where
  "rt_device_init dops n s =
     (case dop_init dops of
        None \<Rightarrow> Some (s, RT_EOK)
      | Some init \<Rightarrow>
          if dev_flag (devices s n) AND RT_DEVICE_FLAG_ACTIVATED = 0 then do {
            (s1, result) \<leftarrow> init n s;
            if result \<noteq> RT_EOK then Some (s1, result)
            else Some (upd_dev n (\<lambda>d. d\<lparr>dev_flag := dev_flag d OR RT_DEVICE_FLAG_ACTIVATED\<rparr>) s1, result)
          }
          else Some (s, RT_EOK))"

text \<open>The first part of \<^verbatim>\<open>rt_device_open\<close>, which initialises the device.\<close>

definition open_init ::
  "'a kdev_scheme rt_device_ops \<Rightarrow> nat \<Rightarrow> 'a kdev_scheme \<Rightarrow> ('a kdev_scheme \<times> rt_err) option" where
  "open_init dops n s =
     (if dev_flag (devices s n) AND RT_DEVICE_FLAG_ACTIVATED = 0 then do {
        (s1, result) \<leftarrow> (case dop_init dops of None \<Rightarrow> Some (s, RT_EOK) | Some init \<Rightarrow> init n s);
        if result \<noteq> RT_EOK then Some (s1, result)
        else Some (upd_dev n (\<lambda>d. d\<lparr>dev_flag := dev_flag d OR RT_DEVICE_FLAG_ACTIVATED\<rparr>) s1, result)
      }
      else Some (s, RT_EOK))"

definition rt_device_open ::
  "'a kdev_scheme rt_device_ops \<Rightarrow> nat \<Rightarrow> u16 \<Rightarrow> 'a kdev_scheme \<Rightarrow> ('a kdev_scheme \<times> rt_err) option" where
  "rt_device_open dops n oflg s = do {
     (s1, r) \<leftarrow> open_init dops n s;
     if r \<noteq> RT_EOK then Some (s1, r)
     else if dev_flag (devices s1 n) AND RT_DEVICE_FLAG_STANDALONE \<noteq> 0 \<and>
             open_flag (devices s1 n) AND RT_DEVICE_OFLAG_OPEN \<noteq> 0 then Some (s1, - RT_EBUSY)
     else do {
       (s2, result) \<leftarrow>
         (case dop_open dops of
            Some opn \<Rightarrow> opn n oflg s1
          | None \<Rightarrow> Some (upd_dev n (\<lambda>d. d\<lparr>open_flag := oflg AND RT_DEVICE_OFLAG_MASK\<rparr>) s1, RT_EOK));
       if result = RT_EOK \<or> result = - RT_ENOSYS then do {
         let s3 = upd_dev n (\<lambda>d. d\<lparr>open_flag := open_flag d OR RT_DEVICE_OFLAG_OPEN, ref_count := ref_count d + 1\<rparr>) s2;
         rt_assert (ref_count (devices s3 n) \<noteq> 0);
         Some (s3, result)
       }
       else Some (s2, result)
     }
   }"

definition rt_device_close ::
  "'a kdev_scheme rt_device_ops \<Rightarrow> nat \<Rightarrow> 'a kdev_scheme \<Rightarrow> ('a kdev_scheme \<times> rt_err) option" where
  "rt_device_close dops n s =
     (if ref_count (devices s n) = 0 then Some (s, - RT_ERROR)
      else do {
        let s1 = upd_dev n (\<lambda>d. d\<lparr>ref_count := ref_count d - 1\<rparr>) s;
        if ref_count (devices s1 n) \<noteq> 0 then Some (s1, RT_EOK)
        else do {
          (s2, result) \<leftarrow> (case dop_close dops of None \<Rightarrow> Some (s1, RT_EOK) | Some close \<Rightarrow> close n s1);
          Some (if result = RT_EOK \<or> result = - RT_ENOSYS
                then upd_dev n (\<lambda>d. d\<lparr>open_flag := RT_DEVICE_OFLAG_CLOSE\<rparr>) s2 else s2, result)
        }
      })"

definition rt_device_read ::
  "'a kdev_scheme rt_device_ops \<Rightarrow> nat \<Rightarrow> int \<Rightarrow> u32 \<Rightarrow> 'a kdev_scheme \<Rightarrow> ('a kdev_scheme \<times> u8 list \<times> u32) option" where
  "rt_device_read dops n pos sz s =
     (if ref_count (devices s n) = 0 then Some (rt_set_errno (- RT_ERROR) s, [], 0)
      else case dop_read dops of
        Some rd \<Rightarrow> rd n pos sz s
      | None \<Rightarrow> Some (rt_set_errno (- RT_ENOSYS) s, [], 0))"

definition rt_device_write ::
  "'a kdev_scheme rt_device_ops \<Rightarrow> nat \<Rightarrow> int \<Rightarrow> u8 list \<Rightarrow> u32 \<Rightarrow> 'a kdev_scheme \<Rightarrow> ('a kdev_scheme \<times> u32) option" where
  "rt_device_write dops n pos buf sz s =
     (if ref_count (devices s n) = 0 then Some (rt_set_errno (- RT_ERROR) s, 0)
      else case dop_write dops of
        Some wr \<Rightarrow> wr n pos buf sz s
      | None \<Rightarrow> Some (rt_set_errno (- RT_ENOSYS) s, 0))"

definition rt_device_control ::
  "'a kdev_scheme rt_device_ops \<Rightarrow> nat \<Rightarrow> int \<Rightarrow> u32 \<Rightarrow> 'a kdev_scheme \<Rightarrow> ('a kdev_scheme \<times> rt_err) option" where
  "rt_device_control dops n cmd arg s =
     (case dop_control dops of Some ctl \<Rightarrow> ctl n cmd arg s | None \<Rightarrow> Some (s, - RT_ENOSYS))"

section \<open>Opening and closing\<close>

datatype dev_call = DevOpen u16 | DevClose | DevRead int u32 | DevWrite int "u8 list" u32

text \<open>
  One call, and a sequence of them; the results of opening and closing are collected, those of reading
  and writing not.
\<close>

definition dev_call ::
  "'a kdev_scheme rt_device_ops \<Rightarrow> nat \<Rightarrow> dev_call \<Rightarrow> 'a kdev_scheme \<Rightarrow> ('a kdev_scheme \<times> rt_err) option" where
  "dev_call dops n c s =
     (case c of
        DevOpen oflg \<Rightarrow> rt_device_open dops n oflg s
      | DevClose \<Rightarrow> rt_device_close dops n s
      | DevRead pos sz \<Rightarrow> do { (s1, _) \<leftarrow> rt_device_read dops n pos sz s; Some (s1, RT_EOK) }
      | DevWrite pos buf sz \<Rightarrow> do { (s1, _) \<leftarrow> rt_device_write dops n pos buf sz s; Some (s1, RT_EOK) })"

fun dev_calls ::
  "'a kdev_scheme rt_device_ops \<Rightarrow> nat \<Rightarrow> dev_call list \<Rightarrow> 'a kdev_scheme \<Rightarrow> ('a kdev_scheme \<times> rt_err list) option" where
  "dev_calls dops n [] s = Some (s, [])"
| "dev_calls dops n (c # cs) s = do {
     (s1, r) \<leftarrow> dev_call dops n c s;
     (s2, rs) \<leftarrow> dev_calls dops n cs s1;
     Some (s2, r # rs)
   }"

text \<open>The number of users: successful calls of \<^verbatim>\<open>rt_device_open\<close> that have not been closed.\<close>

definition user_step :: "dev_call \<Rightarrow> rt_err \<Rightarrow> nat \<Rightarrow> nat" where
  "user_step c r k = (case c of DevOpen _ \<Rightarrow> if r = RT_EOK \<or> r = - RT_ENOSYS then Suc k else k | DevClose \<Rightarrow> k - 1 | _ \<Rightarrow> k)"

definition users :: "dev_call list \<Rightarrow> rt_err list \<Rightarrow> nat \<Rightarrow> nat" where
  "users cs rs k = fold (\<lambda>(c, r). user_step c r) (zip cs rs) k"

text \<open>
  What is asked of a driver: its functions return and leave the control block of the device alone, and
  initialisation does not fail with \<^verbatim>\<open>-RT_ENOSYS\<close>, which \<^verbatim>\<open>rt_device_open\<close> also returns for an open device.
\<close>

definition driver_ok :: "'a kdev_scheme rt_device_ops \<Rightarrow> nat \<Rightarrow> bool" where
  "driver_ok dops n \<longleftrightarrow>
     (\<forall>f s. dop_init dops = Some f \<longrightarrow> (\<exists>s' r. f n s = Some (s', r) \<and> devices s' n = devices s n \<and> r \<noteq> - RT_ENOSYS)) \<and>
     (\<forall>f g s. dop_open dops = Some f \<longrightarrow> (\<exists>s' r. f n g s = Some (s', r) \<and> devices s' n = devices s n)) \<and>
     (\<forall>f s. dop_close dops = Some f \<longrightarrow> (\<exists>s' r. f n s = Some (s', r) \<and> devices s' n = devices s n)) \<and>
     (\<forall>f p z s. dop_read dops = Some f \<longrightarrow> (\<exists>s' r. f n p z s = Some (s', r) \<and> devices s' n = devices s n)) \<and>
     (\<forall>f p b z s. dop_write dops = Some f \<longrightarrow> (\<exists>s' r. f n p b z s = Some (s', r) \<and> devices s' n = devices s n))"

definition dev_inv :: "rt_device \<Rightarrow> bool" where
  "dev_inv d \<longleftrightarrow> (ref_count d \<noteq> 0 \<longrightarrow> dev_flag d AND RT_DEVICE_FLAG_ACTIVATED \<noteq> 0 \<and> open_flag d AND RT_DEVICE_OFLAG_OPEN \<noteq> 0) \<and>
     (dev_flag d AND RT_DEVICE_FLAG_STANDALONE \<noteq> 0 \<longrightarrow> ref_count d \<le> 1)"

lemma upd_dev_sel [simp]: "devices (upd_dev n f s) = (devices s)(n := f (devices s n))"
  by (simp add: upd_dev_def)

lemma rt_set_errno_devices [simp]: "devices (rt_set_errno e s) = devices s"
  by (simp add: rt_set_errno_def upd_thr_def split: option.split)

lemma driver_okE:
  assumes "driver_ok dops n"
  shows "dop_init dops = Some f1 \<Longrightarrow> \<exists>s' r. f1 n s = Some (s', r) \<and> devices s' n = devices s n \<and> r \<noteq> - RT_ENOSYS"
    "dop_open dops = Some f2 \<Longrightarrow> \<exists>s' r. f2 n o' s = Some (s', r) \<and> devices s' n = devices s n"
    "dop_close dops = Some f3 \<Longrightarrow> \<exists>s' r. f3 n s = Some (s', r) \<and> devices s' n = devices s n"
    "dop_read dops = Some f4 \<Longrightarrow> \<exists>s' r. f4 n p z s = Some (s', r) \<and> devices s' n = devices s n"
    "dop_write dops = Some f5 \<Longrightarrow> \<exists>s' r. f5 n p b z s = Some (s', r) \<and> devices s' n = devices s n"
  using assms by (simp_all add: driver_ok_def)

lemma dev_flag_bits:
  "(x OR 16 :: u16) AND 16 \<noteq> 0" "(x OR 16 :: u16) AND 2 = x AND 2" "(x OR 1 :: u16) AND 1 \<noteq> 0"
proof -
  have "(x OR 16) AND 16 = 16" "(x OR 1) AND 1 = 1"
    by (rule bit_eqI, auto simp: bit_simps)+
  then show "(x OR 16 :: u16) AND 16 \<noteq> 0" "(x OR 1 :: u16) AND 1 \<noteq> 0" by simp_all
  have "(16 :: u16) AND 2 = 0" by simp
  then show "(x OR 16 :: u16) AND 2 = x AND 2" by (simp add: bit.conj_disj_distrib2)
qed

lemma open_init_ok:
  assumes drv: "driver_ok dops n" and inv: "dev_inv (devices s n)"
  shows "\<exists>s1 r. open_init dops n s = Some (s1, r) \<and> dev_inv (devices s1 n) \<and> ref_count (devices s1 n) = ref_count (devices s n) \<and>
    r \<noteq> - RT_ENOSYS \<and> (r = RT_EOK \<longrightarrow> dev_flag (devices s1 n) AND RT_DEVICE_FLAG_ACTIVATED \<noteq> 0)"
proof -
  obtain s1 r where s1: "(case dop_init dops of None \<Rightarrow> Some (s, RT_EOK) | Some init \<Rightarrow> init n s) = Some (s1, r)"
      "devices s1 n = devices s n" "r \<noteq> - RT_ENOSYS"
    using driver_okE(1)[OF drv, of _ s] by (cases "dop_init dops") auto
  show ?thesis
  proof (cases "dev_flag (devices s n) AND RT_DEVICE_FLAG_ACTIVATED = 0 \<and> r = RT_EOK")
    case True
    then have "open_init dops n s = Some (upd_dev n (\<lambda>d. d\<lparr>dev_flag := dev_flag d OR RT_DEVICE_FLAG_ACTIVATED\<rparr>) s1, RT_EOK)"
      using s1(1) by (simp add: open_init_def)
    then show ?thesis using inv s1(2) by (simp add: dev_inv_def dev_flag_bits)
  next
    case False
    then show ?thesis using s1 inv by (auto simp: open_init_def)
  qed
qed

lemma rt_device_open_ok:
  assumes drv: "driver_ok dops n" and inv: "dev_inv (devices s n)" and lt: "unat (ref_count (devices s n)) < 255"
  shows "\<exists>s' r. rt_device_open dops n oflg s = Some (s', r) \<and> dev_inv (devices s' n) \<and>
    unat (ref_count (devices s' n)) = (if r = RT_EOK \<or> r = - RT_ENOSYS then Suc (unat (ref_count (devices s n)))
                                       else unat (ref_count (devices s n)))"
proof -
  obtain s1 r where s1: "open_init dops n s = Some (s1, r)" "dev_inv (devices s1 n)" "ref_count (devices s1 n) = ref_count (devices s n)"
    "r = RT_EOK \<Longrightarrow> dev_flag (devices s1 n) AND RT_DEVICE_FLAG_ACTIVATED \<noteq> 0" "r \<noteq> - RT_ENOSYS"
    using open_init_ok[OF drv inv] by auto
  let ?d = "devices s1 n"
  have inc: "unat (ref_count ?d + 1) = Suc (unat (ref_count (devices s n)))" "ref_count ?d + 1 \<noteq> 0"
    using lt s1(3) unat_word_ariths(1)[of "ref_count ?d" 1] by (auto simp: unat_eq_zero[symmetric])
  have "\<exists>s2 r2. (case dop_open dops of Some opn \<Rightarrow> opn n oflg s1
          | None \<Rightarrow> Some (upd_dev n (\<lambda>d. d\<lparr>open_flag := oflg AND RT_DEVICE_OFLAG_MASK\<rparr>) s1, RT_EOK)) = Some (s2, r2) \<and>
      (\<exists>o'. devices s2 n = ?d\<lparr>open_flag := o'\<rparr>) \<and> (r2 \<noteq> RT_EOK \<longrightarrow> devices s2 n = ?d)"
  proof (cases "dop_open dops")
    case (Some opn)
    obtain s2 r2 where "opn n oflg s1 = Some (s2, r2)" "devices s2 n = ?d" using driver_okE(2)[OF drv Some, of oflg s1] by auto
    then show ?thesis using Some by (intro exI[of _ s2] exI[of _ r2]) (auto intro: exI[of _ "open_flag ?d"])
  qed (auto intro: exI[of _ "oflg AND RT_DEVICE_OFLAG_MASK"])
  then obtain s2 r2 o' where s2: "(case dop_open dops of Some opn \<Rightarrow> opn n oflg s1
          | None \<Rightarrow> Some (upd_dev n (\<lambda>d. d\<lparr>open_flag := oflg AND RT_DEVICE_OFLAG_MASK\<rparr>) s1, RT_EOK)) = Some (s2, r2)"
    "devices s2 n = ?d\<lparr>open_flag := o'\<rparr>" "r2 \<noteq> RT_EOK \<Longrightarrow> devices s2 n = ?d" by auto
  have z: "ref_count ?d = 0" if "dev_flag ?d AND RT_DEVICE_FLAG_STANDALONE = 0 \<or> open_flag ?d AND RT_DEVICE_OFLAG_OPEN = 0"
    "dev_flag ?d AND RT_DEVICE_FLAG_STANDALONE \<noteq> 0"
    using s1(2) that by (auto simp: dev_inv_def)
  let ?busy = "dev_flag ?d AND RT_DEVICE_FLAG_STANDALONE \<noteq> 0 \<and> open_flag ?d AND RT_DEVICE_OFLAG_OPEN \<noteq> 0"
  show ?thesis
  proof (cases "r \<noteq> RT_EOK \<or> ?busy \<or> \<not> (r2 = RT_EOK \<or> r2 = - RT_ENOSYS)")
    case True
    let ?s' = "if r \<noteq> RT_EOK \<or> ?busy then s1 else s2" and ?r' = "if r \<noteq> RT_EOK then r else if ?busy then - RT_EBUSY else r2"
    have "rt_device_open dops n oflg s = Some (?s', ?r')" using True s1(1) s2(1) by (auto simp: rt_device_open_def)
    moreover have "\<not> (?r' = RT_EOK \<or> ?r' = - RT_ENOSYS)" "devices ?s' n = ?d" using True s1(5) s2(3) by auto
    ultimately show ?thesis using s1(2,3) by (intro exI[of _ ?s'] exI[of _ ?r']) simp
  next
    case False
    let ?s3 = "upd_dev n (\<lambda>d. d\<lparr>open_flag := open_flag d OR RT_DEVICE_OFLAG_OPEN, ref_count := ref_count d + 1\<rparr>) s2"
    have "rt_device_open dops n oflg s = Some (?s3, r2)"
      using False s1(1) s2(1,2) inc(2) by (auto simp: rt_device_open_def)
    moreover have "dev_inv (devices ?s3 n)" using False s1(4) s2(2) z by (auto simp: dev_inv_def dev_flag_bits)
    ultimately show ?thesis using False s2(2) inc(1) by auto
  qed
qed

lemma rt_device_close_ok:
  assumes drv: "driver_ok dops n" and inv: "dev_inv (devices s n)"
  shows "\<exists>s' r. rt_device_close dops n s = Some (s', r) \<and> dev_inv (devices s' n) \<and>
    unat (ref_count (devices s' n)) = unat (ref_count (devices s n)) - 1"
proof (cases "ref_count (devices s n) = 0")
  case True
  then show ?thesis using inv by (simp add: rt_device_close_def)
next
  case False
  let ?s1 = "upd_dev n (\<lambda>d. d\<lparr>ref_count := ref_count d - 1\<rparr>) s"
  have u: "unat (ref_count (devices s n) - 1) = unat (ref_count (devices s n)) - 1" using False by (simp add: unat_minus_one)
  have le: "ref_count (devices s n) - 1 \<le> 1" if "ref_count (devices s n) \<le> 1"
    using that u by (simp add: word_le_nat_alt)
  obtain s2 r where s2: "(case dop_close dops of None \<Rightarrow> Some (?s1, RT_EOK) | Some close \<Rightarrow> close n ?s1) = Some (s2, r)"
      "devices s2 n = devices ?s1 n"
    using driver_okE(3)[OF drv, of _ ?s1] by (cases "dop_close dops") auto
  let ?s2 = "if ref_count (devices ?s1 n) \<noteq> 0 then ?s1
    else if r = RT_EOK \<or> r = - RT_ENOSYS then upd_dev n (\<lambda>d. d\<lparr>open_flag := RT_DEVICE_OFLAG_CLOSE\<rparr>) s2 else s2"
  let ?r = "if ref_count (devices ?s1 n) \<noteq> 0 then RT_EOK else r"
  have "rt_device_close dops n s = Some (?s2, ?r)"
    using False s2(1) by (simp add: rt_device_close_def Let_def)
  moreover have "ref_count (devices ?s2 n) = ref_count (devices s n) - 1" using s2(2) by simp
  moreover have "dev_inv (devices ?s2 n)"
    using s2(2) inv le False by (auto simp: dev_inv_def)
  ultimately show ?thesis using u by auto
qed

lemma rt_device_read_write_ok:
  assumes drv: "driver_ok dops n"
  shows "\<exists>s' r. rt_device_read dops n pos sz s = Some (s', r) \<and> devices s' n = devices s n"
    "\<exists>s' r. rt_device_write dops n pos buf sz s = Some (s', r) \<and> devices s' n = devices s n"
  using driver_okE(4)[OF drv, of _ pos sz s] driver_okE(5)[OF drv, of _ pos buf sz s]
  by (auto simp: rt_device_read_def rt_device_write_def split: option.split)

lemma dev_call_ok:
  assumes drv: "driver_ok dops n" and inv: "dev_inv (devices s n)"
    and lt: "\<And>f. c = DevOpen f \<Longrightarrow> unat (ref_count (devices s n)) < 255"
  shows "\<exists>s' r. dev_call dops n c s = Some (s', r) \<and> dev_inv (devices s' n) \<and>
    unat (ref_count (devices s' n)) = user_step c r (unat (ref_count (devices s n)))"
proof (cases c)
  case (DevOpen f)
  then show ?thesis using rt_device_open_ok[OF drv inv lt, of f f] by (auto simp: dev_call_def user_step_def)
next
  case DevClose
  then show ?thesis using rt_device_close_ok[OF drv inv] by (simp add: dev_call_def user_step_def)
next
  case (DevRead p z)
  obtain s1 r where "rt_device_read dops n p z s = Some (s1, r)" "devices s1 n = devices s n"
    using rt_device_read_write_ok(1)[OF drv] by blast
  then show ?thesis using DevRead inv by (simp add: dev_call_def user_step_def)
next
  case (DevWrite p b z)
  obtain s1 r where "rt_device_write dops n p b z s = Some (s1, r)" "devices s1 n = devices s n"
    using rt_device_read_write_ok(2)[OF drv] by blast
  then show ?thesis using DevWrite inv by (simp add: dev_call_def user_step_def)
qed

text \<open>
  C38. With a driver that leaves the control block alone and whose initialisation does not fail with
  \<^verbatim>\<open>-RT_ENOSYS\<close>, any sequence of opening, closing, reading and writing a device returns, as long as the
  users at the start and the calls that open it are at most 255 together; the reference count is the
  number of users, a used device is initialised and marked as open, and a stand-alone device has at most
  one user.
\<close>

theorem device_users_counted:
  assumes "driver_ok dops n" "dev_inv (devices s n)"
    and "unat (ref_count (devices s n)) + length (filter (\<lambda>c. \<exists>f. c = DevOpen f) cs) \<le> 255"
  shows "\<exists>s' rs. dev_calls dops n cs s = Some (s', rs) \<and> length rs = length cs \<and> dev_inv (devices s' n) \<and>
    unat (ref_count (devices s' n)) = users cs rs (unat (ref_count (devices s n)))"
  using assms(2,3)
proof (induction cs arbitrary: s)
  case Nil
  then show ?case by (simp add: users_def)
next
  case (Cons c cs)
  obtain s1 r where s1: "dev_call dops n c s = Some (s1, r)" "dev_inv (devices s1 n)"
    "unat (ref_count (devices s1 n)) = user_step c r (unat (ref_count (devices s n)))"
  proof -
    have "unat (ref_count (devices s n)) < 255" if "c = DevOpen f" for f using Cons.prems(2) that by simp
    then show ?thesis using dev_call_ok[OF assms(1) Cons.prems(1), of c] that by blast
  qed
  have "unat (ref_count (devices s1 n)) + length (filter (\<lambda>c. \<exists>f. c = DevOpen f) cs) \<le> 255"
    using s1(3) Cons.prems(2) by (cases c) (simp_all add: user_step_def split: if_splits)
  from Cons.IH[OF s1(2) this] obtain s' rs where "dev_calls dops n cs s1 = Some (s', rs)" "length rs = length cs"
    "dev_inv (devices s' n)" "unat (ref_count (devices s' n)) = users cs rs (unat (ref_count (devices s1 n)))" by auto
  then show ?case using s1 by (simp add: users_def)
qed

text \<open>An example: a driver without functions, and a stand-alone device that is opened twice.\<close>

definition no_driver :: "'s rt_device_ops" where
  "no_driver = \<lparr>dop_init = None, dop_open = None, dop_close = None, dop_read = None, dop_write = None, dop_control = None\<rparr>"

definition demo_device :: kdev where
  "demo_device = kernel.extend demo_ipc (kdev.fields
     (\<lambda>_. \<lparr>dev_flag = RT_DEVICE_FLAG_STANDALONE, open_flag = 0, ref_count = 0, fops = None\<rparr>))"

theorem device_users_counted_witness:
  "\<exists>s' rs. dev_calls no_driver 0 [DevOpen 3, DevOpen 3, DevClose, DevClose, DevOpen 1] demo_device = Some (s', rs) \<and>
     length rs = 5 \<and> dev_inv (devices s' 0) \<and>
     unat (ref_count (devices s' 0)) = users [DevOpen 3, DevOpen 3, DevClose, DevClose, DevOpen 1] rs 0"
proof -
  have d: "devices demo_device 0 = \<lparr>dev_flag = RT_DEVICE_FLAG_STANDALONE, open_flag = 0, ref_count = 0, fops = None\<rparr>"
    by (simp add: demo_device_def kernel.defs kdev.defs)
  have "driver_ok (no_driver :: kdev rt_device_ops) 0" by (simp add: driver_ok_def no_driver_def)
  moreover have "dev_inv (devices demo_device 0)" by (simp add: d dev_inv_def)
  ultimately show ?thesis
    using device_users_counted[of no_driver 0 demo_device "[DevOpen 3, DevOpen 3, DevClose, DevClose, DevOpen 1]"] d
    by (simp add: eval_nat_numeral del: dev_calls.simps)
qed

text \<open>
  What goes wrong. No device can be registered: the container of objects has no entry for devices. A
  stand-alone device whose driver fails to close it stays marked as open, without a user, and is refused
  from then on.
\<close>

theorem rt_device_register_fails: "rt_device_register (Some n) nm flags s = None"
  by (simp add: rt_device_register_def rt_device_find_def rt_object_init_def rt_object_container_def)

theorem rt_device_close_failure_locks:
  assumes drv: "dop_close dops = Some f" "f n (upd_dev n (\<lambda>d. d\<lparr>ref_count := 0\<rparr>) s) = Some (s', - RT_EIO)"
      "devices s' n = (devices s n)\<lparr>ref_count := 0\<rparr>"
    and d: "ref_count (devices s n) = 1" "dev_inv (devices s n)" "dev_flag (devices s n) AND RT_DEVICE_FLAG_STANDALONE \<noteq> 0"
  shows "rt_device_close dops n s = Some (s', - RT_EIO)" "rt_device_close dops n s' = Some (s', - RT_ERROR)"
    "rt_device_open dops n oflg s' = Some (s', - RT_EBUSY)"
proof -
  have "(\<lambda>d. d\<lparr>ref_count := ref_count d - 1\<rparr>) (devices s n) = (devices s n)\<lparr>ref_count := 0\<rparr>" using d(1) by simp
  then have "upd_dev n (\<lambda>d. d\<lparr>ref_count := ref_count d - 1\<rparr>) s = upd_dev n (\<lambda>d. d\<lparr>ref_count := 0\<rparr>) s" by (simp add: upd_dev_def)
  then show "rt_device_close dops n s = Some (s', - RT_EIO)" using drv d(1) by (simp add: rt_device_close_def Let_def)
  show "rt_device_close dops n s' = Some (s', - RT_ERROR)" using drv(3) by (simp add: rt_device_close_def)
  show "rt_device_open dops n oflg s' = Some (s', - RT_EBUSY)"
    using drv(3) d by (auto simp: rt_device_open_def open_init_def dev_inv_def)
qed

end
