(* ===== verification/WaitQueue.thy ===== *)
theory WaitQueue
  imports Ipc Clock
begin

unbundle bit_operations_syntax

text \<open>
  The wait queues of \<^verbatim>\<open>components/drivers/src/waitqueue.c\<close>, on which drivers let threads wait, and the part
  of \<^verbatim>\<open>components/dfs/src/poll.c\<close> that waits on several of them. A queue is a list of nodes, each with a
  thread and a function that decides whether a key concerns it; the functions of the sources are the
  one of \<^verbatim>\<open>rt_wqueue_wait_init\<close> and the one of \<^verbatim>\<open>poll\<close>. \<open>tps\<close> is the number of ticks in a second.
\<close>

section \<open>Definitions\<close>

datatype wqueue_func = DefaultWake | PollWake nat

record rt_wqueue_node =
  polling_thread :: "tid option"
  wakeup :: wqueue_func
  wq_key :: u16

record kwq = kernel +
  wq_list :: "nat \<Rightarrow> nat list"
  wq_flag :: "nat \<Rightarrow> u16"
  wq_node :: "nat \<Rightarrow> rt_wqueue_node"
  triggered :: "nat \<Rightarrow> bool"

abbreviation RT_WAITING_FOREVER :: u32 where "RT_WAITING_FOREVER \<equiv> 0xffffffff"

definition set_wq_flag :: "nat \<Rightarrow> u16 \<Rightarrow> 'a kwq_scheme \<Rightarrow> 'a kwq_scheme" where
  "set_wq_flag q v s = s\<lparr>wq_flag := (wq_flag s)(q := v)\<rparr>"

definition rt_wqueue_init :: "nat \<Rightarrow> 'a kwq_scheme \<Rightarrow> 'a kwq_scheme" where
  "rt_wqueue_init q s = set_wq_flag q 0 (s\<lparr>wq_list := (wq_list s)(q := [])\<rparr>)"

definition rt_wqueue_add :: "nat \<Rightarrow> nat \<Rightarrow> 'a kwq_scheme \<Rightarrow> 'a kwq_scheme" where
  "rt_wqueue_add q node s =
     s\<lparr>wq_node := (wq_node s)(node := (wq_node s node)\<lparr>wq_key := 0\<rparr>), wq_list := ls_insert_before q node (wq_list s)\<rparr>"

definition rt_wqueue_remove :: "nat \<Rightarrow> 'a kwq_scheme \<Rightarrow> 'a kwq_scheme" where
  "rt_wqueue_remove node s = s\<lparr>wq_list := ls_remove node (wq_list s)\<rparr>"

definition wqueue_default_wake :: "nat \<Rightarrow> u32 \<Rightarrow> 'a kwq_scheme \<Rightarrow> 'a kwq_scheme \<times> int" where
  "wqueue_default_wake wait key s = (s, 0)"

definition wqueue_pollwake :: "nat \<Rightarrow> nat \<Rightarrow> u32 \<Rightarrow> 'a kwq_scheme \<Rightarrow> 'a kwq_scheme \<times> int" where
  "wqueue_pollwake pt wait key s =
     (if key \<noteq> 0 \<and> key AND ucast (wq_key (wq_node s wait)) = 0 then (s, -1)
      else wqueue_default_wake wait key (s\<lparr>triggered := (triggered s)(pt := True)\<rparr>))"

definition call_wakeup :: "nat \<Rightarrow> u32 \<Rightarrow> 'a kwq_scheme \<Rightarrow> 'a kwq_scheme \<times> int" where
  "call_wakeup node key s =
     (case wakeup (wq_node s node) of
        DefaultWake \<Rightarrow> wqueue_default_wake node key s
      | PollWake pt \<Rightarrow> wqueue_pollwake pt node key s)"

text \<open>The walk over the nodes of a queue; the result says whether a thread was resumed.\<close>

fun wqueue_walk :: "nat list \<Rightarrow> u32 \<Rightarrow> 'a kwq_scheme \<Rightarrow> ('a kwq_scheme \<times> bool) option" where
  "wqueue_walk [] key s = Some (s, False)"
| "wqueue_walk (node # nodes) key s =
     (let (s1, r) = call_wakeup node key s in
      if r = 0 then do {
        t \<leftarrow> polling_thread (wq_node s1 node);
        (s2, _) \<leftarrow> rt_thread_resume t s1;
        Some (rt_wqueue_remove node s2, True)
      }
      else wqueue_walk nodes key s1)"

definition rt_wqueue_wakeup :: "nat \<Rightarrow> u32 \<Rightarrow> 'a kwq_scheme \<Rightarrow> 'a kwq_scheme option" where
  "rt_wqueue_wakeup q key s = do {
     let s1 = set_wq_flag q 1 s;
     if wq_list s1 q = [] then Some s1
     else do {
       (s2, need_schedule) \<leftarrow> wqueue_walk (wq_list s1 q) key s1;
       let s3 = set_wq_flag q 0 s2;
       if need_schedule then rt_schedule s3 else Some s3
     }
   }"

definition wqueue_block :: "tid \<Rightarrow> u32 \<Rightarrow> 'a ktimer_scheme \<Rightarrow> 'a ktimer_scheme option" where
  "wqueue_block t tk s = do {
     (s1, _) \<leftarrow> rt_thread_suspend t s;
     s2 \<leftarrow> (if tk \<noteq> RT_WAITING_FOREVER then do {
               (s', _, _) \<leftarrow> rt_timer_control (ThreadTimer t) (RT_TIMER_CTRL_SET_TIME tk) s1;
               (s'', _) \<leftarrow> rt_timer_start (ThreadTimer t) s';
               Some s''
             }
             else Some s1);
     rt_schedule s2
   }"

text \<open>
  A null pointer for the node is \<open>None\<close>; the code reads through it. The lists of a node are empty if it
  is in no queue.
\<close>

definition wq_unlinked :: "nat \<Rightarrow> 'a kwq_scheme \<Rightarrow> bool" where
  "wq_unlinked node s \<longleftrightarrow> (\<forall>q. node \<notin> set (wq_list s q))"

definition rt_wqueue_wait ::
  "int \<Rightarrow> nat option \<Rightarrow> int \<Rightarrow> 'a kwq_scheme \<Rightarrow> ('a kwq_scheme \<times> int call) option" where
  "rt_wqueue_wait tps wait msec s = do {
     let tk = (word_of_int (rt_tick_from_millisecond tps msec) :: u32);
     if tk = 0 then Some (s, Returns 0)
     else do {
       rt_debug_not_in_interrupt s;
       node \<leftarrow> wait;
       if wq_unlinked node s then Some (s, Returns 0)
       else do {
         t \<leftarrow> cur s;
         s1 \<leftarrow> wqueue_block t tk s;
         if cur s1 \<noteq> Some t then Some (s1, Blocks) else Some (rt_wqueue_remove node s1, Returns 0)
       }
     }
   }"

definition rt_wqueue_wait_end :: "nat \<Rightarrow> 'a kwq_scheme \<Rightarrow> 'a kwq_scheme \<times> int" where
  "rt_wqueue_wait_end node s = (rt_wqueue_remove node s, 0)"

text \<open>\<^verbatim>\<open>rt_list_init\<close> of a node that is linked would break the list it is in.\<close>

definition rt_wqueue_wait_init :: "nat \<Rightarrow> 'a kwq_scheme \<Rightarrow> 'a kwq_scheme option" where
  "rt_wqueue_wait_init node s = do {
     rt_assert (wq_unlinked node s);
     Some (s\<lparr>wq_node := (wq_node s)(node := (wq_node s node)\<lparr>polling_thread := rt_thread_self s, wakeup := DefaultWake\<rparr>)\<rparr>)
   }"

text \<open>\<open>node\<close> is the node on the stack of the caller.\<close>

definition rt_wqueue_uwait ::
  "int \<Rightarrow> nat \<Rightarrow> nat \<Rightarrow> int \<Rightarrow> 'a kwq_scheme \<Rightarrow> ('a kwq_scheme \<times> int call) option" where
  "rt_wqueue_uwait tps q node msec s = do {
     let tk = (word_of_int (rt_tick_from_millisecond tps msec) :: u32);
     if tk = 0 then Some (s, Returns 0)
     else do {
       rt_debug_not_in_interrupt s;
       s1 \<leftarrow> rt_wqueue_wait_init node s;
       let s2 = rt_wqueue_add q node s1;
       if wq_flag s2 q = 0 then do {
         t \<leftarrow> cur s2;
         s3 \<leftarrow> wqueue_block t tk s2;
         if cur s3 \<noteq> Some t then Some (s3, Blocks) else Some (rt_wqueue_remove node s3, Returns 0)
       }
       else Some (s2, Returns 0)
     }
   }"

section \<open>Polling\<close>

text \<open>\<open>mem\<close> is the node that the heap has for the request.\<close>

definition poll_add :: "nat \<Rightarrow> nat \<Rightarrow> tid option \<Rightarrow> u16 \<Rightarrow> nat option \<Rightarrow> 'a kwq_scheme \<Rightarrow> 'a kwq_scheme option" where
  "poll_add q pt thread key mem s =
     (case mem of
        None \<Rightarrow> Some s
      | Some node \<Rightarrow> do {
          rt_assert (wq_unlinked node s);
          Some (rt_wqueue_add q node
            (s\<lparr>wq_node := (wq_node s)(node := \<lparr>polling_thread = thread, wakeup = PollWake pt, wq_key = key\<rparr>)\<rparr>))
        })"

definition poll_wait_timeout ::
  "int \<Rightarrow> nat \<Rightarrow> tid \<Rightarrow> int \<Rightarrow> 'a kwq_scheme \<Rightarrow> ('a kwq_scheme \<times> bool call) option" where
  "poll_wait_timeout tps pt thread msec s = do {
     let timeout = (word_of_int (rt_tick_from_millisecond tps msec) :: u32);
     if timeout \<noteq> 0 \<and> \<not> triggered s pt then do {
       (s1, _) \<leftarrow> rt_thread_suspend thread s;
       s2 \<leftarrow> start_wait thread timeout s1;
       if cur s2 \<noteq> Some thread then Some (s2, Blocks) else Some (s2, Returns (\<not> triggered s2 pt))
     }
     else Some (s, Returns (\<not> triggered s pt))
   }"

definition poll_teardown :: "nat list \<Rightarrow> 'a kwq_scheme \<Rightarrow> 'a kwq_scheme" where
  "poll_teardown nodes s = fold rt_wqueue_remove nodes s"

section \<open>Waiting and waking\<close>

lemma kwq_more_eq:
  fixes s :: "'a kwq_scheme"
  assumes "ktimer.more s' = ktimer.more s"
  shows "wq_list s' = wq_list s" "wq_flag s' = wq_flag s" "wq_node s' = wq_node s" "triggered s' = triggered s"
  using assms by (cases s; cases s'; simp)+

lemma kinv_wq [simp]:
  "kinv X b (set_wq_flag q v s) = kinv X b s" "kinv X b (rt_wqueue_remove node s) = kinv X b s"
  "kinv X b (rt_wqueue_add q node s) = kinv X b s" "kinv X b (s\<lparr>triggered := tr\<rparr>) = kinv X b s"
  "kinv X b (s\<lparr>wq_node := nd\<rparr>) = kinv X b s"
  by (rule kinv_cong; simp add: set_wq_flag_def rt_wqueue_remove_def rt_wqueue_add_def)+

lemma wq_sel [simp]:
  "wq_list (set_wq_flag q v s) = wq_list s" "wq_node (set_wq_flag q v s) = wq_node s" "triggered (set_wq_flag q v s) = triggered s"
  "wq_flag (set_wq_flag q v s) = (wq_flag s)(q := v)"
  "wq_list (rt_wqueue_remove node s) = ls_remove node (wq_list s)" "wq_node (rt_wqueue_remove node s) = wq_node s"
  "triggered (rt_wqueue_remove node s) = triggered s" "wq_flag (rt_wqueue_remove node s) = wq_flag s"
  "thr (set_wq_flag q v s) = thr s" "cur (set_wq_flag q v s) = cur s" "tstat (set_wq_flag q v s) t = tstat s t"
  "prio_of (set_wq_flag q v s) t = prio_of s t" "lock_nest (set_wq_flag q v s) = lock_nest s"
  "thr (rt_wqueue_remove node s) = thr s" "cur (rt_wqueue_remove node s) = cur s" "tstat (rt_wqueue_remove node s) t = tstat s t"
  "prio_of (rt_wqueue_remove node s) t = prio_of s t" "lock_nest (rt_wqueue_remove node s) = lock_nest s"
  "irq_nest (rt_wqueue_remove node s) = irq_nest s" "irq_nest (set_wq_flag q v s) = irq_nest s"
  "timer_list (rt_wqueue_remove node s) = timer_list s" "timer_list (set_wq_flag q v s) = timer_list s"
  by (simp_all add: set_wq_flag_def rt_wqueue_remove_def tstat_def prio_of_def)

definition accepts :: "u32 \<Rightarrow> rt_wqueue_node \<Rightarrow> bool" where
  "accepts key nd \<longleftrightarrow> (case wakeup nd of DefaultWake \<Rightarrow> True | PollWake _ \<Rightarrow> key = 0 \<or> key AND ucast (wq_key nd) \<noteq> 0)"

definition mark_trigger :: "nat \<Rightarrow> 'a kwq_scheme \<Rightarrow> 'a kwq_scheme" where
  "mark_trigger node s =
     (case wakeup (wq_node s node) of DefaultWake \<Rightarrow> s | PollWake pt \<Rightarrow> s\<lparr>triggered := (triggered s)(pt := True)\<rparr>)"

lemma mark_trigger_sel [simp]:
  "wq_list (mark_trigger node s) = wq_list s" "wq_node (mark_trigger node s) = wq_node s" "thr (mark_trigger node s) = thr s"
  "cur (mark_trigger node s) = cur s" "tstat (mark_trigger node s) t = tstat s t" "prio_of (mark_trigger node s) t = prio_of s t"
  "lock_nest (mark_trigger node s) = lock_nest s" "kinv X b (mark_trigger node s) = kinv X b s" "irq_nest (mark_trigger node s) = irq_nest s"
  "timer_list (mark_trigger node s) = timer_list s" "wq_flag (mark_trigger node s) = wq_flag s"
  by (simp_all add: mark_trigger_def tstat_def prio_of_def split: wqueue_func.split)

lemma call_wakeup_eq: "call_wakeup node key s = (if accepts key (wq_node s node) then (mark_trigger node s, 0) else (s, -1))"
  by (simp add: call_wakeup_def accepts_def mark_trigger_def wqueue_default_wake_def wqueue_pollwake_def split: wqueue_func.split)

lemma wqueue_walk_rejected:
  "\<forall>x \<in> set xs. \<not> accepts key (wq_node s x) \<Longrightarrow> wqueue_walk (xs @ nodes) key s = wqueue_walk nodes key s"
  by (induction xs) (simp_all add: call_wakeup_eq)

text \<open>What a wake-up that finds a node does with its thread \<open>t\<close>, in a state where \<open>t\<close> waits.\<close>

lemma rt_wqueue_wakeup_ok:
  fixes s :: "'a kwq_scheme"
  assumes inv: "kinv {} b s" and c: "cur s = Some c" and l: "wq_list s q = xs @ node # ys" "node \<notin> set (xs @ ys)"
    and rej: "\<forall>x \<in> set xs. \<not> accepts key (wq_node s x)" and acc: "accepts key (wq_node s node)"
    and t: "polling_thread (wq_node s node) = Some t" "live s t"
  obtains s' where "rt_wqueue_wakeup q key s = Some s'" "kinv {} b s'" "wq_list s' q = xs @ ys"
    "\<And>q'. set (wq_list s' q') = set (wq_list s q') - {node}"
    "\<And>p. triggered s' p = (triggered s p \<or> wakeup (wq_node s node) = PollWake p)"
    "wq_node s' = wq_node s" "wq_flag s' q = 0" "irq_nest s' = irq_nest s" "lock_nest s' = lock_nest s" "cur s' \<noteq> None"
    "\<And>u. tstat s' u = (if u = t \<and> tstat s t = RT_THREAD_SUSPEND then RT_THREAD_READY else tstat s u)"
    "tstat s t = RT_THREAD_SUSPEND \<Longrightarrow> timer_list s' = removeAll (ThreadTimer t) (timer_list s)"
    "tstat s t = RT_THREAD_SUSPEND \<Longrightarrow> lock_nest s = 0 \<Longrightarrow>
       \<forall>u. tstat s u = RT_THREAD_READY \<longrightarrow> prio_of s t < prio_of s u \<Longrightarrow> cur s' = Some t"
proof -
  let ?s1 = "mark_trigger node (set_wq_flag q 1 s)"
  let ?s2 = "if tstat s t = RT_THREAD_SUSPEND then resume_state t ?s1 else ?s1"
  let ?s3 = "set_wq_flag q 0 (rt_wqueue_remove node ?s2)"
  have k1: "kinv {} b ?s1" using inv by simp
  have st: "tstat ?s1 t = tstat s t" by simp
  have ty: "rt_object_get_type (ThreadObj t) ?s1 = RT_Object_Class_Thread"
    using kinvD(5)[OF k1, of t] t(2) by (simp add: live_def thread_obj_ok_def)
  have res: "\<exists>r. rt_thread_resume t ?s1 = Some (?s2, r)"
    using rt_thread_resume_ok(1)[OF k1, of t] ty by (auto simp: rt_thread_resume_def)
  have k2: "kinv {} b ?s2" using k1 rt_thread_resume_ok(2)[OF k1, of t] by simp
  have m2: "ktimer.more ?s2 = ktimer.more ?s1" by simp
  note w2 = kwq_more_eq[OF m2]
  have k3: "kinv {} b ?s3" and c3: "cur ?s3 = Some c" using k2 c by simp_all
  obtain s' where s': "rt_schedule ?s3 = Some s'" "kinv {} b s'" "thr s' = thr ?s3" "cur s' \<noteq> None"
    "kbase.more s' = kbase.more ?s3" "lock_nest s' = lock_nest ?s3" "irq_nest s' = irq_nest ?s3"
    by (rule rt_schedule_kinv[OF k3 c3])
  note m' = ktimer_more_eq[OF s'(5)]
  note w' = kwq_more_eq[of s' ?s3, OF m'(5)]
  have "wqueue_walk (wq_list s q) key (set_wq_flag q 1 s) = Some (rt_wqueue_remove node ?s2, True)"
    using l(1) rej acc t(1) res wqueue_walk_rejected[of xs key "set_wq_flag q 1 s" "node # ys"]
    by (auto simp: call_wakeup_eq)
  then have run: "rt_wqueue_wakeup q key s = Some s'" using l(1) s'(1) by (simp add: rt_wqueue_wakeup_def)
  have ts: "tstat s' u = (if u = t \<and> tstat s t = RT_THREAD_SUSPEND then RT_THREAD_READY else tstat s u)" for u
    using s'(3) by (simp add: tstat_def)
  show thesis
  proof (rule that[OF run s'(2)])
    show "wq_list s' q = xs @ ys" using w'(1) w2(1) l by (simp add: ls_remove_def)
    show "set (wq_list s' q') = set (wq_list s q') - {node}" for q' using w'(1) w2(1) by (simp add: ls_remove_def)
    show "triggered s' p = (triggered s p \<or> wakeup (wq_node s node) = PollWake p)" for p
      using w'(4) w2(4) by (auto simp: mark_trigger_def split: wqueue_func.split)
    show "cur s' = Some t" if sus: "tstat s t = RT_THREAD_SUSPEND" and l0: "lock_nest s = 0"
      and hi: "\<forall>u. tstat s u = RT_THREAD_READY \<longrightarrow> prio_of s t < prio_of s u"
    proof -
      obtain c' where c': "cur s' = Some c'" "tstat ?s3 c' = RT_THREAD_READY" "prio_of ?s3 c' \<le> prio_of ?s3 t"
        using rt_schedule_picks[OF kinvD(1)[OF k3] c3 _ _ s'(1), of t] sus l0 by auto
      then show ?thesis using hi[rule_format, of c'] sus by (auto split: if_splits)
    qed
  qed (use s' w' w2 m' ts rt_thread_resume_ok(3)[OF k1, of t] in \<open>auto\<close>)
qed

text \<open>Suspending the running thread outside of any list, with its timer.\<close>

lemma suspend_wait_ok:
  assumes inv: "kinv {} b s" and t: "cur s = Some t" "tstat s t = RT_THREAD_READY" and tm: "time_ok tk" "sint tk > 0 \<or> tk = RT_WAITING_FOREVER"
  obtains s' where "do { (s1, _) \<leftarrow> rt_thread_suspend t s; start_wait t tk s1 } = Some s'" "wqueue_block t tk s = Some s'"
    "kinv {} b s'" "\<And>u. tstat s' u = (if u = t then RT_THREAD_SUSPEND else tstat s u)" "ktimer.more s' = ktimer.more s"
    "irq_nest s' = irq_nest s" "lock_nest s' = lock_nest s" "cur s' \<noteq> None"
    "0 < sint tk \<Longrightarrow> ThreadTimer t \<in> set (timer_list s') \<and> due (tick s') s' (ThreadTimer t) = unat tk"
    "\<And>u. lock_nest s = 0 \<Longrightarrow> u \<noteq> t \<Longrightarrow> tstat s u = RT_THREAD_READY \<Longrightarrow> cur s' \<noteq> Some t"
proof -
  note sus = rt_thread_suspend_ok[OF inv t]
  let ?s1 = "suspend_state t s"
  have c1: "cur ?s1 = Some t" "tstat ?s1 t = RT_THREAD_SUSPEND" using t by simp_all
  obtain s' where s': "start_wait t tk ?s1 = Some s'" "kinv {} b s'" "\<And>u. tstat s' u = tstat ?s1 u"
    "ktimer.more s' = ktimer.more ?s1" "lock_nest s' = lock_nest ?s1" "irq_nest s' = irq_nest ?s1" "cur s' \<noteq> None"
    "0 < sint tk \<Longrightarrow> ThreadTimer t \<in> set (timer_list s') \<and> due (tick s') s' (ThreadTimer t) = unat tk"
    "\<And>u. lock_nest ?s1 = 0 \<Longrightarrow> tstat ?s1 u = RT_THREAD_READY \<Longrightarrow> cur s' \<noteq> Some t"
    by (rule start_wait_ok[OF sus(2) c1 tm(1)]) auto
  have "sint (RT_WAITING_FOREVER) = -1" by simp
  then have "wqueue_block t tk s = start_wait t tk ?s1"
    using sus(1) tm(2) by (auto simp: wqueue_block_def start_wait_def)
  moreover have "cur s' \<noteq> Some t" if "lock_nest s = 0" "u \<noteq> t" "tstat s u = RT_THREAD_READY" for u
    using s'(9)[of u] that by simp
  ultimately show thesis using s'(1-8) sus(1) by (intro that) auto
qed


text \<open>
  C40. A poll is never triggered by an event. \<^verbatim>\<open>_poll_add\<close> stores the events it waits for in the node, but
  \<^verbatim>\<open>rt_wqueue_add\<close> clears them again. From then on, whatever other nodes are in the queue, a wake-up for some
  events does not accept the node: the node stays in the queue, the poll is not triggered, and the
  thread stays suspended if no other node belongs to it.
\<close>

theorem poll_wakeup_ignored:
  fixes s :: "'a kwq_scheme"
  assumes inv: "kinv {} b s" and c: "cur s = Some c" and add: "poll_add q pt (Some t) evts (Some node) s0 = Some s1"
    and later: "wq_node s node = wq_node s1 node" "node \<in> set (wq_list s q)" "key \<noteq> 0"
    and oth: "\<forall>x \<in> set (wq_list s q) - {node}. \<exists>u. polling_thread (wq_node s x) = Some u \<and> u \<noteq> t \<and> live s u \<and>
      wakeup (wq_node s x) \<noteq> PollWake pt"
    and d: "distinct (wq_list s q)"
  shows "\<exists>s'. rt_wqueue_wakeup q key s = Some s' \<and> kinv {} b s' \<and> node \<in> set (wq_list s' q) \<and> triggered s' pt = triggered s pt \<and>
    tstat s' t = tstat s t"
proof -
  have n: "wq_node s node = \<lparr>polling_thread = Some t, wakeup = PollWake pt, wq_key = 0\<rparr>"
    using add later(1) by (auto simp: poll_add_def rt_wqueue_add_def split: if_splits)
  have rej: "\<not> accepts key (wq_node s node)" using later(3) by (simp add: n accepts_def)
  show ?thesis
  proof (cases "\<exists>x \<in> set (wq_list s q). accepts key (wq_node s x)")
    case True
    then obtain xs x ys where x: "wq_list s q = xs @ x # ys" "accepts key (wq_node s x)" "\<forall>z \<in> set xs. \<not> accepts key (wq_node s z)"
      using split_list_first_prop[of "wq_list s q" "\<lambda>x. accepts key (wq_node s x)"] by blast
    have xn: "x \<noteq> node" "x \<notin> set (xs @ ys)" using x rej d by auto
    then obtain u where u: "polling_thread (wq_node s x) = Some u" "u \<noteq> t" "live s u" "wakeup (wq_node s x) \<noteq> PollWake pt"
      using oth x(1) by auto
    obtain s' where s': "rt_wqueue_wakeup q key s = Some s'" "kinv {} b s'" "wq_list s' q = xs @ ys"
      "\<And>v. tstat s' v = (if v = u \<and> tstat s u = RT_THREAD_SUSPEND then RT_THREAD_READY else tstat s v)"
      "\<And>p. triggered s' p = (triggered s p \<or> wakeup (wq_node s x) = PollWake p)"
      by (rule rt_wqueue_wakeup_ok[OF inv c x(1) xn(2) x(3,2) u(1,3)]) blast
    then show ?thesis using later(2) x(1) xn(1) u(2,4) by (intro exI[of _ s']) auto
  next
    case False
    then have "wqueue_walk (wq_list s q) key (set_wq_flag q 1 s) = Some (set_wq_flag q 1 s, False)"
      using wqueue_walk_rejected[of "wq_list s q" key "set_wq_flag q 1 s" "[]"] by simp
    then have "rt_wqueue_wakeup q key s = Some (set_wq_flag q 0 (set_wq_flag q 1 s))"
      using later(2) by (auto simp: rt_wqueue_wakeup_def Let_def)
    then show ?thesis using inv later(2) by simp
  qed
qed

section \<open>Examples\<close>

text \<open>Nodes 0 and 1 are in queue 0: a poll of thread 3, which is suspended, and the running thread 1.\<close>

definition demo_wq :: kwq where
  "demo_wq = kernel.extend demo_ipc (kwq.fields ((\<lambda>_. [])(0 := [0, 1])) (\<lambda>_. 0)
     ((\<lambda>_. \<lparr>polling_thread = Some 1, wakeup = DefaultWake, wq_key = 0\<rparr>)
        (0 := \<lparr>polling_thread = Some 3, wakeup = PollWake 0, wq_key = 0\<rparr>)) (\<lambda>_. False))"

lemma demo_wq_kernel: "demo_wq = demo_kernel (ktimer.more demo_wq)"
  by (simp add: demo_wq_def demo_ipc_def demo_kernel_def kernel.defs kwq.defs)

lemma demo_wq_sel [simp]:
  "wq_list demo_wq = (\<lambda>_. [])(0 := [0, 1])" "polling_thread (wq_node demo_wq (Suc 0)) = Some 1" "wakeup (wq_node demo_wq (Suc 0)) = DefaultWake"
  "wq_node demo_wq 0 = \<lparr>polling_thread = Some 3, wakeup = PollWake 0, wq_key = 0\<rparr>"
  "triggered demo_wq 0 = False"
  by (simp_all add: demo_wq_def demo_ipc_def demo_kernel_def kernel.defs kwq.defs)

lemma demo_wq_state [simp]:
  "kinv {} 100 demo_wq" "cur demo_wq = Some 1" "tstat demo_wq (Suc 0) = RT_THREAD_READY" "tstat demo_wq 2 = RT_THREAD_READY"
  "tstat demo_wq 3 = RT_THREAD_SUSPEND" "irq_nest demo_wq = 0" "lock_nest demo_wq = 0"
proof -
  show "kinv {} 100 demo_wq" by (subst demo_wq_kernel) (rule demo_kernel_inv)
qed (simp_all add: demo_wq_def demo_ipc_def demo_kernel_def kernel.defs tstat_def)


theorem poll_wakeup_ignored_witness:
  "\<exists>s1 s'. poll_add 0 0 (Some 3) 5 (Some 0) (demo_wq\<lparr>wq_list := \<lambda>_. []\<rparr>) = Some s1 \<and>
     rt_wqueue_wakeup 0 1 demo_wq = Some s' \<and> 0 \<in> set (wq_list s' 0) \<and> \<not> triggered s' 0 \<and> tstat s' 3 = RT_THREAD_SUSPEND"
proof -
  obtain s1 where s1: "poll_add 0 0 (Some 3) 5 (Some 0) (demo_wq\<lparr>wq_list := \<lambda>_. []\<rparr>) = Some s1" "wq_node s1 0 = wq_node demo_wq 0"
    by (simp add: poll_add_def wq_unlinked_def rt_wqueue_add_def)
  have "\<exists>s'. rt_wqueue_wakeup 0 1 demo_wq = Some s' \<and> kinv {} 100 s' \<and> 0 \<in> set (wq_list s' 0) \<and> triggered s' 0 = triggered demo_wq 0 \<and>
      tstat s' 3 = tstat demo_wq 3"
    by (rule poll_wakeup_ignored[OF demo_wq_state(1,2) s1(1)]) (use s1(2) in \<open>simp_all add: live_def\<close>)
  then show ?thesis using s1(1) by auto
qed

text \<open>
  Two more faults. A wake-up of an empty queue leaves the flag set; a thread that then calls
  \<^verbatim>\<open>rt_wqueue_uwait\<close> returns at once with the node of its finished call still in the queue. A wait without
  a node, which the pipe and the ADC driver ask for, reads through a null pointer.
\<close>

theorem rt_wqueue_uwait_leaves_node:
  fixes s :: "'a kwq_scheme"
  assumes "wq_list s q = []" "wq_unlinked node s" "irq_nest s = 0" "word_of_int (rt_tick_from_millisecond tps ms) \<noteq> (0 :: u32)"
  shows "\<exists>s1 s2. rt_wqueue_wakeup q key s = Some s1 \<and> rt_wqueue_uwait tps q node ms s1 = Some (s2, Returns 0) \<and> wq_list s2 q = [node]"
proof -
  have "wq_unlinked node (set_wq_flag q 1 s)" "irq_nest (set_wq_flag q 1 s) = 0" using assms(2,3) by (simp_all add: wq_unlinked_def)
  then show ?thesis
    using assms by (simp add: rt_wqueue_wakeup_def rt_wqueue_uwait_def rt_wqueue_wait_init_def rt_wqueue_add_def
        rt_debug_not_in_interrupt_def ls_insert_before_def)
qed

theorem rt_wqueue_wait_null:
  assumes "word_of_int (rt_tick_from_millisecond tps ms) \<noteq> (0 :: u32)"
  shows "rt_wqueue_wait tps None ms s = None"
  using assms by (simp add: rt_wqueue_wait_def)

end
