(* ===== verification/WorkQueue.thy ===== *)
theory WorkQueue
  imports Ipc
begin

text \<open>
  The work queues of \<^verbatim>\<open>components/drivers/src/workqueue.c\<close>: a list of works and a thread that does them one
  after the other. The memory of a queue, of its thread and of the stack are arguments. The loop of the
  thread is split where it can be preempted: \<open>work_idle\<close> is what it does after it has found the list empty,
  \<open>work_next\<close> takes the next work from the list. A call of \<^verbatim>\<open>rt_workqueue_dowork\<close> that is preempted at the
  end of its critical section goes on with \<open>rt_workqueue_dowork_end\<close>.
\<close>

section \<open>Definitions\<close>

record kwork = kernel +
  work_list :: "nat \<Rightarrow> nat list"
  work_thread :: "nat \<Rightarrow> tid"

definition work_idle :: "'a kwork_scheme \<Rightarrow> 'a kwork_scheme option" where
  "work_idle s = do {
     t \<leftarrow> rt_thread_self s;
     (s1, _) \<leftarrow> rt_thread_suspend t s;
     rt_schedule s1
   }"

text \<open>On an empty list the head itself is taken for a work, which is undefined.\<close>

definition work_next :: "nat \<Rightarrow> 'a kwork_scheme \<Rightarrow> ('a kwork_scheme \<times> nat) option" where
  "work_next q s = do {
     let s1 = rt_enter_critical s;
     work \<leftarrow> (case work_list s1 q of [] \<Rightarrow> None | w # _ \<Rightarrow> Some w);
     let s2 = s1\<lparr>work_list := ls_remove work (work_list s1)\<rparr>;
     s3 \<leftarrow> rt_exit_critical s2;
     Some (s3, work)
   }"

text \<open>
  One round of the loop; \<open>func\<close> stands for the functions of the works. A round that gives up the processor
  is \<open>Blocks\<close>, and the thread goes on with \<open>workqueue_thread_rest\<close>.
\<close>

definition workqueue_thread_rest ::
  "(nat \<Rightarrow> 'a kwork_scheme \<Rightarrow> 'a kwork_scheme option) \<Rightarrow> nat \<Rightarrow> 'a kwork_scheme \<Rightarrow> ('a kwork_scheme \<times> nat call) option" where
  "workqueue_thread_rest func q s = do {
     (s1, work) \<leftarrow> work_next q s;
     if cur s1 \<noteq> cur s then Some (s1, Blocks)
     else do {
       s2 \<leftarrow> func work s1;
       Some (s2, Returns work)
     }
   }"

definition workqueue_thread_round ::
  "(nat \<Rightarrow> 'a kwork_scheme \<Rightarrow> 'a kwork_scheme option) \<Rightarrow> nat \<Rightarrow> 'a kwork_scheme \<Rightarrow> ('a kwork_scheme \<times> nat call) option" where
  "workqueue_thread_round func q s =
     (if work_list s q = [] then do {
        s1 \<leftarrow> work_idle s;
        if cur s1 \<noteq> cur s then Some (s1, Blocks) else workqueue_thread_rest func q s1
      }
      else workqueue_thread_rest func q s)"

definition rt_workqueue_create ::
  "u8 list \<Rightarrow> u8 \<Rightarrow> nat option \<Rightarrow> tid option \<Rightarrow> bool \<Rightarrow> 'a kwork_scheme \<Rightarrow> ('a kwork_scheme \<times> nat option) option" where
  "rt_workqueue_create nm priority mem tmem stack s =
     (case mem of
        None \<Rightarrow> Some (s, None)
      | Some q \<Rightarrow> do {
          let s1 = s\<lparr>work_list := (work_list s)(q := [])\<rparr>;
          (s2, r) \<leftarrow> rt_thread_create nm priority 10 tmem stack s1;
          (case r of
             None \<Rightarrow> Some (s2, None)
           | Some t \<Rightarrow> do {
               let s3 = s2\<lparr>work_thread := (work_thread s2)(q := t)\<rparr>;
               (s4, _) \<leftarrow> rt_thread_startup t s3;
               Some (s4, Some q)
             })
        })"

definition rt_workqueue_destroy :: "nat \<Rightarrow> 'a kwork_scheme \<Rightarrow> ('a kwork_scheme \<times> rt_err) option" where
  "rt_workqueue_destroy q s = do {
     (s1, _) \<leftarrow> rt_thread_delete (work_thread s q) s;
     Some (s1, RT_EOK)
   }"

definition rt_workqueue_dowork_end :: "nat \<Rightarrow> 'a kwork_scheme \<Rightarrow> ('a kwork_scheme \<times> rt_err) option" where
  "rt_workqueue_dowork_end q s = do {
     (s1, _) \<leftarrow> rt_thread_resume (work_thread s q) s;
     s2 \<leftarrow> rt_schedule s1;
     Some (s2, RT_EOK)
   }"

definition rt_workqueue_dowork :: "nat \<Rightarrow> nat \<Rightarrow> 'a kwork_scheme \<Rightarrow> ('a kwork_scheme \<times> rt_err call) option" where
  "rt_workqueue_dowork q work s = do {
     let s1 = rt_enter_critical s;
     let s2 = s1\<lparr>work_list := ls_insert_before q work (ls_remove work (work_list s1))\<rparr>;
     if stat (thr s2 (work_thread s2 q)) \<noteq> RT_THREAD_READY then do {
       s3 \<leftarrow> rt_exit_critical s2;
       if cur s3 \<noteq> cur s then Some (s3, Blocks)
       else do {
         (s4, r) \<leftarrow> rt_workqueue_dowork_end q s3;
         Some (s4, Returns r)
       }
     }
     else do {
       s3 \<leftarrow> rt_exit_critical s2;
       Some (s3, Returns RT_EOK)
     }
   }"

text \<open>The code of \<^verbatim>\<open>rt_workqueue_critical_work\<close> is that of \<^verbatim>\<open>rt_workqueue_dowork\<close>.\<close>

definition rt_workqueue_critical_work :: "nat \<Rightarrow> nat \<Rightarrow> 'a kwork_scheme \<Rightarrow> ('a kwork_scheme \<times> rt_err call) option" where
  "rt_workqueue_critical_work q work s = do {
     let s1 = rt_enter_critical s;
     let s2 = s1\<lparr>work_list := ls_insert_before q work (ls_remove work (work_list s1))\<rparr>;
     if stat (thr s2 (work_thread s2 q)) \<noteq> RT_THREAD_READY then do {
       s3 \<leftarrow> rt_exit_critical s2;
       if cur s3 \<noteq> cur s then Some (s3, Blocks)
       else do {
         (s4, r) \<leftarrow> rt_workqueue_dowork_end q s3;
         Some (s4, Returns r)
       }
     }
     else do {
       s3 \<leftarrow> rt_exit_critical s2;
       Some (s3, Returns RT_EOK)
     }
   }"

definition rt_workqueue_cancel_work :: "nat \<Rightarrow> 'a kwork_scheme \<Rightarrow> ('a kwork_scheme \<times> rt_err) option" where
  "rt_workqueue_cancel_work work s = do {
     let s1 = rt_enter_critical s;
     s2 \<leftarrow> rt_exit_critical (s1\<lparr>work_list := ls_remove work (work_list s1)\<rparr>);
     Some (s2, RT_EOK)
   }"

definition rt_workqueue_cancel_all_work :: "nat \<Rightarrow> 'a kwork_scheme \<Rightarrow> ('a kwork_scheme \<times> rt_err) option" where
  "rt_workqueue_cancel_all_work q s = do {
     let s1 = rt_enter_critical s;
     s2 \<leftarrow> rt_exit_critical (s1\<lparr>work_list := fold ls_remove (work_list s1 q) (work_list s1)\<rparr>);
     Some (s2, RT_EOK)
   }"

section \<open>Queueing and doing works\<close>

lemma kwork_more_eq:
  fixes s :: "'a kwork_scheme"
  assumes "ktimer.more s' = ktimer.more s"
  shows "work_list s' = work_list s" "work_thread s' = work_thread s"
  using assms by (cases s; cases s'; simp)+

lemma kinv_work [simp]: "kinv X b (s\<lparr>work_list := l\<rparr>) = kinv X b s"
  by (rule kinv_cong) simp_all

lemma work_list_critical: "(rt_enter_critical s)\<lparr>work_list := l\<rparr> = rt_enter_critical (s\<lparr>work_list := l\<rparr>)"
  by (simp add: rt_enter_critical_def)

lemma work_list_enter [simp]:
  "work_list (rt_enter_critical s) = work_list s" "work_thread (rt_enter_critical s) = work_thread s"
  "thr (rt_enter_critical s) = thr s" for s :: "'a kwork_scheme"
  by (simp_all add: rt_enter_critical_def)

text \<open>A critical section that changes the list of works, outside of any other.\<close>

lemma work_section_ok:
  fixes s :: "'a kwork_scheme"
  assumes inv: "kinv {} b s" and c: "cur s = Some c" and l: "lock_nest s = 0"
  obtains s' where "rt_exit_critical ((rt_enter_critical s)\<lparr>work_list := wl\<rparr>) = Some s'" "kinv {} b s'" "thr s' = thr s"
    "cur s' \<noteq> None" "lock_nest s' = 0" "irq_nest s' = irq_nest s" "work_list s' = wl" "work_thread s' = work_thread s"
proof -
  let ?s = "s\<lparr>work_list := wl\<rparr>"
  have k: "kinv {} b ?s" "cur ?s = Some c" using inv c by simp_all
  obtain s' where s': "rt_schedule ?s = Some s'" "kinv {} b s'" "thr s' = thr ?s" "cur s' \<noteq> None"
    "kbase.more s' = kbase.more ?s" "lock_nest s' = lock_nest ?s" "irq_nest s' = irq_nest ?s"
    by (rule rt_schedule_kinv[OF k])
  note w = kwork_more_eq[of s' ?s, OF ktimer_more_eq(5)[OF s'(5)]]
  have "rt_exit_critical ((rt_enter_critical s)\<lparr>work_list := wl\<rparr>) = Some s'"
    using exit_after_enter[of ?s] l s'(1) by (simp add: work_list_critical)
  then show thesis using s' w l by (intro that[of s']) simp_all
qed

lemma wake_worker_ok:
  fixes s :: "'a kwork_scheme"
  assumes inv: "kinv {} b s" and c: "cur s = Some c" and t: "tstat s (work_thread s q) = RT_THREAD_SUSPEND"
  obtains s' where "rt_workqueue_dowork_end q s = Some (s', RT_EOK)" "kinv {} b s'"
    "\<And>u. tstat s' u = (if u = work_thread s q then RT_THREAD_READY else tstat s u)" "work_list s' = work_list s"
    "lock_nest s' = lock_nest s" "cur s' \<noteq> None"
    "lock_nest s = 0 \<Longrightarrow> \<forall>u. tstat s u = RT_THREAD_READY \<longrightarrow> prio_of s (work_thread s q) < prio_of s u \<Longrightarrow>
       cur s' = Some (work_thread s q)"
proof -
  let ?t = "work_thread s q"
  let ?s1 = "resume_state ?t s"
  note res = rt_thread_resume_ok[OF inv t]
  have c1: "cur ?s1 = Some c" using c by simp
  obtain s' where s': "rt_schedule ?s1 = Some s'" "kinv {} b s'" "thr s' = thr ?s1" "kbase.more s' = kbase.more ?s1"
    "lock_nest s' = lock_nest ?s1" "cur s' \<noteq> None" by (rule rt_schedule_kinv[OF res(2) c1])
  have m: "ktimer.more s' = ktimer.more s" using ktimer_more_eq(5)[OF s'(4)] by simp
  have ts: "tstat s' u = (if u = ?t then RT_THREAD_READY else tstat s u)" for u using s'(3) by (simp add: tstat_def)
  have "cur s' = Some ?t" if l: "lock_nest s = 0" and hi: "\<forall>u. tstat s u = RT_THREAD_READY \<longrightarrow> prio_of s ?t < prio_of s u"
  proof -
    obtain c' where c': "cur s' = Some c'" "tstat ?s1 c' = RT_THREAD_READY" "prio_of ?s1 c' \<le> prio_of ?s1 ?t"
      using rt_schedule_picks[OF kinvD(1)[OF res(2)] c1 _ _ s'(1), of ?t] l by auto
    then show ?thesis using hi[rule_format, of c'] by (auto split: if_splits)
  qed
  then show thesis
    using res(1) s'(1,2,5,6) ts kwork_more_eq(1)[OF m] by (intro that[of s']) (simp_all add: rt_workqueue_dowork_end_def)
qed

text \<open>
  C97. Work given to an idle work queue is done. \<^verbatim>\<open>rt_workqueue_dowork\<close> puts the work at the end of the list,
  also if it was in the list before, and makes the waiting thread ready; if the caller is preempted on
  the way, the rest of its call does so. If the thread has the highest priority it runs at once, and the
  next work it takes is the oldest one in the list.
\<close>

theorem rt_workqueue_dowork_wakes:
  fixes s :: "'a kwork_scheme"
  assumes inv: "kinv {} b s" and c: "cur s = Some c" and l: "lock_nest s = 0"
    and t: "work_thread s q = t" "stat (thr s t) = RT_THREAD_SUSPEND"
  shows "\<exists>s1 r. rt_workqueue_dowork q w s = Some (s1, r) \<and> kinv {} b s1 \<and> work_list s1 q = removeAll w (work_list s q) @ [w] \<and>
      (if r = Blocks then cur s1 \<noteq> Some c \<and> tstat s1 t = RT_THREAD_SUSPEND \<and>
         (\<exists>s2. rt_workqueue_dowork_end q s1 = Some (s2, RT_EOK) \<and> tstat s2 t = RT_THREAD_READY \<and> work_list s2 = work_list s1)
       else r = Returns RT_EOK \<and> tstat s1 t = RT_THREAD_READY \<and>
         ((\<forall>u. tstat s u = RT_THREAD_READY \<longrightarrow> prio_of s t < prio_of s u) \<longrightarrow> cur s1 = Some t)) \<and>
      (\<exists>s2. work_next q s1 = Some (s2, hd (removeAll w (work_list s q) @ [w])))"
proof -
  let ?wl = "ls_insert_before q w (ls_remove w (work_list s))"
  obtain s' where s': "rt_exit_critical ((rt_enter_critical s)\<lparr>work_list := ?wl\<rparr>) = Some s'" "kinv {} b s'" "thr s' = thr s"
    "cur s' \<noteq> None" "lock_nest s' = 0" "irq_nest s' = irq_nest s" "work_list s' = ?wl" "work_thread s' = work_thread s"
    by (rule work_section_ok[OF inv c l])
  have wl: "?wl q = removeAll w (work_list s q) @ [w]" by (simp add: ls_insert_before_def ls_remove_def)
  have st: "tstat s' u = tstat s u" "prio_of s' u = prio_of s u" for u using s'(3) by (simp_all add: tstat_def prio_of_def)
  have ts: "tstat s' (work_thread s' q) = RT_THREAD_SUSPEND" using t s'(3,8) by (simp add: tstat_def)
  obtain c' where c': "cur s' = Some c'" using s'(4) by auto
  obtain s2 where s2: "rt_workqueue_dowork_end q s' = Some (s2, RT_EOK)" "kinv {} b s2"
    "\<And>u. tstat s2 u = (if u = work_thread s' q then RT_THREAD_READY else tstat s' u)" "work_list s2 = work_list s'"
    "lock_nest s2 = lock_nest s'" "cur s2 \<noteq> None"
    "lock_nest s' = 0 \<Longrightarrow> \<forall>u. tstat s' u = RT_THREAD_READY \<longrightarrow> prio_of s' (work_thread s' q) < prio_of s' u \<Longrightarrow>
       cur s2 = Some (work_thread s' q)"
    by (rule wake_worker_ok[OF s'(2) c' ts], rule that)
  have run: "rt_workqueue_dowork q w s = (if cur s' \<noteq> cur s then Some (s', Blocks) else Some (s2, Returns RT_EOK))"
    using s'(1) s2(1) t by (simp add: rt_workqueue_dowork_def)
  have nx: "\<exists>s3. work_next q z = Some (s3, hd (work_list z q))" if z: "kinv {} b z" "lock_nest z = 0" "cur z \<noteq> None" "work_list z q \<noteq> []" for z :: "'a kwork_scheme"
  proof -
    obtain d x xs where d: "cur z = Some d" "work_list z q = x # xs" using z(3,4) by (cases "work_list z q") auto
    obtain z' where "rt_exit_critical ((rt_enter_critical z)\<lparr>work_list := ls_remove x (work_list z)\<rparr>) = Some z'"
      by (rule work_section_ok[OF z(1) d(1) z(2)])
    then show ?thesis using d(2) by (simp add: work_next_def)
  qed
  show ?thesis
  proof (cases "cur s' = cur s")
    case True
    obtain s3 where "work_next q s2 = Some (s3, hd (work_list s2 q))" using nx[OF s2(2)] s2(4-6) s'(5,7) wl by auto
    moreover have "cur s2 = Some t" if "\<forall>u. tstat s u = RT_THREAD_READY \<longrightarrow> prio_of s t < prio_of s u"
      using s2(7) s'(5,8) st t(1) that by simp
    ultimately show ?thesis using True run s2 s'(7,8) wl t(1) by (intro exI[of _ s2] exI[of _ "Returns RT_EOK"]) simp
  next
    case False
    obtain s3 where "work_next q s' = Some (s3, hd (work_list s' q))" using nx[OF s'(2)] s'(4,5,7) wl by auto
    moreover have "tstat s2 t = RT_THREAD_READY" using s2(3) s'(8) t(1) by simp
    ultimately show ?thesis using False run s2(1,4) s'(2,7,8) wl t(1) ts c by (intro exI[of _ s'] exI[of _ Blocks]) auto
  qed
qed

text \<open>
  C98. Work can be left undone. If the thread of the queue is preempted after it has found the list empty
  and before it suspends itself, a caller of \<^verbatim>\<open>rt_workqueue_dowork\<close> finds it ready and does not resume it. When
  the thread runs again, it suspends itself with the work in the list. And a thread
  that was resumed does not test the list again: if the work was cancelled meanwhile, it takes the head of
  the empty list for a work.
\<close>

theorem workqueue_loses_work:
  fixes s :: "'a kwork_scheme"
  assumes inv: "kinv {} b s" and c: "cur s = Some c" and l: "lock_nest s = 0"
    and t: "work_thread s q = t" "stat (thr s t) = RT_THREAD_READY" and e: "work_list s q = []"
  shows "(\<exists>s1. rt_workqueue_dowork q w s = Some (s1, Returns RT_EOK) \<and> kinv {} b s1 \<and> work_list s1 q = [w] \<and> thr s1 = thr s \<and>
      (\<forall>s2 :: 'a kwork_scheme. kinv {} b' s2 \<and> cur s2 = Some t \<and> tstat s2 t = RT_THREAD_READY \<and> work_list s2 = work_list s1 \<longrightarrow>
         (\<exists>s3. work_idle s2 = Some s3 \<and> kinv {} b' s3 \<and> tstat s3 t = RT_THREAD_SUSPEND \<and> work_list s3 q = [w]))) \<and>
      work_next q s = None"
proof
  let ?wl = "ls_insert_before q w (ls_remove w (work_list s))"
  obtain s1 where s1: "rt_exit_critical ((rt_enter_critical s)\<lparr>work_list := ?wl\<rparr>) = Some s1" "kinv {} b s1" "thr s1 = thr s"
    "work_list s1 = ?wl"
    by (rule work_section_ok[OF inv c l])
  have wl: "?wl q = [w]" using e by (simp add: ls_insert_before_def ls_remove_def)
  have run: "rt_workqueue_dowork q w s = Some (s1, Returns RT_EOK)" using s1(1) t by (simp add: rt_workqueue_dowork_def)
  have "\<exists>s3. work_idle s2 = Some s3 \<and> kinv {} b' s3 \<and> tstat s3 t = RT_THREAD_SUSPEND \<and> work_list s3 q = [w]"
    if k: "kinv {} b' s2" "cur s2 = Some t" "tstat s2 t = RT_THREAD_READY" "work_list s2 = work_list s1" for s2 :: "'a kwork_scheme"
  proof -
    note sus = rt_thread_suspend_ok[OF k(1-3)]
    have c2: "cur (suspend_state t s2) = Some t" using k(2) by simp
    obtain s3 where s3: "rt_schedule (suspend_state t s2) = Some s3" "kinv {} b' s3" "thr s3 = thr (suspend_state t s2)"
      "kbase.more s3 = kbase.more (suspend_state t s2)"
      by (rule rt_schedule_kinv[OF sus(2) c2])
    have "work_list s3 = work_list s2" using ktimer_more_eq(5)[OF s3(4)] by (intro kwork_more_eq(1)) simp
    then show ?thesis
      using sus(1) s3 k(2,4) s1(4) wl
      by (intro exI[of _ s3]) (auto simp: work_idle_def rt_thread_self_def tstat_def)
  qed
  then show "\<exists>s1. rt_workqueue_dowork q w s = Some (s1, Returns RT_EOK) \<and> kinv {} b s1 \<and> work_list s1 q = [w] \<and> thr s1 = thr s \<and>
      (\<forall>s2 :: 'a kwork_scheme. kinv {} b' s2 \<and> cur s2 = Some t \<and> tstat s2 t = RT_THREAD_READY \<and> work_list s2 = work_list s1 \<longrightarrow>
         (\<exists>s3. work_idle s2 = Some s3 \<and> kinv {} b' s3 \<and> tstat s3 t = RT_THREAD_SUSPEND \<and> work_list s3 q = [w]))"
    using run s1 wl by (intro exI[of _ s1]) auto
  show "work_next q s = None" using e by (simp add: work_next_def)
qed

lemma fold_ls_remove: "fold ls_remove xs f h = filter (\<lambda>x. x \<notin> set xs) (f h)"
  by (induction xs arbitrary: f) (auto simp: ls_remove_def removeAll_filter_not_eq conj_commute intro!: filter_cong)

lemma rt_workqueue_cancel_all_empties:
  fixes s :: "'a kwork_scheme"
  assumes "kinv {} b s" "cur s = Some c" "lock_nest s = 0"
  shows "\<exists>s'. rt_workqueue_cancel_all_work q s = Some (s', RT_EOK) \<and> kinv {} b s' \<and> thr s' = thr s \<and> work_list s' q = []"
  by (rule work_section_ok[OF assms, of "fold ls_remove (work_list s q) (work_list s)"])
     (simp add: rt_workqueue_cancel_all_work_def fold_ls_remove)

text \<open>Thread 3 is the suspended thread of queue 0, thread 2 the ready thread of queue 1.\<close>

definition demo_work :: kwork where
  "demo_work = kernel.extend demo_ipc (kwork.fields (\<lambda>_. []) ((\<lambda>_. 3)(1 := 2)))"

lemma demo_work_kernel: "demo_work = demo_kernel (ktimer.more demo_work)"
  by (simp add: demo_work_def demo_ipc_def demo_kernel_def kernel.defs kwork.defs)

lemma demo_work_state [simp]:
  "kinv {} 100 demo_work" "cur demo_work = Some 1" "lock_nest demo_work = 0" "work_list demo_work = (\<lambda>_. [])"
  "work_thread demo_work 0 = 3" "work_thread demo_work (Suc 0) = 2" "stat (thr demo_work 3) = RT_THREAD_SUSPEND"
  "stat (thr demo_work 2) = RT_THREAD_READY"
proof -
  show "kinv {} 100 demo_work" by (subst demo_work_kernel) (rule demo_kernel_inv)
qed (simp_all add: demo_work_def demo_ipc_def demo_kernel_def kernel.defs kwork.defs)

theorem rt_workqueue_dowork_wakes_witness:
  "\<exists>s1 r. rt_workqueue_dowork 0 7 demo_work = Some (s1, r) \<and> work_list s1 0 = [7] \<and> (\<exists>s2. work_next 0 s1 = Some (s2, 7))"
  using rt_workqueue_dowork_wakes[of 100 demo_work 1 0 3 7] by auto

theorem workqueue_loses_work_witness:
  "\<exists>s1. rt_workqueue_dowork 1 7 demo_work = Some (s1, Returns RT_EOK) \<and> work_list s1 1 = [7] \<and> tstat s1 2 = RT_THREAD_READY"
  using workqueue_loses_work[of 100 demo_work 1 1 2 7 100] by (auto simp: tstat_def)

end
