(* ===== verification/System.thy ===== *)
theory System
  imports Semaphore Clock
begin

text \<open>
  The kernel as a whole: threads that take and release semaphores, sleep and yield, under the tick
  interrupt and interrupts that release semaphores. A step is a call of the running thread, the end of
  a call that had blocked once its thread runs again, or an interrupt. What holds in every reachable
  state needs the scheduler, the timers, the threads and the semaphores together.
\<close>

section \<open>The running thread\<close>

definition runs_top :: "'a kbase_scheme \<Rightarrow> bool" where
  "runs_top s \<longleftrightarrow> lock_nest s = 0 \<and>
     (\<exists>c. cur s = Some c \<and> tstat s c = RT_THREAD_READY \<and> (\<forall>u. tstat s u = RT_THREAD_READY \<longrightarrow> prio_of s c \<le> prio_of s u))"

lemma runs_top_cong: "thr s' = thr s \<Longrightarrow> cur s' = cur s \<Longrightarrow> lock_nest s' = lock_nest s \<Longrightarrow> runs_top s' = runs_top s"
  by (simp add: runs_top_def tstat_def prio_of_def)

lemma runs_top_same:
  assumes "\<And>t. tstat s' t = tstat s t" "\<And>t. prio_of s' t = prio_of s t" "cur s' = cur s" "lock_nest s' = lock_nest s"
  shows "runs_top s' = runs_top s"
  using assms by (simp add: runs_top_def)

lemma runs_topD:
  assumes "runs_top s"
  obtains c where "cur s = Some c" "tstat s c = RT_THREAD_READY" "lock_nest s = 0"
  using assms by (auto simp: runs_top_def)

text \<open>The scheduler establishes it whenever some thread is ready.\<close>

lemma schedule_runs_top:
  assumes "sched_inv {} s" "cur s = Some c" "lock_nest s = 0" "tstat s u = RT_THREAD_READY" "rt_schedule s = Some s'"
  shows "runs_top s'"
proof -
  obtain c' where c': "thr s' = thr s" "cur s' = Some c'"
    "\<forall>t. tstat s t = RT_THREAD_READY \<longrightarrow> tstat s c' = RT_THREAD_READY \<and> prio_of s c' \<le> prio_of s t"
    using rt_schedule_highest[OF assms(1,2)] assms(3,5) by auto
  moreover have "lock_nest s' = 0" using rt_schedule_total[OF assms(1,2)] assms(3,5) by (metis option.inject)
  ultimately show ?thesis using assms(4) by (auto simp: runs_top_def tstat_def prio_of_def)
qed

section \<open>The calls\<close>

definition sys_ok :: "'a kernel_scheme \<Rightarrow> bool" where
  "sys_ok s \<longleftrightarrow> kinv {} (tick s) s \<and> runs_top s \<and> (\<forall>n. sem_ok n s)"

lemma sys_okD:
  assumes "sys_ok s"
  shows "kinv {} (tick s) s" "runs_top s" "lock_nest s = 0" "sem_ok n s"
  using assms by (auto simp: sys_ok_def runs_top_def)

lemma irq_sys_ok [simp]: "sys_ok (s\<lparr>irq_nest := i\<rparr>) = sys_ok s"
proof -
  have "kinv {} b (s\<lparr>irq_nest := i\<rparr>) = kinv {} b s" for b by (rule kinv_cong) simp_all
  moreover have "sem_ok n (s\<lparr>irq_nest := i\<rparr>) = sem_ok n s" for n by (rule sem_ok_cong) simp_all
  moreover have "runs_top (s\<lparr>irq_nest := i\<rparr>) = runs_top s" by (rule runs_top_cong) simp_all
  ultimately show ?thesis by (simp add: sys_ok_def)
qed

lemma set_sem_sys_ok:
  assumes ok: "sys_ok s" and v: "v > 0 \<Longrightarrow> tl s (sem_list n) = []"
  shows "sys_ok (set_sem n v s)"
proof -
  have "kinv {} (tick s) (set_sem n v s)" using sys_okD(1)[OF ok] by simp
  moreover have "tick (set_sem n v s) = tick s" by (simp add: set_sem_def)
  moreover have "runs_top (set_sem n v s)" using sys_okD(2)[OF ok] runs_top_cong[of "set_sem n v s" s] by simp
  moreover have "sem_ok m (set_sem n v s)" for m
    using sys_okD(4)[OF ok, of m] v by (auto simp: sem_ok_def rt_object_get_type_def)
  ultimately show ?thesis by (simp add: sys_ok_def)
qed

lemma ipc_block_top:
  assumes inv: "kinv {} b s" and t: "cur s = Some t" "tstat s t = RT_THREAD_READY"
    and h: "waiting_list h" and fl: "flag = RT_IPC_FLAG_FIFO \<or> flag = RT_IPC_FLAG_PRIO" and tm: "time_ok time"
    and l: "lock_nest s = 0" and u: "u \<noteq> t" "tstat s u = RT_THREAD_READY" and s': "ipc_block h t flag time s = Some s'"
  shows "runs_top s'"
proof -
  note sus = rt_ipc_list_suspend_ok[OF inv t h fl]
  let ?s1 = "blocked_state h t flag s"
  have "tstat ?s1 t = RT_THREAD_SUSPEND" by simp
  note eq = start_wait_eq[OF sus(2) this tm]
  have "rt_schedule (armed t time ?s1) = Some s'" using s' sus(1) eq(1) by (simp add: ipc_block_def)
  then show ?thesis
    by (rule schedule_runs_top[OF kinvD(1)[OF eq(2)], of t u, rotated 3]) (use t u l in simp_all)
qed

text \<open>A call that has to wait.\<close>

lemma take_blocks:
  fixes s :: "'a kernel_scheme"
  assumes ok: "sys_ok s" and irq: "irq_nest s = 0" and t: "cur s = Some t" and v: "sem_value (sems s n) = 0" and tm: "time_ok time"
    and u: "u \<noteq> t" "tstat s u = RT_THREAD_READY"
  obtains s' where "rt_sem_take n time s = Some (s', Blocks)" "sys_ok s'" "irq_nest s' = 0" "sems s' = sems s"
    "\<And>w. tstat s' w = (if w = t then RT_THREAD_SUSPEND else tstat s w)"
    "\<And>w. error (thr s' w) = (if w = t then RT_EOK else error (thr s w))"
    "\<And>m. set (tl s' (sem_list m)) = (if m = n then insert t (set (tl s (sem_list n))) else set (tl s (sem_list m)))"
proof -
  note k = sys_okD[OF ok]
  have tr: "tstat s t = RT_THREAD_READY" using k(2) t by (auto simp: runs_top_def)
  have fl: "oflag (objs s (sem_obj n)) = RT_IPC_FLAG_FIFO \<or> oflag (objs s (sem_obj n)) = RT_IPC_FLAG_PRIO"
    using k(4)[of n] by (simp add: sem_ok_def)
  let ?s1 = "upd_thr t (\<lambda>th. th\<lparr>error := RT_EOK\<rparr>) s"
  obtain s' where s': "ipc_block (sem_list n) t (oflag (objs s (sem_obj n))) time ?s1 = Some s'" "kinv {} (tick s) s'"
    "thr s' = (thr s)(t := set_stat RT_THREAD_SUSPEND ((thr s t)\<lparr>error := RT_EOK\<rparr>))"
    "\<And>j. (\<nexists>p. j = Ready p) \<Longrightarrow> tl s' j = (if j = sem_list n
       then queued (oflag (objs s (sem_obj n))) (\<lambda>u. current_priority (thr s u)) t (tl s (sem_list n)) else tl s j)"
    "\<And>i. objs s' (IpcObj i) = objs s (IpcObj i)" "ktimer.more s' = ktimer.more s" "irq_nest s' = irq_nest s" "tick s' = tick s"
    "\<And>u. lock_nest s = 0 \<Longrightarrow> u \<noteq> t \<Longrightarrow> tstat s u = RT_THREAD_READY \<Longrightarrow> cur s' \<noteq> Some t"
    "tstat s' t = RT_THREAD_SUSPEND"
    by (rule ipc_wait_outcomes[OF k(1) t tr _ fl tm, of "sem_list n"]) (auto simp del: upd_thr_sel)
  have ts: "tstat s' w = (if w = t then RT_THREAD_SUSPEND else tstat s w)" for w
    using s'(3,10) by (cases "w = t") (simp_all add: tstat_def)
  have sv: "sems s' = sems s" using kernel_more_eq(1)[OF s'(6)] .
  have "runs_top s'"
    by (rule ipc_block_top[OF clear_error_kinv[OF k(1)] _ _ _ fl tm _ u(1) _ s'(1)]) (use t tr u k(3) in simp_all)
  moreover have "sem_ok m s'" for m
    using k(4)[of m] s'(4)[of "sem_list m"] s'(5)[of "SemId m"] sv v by (auto simp: sem_ok_def rt_object_get_type_def)
  ultimately have ok': "sys_ok s'" using s'(2,8) by (simp add: sys_ok_def)
  have "rt_sem_take n time s = Some (s', Blocks)"
    using v tm irq k(4)[of n] s'(1) s'(9)[OF k(3) u] t
    by (simp add: rt_sem_take_def sem_ok_def time_ok_def in_thread)
  then show thesis
    by (rule that[OF _ ok' _ sv ts]) (use s'(3,4,7) irq in \<open>auto simp: set_stat_def\<close>)
qed

text \<open>A release that finds a waiting thread.\<close>

lemma release_wakes:
  fixes s :: "'a kernel_scheme"
  assumes ok: "sys_ok s" and l: "tl s (sem_list n) = w # ws"
  obtains s' where "rt_sem_release n s = Some (s', RT_EOK)" "sys_ok s'" "irq_nest s' = irq_nest s" "sems s' = sems s"
    "\<And>u. tstat s' u = (if u = w then RT_THREAD_READY else tstat s u)" "\<And>u. error (thr s' u) = error (thr s u)"
    "\<And>m. tl s' (sem_list m) = (if m = n then ws else tl s (sem_list m))" "w \<notin> set ws"
proof -
  note k = sys_okD[OF ok]
  obtain c where c: "cur s = Some c" "tstat s c = RT_THREAD_READY" using k(2) by (rule runs_topD)
  obtain s' where s': "rt_schedule (resume_state w s) = Some s'" "kinv {} (tick s) s'"
    "thr s' = (thr s)(w := set_stat RT_THREAD_READY (thr s w))"
    "\<And>u. tstat s' u = (if u = w then RT_THREAD_READY else tstat s u)"
    "\<And>j. (\<nexists>p. j = Ready p) \<Longrightarrow> tl s' j = (if j = sem_list n then ws else tl s j)"
    "\<And>i. objs s' (IpcObj i) = objs s (IpcObj i)" "ktimer.more s' = ktimer.more s" "tick s' = tick s"
    "irq_nest s' = irq_nest s"
    by (rule wake_schedule_ok[OF k(1) _ l c(1)]) auto
  have sv: "sems s' = sems s" using kernel_more_eq(1)[OF s'(7)] .
  have "runs_top s'"
    by (rule schedule_runs_top[OF kinvD(1)[OF rt_ipc_list_resume_ok(2)[OF k(1) _ l]] _ _ _ s'(1), of c w]) (use c k(3) in simp_all)
  moreover have "sem_ok m s'" for m
    using k(4)[of m] k(4)[of n] s'(5)[of "sem_list m"] s'(6)[of "SemId m"] sv l by (auto simp: sem_ok_def rt_object_get_type_def)
  ultimately have ok': "sys_ok s'" using s'(2,8) by (simp add: sys_ok_def)
  have "rt_sem_release n s = Some (s', RT_EOK)"
    using k(4)[of n] l rt_ipc_list_resume_ok(1)[OF k(1) _ l] s'(1) by (simp add: rt_sem_release_def sem_ok_def)
  moreover have "w \<notin> set ws"
    using sched_invD(1)[OF kinvD(1)[OF k(1)]] l unfolding lists_ok_def by (metis distinct.simps(2))
  ultimately show thesis
    by (intro that[OF _ ok' s'(9) sv]) (use s'(3-5) in \<open>auto simp: set_stat_def\<close>)
qed

lemma release_returns:
  fixes s :: "'a kernel_scheme"
  assumes "sys_ok s"
  shows "\<exists>s'. rt_sem_release n s = Some (s', RT_EOK)"
proof (cases "tl s (sem_list n)")
  case Nil
  then show ?thesis using sys_okD(4)[OF assms, of n] by (simp add: rt_sem_release_def sem_ok_def)
next
  case (Cons w ws)
  then show ?thesis using release_wakes[OF assms] by metis
qed

text \<open>Sleeping, yielding, and the end of a sleep.\<close>

lemma sleep_blocks:
  fixes s :: "'a kernel_scheme"
  assumes ok: "sys_ok s" and t: "cur s = Some t" and n: "n < RT_TICK_HALF" and u: "u \<noteq> t" "tstat s u = RT_THREAD_READY"
  obtains s' where "rt_thread_sleep n s = Some (s', Blocks)" "sys_ok s'" "irq_nest s' = irq_nest s" "sems s' = sems s"
    "\<And>w. tstat s' w = (if w = t then RT_THREAD_SUSPEND else tstat s w)" "\<And>w. error (thr s' w) = error (thr s w)"
    "\<And>m. tl s' (sem_list m) = tl s (sem_list m)"
proof -
  note k = sys_okD[OF ok]
  have tr: "tstat s t = RT_THREAD_READY" using k(2) t by (auto simp: runs_top_def)
  note sus = rt_thread_suspend_ok[OF k(1) t tr]
  let ?s1 = "suspend_state t s" and ?s2 = "arm t n (suspend_state t s)"
  have tok: "thread_obj_ok s t" using kinvD(5)[OF k(1), of t] tr by (simp add: live_def)
  have ty1: "rt_object_get_type (TimerObj (ThreadTimer t)) ?s1 = RT_Object_Class_Timer" using tok by (simp add: thread_obj_ok_def)
  have k2: "kinv {} (tick s) ?s2" by (rule kinv_arm[OF sus(2) _ n]) simp
  have c2: "cur ?s2 = Some t" using t by simp
  obtain s' where s': "rt_schedule ?s2 = Some s'" "kinv {} (tick s) s'" "thr s' = thr ?s2" "objs s' = objs ?s2"
    "kbase.more s' = kbase.more ?s2" "irq_nest s' = irq_nest ?s2" "\<And>h. (\<nexists>p. h = Ready p) \<Longrightarrow> tl s' h = tl ?s2 h"
    by (rule rt_schedule_kinv[OF k2 c2], rule that)
  note m = ktimer_more_eq[OF s'(5)]
  have top: "runs_top s'" by (rule schedule_runs_top[OF kinvD(1)[OF k2] c2 _ _ s'(1), of u]) (use k(3) u in simp_all)
  have ts: "tstat s' w = (if w = t then RT_THREAD_SUSPEND else tstat s w)" for w
    using s'(3) suspend_state_sel(12)[of t s w] by (simp add: tstat_def)
  have tl': "tl s' (sem_list j) = tl s (sem_list j)" for j
    using s'(7)[of "sem_list j"] running_unlinked[OF kinvD(1)[OF k(1)] t tr] by (simp add: ls_remove_def unlinked_def removeAll_id)
  have sv: "sems s' = sems s" using m(5) kernel_more_eq(1)[of s' s] by simp
  have ob: "objs s' (IpcObj i) = objs s (IpcObj i)" for i using s'(4) ipc_objs by simp
  have "sem_ok j s'" for j using k(4)[of j] sem_ok_cong[of s' j s] ob tl' sv by simp
  then have ok': "sys_ok s'" using s'(2) m(1) top by (simp add: sys_ok_def)
  have "cur s' \<noteq> Some t" using top ts by (auto simp: runs_top_def)
  then have "rt_thread_sleep n s = Some (s', Blocks)"
    using t tok sus(1) arm_calls[OF ty1, of n] n s'(1)
    by (auto simp: rt_thread_sleep_def rt_thread_self_def thread_obj_ok_def split_def Option.bind_eq_Some_conv)
  then show thesis by (rule that[OF _ ok' _ sv ts _ tl']) (use s'(3,6) in \<open>auto simp: set_stat_def\<close>)
qed

lemma yield_returns:
  fixes s :: "'a kernel_scheme"
  assumes ok: "sys_ok s"
  obtains s' where "rt_thread_yield s = Some (s', RT_EOK)" "sys_ok s'" "irq_nest s' = irq_nest s" "sems s' = sems s" "thr s' = thr s"
    "\<And>m. tl s' (sem_list m) = tl s (sem_list m)"
proof -
  note k = sys_okD[OF ok]
  obtain c where c: "cur s = Some c" "tstat s c = RT_THREAD_READY" using k(2) by (rule runs_topD)
  obtain s' where s': "rt_schedule s = Some s'" "kinv {} (tick s) s'" "thr s' = thr s" "objs s' = objs s"
    "kbase.more s' = kbase.more s" "irq_nest s' = irq_nest s" "\<And>h. (\<nexists>p. h = Ready p) \<Longrightarrow> tl s' h = tl s h"
    by (rule rt_schedule_kinv[OF k(1) c(1)], rule that)
  note m = ktimer_more_eq[OF s'(5)]
  have top: "runs_top s'" by (rule schedule_runs_top[OF kinvD(1)[OF k(1)] c(1) k(3) c(2) s'(1)])
  have sv: "sems s' = sems s" using kernel_more_eq(1)[OF m(5)] .
  have "sem_ok j s'" for j using k(4)[of j] sem_ok_cong[of s' j s] s'(4,7) sv by simp
  then have ok': "sys_ok s'" using s'(2) m(1) top by (simp add: sys_ok_def)
  show thesis by (rule that[OF _ ok' s'(6) sv s'(3)]) (use s'(1,7) in \<open>simp_all add: rt_thread_yield_def\<close>)
qed

lemma error_sys_ok:
  assumes "sys_ok s"
  shows "sys_ok (upd_thr t (\<lambda>th. th\<lparr>error := e\<rparr>) s)"
proof -
  let ?s = "upd_thr t (\<lambda>th. th\<lparr>error := e\<rparr>) s"
  note k = sys_okD[OF assms]
  have "runs_top ?s" using k(2) by (simp add: runs_top_def)
  moreover have "sem_ok j ?s" for j using k(4)[of j] sem_ok_cong[of ?s j s] by simp
  ultimately show ?thesis using clear_error_kinv[OF k(1)] by (simp add: sys_ok_def)
qed

section \<open>The tick\<close>

text \<open>What the timer check keeps, seen from the state \<open>s0\<close> it started in: threads are only made ready.\<close>

definition tick_rel :: "'a kernel_scheme \<Rightarrow> 'a kernel_scheme \<Rightarrow> bool" where
  "tick_rel s0 s \<longleftrightarrow> tick_inv s \<and> runs_top s \<and> irq_nest s = irq_nest s0 \<and> ktimer.more s = ktimer.more s0 \<and>
     (\<forall>i. objs s (IpcObj i) = objs s0 (IpcObj i)) \<and>
     (\<forall>n. tl s (sem_list n) = filter (\<lambda>t. tstat s t \<noteq> RT_THREAD_READY) (tl s0 (sem_list n)))"

lemma tick_rel_cong:
  assumes "tick_rel s0 s" "tick_inv s'" "thr s' = thr s" "tl s' = tl s" "cur s' = cur s" "lock_nest s' = lock_nest s"
    "irq_nest s' = irq_nest s" "ktimer.more s' = ktimer.more s" "\<And>i. objs s' (IpcObj i) = objs s (IpcObj i)"
  shows "tick_rel s0 s'"
  using assms runs_top_cong[of s' s] by (simp add: tick_rel_def tstat_def)

lemma timeout_tick_rel:
  assumes rel: "tick_rel s0 s" and inv: "tick_inv s'" and t: "tstat s t = RT_THREAD_SUSPEND"
    and ty: "rt_object_get_type (ThreadObj t) s = RT_Object_Class_Thread" and run: "rt_thread_timeout t (timer_remove u s) = Some s'"
  shows "tick_rel s0 s'"
proof -
  let ?s1 = "timeout_state t (timer_remove u s)"
  have i0: "tick_inv s" "runs_top s" using rel by (simp_all add: tick_rel_def)
  have t1: "tstat (timer_remove u s) t = RT_THREAD_SUSPEND" "rt_object_get_type (ThreadObj t) (timer_remove u s) = RT_Object_Class_Thread"
    using t ty by (simp_all add: rt_object_get_type_def)
  have "sched_inv {} (timer_remove u s)" using i0 sched_inv_cong[of "timer_remove u s" s] by (simp add: tick_inv_def)
  then have inv1: "sched_inv {} ?s1" using sched_inv_timeout_state t1(1) by blast
  obtain c where c: "cur s = Some c" "tstat s c = RT_THREAD_READY" "lock_nest s = 0" using i0(2) by (rule runs_topD)
  have c1: "cur ?s1 = Some c" using c by simp
  have r: "rt_schedule ?s1 = Some s'" using run rt_thread_timeout_eq[OF t1] by simp
  obtain s2 where s2: "rt_schedule ?s1 = Some s2" "thr s2 = thr ?s1" "irq_nest s2 = irq_nest ?s1" "objs s2 = objs ?s1"
    "kbase.more s2 = kbase.more ?s1" "\<And>h. (\<nexists>p. h = Ready p) \<Longrightarrow> tl s2 h = tl ?s1 h"
    by (rule rt_schedule_total[OF inv1 c1], rule that)
  have e: "s2 = s'" using r s2(1) by simp
  note s' = s2(2-6)[unfolded e]
  have ts: "tstat s' v = (if v = t then RT_THREAD_READY else tstat s v)" for v
    using s'(1) timeout_state_sel(7)[of t "timer_remove u s" v] by (simp add: tstat_def)
  have "runs_top s'" by (rule schedule_runs_top[OF inv1 c1 _ _ r, of t]) (use c in simp_all)
  moreover have "tl s' (sem_list n) = filter (\<lambda>v. tstat s' v \<noteq> RT_THREAD_READY) (tl s0 (sem_list n))" for n
  proof -
    have "tl s' (sem_list n) = removeAll t (tl s (sem_list n))"
      using s'(5)[of "sem_list n"] by (simp add: timeout_state_def ls_remove_def ls_insert_before_def)
    also have "\<dots> = removeAll t (filter (\<lambda>v. tstat s v \<noteq> RT_THREAD_READY) (tl s0 (sem_list n)))" using rel by (simp add: tick_rel_def)
    also have "\<dots> = filter (\<lambda>v. tstat s' v \<noteq> RT_THREAD_READY) (tl s0 (sem_list n))"
      unfolding removeAll_filter_not_eq filter_filter by (rule filter_cong) (auto simp: ts)
    finally show ?thesis .
  qed
  moreover have "irq_nest s' = irq_nest s" using s'(2) by (simp add: timeout_state_def)
  moreover have "ktimer.more s' = ktimer.more s"
    using ktimer_more_eq(5)[OF s'(4)] ktimer_more_eq(5)[of ?s1 "timer_remove u s"] by simp
  ultimately show ?thesis using rel inv s'(3) by (simp add: tick_rel_def)
qed

interpretation st: timer_client "kernel_call (\<lambda>_ x. x)" "tick_rel s0" for s0 :: "'a kernel_scheme"
proof (unfold_locales, goal_cases)
  case (1 s t ts)
  have i: "tick_inv s" using 1(1) by (simp add: tick_rel_def)
  obtain s' where s': "kernel_call (\<lambda>_ x. x) (timeout_func (timers s t)) (timer_remove t s) = Some s'" "tick_inv s'"
    "tick s' = tick s" "timers s' = timers s" "timer_list s' = removeAll t (timer_list s)" "objs s' = objs s"
    using kc.fire[OF i 1(2,3), of "\<lambda>_ x. x"] by blast
  have "tick_rel s0 s'"
  proof (cases "timeout_func (timers s t)")
    case (ThreadTimeout u)
    have "t = ThreadTimer u" "tstat s u = RT_THREAD_SUSPEND" using i 1(2) ThreadTimeout by (auto simp: tick_inv_def threads_ok_def)
    moreover from this have "rt_object_get_type (ThreadObj u) s = RT_Object_Class_Thread"
      using i by (simp add: tick_inv_def threads_ok_def live_def thread_obj_ok_def)
    ultimately show ?thesis using timeout_tick_rel[OF 1(1) s'(2)] s'(1) ThreadTimeout by (simp add: kernel_call_def)
  next
    case (UserFn n)
    then have "s' = ktimer.more_update (\<lambda>x. x) (timer_remove t s)" using s'(1) by (simp add: kernel_call_def)
    then show ?thesis by (intro tick_rel_cong[OF 1(1) s'(2)]) simp_all
  qed
  then show ?case using s' by blast
next
  case (2 s t)
  have "tick_inv (started t s)" using 2 kc.rearm by (auto simp: tick_rel_def)
  then show ?case by (rule tick_rel_cong[OF 2(1)]) (simp_all add: started_objs)
next
  case (3 s t)
  have "tick_inv (deactivate t s)" using 3 kc.clear by (auto simp: tick_rel_def)
  then show ?case by (rule tick_rel_cong[OF 3(1)]) (simp_all add: deactivate_def upd_flag_def)
qed

lemma tick_returns:
  fixes s :: "'a kernel_scheme"
  assumes ok: "sys_ok s"
  obtains s' W where "rt_tick_increase (kernel_call (\<lambda>_ x. x)) s = Some s'" "sys_ok s'" "irq_nest s' = irq_nest s" "sems s' = sems s"
    "\<And>t. t \<in> W \<Longrightarrow> tstat s t = RT_THREAD_SUSPEND"
    "\<And>t. tstat s' t = (if t \<in> W then RT_THREAD_READY else tstat s t)"
    "\<And>t. error (thr s' t) = (if t \<in> W then - RT_ETIMEOUT else error (thr s t))"
    "\<And>n. tl s' (sem_list n) = filter (\<lambda>t. tstat s' t \<noteq> RT_THREAD_READY) (tl s (sem_list n))"
proof -
  note k = sys_okD[OF ok]
  obtain c where c: "cur s = Some c" "tstat s c = RT_THREAD_READY" "lock_nest s = 0" using k(2) by (rule runs_topD)
  define s1 where "s1 = s\<lparr>tick := tick s + 1\<rparr>"
  have k1: "kinv {} (tick s) s1" using kinv_tick[OF k(1)] by (simp add: kinv_def s1_def)
  have c1: "cur s1 = Some c" "tstat s1 c = RT_THREAD_READY" "lock_nest s1 = 0" using c by (simp_all add: s1_def tstat_def)
  let ?s2 = "upd_thr c (\<lambda>th. th\<lparr>remaining_tick := remaining_tick th - 1\<rparr>) s1"
  let ?s3 = "upd_thr c (\<lambda>th. th\<lparr>remaining_tick := thread_init_tick th\<rparr>) ?s2"
  have k2: "kinv {} (tick s) ?s2" by (rule kinv_upd_same[OF k1]) (simp_all add: attr_ok_def)
  have k3: "kinv {} (tick s) ?s3" by (rule kinv_upd_same[OF k2]) (simp_all add: attr_ok_def)
  have t0: "runs_top s1" using k(2) runs_top_cong[of s1 s] by (simp add: s1_def)
  have tops: "runs_top ?s2" using t0 runs_top_same[of ?s2 s1] by (simp add: tstat_def prio_of_def)
  have susp: "filter (\<lambda>t. tstat s1 t \<noteq> RT_THREAD_READY) (tl s1 (sem_list n)) = tl s1 (sem_list n)" for n
    using waiting_member[OF k1, of "sem_list n"] by (simp add: filter_id_conv)
  obtain s3' where s3': "rt_schedule ?s3 = Some s3'" "kinv {} (tick s) s3'" "thr s3' = thr ?s3" "objs s3' = objs ?s3"
    "kbase.more s3' = kbase.more ?s3" "irq_nest s3' = irq_nest ?s3" "\<And>h. (\<nexists>p. h = Ready p) \<Longrightarrow> tl s3' h = tl ?s3 h"
    by (rule rt_schedule_kinv[OF k3, of c]) (use c1 in auto)
  have top3: "runs_top s3'" by (rule schedule_runs_top[OF kinvD(1)[OF k3] _ _ _ s3'(1), of c c]) (use c1 in \<open>simp_all add: tstat_def\<close>)
  define s4 where "s4 = (if remaining_tick (thr ?s2 c) = 0 then s3' else ?s2)"
  have k4: "kinv {} (tick s) s4" "runs_top s4" using k2 tops s3'(2) top3 by (simp_all add: s4_def)
  have s4: "ktimer.more s4 = ktimer.more s1" "irq_nest s4 = irq_nest s1" "objs s4 = objs s1" "tl s4 (sem_list n) = tl s1 (sem_list n)"
    "tstat s4 t = tstat s1 t" for n t
    using s3'(3,4,6,7) ktimer_more_eq(5)[OF s3'(5)] by (auto simp: s4_def tstat_def)
  have "cur s4 \<noteq> None" using k4(2) by (auto simp: runs_top_def)
  then have "tick_inv s4" using k4(1) by (simp add: tick_inv_def kinv_def thread_inv_def)
  then have rel: "tick_rel s1 s4" using k4(2) s4 susp by (simp add: tick_rel_def)
  obtain s' where s': "timer_check_loop (kernel_call (\<lambda>_ x. x)) (tick s4) s4 = Some s'" "tick_rel s1 s'"
    using st.loop_checked[OF rel kinvD(2)[OF k4(1)] kinvD(4)[OF k4(1)]] by blast
  have run: "rt_tick_increase (kernel_call (\<lambda>_ x. x)) s = Some s'"
    using s'(1) s3'(1) c1(1) unfolding rt_tick_increase_def rt_thread_self_def rt_timer_check_def rt_tick_get_def
    by (simp add: Let_def s1_def[symmetric] s4_def rt_thread_yield_def split: if_splits)
  define W where "W = {t. ThreadTimer t \<in> set (timer_list s) \<and> expired s1 (ThreadTimer t)}"
  have "cur s \<noteq> None" using c by simp
  then obtain s5 where s5: "rt_tick_increase (kernel_call (\<lambda>_ x. x)) s = Some s5" "kinv {} (tick s5) s5"
    "\<And>t. (tstat s5 t, error (thr s5 t)) = (if t \<in> W then (RT_THREAD_READY, - RT_ETIMEOUT) else (tstat s t, error (thr s t)))"
    unfolding W_def s1_def by (rule rt_tick_increase_ok[OF k(1), of "\<lambda>_ x. x"]) simp
  have e: "s5 = s'" using run s5(1) by simp
  have ts: "tstat s' t = (if t \<in> W then RT_THREAD_READY else tstat s t)"
    "error (thr s' t) = (if t \<in> W then - RT_ETIMEOUT else error (thr s t))" for t
    using s5(3)[of t] unfolding e by (simp_all split: if_splits)
  have tl': "tl s' (sem_list n) = filter (\<lambda>t. tstat s' t \<noteq> RT_THREAD_READY) (tl s (sem_list n))" for n
    using s'(2) by (simp add: tick_rel_def s1_def)
  have sv: "sems s' = sems s" using s'(2) kernel_more_eq(1)[of s' s] by (simp add: tick_rel_def s1_def)
  have "sem_ok n s'" for n
    using k(4)[of n] s'(2) sv tl'[of n] by (auto simp: sem_ok_def rt_object_get_type_def tick_rel_def s1_def)
  then have "sys_ok s'" using s5(2)[unfolded e] s'(2) by (simp add: sys_ok_def tick_rel_def)
  moreover have "irq_nest s' = irq_nest s" using s'(2) by (simp add: tick_rel_def s1_def)
  ultimately show thesis by (rule that[OF run _ _ sv _ ts tl']) (use kinvD(6)[OF k(1)] in \<open>auto simp: W_def\<close>)
qed

section \<open>The steps\<close>

text \<open>
  A thread may be inside a call that blocked. \<open>taken\<close> counts, for each semaphore, the calls of
  \<^verbatim>\<open>rt_sem_take\<close> that returned \<^verbatim>\<open>RT_EOK\<close>, and \<open>given\<close> the calls of \<^verbatim>\<open>rt_sem_release\<close>.
\<close>

datatype pending = InTake nat | InSleep

record sys =
  kern :: kernel
  pend :: "tid \<Rightarrow> pending option"
  taken :: "nat \<Rightarrow> nat"
  given :: "nat \<Rightarrow> nat"

definition bump :: "nat \<Rightarrow> (nat \<Rightarrow> nat) \<Rightarrow> nat \<Rightarrow> nat" where
  "bump n f = f(n := Suc (f n))"

text \<open>The running thread, if it is not the idle thread and not inside a call.\<close>

definition caller :: "tid \<Rightarrow> sys \<Rightarrow> tid \<Rightarrow> bool" where
  "caller idle c t \<longleftrightarrow> cur (kern c) = Some t \<and> t \<noteq> idle \<and> pend c t = None"

inductive sys_step :: "tid \<Rightarrow> sys \<Rightarrow> sys \<Rightarrow> bool" for idle where
  take_returns: "caller idle c t \<Longrightarrow> time = 0 \<or> time_ok time \<Longrightarrow> rt_sem_take n time (kern c) = Some (s', Returns r) \<Longrightarrow>
    sys_step idle c (c\<lparr>kern := s', taken := (if r = RT_EOK then bump n (taken c) else taken c)\<rparr>)"
| take_waits: "caller idle c t \<Longrightarrow> time = 0 \<or> time_ok time \<Longrightarrow> rt_sem_take n time (kern c) = Some (s', Blocks) \<Longrightarrow>
    sys_step idle c (c\<lparr>kern := s', pend := (pend c)(t := Some (InTake n))\<rparr>)"
| take_ends: "cur (kern c) = Some t \<Longrightarrow> pend c t = Some (InTake n) \<Longrightarrow>
    sys_step idle c (c\<lparr>pend := (pend c)(t := None),
      taken := (if rt_sem_take_end t (kern c) = RT_EOK then bump n (taken c) else taken c)\<rparr>)"
| release: "caller idle c t \<Longrightarrow> rt_sem_release n (kern c) = Some (s', r) \<Longrightarrow>
    sys_step idle c (c\<lparr>kern := s', given := bump n (given c)\<rparr>)"
| interrupt_release: "rt_sem_release n (rt_interrupt_enter (kern c)) = Some (s', r) \<Longrightarrow>
    sys_step idle c (c\<lparr>kern := rt_interrupt_leave s', given := bump n (given c)\<rparr>)"
| sleep: "caller idle c t \<Longrightarrow> n < RT_TICK_HALF \<Longrightarrow> rt_thread_sleep n (kern c) = Some (s', Blocks) \<Longrightarrow>
    sys_step idle c (c\<lparr>kern := s', pend := (pend c)(t := Some InSleep)\<rparr>)"
| sleep_ends: "cur (kern c) = Some t \<Longrightarrow> pend c t = Some InSleep \<Longrightarrow>
    sys_step idle c (c\<lparr>kern := fst (rt_thread_sleep_end t (kern c)), pend := (pend c)(t := None)\<rparr>)"
| yield: "caller idle c t \<Longrightarrow> rt_thread_yield (kern c) = Some (s', r) \<Longrightarrow> sys_step idle c (c\<lparr>kern := s'\<rparr>)"
| tick_interrupt: "rt_tick_increase (kernel_call (\<lambda>_ x. x)) (rt_interrupt_enter (kern c)) = Some s' \<Longrightarrow>
    sys_step idle c (c\<lparr>kern := rt_interrupt_leave s'\<rparr>)"

text \<open>The threads that hold a unit of semaphore \<open>n\<close> that their call has not returned yet.\<close>

definition granted :: "nat \<Rightarrow> sys \<Rightarrow> tid set" where
  "granted n c = {t. pend c t = Some (InTake n) \<and> tstat (kern c) t = RT_THREAD_READY \<and> error (thr (kern c) t) = RT_EOK}"

definition sys_inv :: "tid \<Rightarrow> (nat \<Rightarrow> nat) \<Rightarrow> sys \<Rightarrow> bool" where
  "sys_inv idle init c \<longleftrightarrow>
     sys_ok (kern c) \<and> irq_nest (kern c) = 0 \<and> tstat (kern c) idle = RT_THREAD_READY \<and> pend c idle = None \<and> finite (dom (pend c)) \<and>
     (\<forall>n t. t \<in> set (tl (kern c) (sem_list n)) \<longleftrightarrow> pend c t = Some (InTake n) \<and> tstat (kern c) t = RT_THREAD_SUSPEND) \<and>
     (\<forall>n t. pend c t = Some (InTake n) \<and> tstat (kern c) t = RT_THREAD_SUSPEND \<longrightarrow> error (thr (kern c) t) = RT_EOK) \<and>
     (\<forall>n. unat (sem_value (sems (kern c) n)) + card (granted n c) + taken c n = init n + given c n)"

lemma sys_invD:
  assumes "sys_inv idle init c"
  shows "sys_ok (kern c)" "irq_nest (kern c) = 0" "tstat (kern c) idle = RT_THREAD_READY" "pend c idle = None" "finite (dom (pend c))"
    "t \<in> set (tl (kern c) (sem_list n)) \<longleftrightarrow> pend c t = Some (InTake n) \<and> tstat (kern c) t = RT_THREAD_SUSPEND"
    "pend c t = Some (InTake n) \<Longrightarrow> tstat (kern c) t = RT_THREAD_SUSPEND \<Longrightarrow> error (thr (kern c) t) = RT_EOK"
    "unat (sem_value (sems (kern c) n)) + card (granted n c) + taken c n = init n + given c n"
  using assms by (auto simp: sys_inv_def)

lemma finite_granted: "finite (dom (pend c)) \<Longrightarrow> finite (granted n c)"
  by (rule finite_subset[of _ "dom (pend c)"]) (auto simp: granted_def)

lemma running_ready: "sys_ok s \<Longrightarrow> cur s = Some t \<Longrightarrow> tstat s t = RT_THREAD_READY"
  by (auto simp: sys_ok_def runs_top_def)

text \<open>Steps that leave the states of the threads, the waiting lists and the semaphores alone.\<close>

lemma sys_inv_same:
  assumes inv: "sys_inv idle init c" and ok: "sys_ok s'" "irq_nest s' = 0" and same: "\<And>t. tstat s' t = tstat (kern c) t"
    "\<And>t. error (thr s' t) = error (thr (kern c) t)" "\<And>n. set (tl s' (sem_list n)) = set (tl (kern c) (sem_list n))" "sems s' = sems (kern c)"
  shows "sys_inv idle init (c\<lparr>kern := s'\<rparr>)"
proof -
  have "granted n (c\<lparr>kern := s'\<rparr>) = granted n c" for n using same by (simp add: granted_def)
  then show ?thesis using inv ok same by (simp add: sys_inv_def)
qed

lemma take_returns_inv:
  assumes inv: "sys_inv idle init c" and t: "caller idle c t" and tm: "time = 0 \<or> time_ok time"
    and run: "rt_sem_take n time (kern c) = Some (s', Returns r)"
  shows "sys_inv idle init (c\<lparr>kern := s', taken := (if r = RT_EOK then bump n (taken c) else taken c)\<rparr>)"
proof (cases "sem_value (sems (kern c) n) = 0")
  case True
  have "time = 0"
  proof (rule ccontr)
    assume "time \<noteq> 0"
    then have tk: "time_ok time" using tm by simp
    have c: "cur (kern c) = Some t" "idle \<noteq> t" using t by (auto simp: caller_def)
    show False
      by (rule take_blocks[OF sys_invD(1,2)[OF inv] c(1) True tk c(2) sys_invD(3)[OF inv]]) (use run in simp)
  qed
  then have "s' = kern c" "r = - RT_ETIMEOUT"
    using True run sys_okD(4)[OF sys_invD(1)[OF inv], of n] by (simp_all add: rt_sem_take_def sem_ok_def)
  then show ?thesis using inv by simp
next
  case False
  let ?v = "sem_value (sems (kern c) n)"
  have sem: "sem_ok n (kern c)" using sys_okD(4)[OF sys_invD(1)[OF inv]] .
  then have r: "s' = set_sem n (?v - 1) (kern c)" "r = RT_EOK" and l: "tl (kern c) (sem_list n) = []"
    using False run by (auto simp: rt_sem_take_def sem_ok_def word_gt_0)
  have ok: "sys_ok s'" unfolding r by (rule set_sem_sys_ok[OF sys_invD(1)[OF inv] l])
  have u: "Suc (unat (?v - 1)) = unat ?v" using False by (simp add: unat_minus_one unat_gt_0)
  have g: "granted m (c\<lparr>kern := s', taken := x\<rparr>) = granted m c" for m x using r(1) by (simp add: granted_def tstat_def)
  have "unat (sem_value (sems s' m)) + card (granted m c) + bump n (taken c) m = init m + given c m" for m
    using sys_invD(8)[OF inv, of m] u r(1) by (cases "m = n") (simp_all add: bump_def)
  then show ?thesis using inv ok r g by (simp add: sys_inv_def tstat_def)
qed

lemma take_waits_inv:
  assumes inv: "sys_inv idle init c" and t: "caller idle c t" and tm: "time = 0 \<or> time_ok time"
    and run: "rt_sem_take n time (kern c) = Some (s', Blocks)"
  shows "sys_inv idle init (c\<lparr>kern := s', pend := (pend c)(t := Some (InTake n))\<rparr>)"
proof -
  have c: "cur (kern c) = Some t" "idle \<noteq> t" "pend c t = None" using t by (auto simp: caller_def)
  have v: "sem_value (sems (kern c) n) = 0" "time \<noteq> 0"
    using run sys_okD(4)[OF sys_invD(1)[OF inv], of n] by (auto simp: rt_sem_take_def sem_ok_def word_gt_0 split: if_splits)
  then have tk: "time_ok time" using tm by simp
  obtain s2 where s2: "rt_sem_take n time (kern c) = Some (s2, Blocks)" "sys_ok s2" "irq_nest s2 = 0" "sems s2 = sems (kern c)"
    "\<And>w. tstat s2 w = (if w = t then RT_THREAD_SUSPEND else tstat (kern c) w)"
    "\<And>w. error (thr s2 w) = (if w = t then RT_EOK else error (thr (kern c) w))"
    "\<And>m. set (tl s2 (sem_list m)) = (if m = n then insert t (set (tl (kern c) (sem_list n))) else set (tl (kern c) (sem_list m)))"
    by (rule take_blocks[OF sys_invD(1,2)[OF inv] c(1) v(1) tk c(2) sys_invD(3)[OF inv]], rule that)
  have e: "s' = s2" using run s2(1) by simp
  have "granted m (c\<lparr>kern := s2, pend := (pend c)(t := Some (InTake n))\<rparr>) = granted m c" for m
    using s2(5,6) c(3) by (auto simp: granted_def)
  moreover have "tstat (kern c) t = RT_THREAD_READY" by (rule running_ready[OF sys_invD(1)[OF inv] c(1)])
  ultimately show ?thesis
    using inv s2(2-7) c(2,3) unfolding e sys_inv_def by auto
qed

lemma take_ends_inv:
  assumes inv: "sys_inv idle init c" and t: "cur (kern c) = Some t" "pend c t = Some (InTake n)"
  shows "sys_inv idle init (c\<lparr>pend := (pend c)(t := None),
    taken := (if rt_sem_take_end t (kern c) = RT_EOK then bump n (taken c) else taken c)\<rparr>)"
proof -
  let ?c = "c\<lparr>pend := (pend c)(t := None), taken := (if rt_sem_take_end t (kern c) = RT_EOK then bump n (taken c) else taken c)\<rparr>"
  have tr: "tstat (kern c) t = RT_THREAD_READY" by (rule running_ready[OF sys_invD(1)[OF inv] t(1)])
  have g: "granted m ?c = granted m c - {t}" for m by (auto simp: granted_def)
  have "card (granted m c) + taken c m = card (granted m c - {t}) + taken ?c m" for m
  proof (cases "m = n \<and> error (thr (kern c) t) = RT_EOK")
    case True
    then have "t \<in> granted m c" using t tr by (simp add: granted_def)
    then have "card (granted m c) = Suc (card (granted m c - {t}))"
      using card_Suc_Diff1[OF finite_granted[OF sys_invD(5)[OF inv]]] by simp
    then show ?thesis using True by (simp add: rt_sem_take_end_def bump_def)
  next
    case False
    then have "t \<notin> granted m c" using t by (auto simp: granted_def)
    then show ?thesis using False by (auto simp: rt_sem_take_end_def bump_def)
  qed
  then have "unat (sem_value (sems (kern c) m)) + card (granted m ?c) + taken ?c m = init m + given c m" for m
    using sys_invD(8)[OF inv, of m] unfolding g by (metis add.assoc)
  then show ?thesis using inv tr unfolding sys_inv_def by (auto simp del: fun_upd_apply simp: fun_upd_apply[of _ t None])
qed

lemma release_inv:
  assumes inv: "sys_inv idle init c" and b: "init n + given c n < 65535" and k: "sys_ok s" "s = (kern c)\<lparr>irq_nest := i\<rparr>"
    and run: "rt_sem_release n s = Some (s', r)"
  shows "sys_inv idle init (c\<lparr>kern := s'\<lparr>irq_nest := 0\<rparr>, given := bump n (given c)\<rparr>) \<and> irq_nest s' = i"
proof (cases "tl s (sem_list n)")
  case Nil
  let ?v = "sem_value (sems (kern c) n)"
  have s': "s' = set_sem n (?v + 1) s" using run Nil k sys_okD(4)[OF k(1), of n] by (simp add: rt_sem_release_def sem_ok_def)
  have ok: "sys_ok s'" unfolding s' by (rule set_sem_sys_ok[OF k(1) Nil])
  have "unat ?v < 65535" using sys_invD(8)[OF inv, of n] b by simp
  then have u: "unat (?v + 1) = Suc (unat ?v)" using unat_word_ariths(1)[of ?v 1] by simp
  have g: "granted m (c\<lparr>kern := s'\<lparr>irq_nest := 0\<rparr>, given := x\<rparr>) = granted m c" for m x
    using s' k(2) by (simp add: granted_def tstat_def)
  have "unat (sem_value (sems s' m)) + card (granted m c) + taken c m = init m + bump n (given c) m" for m
    using sys_invD(8)[OF inv, of m] u s' k(2) by (cases "m = n") (simp_all add: bump_def)
  then show ?thesis using inv ok s' k(2) g by (simp add: sys_inv_def tstat_def)
next
  case (Cons w ws)
  obtain s2 where s2: "rt_sem_release n s = Some (s2, RT_EOK)" "sys_ok s2" "irq_nest s2 = irq_nest s" "sems s2 = sems s"
    "\<And>u. tstat s2 u = (if u = w then RT_THREAD_READY else tstat s u)" "\<And>u. error (thr s2 u) = error (thr s u)"
    "\<And>m. tl s2 (sem_list m) = (if m = n then ws else tl s (sem_list m))" "w \<notin> set ws"
    by (rule release_wakes[OF k(1) Cons], rule that)
  have e: "s' = s2" using run s2(1) by simp
  have w: "pend c w = Some (InTake n)" "tstat (kern c) w = RT_THREAD_SUSPEND" "error (thr (kern c) w) = RT_EOK"
    using sys_invD(6)[OF inv, of w n] sys_invD(7)[OF inv, of w n] Cons k(2) by auto
  let ?c = "c\<lparr>kern := s2\<lparr>irq_nest := 0\<rparr>, given := bump n (given c)\<rparr>"
  have ks: "tstat s u = tstat (kern c) u" "thr s = thr (kern c)" "tl s = tl (kern c)" "sems s = sems (kern c)" for u
    using k(2) by (simp_all add: tstat_def)
  have st: "tstat (s2\<lparr>irq_nest := 0\<rparr>) u = tstat s2 u" for u by (simp add: tstat_def)
  have g: "granted m ?c = (if m = n then insert w (granted n c) else granted m c)" for m
    using s2(5,6) w ks st by (auto simp: granted_def split: if_splits)
  have "w \<notin> granted n c" using w by (simp add: granted_def)
  then have cd: "card (insert w (granted n c)) = Suc (card (granted n c))"
    using finite_granted[OF sys_invD(5)[OF inv]] by simp
  have "unat (sem_value (sems s2 m)) + card (granted m ?c) + taken c m = init m + bump n (given c) m" for m
    using sys_invD(8)[OF inv, of m] s2(4) ks cd unfolding g by (auto simp: bump_def)
  moreover have "u \<in> set (tl s2 (sem_list m)) \<longleftrightarrow> pend c u = Some (InTake m) \<and> tstat s2 u = RT_THREAD_SUSPEND" for m u
    using sys_invD(6)[OF inv, of u m] s2(5,7,8) ks Cons w by (auto split: if_splits)
  moreover have "tstat s2 idle = RT_THREAD_READY" using sys_invD(3)[OF inv] s2(5) ks by simp
  ultimately show ?thesis
    using inv s2(2,3,5,6) ks st k(2) unfolding e sys_inv_def by (auto split: if_splits)
qed

lemma sleep_inv:
  assumes inv: "sys_inv idle init c" and t: "caller idle c t" and n: "n < RT_TICK_HALF"
    and run: "rt_thread_sleep n (kern c) = Some (s', Blocks)"
  shows "sys_inv idle init (c\<lparr>kern := s', pend := (pend c)(t := Some InSleep)\<rparr>)"
proof -
  have c: "cur (kern c) = Some t" "idle \<noteq> t" "pend c t = None" using t by (auto simp: caller_def)
  obtain s2 where s2: "rt_thread_sleep n (kern c) = Some (s2, Blocks)" "sys_ok s2" "irq_nest s2 = irq_nest (kern c)"
    "sems s2 = sems (kern c)" "\<And>w. tstat s2 w = (if w = t then RT_THREAD_SUSPEND else tstat (kern c) w)"
    "\<And>w. error (thr s2 w) = error (thr (kern c) w)" "\<And>m. tl s2 (sem_list m) = tl (kern c) (sem_list m)"
    by (rule sleep_blocks[OF sys_invD(1)[OF inv] c(1) n c(2) sys_invD(3)[OF inv]], rule that)
  have e: "s' = s2" using run s2(1) by simp
  have "granted m (c\<lparr>kern := s2, pend := (pend c)(t := Some InSleep)\<rparr>) = granted m c" for m
    using s2(5,6) c(3) by (auto simp: granted_def split: if_splits)
  then show ?thesis using inv s2(2-7) c(2,3) unfolding e sys_inv_def by (auto split: if_splits)
qed

lemma sleep_ends_inv:
  assumes inv: "sys_inv idle init c" and t: "cur (kern c) = Some t" "pend c t = Some InSleep"
  shows "sys_inv idle init (c\<lparr>kern := fst (rt_thread_sleep_end t (kern c)), pend := (pend c)(t := None)\<rparr>)"
proof -
  let ?s = "fst (rt_thread_sleep_end t (kern c))"
  have s: "sys_ok ?s" "irq_nest ?s = 0" "sems ?s = sems (kern c)" "tl ?s = tl (kern c)" "tstat ?s u = tstat (kern c) u"
    "u \<noteq> t \<Longrightarrow> error (thr ?s u) = error (thr (kern c) u)" for u
    using sys_invD(1,2)[OF inv] error_sys_ok[of "kern c" t RT_EOK] by (auto simp: rt_thread_sleep_end_def)
  have "granted m (c\<lparr>kern := ?s, pend := (pend c)(t := None)\<rparr>) = granted m c" for m
    using s(5,6) t(2) by (auto simp: granted_def split: if_splits)
  then show ?thesis using inv s t(2) unfolding sys_inv_def by (auto split: if_splits)
qed

lemma tick_step_inv:
  assumes inv: "sys_inv idle init c"
    and run: "rt_tick_increase (kernel_call (\<lambda>_ x. x)) (rt_interrupt_enter (kern c)) = Some s'"
  shows "sys_inv idle init (c\<lparr>kern := rt_interrupt_leave s'\<rparr>)"
proof -
  let ?s = "rt_interrupt_enter (kern c)"
  have ks: "tstat ?s u = tstat (kern c) u" "thr ?s = thr (kern c)" "tl ?s = tl (kern c)" "sems ?s = sems (kern c)"
    "sys_ok ?s" "irq_nest ?s = 1" for u
    using sys_invD(1,2)[OF inv] by (simp_all add: rt_interrupt_enter_def tstat_def)
  obtain s2 W where s2: "rt_tick_increase (kernel_call (\<lambda>_ x. x)) ?s = Some s2" "sys_ok s2" "irq_nest s2 = irq_nest ?s" "sems s2 = sems ?s"
    "\<And>t. t \<in> W \<Longrightarrow> tstat ?s t = RT_THREAD_SUSPEND" "\<And>t. tstat s2 t = (if t \<in> W then RT_THREAD_READY else tstat ?s t)"
    "\<And>t. error (thr s2 t) = (if t \<in> W then - RT_ETIMEOUT else error (thr ?s t))"
    "\<And>n. tl s2 (sem_list n) = filter (\<lambda>t. tstat s2 t \<noteq> RT_THREAD_READY) (tl ?s (sem_list n))"
    by (rule tick_returns[OF ks(5)], rule that)
  have e: "s' = s2" using run s2(1) by simp
  let ?s2 = "rt_interrupt_leave s2"
  have l: "tstat ?s2 u = tstat s2 u" "thr ?s2 = thr s2" "tl ?s2 = tl s2" "sems ?s2 = sems s2" "sys_ok ?s2" "irq_nest ?s2 = 0" for u
    using s2(2,3) ks(6) by (simp_all add: rt_interrupt_leave_def tstat_def)
  have g: "granted m (c\<lparr>kern := ?s2\<rparr>) = granted m c" for m
    using s2(5-7) ks l by (auto simp: granted_def split: if_splits)
  have "u \<in> set (tl ?s2 (sem_list m)) \<longleftrightarrow> pend c u = Some (InTake m) \<and> tstat ?s2 u = RT_THREAD_SUSPEND" for u m
    using sys_invD(6)[OF inv, of u m] s2(6,8) ks l by (auto split: if_splits)
  moreover have "tstat ?s2 idle = RT_THREAD_READY" using sys_invD(3)[OF inv] s2(6) ks l by simp
  moreover have "error (thr ?s2 u) = RT_EOK" if "pend c u = Some (InTake m)" "tstat ?s2 u = RT_THREAD_SUSPEND" for u m
    using sys_invD(7)[OF inv that(1)] that(2) s2(6,7)[of u] ks l by (auto split: if_splits)
  ultimately show ?thesis
    using inv l(4-6) s2(4) ks(4) g unfolding e sys_inv_def by auto
qed

lemma given_mono: "sys_step idle c c' \<Longrightarrow> given c n \<le> given c' n"
  by (auto simp: bump_def elim!: sys_step.cases)

text \<open>All steps keep the invariant as long as no semaphore is released too often for its 16 bit value.\<close>

lemma sys_step_inv:
  assumes "sys_step idle c c'" and inv: "sys_inv idle init c" and b: "\<And>n. init n + given c' n \<le> 65535"
  shows "sys_inv idle init c'"
  using assms(1,3)
proof cases
  case (release t n s' r)
  have k: "sys_ok (kern c)" "irq_nest (kern c) = 0" "kern c = (kern c)\<lparr>irq_nest := 0\<rparr>" using sys_invD(1,2)[OF inv] by simp_all
  have "init n + given c n < 65535" using b[of n] release(1) by (simp add: bump_def)
  note r = release_inv[OF inv this k(1,3) release(3)]
  moreover have "s'\<lparr>irq_nest := 0\<rparr> = s'" using r by simp
  ultimately show ?thesis using release(1) by simp
next
  case (interrupt_release n s' r)
  have k: "sys_ok (rt_interrupt_enter (kern c))" "rt_interrupt_enter (kern c) = (kern c)\<lparr>irq_nest := 1\<rparr>"
    using sys_invD(1,2)[OF inv] by (simp_all add: rt_interrupt_enter_def)
  have "init n + given c n < 65535" using b[of n] interrupt_release(1) by (simp add: bump_def)
  then show ?thesis
    using release_inv[OF inv _ k interrupt_release(2)] interrupt_release(1) by (simp add: rt_interrupt_leave_def)
next
  case (yield t s' r)
  obtain s2 where s2: "rt_thread_yield (kern c) = Some (s2, RT_EOK)" "sys_ok s2" "irq_nest s2 = irq_nest (kern c)"
    "sems s2 = sems (kern c)" "thr s2 = thr (kern c)" "\<And>m. tl s2 (sem_list m) = tl (kern c) (sem_list m)"
    by (rule yield_returns[OF sys_invD(1)[OF inv]], rule that)
  then show ?thesis
    using yield sys_invD(2)[OF inv] by (auto intro!: sys_inv_same[OF inv] simp: tstat_def)
next
  case (take_returns t time n s' r)
  show ?thesis unfolding take_returns(1) by (rule take_returns_inv[OF inv take_returns(2-4)])
next
  case (take_waits t time n s')
  show ?thesis unfolding take_waits(1) by (rule take_waits_inv[OF inv take_waits(2-4)])
next
  case (take_ends t n)
  show ?thesis unfolding take_ends(1) by (rule take_ends_inv[OF inv take_ends(2,3)])
next
  case (sleep t n s')
  show ?thesis unfolding sleep(1) by (rule sleep_inv[OF inv sleep(2-4)])
next
  case (sleep_ends t)
  show ?thesis unfolding sleep_ends(1) by (rule sleep_ends_inv[OF inv sleep_ends(2,3)])
next
  case (tick_interrupt s')
  show ?thesis unfolding tick_interrupt(1) by (rule tick_step_inv[OF inv tick_interrupt(2)])
qed

lemma sys_reach_inv:
  assumes "(sys_step idle)\<^sup>*\<^sup>* c0 c" "sys_inv idle init c0" "\<And>n. init n + given c n \<le> 65535"
  shows "sys_inv idle init c"
  using assms
proof (induction rule: rtranclp_induct)
  case (step c c')
  have "init n + given c n \<le> 65535" for n using given_mono[OF step(2), of n] step.prems(2)[of n] by linarith
  then show ?case using sys_step_inv[OF step(2)] step.IH[OF step.prems(1)] step.prems(2) by blast
qed



section \<open>An example\<close>

text \<open>Thread 4 is the idle thread, thread 3 waits for semaphore 0, and an interrupt releases it.\<close>

definition demo_sys :: sys where
  "demo_sys = \<lparr>kern = demo_ipc, pend = (\<lambda>_. None)(3 := Some (InTake 0)), taken = (\<lambda>_. 0), given = (\<lambda>_. 0)\<rparr>"

lemma demo_sys_inv: "sys_inv 4 (\<lambda>_. 0) demo_sys"
proof -
  have "runs_top demo_ipc" unfolding runs_top_def by auto
  then have "sys_ok demo_ipc" using demo_ipc_inv demo_sem_ok by (simp add: sys_ok_def)
  moreover have "granted n demo_sys = {}" for n by (auto simp: granted_def demo_sys_def split: if_splits)
  ultimately show ?thesis by (auto simp: sys_inv_def demo_sys_def split: if_splits)
qed

lemma demo_sys_step: "\<exists>c. (sys_step 4)\<^sup>*\<^sup>* demo_sys c \<and> given c = bump 0 (\<lambda>_. 0)"
proof -
  have "sys_ok (rt_interrupt_enter demo_ipc)" using sys_invD(1)[OF demo_sys_inv] by (simp add: demo_sys_def rt_interrupt_enter_def)
  then obtain s' where "rt_sem_release 0 (rt_interrupt_enter (kern demo_sys)) = Some (s', RT_EOK)"
    using release_returns by (fastforce simp: demo_sys_def)
  from sys_step.interrupt_release[OF this, of 4] show ?thesis
    by (intro exI conjI, rule r_into_rtranclp) (simp_all add: demo_sys_def)
qed



end
