(* ===== verification/Spec2Isabelle.thy ===== *)
theory Spec2Isabelle
  imports Prelude RtList Kservice KState Scheduler KString KObject Timer Thread Clock Idle Ipc Semaphore Mutex Event Fifo MailBox
    Chain MessageQueue MemPool RingBuffer Bytes Mem Allocator MemCalls HeapAreas Printf Completion DataQueue Device
    WaitQueue WorkQueue System
begin

text \<open>
  A verification of the RT-Thread kernel: the uniprocessor kernel of \<^verbatim>\<open>src/src\<close> and the routines of
  \<^verbatim>\<open>src/components\<close> that its users build on.

  \<^bold>\<open>The program.\<close> Threads of fixed priority run under a preemptive scheduler. A tick interrupt advances the
  clock, ends time slices and fires timers. Threads wait for semaphores, mutexes, events, mailboxes,
  message queues and memory pools, each of which keeps a list of the threads that wait for it; waiting
  with a time limit arms the timer that is built into the thread. A heap serves the objects that are
  created at run time.

  \<^bold>\<open>How it is modelled.\<close> The state is one extensible record: \<^verbatim>\<open>kbase\<close> (threads, lists of threads, ready
  bitmaps, objects), extended to \<^verbatim>\<open>ktimer\<close> by the timers, to \<^verbatim>\<open>kernel\<close> by the IPC objects and to \<^verbatim>\<open>kmem\<close> by
  the bytes of the heap; every operation is polymorphic in the extension, so that each component is
  stated over the part it uses. A C function is a HOL function with the same name. Its result type is
  an \<open>option\<close>: \<open>None\<close> is a failed assertion, an undefined access or a loop that does not end. Error codes are
  integers as in the code. Machine integers are words of the width of the code. Regions with interrupts
  disabled are single steps. A call that gives up the processor returns \<open>Blocks\<close>; what is left of it once
  the thread runs again is the definition with the suffix \<^verbatim>\<open>_end\<close>. Loops are structural recursions over the
  list they walk, or \<open>partial_function (option)\<close>, and then they are shown to return.

  \<^bold>\<open>Configuration.\<close> No \<^verbatim>\<open>RT_USING_SMP\<close>, \<^verbatim>\<open>RT_USING_HOOK\<close>, \<^verbatim>\<open>RT_USING_SIGNALS\<close>, \<^verbatim>\<open>RT_USING_MODULE\<close>,
  \<^verbatim>\<open>RT_USING_TIMER_SOFT\<close>, \<^verbatim>\<open>RT_USING_OVERFLOW_CHECK\<close>; \<^verbatim>\<open>RT_DEBUG\<close> assertions and \<^verbatim>\<open>RT_MEM_STATS\<close> are on; \<^verbatim>\<open>RT_NAME_MAX\<close> is
  8, \<^verbatim>\<open>RT_ALIGN_SIZE\<close> is 4, pointers have 32 bits, and the number of priorities is a field of the state, so
  that both scheduler bitmaps are covered.

  \<^bold>\<open>Theories.\<close>
  \<^item> \<^verbatim>\<open>Prelude\<close>: words, options, calls, shared lemmas.
  \<^item> \<^verbatim>\<open>RtList\<close>: the intrusive lists of \<^verbatim>\<open>include/rtservice.h\<close> on pointers; they implement families of lists, which
    the other theories use.
  \<^item> \<^verbatim>\<open>Kservice\<close>, \<^verbatim>\<open>KString\<close>, \<^verbatim>\<open>Bytes\<close>: bit search, strings and memory routines of \<^verbatim>\<open>src/kservice.c\<close>; the word-wise
    loops equal byte-wise definitions.
  \<^item> \<^verbatim>\<open>Printf\<close> (\<^verbatim>\<open>src/kservice.c\<close>): \<^verbatim>\<open>print_number\<close> and \<^verbatim>\<open>rt_vsnprintf\<close> write the text that a separate, buffer-free
    definition gives to the format.
  \<^item> \<^verbatim>\<open>KState\<close>, \<^verbatim>\<open>KObject\<close>: threads, objects (\<^verbatim>\<open>include/rtdef.h\<close>) and the object container (\<^verbatim>\<open>src/object.c\<close>).
  \<^item> \<^verbatim>\<open>Scheduler\<close> (\<^verbatim>\<open>src/scheduler.c\<close>): the invariant \<open>sched_inv\<close> ties ready lists, bitmaps and thread states
    together; \<^verbatim>\<open>rt_schedule\<close> keeps it and picks a thread of the highest priority.
  \<^item> \<^verbatim>\<open>Timer\<close> (\<^verbatim>\<open>src/timer.c\<close>), \<^verbatim>\<open>Clock\<close> (\<^verbatim>\<open>src/clock.c\<close>, \<^verbatim>\<open>src/irq.c\<close>): the sorted timer list across wrap-around of the
    tick; the tick interrupt returns, fires what is due and wakes sleepers on time. Timeout functions are
    a parameter, with the interface a locale.
  \<^item> \<^verbatim>\<open>Thread\<close> (\<^verbatim>\<open>src/thread.c\<close>), \<^verbatim>\<open>Idle\<close> (\<^verbatim>\<open>src/idle.c\<close>): the kernel invariant \<open>kinv\<close> and every operation on threads,
    up to the reaping of closed threads.
  \<^item> \<^verbatim>\<open>Ipc\<close>, \<^verbatim>\<open>Semaphore\<close>, \<^verbatim>\<open>Mutex\<close>, \<^verbatim>\<open>Event\<close>, \<^verbatim>\<open>MailBox\<close>, \<^verbatim>\<open>MessageQueue\<close> (\<^verbatim>\<open>src/ipc.c\<close>), \<^verbatim>\<open>MemPool\<close> (\<^verbatim>\<open>src/mempool.c\<close>):
    waiting and waking once for all objects, then what each object adds. \<^verbatim>\<open>Fifo\<close> and \<^verbatim>\<open>Chain\<close> hold the
    interfaces of a bounded queue and of linked blocks.
  \<^item> \<^verbatim>\<open>Mem\<close>, \<^verbatim>\<open>MemCalls\<close>, \<^verbatim>\<open>HeapAreas\<close> (\<^verbatim>\<open>src/mem.c\<close>): the small memory manager on the bytes of the heap, its calls,
    and the interface \<^verbatim>\<open>Allocator\<close> that it implements.
  \<^item> \<^verbatim>\<open>RingBuffer\<close> (\<^verbatim>\<open>components/drivers/src/ringbuffer.c\<close>): the ring buffer with mirror bits.
  \<^item> \<^verbatim>\<open>Completion\<close> (\<^verbatim>\<open>components/drivers/src/completion.c\<close>): a flag that one thread waits for.
  \<^item> \<^verbatim>\<open>DataQueue\<close> (\<^verbatim>\<open>components/drivers/src/dataqueue.c\<close>): a ring of items with threads that wait at both ends.
  \<^item> \<^verbatim>\<open>Device\<close> (\<^verbatim>\<open>components/drivers/src/device.c\<close>): opening and closing devices, with the driver as an argument.
  \<^item> \<^verbatim>\<open>WaitQueue\<close> (\<^verbatim>\<open>components/drivers/src/waitqueue.c\<close>, \<^verbatim>\<open>components/dfs/src/poll.c\<close>): wait queues and polling; no wake-up
    is lost between registering and waiting, but a poll is not woken by a wake-up with a non-zero key.
  \<^item> \<^verbatim>\<open>WorkQueue\<close> (\<^verbatim>\<open>components/drivers/src/workqueue.c\<close>): a thread that does the works of a list.
  \<^item> \<^verbatim>\<open>System\<close>: threads, interrupts and semaphores together, as a step relation on whole kernels; what is safe in
    every reachable state, and that the kernel never stops.

  \<^bold>\<open>Bounds.\<close> No fuel is used. A partial function is shown to have a value under the invariant of its component:
  the walk of \<^verbatim>\<open>rt_malloc\<close> by induction on the blocks of the heap, \<^verbatim>\<open>rt_timer_check\<close> by the number of ticks that
  its timers are late.

  \<^bold>\<open>Not modelled.\<close> The contents of stacks and the processor specific code (\<^verbatim>\<open>libcpu\<close>), which is assembly; the SMP
  scheduler and \<^verbatim>\<open>src/cpu.c\<close>, an alternative to the uniprocessor code; \<^verbatim>\<open>src/slab.c\<close>, an alternative to
  \<^verbatim>\<open>src/mem.c\<close>; \<^verbatim>\<open>src/signal.c\<close> and \<^verbatim>\<open>src/module.c\<close>, which rewrite stacks and load code; the file systems, the
  network stacks, the shell, the C library layers and the device drivers of \<^verbatim>\<open>components\<close>, which are
  separate programs on top of the kernel or third-party code.
\<close>

end
